(* ===== verification/RK_Prelude.thy ===== *)
theory RK_Prelude
  imports Complex_Main "HOL-Library.Multiset"
begin

text \<open>
  Shared vocabulary of the development.

  \<^item> Python exceptions are values of \<open>py_error\<close>; a fallible call returns \<open>'a result\<close>,
    with \<open>Inl\<close> for the exception (\<open>Nontermination\<close> is the value of a loop that has used up its fuel). \<open>rbind\<close> sequences two fallible calls, \<open>mmap\<close> is a
    \<^verbatim>\<open>for\<close> loop that appends, \<open>foldM\<close> a \<^verbatim>\<open>for\<close> loop that threads a state.
  \<^item> \<open>py_get\<close> and \<open>py_set\<close> are Python list subscripts (negative indices count from the end,
    anything else out of range raises \<open>IndexError\<close>); \<open>mat_get\<close> and \<open>mat_set\<close> are
    \<^verbatim>\<open>m[i][j]\<close> and \<^verbatim>\<open>m[i][j] = x\<close>.
  \<^item> A one-dimensional tensor is a list. \<open>arange\<close>, \<open>index_select\<close> and \<open>index_copy\<close> are the
    torch operations of the same name, with the errors torch raises.
  \<^item> \<open>cdiv\<close> is the ceiling division \<^verbatim>\<open>(n + p - 1) // p\<close> that every paged component uses.

  The collections \<open>result_simps\<close> and \<open>tensor_simps\<close> carry the component proofs.
\<close>

named_theorems result_simps \<open>computing with fallible calls\<close>
named_theorems tensor_simps \<open>index_select, index_copy and arange\<close>

section \<open>Fallible calls\<close>

datatype py_error =
    AssertionError | ValueError | IndexError | KeyError | TypeError | RuntimeError
  | AttributeError | NotImplementedError | ZeroDivisionError | Nontermination

type_synonym 'a result = "py_error + 'a"

definition rbind :: "'a result \<Rightarrow> ('a \<Rightarrow> 'b result) \<Rightarrow> 'b result" where
  "rbind m f = (case m of Inl e \<Rightarrow> Inl e | Inr x \<Rightarrow> f x)"

definition rassert :: "bool \<Rightarrow> py_error \<Rightarrow> unit result" where
  "rassert b e = (if b then Inr () else Inl e)"

primrec mmap :: "('a \<Rightarrow> 'b result) \<Rightarrow> 'a list \<Rightarrow> 'b list result" where
  "mmap f [] = Inr []"
| "mmap f (x # xs) = rbind (f x) (\<lambda>y. rbind (mmap f xs) (\<lambda>ys. Inr (y # ys)))"

primrec foldM :: "('s \<Rightarrow> 'a \<Rightarrow> 's result) \<Rightarrow> 's \<Rightarrow> 'a list \<Rightarrow> 's result" where
  "foldM f s [] = Inr s"
| "foldM f s (x # xs) = rbind (f s x) (\<lambda>s'. foldM f s' xs)"

section \<open>Python lists\<close>

definition py_index :: "nat \<Rightarrow> int \<Rightarrow> nat result" where
  "py_index n i =
     (let j = (if i < 0 then int n + i else i)
      in if 0 \<le> j \<and> j < int n then Inr (nat j) else Inl IndexError)"

definition py_get :: "'a list \<Rightarrow> int \<Rightarrow> 'a result" where
  "py_get xs i = rbind (py_index (length xs) i) (\<lambda>j. Inr (xs ! j))"

definition py_set :: "'a list \<Rightarrow> int \<Rightarrow> 'a \<Rightarrow> 'a list result" where
  "py_set xs i v = rbind (py_index (length xs) i) (\<lambda>j. Inr (xs[j := v]))"

definition mat_get :: "'a list list \<Rightarrow> int \<Rightarrow> int \<Rightarrow> 'a result" where
  "mat_get m i j = rbind (py_get m i) (\<lambda>row. py_get row j)"

definition mat_set :: "'a list list \<Rightarrow> int \<Rightarrow> int \<Rightarrow> 'a \<Rightarrow> 'a list list result" where
  "mat_set m i j v =
     rbind (py_get m i) (\<lambda>row. rbind (py_set row j v) (\<lambda>row'. py_set m i row'))"

text \<open>The slice \<^verbatim>\<open>xs[a:b]\<close> for bounds that are never negative.\<close>

definition slice :: "nat \<Rightarrow> nat \<Rightarrow> 'a list \<Rightarrow> 'a list" where
  "slice a b xs = take (b - a) (drop a xs)"

text \<open>The index pairs of two nested \<^verbatim>\<open>for _ in range(_)\<close> loops, in loop order.\<close>

definition loop2 :: "int \<Rightarrow> int \<Rightarrow> (int \<times> int) list" where
  "loop2 n k = List.product [0..n - 1] [0..k - 1]"

text \<open>
  One step of a nested loop that rewrites matrix entries: \<open>mat_modify\<close> replaces entry \<open>(i, j)\<close>
  by \<open>g\<close> of it; \<open>replace_where\<close> overwrites the entry by \<open>v\<close> where \<open>P\<close> holds and counts
  the overwritten entries.
\<close>

definition mat_modify :: "('a \<Rightarrow> 'a result) \<Rightarrow> 'a list list \<Rightarrow> int \<times> int \<Rightarrow> 'a list list result" where
  "mat_modify g m = (\<lambda>(i, j).
     rbind (mat_get m i j) (\<lambda>x. rbind (g x) (\<lambda>y. mat_set m i j y)))"

definition replace_where ::
  "('a \<Rightarrow> bool) \<Rightarrow> 'a \<Rightarrow> 'a list list \<times> int \<Rightarrow> int \<times> int \<Rightarrow> ('a list list \<times> int) result" where
  "replace_where P v = (\<lambda>(m, changed) (i, j).
     rbind (mat_get m i j) (\<lambda>x.
       if P x then rbind (mat_set m i j v) (\<lambda>m'. Inr (m', changed + 1))
       else Inr (m, changed)))"

section \<open>Tensors\<close>

definition arange :: "int \<Rightarrow> int \<Rightarrow> int list result" where
  "arange a b = (if b < a then Inl RuntimeError else Inr [a..b - 1])"

definition in_range :: "nat \<Rightarrow> int list \<Rightarrow> bool" where
  "in_range n idx \<longleftrightarrow> list_all (\<lambda>p. 0 \<le> p \<and> p < int n) idx"

definition index_select :: "'a list \<Rightarrow> int list \<Rightarrow> 'a list result" where
  "index_select xs idx =
     (if in_range (length xs) idx then Inr (map (\<lambda>p. xs ! nat p) idx) else Inl IndexError)"

definition index_copy :: "'a list \<Rightarrow> int list \<Rightarrow> 'a list \<Rightarrow> 'a list result" where
  "index_copy xs idx src =
     (if length idx \<noteq> length src then Inl IndexError
      else if in_range (length xs) idx
      then Inr (foldl (\<lambda>acc (p, v). acc[nat p := v]) xs (zip idx src))
      else Inl IndexError)"

text \<open>Storing an element into an \<^verbatim>\<open>int32\<close> tensor: torch raises where the value does not fit.\<close>

definition as_int32 :: "int \<Rightarrow> int result" where
  "as_int32 v = (if - (2 ^ 31) \<le> v \<and> v < 2 ^ 31 then Inr v else Inl RuntimeError)"

definition cdiv :: "nat \<Rightarrow> nat \<Rightarrow> nat" where
  "cdiv n p = (n + p - 1) div p"

section \<open>Facts on fallible calls\<close>

lemma rbind_Inr [simp, result_simps]: "rbind (Inr x) f = f x"
  by (simp add: rbind_def)

lemma rbind_Inl [simp, result_simps]: "rbind (Inl e) f = Inl e"
  by (simp add: rbind_def)

lemma rbind_right_id [simp]: "rbind m Inr = m"
  by (simp add: rbind_def split: sum.splits)

lemma rbind_eq_Inr_iff [result_simps]: "rbind m f = Inr y \<longleftrightarrow> (\<exists>x. m = Inr x \<and> f x = Inr y)"
  by (cases m) (auto simp: rbind_def)

lemma rbind_eq_Inl_iff [result_simps]:
  "rbind m f = Inl e \<longleftrightarrow> m = Inl e \<or> (\<exists>x. m = Inr x \<and> f x = Inl e)"
  by (cases m) (auto simp: rbind_def)

lemma rbind_assoc: "rbind (rbind m f) g = rbind m (\<lambda>x. rbind (f x) g)"
  by (cases m) simp_all

lemma rbind_cong [fundef_cong]:
  "m = m' \<Longrightarrow> (\<And>x. m' = Inr x \<Longrightarrow> f x = f' x) \<Longrightarrow> rbind m f = rbind m' f'"
  by (cases m') (auto simp: rbind_def)

lemma rassert_simps [simp, result_simps]:
  "rassert True e = Inr ()" "rassert False e = Inl e"
  by (simp_all add: rassert_def)

lemma rassert_eq_Inr [simp, result_simps]: "rassert b e = Inr u \<longleftrightarrow> b"
  by (simp add: rassert_def)

lemma rassert_eq_Inl [simp, result_simps]: "rassert b e = Inl e' \<longleftrightarrow> \<not> b \<and> e' = e"
  by (auto simp: rassert_def)

lemma mmap_Inr_iff [result_simps]:
  "mmap f xs = Inr ys \<longleftrightarrow> length ys = length xs \<and> (\<forall>i < length xs. f (xs ! i) = Inr (ys ! i))"
proof (induction xs arbitrary: ys)
  case Nil
  then show ?case by auto
next
  case (Cons x xs)
  show ?case
  proof (cases ys)
    case Nil
    then show ?thesis by (auto simp: rbind_eq_Inr_iff)
  next
    case (Cons y ys')
    then show ?thesis
      using Cons.IH [of ys'] by (auto simp: rbind_eq_Inr_iff nth_Cons split: nat.splits)
  qed
qed

lemma mmap_total: "(\<And>x. x \<in> set xs \<Longrightarrow> f x = Inr (g x)) \<Longrightarrow> mmap f xs = Inr (map g xs)"
  by (induction xs) simp_all

lemma mmap_length: "mmap f xs = Inr ys \<Longrightarrow> length ys = length xs"
  by (simp add: mmap_Inr_iff)

lemma mmap_append:
  "mmap f (xs @ ys) = rbind (mmap f xs) (\<lambda>as. rbind (mmap f ys) (\<lambda>bs. Inr (as @ bs)))"
  by (induction xs) (simp_all add: rbind_assoc)

lemma mmap_defined: "(\<And>x. x \<in> set xs \<Longrightarrow> \<exists>y. f x = Inr y) \<Longrightarrow> \<exists>ys. mmap f xs = Inr ys"
  by (induction xs) fastforce+

lemma mmap_map: "mmap f (map g xs) = mmap (\<lambda>x. f (g x)) xs"
  by (induction xs) simp_all

lemma mmap_map_result: "mmap (\<lambda>x. rbind (f x) (\<lambda>y. Inr (g y))) xs = rbind (mmap f xs) (\<lambda>ys. Inr (map g ys))"
  by (induction xs) (simp_all add: rbind_assoc)

lemma mmap_cong [fundef_cong]:
  "xs = ys \<Longrightarrow> (\<And>x. x \<in> set ys \<Longrightarrow> f x = g x) \<Longrightarrow> mmap f xs = mmap g ys"
  by (induction xs arbitrary: ys) auto

lemma mmap_nth: "mmap f xs = Inr ys \<Longrightarrow> i < length xs \<Longrightarrow> f (xs ! i) = Inr (ys ! i)"
  by (simp add: mmap_Inr_iff)

lemma foldM_append [result_simps]:
  "foldM f s (xs @ ys) = rbind (foldM f s xs) (\<lambda>s'. foldM f s' ys)"
  by (induction xs arbitrary: s) (simp_all add: rbind_assoc)

lemma foldM_invariant_id: "(\<And>x. x \<in> set xs \<Longrightarrow> f s x = Inr s) \<Longrightarrow> foldM f s xs = Inr s"
  by (induction xs) simp_all

lemma foldM_invariant:
  assumes "foldM f s xs = Inr s'" and "P s"
    and "\<And>s x s'. x \<in> set xs \<Longrightarrow> P s \<Longrightarrow> f s x = Inr s' \<Longrightarrow> P s'"
  shows "P s'"
  using assms by (induction xs arbitrary: s) (auto simp: rbind_eq_Inr_iff)

lemma foldM_total:
  assumes "\<And>s x. x \<in> set xs \<Longrightarrow> P s \<Longrightarrow> \<exists>s'. f s x = Inr s' \<and> P s'" and "P s"
  shows "\<exists>s'. foldM f s xs = Inr s' \<and> P s'"
  using assms
proof (induction xs arbitrary: s)
  case (Cons x xs)
  then obtain s1 where "f s x = Inr s1" "P s1" by (meson list.set_intros(1))
  moreover have "\<exists>s'. foldM f s1 xs = Inr s' \<and> P s'"
    using Cons.IH Cons.prems(1) \<open>P s1\<close> by (meson list.set_intros(2))
  ultimately show ?case by simp
qed simp

lemma foldM_cong [fundef_cong]:
  "s = s' \<Longrightarrow> xs = ys \<Longrightarrow> (\<And>s x. x \<in> set ys \<Longrightarrow> f s x = g s x) \<Longrightarrow> foldM f s xs = foldM g s' ys"
  by (induction xs arbitrary: ys s s') (auto intro: rbind_cong)

section \<open>Facts on Python lists\<close>

lemma py_index_nonneg [simp]: "0 \<le> i \<Longrightarrow> i < int n \<Longrightarrow> py_index n i = Inr (nat i)"
  by (simp add: py_index_def)

lemma py_index_Inr_less: "py_index n i = Inr j \<Longrightarrow> j < n"
  by (auto simp: py_index_def Let_def split: if_splits)

lemma py_get_nonneg [simp]: "0 \<le> i \<Longrightarrow> i < int (length xs) \<Longrightarrow> py_get xs i = Inr (xs ! nat i)"
  by (simp add: py_get_def)

lemma py_get_beyond: "int (length xs) \<le> i \<Longrightarrow> py_get xs i = Inl IndexError"
  by (simp add: py_get_def py_index_def)

lemma py_get_Inr_mem: "py_get xs i = Inr x \<Longrightarrow> x \<in> set xs"
  by (auto simp: py_get_def result_simps dest: py_index_Inr_less)

lemma py_set_nonneg [simp]:
  "0 \<le> i \<Longrightarrow> i < int (length xs) \<Longrightarrow> py_set xs i v = Inr (xs[nat i := v])"
  by (simp add: py_set_def)

lemma set_loop2: "(i, j) \<in> set (loop2 n k) \<longleftrightarrow> 0 \<le> i \<and> i < n \<and> 0 \<le> j \<and> j < k"
  by (auto simp: loop2_def)

lemma length_loop2: "length (loop2 n k) = nat n * nat k"
  by (simp add: loop2_def)

lemma distinct_loop2: "distinct (loop2 n k)"
  by (simp add: loop2_def distinct_product)

lemma length_slice [simp]: "length (slice a b xs) = min (b - a) (length xs - a)"
  by (simp add: slice_def min.commute)

lemma slice_all: "slice 0 (length xs) xs = xs"
  by (simp add: slice_def)

lemma nth_slice: "i < b - a \<Longrightarrow> a + i < length xs \<Longrightarrow> slice a b xs ! i = xs ! (a + i)"
  by (simp add: slice_def)

lemma slice_append:
  assumes "a \<le> b" and "b \<le> c"
  shows "slice a b xs @ slice b c xs = slice a c xs"
proof -
  from assms obtain k j where "b = a + k" and "c = a + k + j"
    by (metis le_Suc_ex)
  moreover have "take (k + j) (drop a xs) = take k (drop a xs) @ take j (drop (a + k) xs)"
    by (simp add: take_add add.commute [of k a])
  ultimately show ?thesis by (simp add: slice_def add.assoc)
qed

subsection \<open>Matrices\<close>

lemma py_get_Inr_iff:
  "0 \<le> i \<Longrightarrow> py_get xs i = Inr x \<longleftrightarrow> i < int (length xs) \<and> xs ! nat i = x"
  by (auto simp: py_get_def py_index_def)

lemma py_get_eq:
  "0 \<le> i \<Longrightarrow> py_get xs i = (if i < int (length xs) then Inr (xs ! nat i) else Inl IndexError)"
  by (simp add: py_get_def py_index_def)

lemma py_get_nat: "i < length xs \<Longrightarrow> py_get xs (int i) = Inr (xs ! i)"
  by simp

lemma py_set_nat: "i < length xs \<Longrightarrow> py_set xs (int i) v = Inr (xs[i := v])"
  by simp

lemma mat_get_Inr_mem: "mat_get m i j = Inr x \<Longrightarrow> \<exists>row \<in> set m. x \<in> set row"
  by (auto simp: mat_get_def rbind_eq_Inr_iff dest: py_get_Inr_mem)

lemma mat_get_eq:
  "0 \<le> i \<Longrightarrow> 0 \<le> j \<Longrightarrow>
   mat_get m i j =
     (if i < int (length m) \<and> j < int (length (m ! nat i)) then Inr (m ! nat i ! nat j)
      else Inl IndexError)"
  by (simp add: mat_get_def py_get_eq)

lemma mat_get_Inr_iff:
  "0 \<le> i \<Longrightarrow> 0 \<le> j \<Longrightarrow>
   mat_get m i j = Inr x \<longleftrightarrow>
     i < int (length m) \<and> j < int (length (m ! nat i)) \<and> m ! nat i ! nat j = x"
  by (auto simp: mat_get_def rbind_eq_Inr_iff py_get_Inr_iff)

lemma mat_set_ok:
  assumes "0 \<le> i" "0 \<le> j" "mat_get m i j = Inr x"
  shows "mat_set m i j v = Inr (m[nat i := (m ! nat i)[nat j := v]])"
  using assms by (simp add: mat_set_def mat_get_Inr_iff)

lemma mat_set_same:
  assumes "0 \<le> i" "0 \<le> j" "mat_get m i j = Inr x"
  shows "mat_set m i j x = Inr m"
proof -
  from assms have "x = m ! nat i ! nat j" by (simp add: mat_get_Inr_iff)
  with mat_set_ok [OF assms, of x] show ?thesis by simp
qed

lemma mat_get_update:
  assumes "0 \<le> i" "0 \<le> j" "0 \<le> i'" "0 \<le> j'" "mat_get m i j = Inr x"
  shows "mat_get (m[nat i := (m ! nat i)[nat j := v]]) i' j'
    = (if (i', j') = (i, j) then Inr v else mat_get m i' j')"
proof -
  from assms have "i < int (length m)" "j < int (length (m ! nat i))"
    by (auto simp: mat_get_eq split: if_splits)
  with assms(1-4) show ?thesis
    by (auto simp: mat_get_eq nth_list_update eq_nat_nat_iff)
qed

lemma mat_shape_update:
  "map length (m[i := (m ! i)[j := v]]) = map length m"
  by (cases "i < length m") (simp_all add: map_update list_update_beyond, metis length_map list_update_id nth_map)

lemma mat_modify_app:
  "mat_modify g m (i, j) = rbind (mat_get m i j) (\<lambda>x. rbind (g x) (\<lambda>y. mat_set m i j y))"
  by (simp add: mat_modify_def)

lemma replace_where_app:
  "replace_where P v (m, c) (i, j) = rbind (mat_get m i j) (\<lambda>x.
     if P x then rbind (mat_set m i j v) (\<lambda>m'. Inr (m', c + 1)) else Inr (m, c))"
  by (simp add: replace_where_def)

text \<open>A matrix filled by two nested loops holds what the loop body computed for each pair.\<close>

lemma mmap2_entry:
  assumes "mmap (\<lambda>i. mmap (f i) [0..k - 1]) [0..n - 1] = Inr rows"
    and "0 \<le> i" "i < n" "0 \<le> j" "j < k"
  shows "\<exists>x. f i j = Inr x \<and>
    (\<forall>g. mat_get (map (map g) rows) i j = Inr (g x)) \<and> mat_get rows i j = Inr x"
proof -
  have len: "length rows = nat n" using mmap_length [OF assms(1)] by simp
  from mmap_nth [OF assms(1), of "nat i"] assms
  have row: "mmap (f i) [0..k - 1] = Inr (rows ! nat i)" by simp
  then have lenr: "length (rows ! nat i) = nat k" using mmap_length by fastforce
  from mmap_nth [OF row, of "nat j"] assms
  have "f i j = Inr (rows ! nat i ! nat j)" by simp
  with len lenr assms show ?thesis by (auto simp: mat_get_eq)
qed

text \<open>What a nested loop of \<open>mat_modify\<close> steps leaves behind, entry by entry.\<close>

lemma mat_modify_loop:
  assumes "foldM (mat_modify g) m ps = Inr m'" "distinct ps"
    and "\<forall>(i, j) \<in> set ps. 0 \<le> i \<and> 0 \<le> j" and "0 \<le> i" "0 \<le> j"
  shows "mat_get m' i j = (if (i, j) \<in> set ps then rbind (mat_get m i j) g else mat_get m i j)
       \<and> map length m' = map length m"
  using assms
proof (induction ps arbitrary: m)
  case (Cons p ps)
  obtain a b where p: "p = (a, b)" by (cases p)
  with Cons.prems have ab: "0 \<le> a" "0 \<le> b" by auto
  from Cons.prems(1) p obtain x y m1 where step: "mat_get m a b = Inr x" "g x = Inr y"
      "mat_set m a b y = Inr m1" "foldM (mat_modify g) m1 ps = Inr m'"
    by (auto simp: mat_modify_app rbind_eq_Inr_iff)
  have m1: "m1 = m[nat a := (m ! nat a)[nat b := y]]"
    using step(3) mat_set_ok [OF ab step(1), of y] by simp
  have get1: "mat_get m1 i j = (if (i, j) = (a, b) then Inr y else mat_get m i j)"
    unfolding m1 by (rule mat_get_update [OF ab Cons.prems(4,5) step(1)])
  have IH: "mat_get m' i j = (if (i, j) \<in> set ps then rbind (mat_get m1 i j) g else mat_get m1 i j)
       \<and> map length m' = map length m1"
    using Cons.prems step(4) by (intro Cons.IH) auto
  with get1 p step(1,2) Cons.prems(2) show ?case
    by (auto simp: m1 mat_shape_update)
qed simp

lemma mat_modify_loop_entry:
  assumes "foldM (mat_modify g) m ps = Inr m'" "distinct ps"
    and "\<forall>(i, j) \<in> set ps. 0 \<le> i \<and> 0 \<le> j" and "(i, j) \<in> set ps"
  shows "\<exists>x y. mat_get m i j = Inr x \<and> g x = Inr y \<and> mat_get m' i j = Inr y"
  using assms
proof (induction ps arbitrary: m)
  case (Cons p ps)
  obtain a b where p: "p = (a, b)" by (cases p)
  with Cons.prems have ab: "0 \<le> a" "0 \<le> b" and ij: "0 \<le> i" "0 \<le> j" by auto
  from Cons.prems(1) p obtain x y m1 where step: "mat_get m a b = Inr x" "g x = Inr y"
      "mat_set m a b y = Inr m1" "foldM (mat_modify g) m1 ps = Inr m'"
    by (auto simp: mat_modify_app rbind_eq_Inr_iff)
  have m1: "m1 = m[nat a := (m ! nat a)[nat b := y]]"
    using step(3) mat_set_ok [OF ab step(1), of y] by simp
  have get1: "mat_get m1 i j = (if (i, j) = (a, b) then Inr y else mat_get m i j)"
    unfolding m1 by (rule mat_get_update [OF ab ij step(1)])
  show ?case
  proof (cases "(i, j) = (a, b)")
    case True
    with Cons.prems(2) p have "(i, j) \<notin> set ps" by simp
    with mat_modify_loop [OF step(4) _ _ ij] Cons.prems(2,3) True get1 step(1,2)
    show ?thesis by auto
  next
    case False
    with Cons.IH [OF step(4)] Cons.prems(2,3,4) p get1 show ?thesis by auto
  qed
qed simp

lemma mat_modify_loop_shape:
  assumes "foldM (mat_modify g) m ps = Inr m'" "distinct ps"
    and "\<forall>(i, j) \<in> set ps. 0 \<le> i \<and> 0 \<le> j"
  shows "map length m' = map length m"
  using mat_modify_loop [OF assms order_refl order_refl] by blast

lemma mat_modify_total:
  assumes "\<forall>(i, j) \<in> set ps. 0 \<le> i \<and> 0 \<le> j \<and> (\<exists>x y. mat_get m i j = Inr x \<and> g x = Inr y)" "distinct ps"
  shows "\<exists>m'. foldM (mat_modify g) m ps = Inr m'"
  using assms
proof (induction ps arbitrary: m)
  case (Cons p ps)
  obtain a b where p: "p = (a, b)" by (cases p)
  with Cons.prems obtain x y where step: "0 \<le> a" "0 \<le> b" "mat_get m a b = Inr x" "g x = Inr y"
    by auto
  let ?m1 = "m[nat a := (m ! nat a)[nat b := y]]"
  have "\<exists>m'. foldM (mat_modify g) ?m1 ps = Inr m'"
  proof (rule Cons.IH)
    show "\<forall>(i, j) \<in> set ps. 0 \<le> i \<and> 0 \<le> j \<and> (\<exists>x y. mat_get ?m1 i j = Inr x \<and> g x = Inr y)"
    proof (clarify, intro conjI)
      fix i j assume ij: "(i, j) \<in> set ps"
      with Cons.prems(1) show nn: "0 \<le> i" "0 \<le> j" by auto
      from ij p Cons.prems(2) have "(i, j) \<noteq> (a, b)" by auto
      with mat_get_update [OF step(1,2) nn step(3), of y]
      have "mat_get ?m1 i j = mat_get m i j" by (simp only: if_False)
      with ij Cons.prems(1) show "\<exists>x y. mat_get ?m1 i j = Inr x \<and> g x = Inr y" by auto
    qed
    show "distinct ps" using Cons.prems(2) by simp
  qed
  with p step mat_set_ok [OF step(1,2,3), of y] show ?case
    by (simp add: mat_modify_app)
qed simp

lemma replace_where_loop:
  assumes "foldM (replace_where P v) (m, c) ps = Inr (m', c')" "distinct ps"
    and "\<forall>(i, j) \<in> set ps. 0 \<le> i \<and> 0 \<le> j"
  shows "(\<forall>i \<ge> 0. \<forall>j \<ge> 0. mat_get m' i j =
            (if (i, j) \<in> set ps then rbind (mat_get m i j) (\<lambda>x. Inr (if P x then v else x))
             else mat_get m i j))
       \<and> c' = c + int (length (filter (\<lambda>(i, j). \<exists>x. mat_get m i j = Inr x \<and> P x) ps))"
  using assms
proof (induction ps arbitrary: m c)
  case (Cons p ps)
  obtain a b where p: "p = (a, b)" by (cases p)
  with Cons.prems have ab: "0 \<le> a" "0 \<le> b" and notin: "(a, b) \<notin> set ps" by auto
  from Cons.prems(1) p obtain x where x: "mat_get m a b = Inr x"
    by (auto simp: replace_where_app rbind_eq_Inr_iff)
  let ?m1 = "if P x then m[nat a := (m ! nat a)[nat b := v]] else m"
  let ?c1 = "if P x then c + 1 else c"
  have run: "foldM (replace_where P v) (?m1, ?c1) ps = Inr (m', c')"
    using Cons.prems(1) p x mat_set_ok [OF ab x, of v]
    by (auto simp: replace_where_app rbind_eq_Inr_iff split: if_splits)
  have get1: "mat_get ?m1 i j = (if (i, j) = (a, b) \<and> P x then Inr v else mat_get m i j)"
    if "0 \<le> i" "0 \<le> j" for i j
    using mat_get_update [OF ab that x, of v] by auto
  have "filter (\<lambda>(i, j). \<exists>x. mat_get ?m1 i j = Inr x \<and> P x) ps
      = filter (\<lambda>(i, j). \<exists>x. mat_get m i j = Inr x \<and> P x) ps"
    by (rule filter_cong) (use get1 notin Cons.prems(3) in \<open>auto split: if_splits\<close>)
  then show ?case
    using Cons.IH [OF run] Cons.prems(2,3) get1 p x notin by auto
qed simp

lemma replace_where_total:
  assumes "\<forall>(i, j) \<in> set ps. 0 \<le> i \<and> 0 \<le> j \<and> (\<exists>x. mat_get m i j = Inr x)"
  shows "\<exists>m' c'. foldM (replace_where P v) (m, c) ps = Inr (m', c')"
  using assms
proof (induction ps arbitrary: m c)
  case (Cons p ps)
  obtain a b where p: "p = (a, b)" by (cases p)
  with Cons.prems obtain x where x: "0 \<le> a" "0 \<le> b" "mat_get m a b = Inr x" by auto
  let ?m1 = "m[nat a := (m ! nat a)[nat b := v]]"
  have "\<exists>y. mat_get ?m1 i j = Inr y" if "(i, j) \<in> set ps" for i j
    using mat_get_update [OF x(1,2) _ _ x(3), of i j v] that Cons.prems by fastforce
  then have "\<forall>(i, j) \<in> set ps. 0 \<le> i \<and> 0 \<le> j \<and> (\<exists>x. mat_get ?m1 i j = Inr x)"
    using Cons.prems by auto
  from Cons.IH [OF this] Cons.IH [of m] Cons.prems p x mat_set_ok [OF x, of v]
  show ?case by (auto simp: replace_where_app)
qed simp

lemma replace_where_shape:
  assumes "foldM (replace_where P v) (m, c) ps = Inr (m', c')"
    and "\<forall>(i, j) \<in> set ps. 0 \<le> i \<and> 0 \<le> j"
  shows "map length m' = map length m"
  using assms
proof (induction ps arbitrary: m c)
  case (Cons p ps)
  obtain a b where p: "p = (a, b)" by (cases p)
  with Cons.prems obtain x where x: "0 \<le> a" "0 \<le> b" "mat_get m a b = Inr x"
    by (auto simp: replace_where_app rbind_eq_Inr_iff)
  then show ?case
    using Cons.prems p mat_set_ok [OF x, of v] Cons.IH
    by (auto simp: replace_where_app rbind_eq_Inr_iff mat_shape_update split: if_splits)
qed simp

section \<open>Facts on tensors\<close>

lemma arange_ok [simp, tensor_simps]: "a \<le> b \<Longrightarrow> arange a b = Inr [a..b - 1]"
  by (simp add: arange_def)

lemma in_range_iff [tensor_simps]: "in_range n idx \<longleftrightarrow> (\<forall>p \<in> set idx. 0 \<le> p \<and> p < int n)"
  by (simp add: in_range_def list_all_iff)

lemma index_select_ok:
  "in_range (length xs) idx \<Longrightarrow> index_select xs idx = Inr (map (\<lambda>p. xs ! nat p) idx)"
  by (simp add: index_select_def)

lemma index_select_all [simp, tensor_simps]:
  "n = int (length xs) \<Longrightarrow> index_select xs [0..n - 1] = Inr xs"
  by (auto simp: index_select_def in_range_iff intro!: nth_equalityI)

lemma foldl_update_length:
  "length (foldl (\<lambda>acc (p, v). acc[nat p := v]) xs ps) = length xs"
  by (induction ps arbitrary: xs) (auto split: prod.splits)

lemma index_copy_length: "index_copy xs idx src = Inr ys \<Longrightarrow> length ys = length xs"
  by (auto simp: index_copy_def foldl_update_length split: if_splits)

lemma foldl_update_map_nth:
  assumes "i < length xs" and "\<forall>p \<in> set idx. 0 \<le> p"
  shows "foldl (\<lambda>acc (p, v). acc[nat p := v]) xs (zip idx (map f idx)) ! i
         = (if int i \<in> set idx then f (int i) else xs ! i)"
  using assms by (induction idx arbitrary: xs) (auto simp: nth_list_update)

lemma index_copy_map_ok:
  "in_range (length xs) idx \<Longrightarrow>
   index_copy xs idx (map f idx)
     = Inr (map (\<lambda>i. if int i \<in> set idx then f (int i) else xs ! i) [0..<length xs])"
  by (auto simp: index_copy_def foldl_update_length foldl_update_map_nth in_range_iff
      intro!: nth_equalityI)

text \<open>Copying selected rows of one tensor into another of the same length.\<close>

lemma index_copy_select:
  assumes "index_select xs idx = Inr src" and "length zs = length xs"
  shows "index_copy zs idx src
         = Inr (map (\<lambda>i. if int i \<in> set idx then xs ! i else zs ! i) [0..<length xs])"
  using assms by (auto simp: index_select_def index_copy_map_ok split: if_splits)

section \<open>Ceiling division\<close>

lemma cdiv_0 [simp]: "0 < p \<Longrightarrow> cdiv 0 p = 0"
  by (simp add: cdiv_def)

lemma cdiv_mult_ge:
  assumes "0 < p"
  shows "n \<le> cdiv n p * p"
proof -
  let ?m = "n + p - 1"
  have "?m < p + ?m div p * p" using assms by (rule dividend_less_div_times)
  with assms show ?thesis unfolding cdiv_def by linarith
qed

lemma cdiv_mult_less:
  assumes "0 < p"
  shows "cdiv n p * p < n + p"
proof -
  have "(n + p - 1) div p * p \<le> n + p - 1" by (rule div_times_less_eq_dividend)
  with assms show ?thesis unfolding cdiv_def by linarith
qed

lemma less_cdiv_iff: "0 < p \<Longrightarrow> i < cdiv n p \<longleftrightarrow> i * p < n"
proof
  assume p: "0 < p" and "i < cdiv n p"
  then have "(i + 1) * p \<le> cdiv n p * p" by (intro mult_right_mono) simp_all
  with cdiv_mult_less [OF p, of n] show "i * p < n" by simp
next
  assume p: "0 < p" and "i * p < n"
  with cdiv_mult_ge [OF p, of n] have "i * p < cdiv n p * p" by linarith
  then show "i < cdiv n p" by simp
qed

lemma cdiv_mono: "m \<le> n \<Longrightarrow> cdiv m p \<le> cdiv n p"
  by (simp add: cdiv_def div_le_mono)

lemma cdiv_mult [simp]:
  assumes "0 < p"
  shows "cdiv (k * p) p = k"
proof (rule antisym)
  show "cdiv (k * p) p \<le> k"
    using less_cdiv_iff [OF assms, of k "k * p"] by simp
  have "k * p \<le> cdiv (k * p) p * p" by (rule cdiv_mult_ge [OF assms])
  with assms show "k \<le> cdiv (k * p) p" by simp
qed

lemma cdiv_dvd: "0 < p \<Longrightarrow> p dvd n \<Longrightarrow> cdiv n p * p = n"
  by (metis cdiv_mult dvd_div_mult_self)

lemma cdiv_step: "0 < p \<Longrightarrow> 0 < n \<Longrightarrow> cdiv n p = Suc (cdiv (n - p) p)"
proof (cases "p \<le> n")
  case True
  moreover assume "0 < p"
  ultimately have eq: "n + p - 1 = (n - p + p - 1) + p" by simp
  show ?thesis
    unfolding cdiv_def eq using \<open>0 < p\<close> by (simp only: div_add_self2)
next
  case False
  moreover assume p: "0 < p" "0 < n"
  ultimately have "cdiv n p = 1"
    using less_cdiv_iff [of p 0 n] less_cdiv_iff [of p 1 n] by simp
  with False p show ?thesis by simp
qed

lemma slice_Nil [simp]: "slice a b [] = []"
  by (simp add: slice_def)

lemma set_slice: "set (slice a b xs) \<subseteq> set xs"
  unfolding slice_def by (rule order_trans [OF set_take_subset set_drop_subset])

lemma slice_drop: "a \<le> b \<Longrightarrow> slice a b xs @ drop b xs = drop a xs"
  using append_take_drop_id [of "b - a" "drop a xs"] by (simp add: slice_def)

text \<open>\<^verbatim>\<open>(n + p - 1) // p\<close> as the source evaluates it: a zero divisor raises.\<close>

definition py_cdiv :: "nat \<Rightarrow> nat \<Rightarrow> nat result" where
  "py_cdiv n p = (if p = 0 then Inl ZeroDivisionError else Inr (cdiv n p))"

lemma py_cdiv_pos [simp]: "0 < p \<Longrightarrow> py_cdiv n p = Inr (cdiv n p)"
  by (simp add: py_cdiv_def)

section \<open>Packing lists end to end\<close>

text \<open>The start of part \<open>i\<close> in the concatenation of the parts, as cumulative offsets have it.\<close>

definition offset :: "'a list list \<Rightarrow> nat \<Rightarrow> nat" where
  "offset xs i = (\<Sum>j<i. length (xs ! j))"

lemma offset_0 [simp]: "offset xs 0 = 0"
  by (simp add: offset_def)

lemma offset_Suc [simp]: "offset xs (Suc i) = offset xs i + length (xs ! i)"
  by (simp add: offset_def)

lemma offset_take: "i \<le> length xs \<Longrightarrow> length (concat (take i xs)) = offset xs i"
proof (induction i)
  case (Suc i)
  then show ?case by (simp add: take_Suc_conv_app_nth)
qed simp

lemma offset_length: "offset xs (length xs) = length (concat xs)"
  using offset_take [of "length xs" xs] by simp

lemma offset_mono: "i \<le> j \<Longrightarrow> offset xs i \<le> offset xs j"
  unfolding offset_def by (rule sum_mono2) auto

lemma offset_cong: "(\<And>j. j < i \<Longrightarrow> length (xs ! j) = length (ys ! j)) \<Longrightarrow> offset xs i = offset ys i"
  unfolding offset_def by (rule sum.cong) auto

lemma slice_concat:
  assumes "i < length xs"
  shows "slice (offset xs i) (offset xs (Suc i)) (concat xs) = xs ! i"
proof -
  have "concat xs = concat (take i xs) @ xs ! i @ concat (drop (Suc i) xs)"
    using assms by (metis concat.simps(2) concat_append id_take_nth_drop)
  moreover have "length (concat (take i xs)) = offset xs i" by (rule offset_take) (use assms in simp)
  ultimately show ?thesis by (simp add: slice_def)
qed

section \<open>Loops over \<open>range(n)\<close>\<close>

lemma upto_int: "[0..int n - 1] = map int [0..<n]"
  by (auto intro!: nth_equalityI)

lemma upto_append:
  assumes "a \<le> b" "b \<le> c"
  shows "[a..c - 1] = [a..b - 1] @ [b..c - 1]"
proof (cases "b = c")
  case False
  with assms show ?thesis by (intro upto_split1) auto
qed simp

lemma mmap_upto: "(\<And>i. i < n \<Longrightarrow> f (int i) = Inr (g i)) \<Longrightarrow> mmap f [0..int n - 1] = Inr (map g [0..<n])"
  unfolding upto_int mmap_map by (rule mmap_total) simp

lemma foldM_map: "foldM f s (map g xs) = foldM (\<lambda>s x. f s (g x)) s xs"
  by (induction xs arbitrary: s) simp_all

text \<open>A loop that overwrites one entry of a list after another.\<close>

lemma fill_step:
  "m < n \<Longrightarrow> (map (\<lambda>i. if i < m then g i else z) [0..<n])[m := g m] = map (\<lambda>i. if i < Suc m then g i else z) [0..<n]"
  by (intro nth_equalityI) (auto simp: nth_list_update)

lemma foldM_fill2:
  assumes "\<And>i xs ys. i < m \<Longrightarrow> length xs = n \<Longrightarrow> length ys = n \<Longrightarrow> xs ! i = z \<Longrightarrow> ys ! i = z \<Longrightarrow>
      step (xs, ys) i = Inr (xs[i := f i], ys[i := g i])" "m \<le> n"
  shows "foldM step (replicate n z, replicate n z) [0..<m] =
    Inr (map (\<lambda>i. if i < m then f i else z) [0..<n], map (\<lambda>i. if i < m then g i else z) [0..<n])"
  using assms
proof (induction m)
  case 0
  show ?case by (auto intro!: nth_equalityI)
next
  case (Suc m)
  let ?xs = "map (\<lambda>i. if i < m then f i else z) [0..<n]" and ?ys = "map (\<lambda>i. if i < m then g i else z) [0..<n]"
  have "step (?xs, ?ys) m = Inr (?xs[m := f m], ?ys[m := g m])" using Suc.prems by simp
  then show ?case using Suc by (simp add: foldM_append fill_step)
qed

lemma sum_list_product:
  "sum_list (map f (List.product xs ys)) = sum_list (map (\<lambda>x. sum_list (map (\<lambda>y. f (x, y)) ys)) xs)"
  for f :: "_ \<Rightarrow> 'a :: comm_monoid_add"
  by (induction xs) (simp_all add: comp_def)

lemma mset_sum_list: "mset xs = mset ys \<Longrightarrow> sum_list (map f xs) = sum_list (map f ys)" for f :: "'a \<Rightarrow> 'b::comm_monoid_add"
  by (metis mset_map sum_mset_sum_list)

end
