(* ===== verification/Visible_Plan.thy ===== *)
theory Visible_Plan
  imports RK_Prelude
begin

text \<open>
  Visible-token plans: \<^verbatim>\<open>segpaged_v2/visible_plan.py\<close>, the policy helper
  \<^verbatim>\<open>plans_from_policies\<close> of \<^verbatim>\<open>segpaged_v2/attention.py\<close>, and the two other routines that compute
  a sink-plus-window index list, \<^verbatim>\<open>local_visible_indices\<close> of \<^verbatim>\<open>segpaged.py\<close> and
  \<^verbatim>\<open>_select_indices\<close> of \<^verbatim>\<open>per_head_storage.py\<close>.

  The three routines are translated separately, as the source has them, and shown to return one
  and the same list, the positions of \<open>visible_window\<close> in ascending order.
\<close>

section \<open>Definitions\<close>

definition POLICY_GLOBAL :: string where "POLICY_GLOBAL = ''global''"
definition POLICY_LOCAL :: string where "POLICY_LOCAL = ''local''"
definition POLICY_CUSTOM :: string where "POLICY_CUSTOM = ''custom''"

record head_visible_plan =
  plan_policy :: string
  plan_positions :: "int list"
  plan_seq_len :: int

definition plan_kept :: "head_visible_plan \<Rightarrow> nat" where
  "plan_kept p = length (plan_positions p)"

definition global_plan :: "int \<Rightarrow> head_visible_plan result" where
  "global_plan L =
     rbind (arange 0 L) (\<lambda>pos.
     Inr \<lparr>plan_policy = POLICY_GLOBAL, plan_positions = pos, plan_seq_len = L\<rparr>)"

definition local_plan :: "int \<Rightarrow> int \<Rightarrow> int \<Rightarrow> head_visible_plan result" where
  "local_plan L sink0 recent0 =
     (let sink = max 0 (min sink0 L);
          recent = max 0 (min recent0 L);
          tail_start = max sink (L - recent)
      in rbind (arange 0 sink) (\<lambda>sink_idx.
         rbind (arange tail_start L) (\<lambda>tail_idx.
         let pos = (if sink_idx = [] then tail_idx
                    else if tail_idx = [] then sink_idx
                    else sink_idx @ tail_idx)
         in Inr \<lparr>plan_policy = POLICY_LOCAL, plan_positions = pos, plan_seq_len = L\<rparr>)))"

text \<open>\<^verbatim>\<open>torch.unique(pos, sorted=True)\<close> is \<open>sort (remdups pos)\<close>.\<close>

definition custom_plan :: "int \<Rightarrow> int list \<Rightarrow> head_visible_plan" where
  "custom_plan L positions =
     (let pos = (if positions \<noteq> [] then
                   sort (remdups (filter (\<lambda>p. p \<ge> 0 \<and> p < L) positions))
                 else positions)
      in \<lparr>plan_policy = POLICY_CUSTOM, plan_positions = pos, plan_seq_len = L\<rparr>)"

definition plans_from_policies ::
  "string list \<Rightarrow> int \<Rightarrow> int \<Rightarrow> int \<Rightarrow> head_visible_plan list result" where
  "plans_from_policies head_policy L sink recent =
     mmap (\<lambda>pol. if pol = POLICY_GLOBAL then global_plan L else local_plan L sink recent)
       head_policy"

definition local_visible_indices :: "int \<Rightarrow> int \<Rightarrow> int \<Rightarrow> int list result" where
  "local_visible_indices L sink0 recent0 =
     (let sink = max 0 (min sink0 L);
          recent = max 0 (min recent0 L);
          tail_start = max sink (L - recent)
      in rbind (arange 0 sink) (\<lambda>sink_idx.
         rbind (arange tail_start L) (\<lambda>tail_idx.
         if sink_idx = [] then Inr tail_idx
         else if tail_idx = [] then Inr sink_idx
         else Inr (sink_idx @ tail_idx))))"

definition select_indices :: "int \<Rightarrow> int \<Rightarrow> int \<Rightarrow> int list result" where
  "select_indices L keep_len sink_len0 =
     (if keep_len < 0 \<or> keep_len \<ge> L then arange 0 L
      else
       (let sink_len = max 0 (min sink_len0 L);
            tail_len = max 0 (min keep_len L);
            tail_start = max sink_len (L - tail_len)
        in rbind (arange 0 sink_len) (\<lambda>sink_idx.
           rbind (arange tail_start L) (\<lambda>tail_idx.
           if sink_idx = [] then Inr tail_idx
           else if tail_idx = [] then Inr sink_idx
           else Inr (sink_idx @ tail_idx)))))"

text \<open>The specification: positions in the sink prefix or in the recent suffix, ascending.\<close>

definition visible_window :: "int \<Rightarrow> int \<Rightarrow> int \<Rightarrow> int list" where
  "visible_window L sink recent = filter (\<lambda>p. p < sink \<or> L - recent \<le> p) [0..L - 1]"

definition plan_wf :: "head_visible_plan \<Rightarrow> bool" where
  "plan_wf p \<longleftrightarrow> sorted (plan_positions p) \<and> distinct (plan_positions p) \<and>
     (\<forall>i \<in> set (plan_positions p). 0 \<le> i \<and> i < plan_seq_len p)"

section \<open>The window as two ranges\<close>

lemma upto_split: "(a::int) \<le> b \<Longrightarrow> b \<le> c + 1 \<Longrightarrow> [a..c] = [a..b - 1] @ [b..c]"
proof (cases "b \<le> c")
  case True
  then show "a \<le> b \<Longrightarrow> ?thesis" by (simp add: upto_split1)
next
  case False
  then show "b \<le> c + 1 \<Longrightarrow> ?thesis" by (cases "b = c + 1") auto
qed

lemma filter_upto_none: "(\<And>p. a \<le> p \<Longrightarrow> p \<le> b \<Longrightarrow> \<not> P p) \<Longrightarrow> filter P [a..b] = []"
  by (auto simp: filter_empty_conv)

lemma filter_upto_all: "(\<And>p. a \<le> p \<Longrightarrow> p \<le> b \<Longrightarrow> P p) \<Longrightarrow> filter P [a..b] = [a..b]"
  by (auto simp: filter_id_conv)

lemma filter_two_ranges:
  assumes "0 \<le> s" "s \<le> t" "t \<le> (L::int)"
  shows "filter (\<lambda>p. p < s \<or> t \<le> p) [0..L - 1] = [0..s - 1] @ [t..L - 1]"
proof -
  have split: "[0..L - 1] = [0..s - 1] @ [s..t - 1] @ [t..L - 1]"
    using upto_split [of 0 s "L - 1"] upto_split [of s t "L - 1"] assms by simp
  have "filter (\<lambda>p. p < s \<or> t \<le> p) [s..t - 1] = []" by (rule filter_upto_none) auto
  moreover have "filter (\<lambda>p. p < s \<or> t \<le> p) [0..s - 1] = [0..s - 1]"
    by (rule filter_upto_all) auto
  moreover have "filter (\<lambda>p. p < s \<or> t \<le> p) [t..L - 1] = [t..L - 1]"
    by (rule filter_upto_all) auto
  ultimately show ?thesis by (simp only: split filter_append) simp
qed

lemma visible_window_ranges:
  assumes "0 \<le> L"
  shows "visible_window L sink recent =
    (let s = max 0 (min sink L); r = max 0 (min recent L) in [0..s - 1] @ [max s (L - r)..L - 1])"
proof -
  let ?s = "max 0 (min sink L)" and ?r = "max 0 (min recent L)"
  have "visible_window L sink recent
      = filter (\<lambda>p. p < ?s \<or> max ?s (L - ?r) \<le> p) [0..L - 1]"
    unfolding visible_window_def using assms by (intro filter_cong) auto
  also have "\<dots> = [0..?s - 1] @ [max ?s (L - ?r)..L - 1]"
    by (rule filter_two_ranges) (use assms in auto)
  finally show ?thesis by (simp add: Let_def)
qed

lemma visible_window_sorted: "sorted (visible_window L s r)" "distinct (visible_window L s r)"
  by (simp_all add: visible_window_def sorted_wrt_filter sorted_upto)

lemma set_visible_window: "set (visible_window L s r) = {p. 0 \<le> p \<and> p < L \<and> (p < s \<or> L - r \<le> p)}"
  by (auto simp: visible_window_def)

lemma visible_window_full: "L \<le> r \<Longrightarrow> visible_window L s r = [0..L - 1]"
  unfolding visible_window_def by (rule filter_upto_all) auto

lemma length_visible_window:
  assumes "0 \<le> L"
  shows "length (visible_window L s r) = nat (min L (max 0 (min s L) + max 0 (min r L)))"
  using assms by (auto simp: visible_window_ranges Let_def max_def min_def)

section \<open>The three index routines\<close>

lemma local_visible_indices_eq:
  "0 \<le> L \<Longrightarrow> local_visible_indices L s r = Inr (visible_window L s r)"
  by (auto simp: local_visible_indices_def visible_window_ranges Let_def)

lemma local_plan_eq:
  "0 \<le> L \<Longrightarrow> local_plan L s r = Inr \<lparr>plan_policy = POLICY_LOCAL,
     plan_positions = visible_window L s r, plan_seq_len = L\<rparr>"
  by (auto simp: local_plan_def visible_window_ranges Let_def)

lemma global_plan_eq:
  "0 \<le> L \<Longrightarrow> global_plan L = Inr \<lparr>plan_policy = POLICY_GLOBAL,
     plan_positions = [0..L - 1], plan_seq_len = L\<rparr>"
  by (simp add: global_plan_def)

lemma select_indices_eq:
  "0 \<le> L \<Longrightarrow> select_indices L k s = Inr (visible_window L s (if k < 0 then L else k))"
  by (auto simp: select_indices_def visible_window_full)
     (auto simp: visible_window_ranges Let_def)

lemma length_select_indices:
  "0 \<le> L \<Longrightarrow> select_indices L k s = Inr idx \<Longrightarrow> int (length idx) \<le> L"
  by (auto simp: select_indices_eq length_visible_window)

lemma plans_from_policies_eq:
  "0 \<le> L \<Longrightarrow> plans_from_policies pols L s r = Inr (map (\<lambda>pol.
     if pol = POLICY_GLOBAL
     then \<lparr>plan_policy = POLICY_GLOBAL, plan_positions = [0..L - 1], plan_seq_len = L\<rparr>
     else \<lparr>plan_policy = POLICY_LOCAL, plan_positions = visible_window L s r, plan_seq_len = L\<rparr>) pols)"
  unfolding plans_from_policies_def
  by (rule mmap_total) (simp add: global_plan_eq local_plan_eq)

section \<open>Properties\<close>

text \<open>
  C5. For every sequence length and every sink and window, including negative and oversized ones,
  \<^verbatim>\<open>local_plan\<close> returns the positions \<open>[0, sink) \<union> [L - recent, L)\<close> clipped to the sequence, strictly
  ascending and without repetition, and it keeps \<open>min L (sink + recent)\<close> of them.
\<close>

theorem local_plan_is_window:
  assumes "0 \<le> L"
  shows "\<exists>p. local_plan L sink recent = Inr p \<and> plan_wf p \<and> plan_seq_len p = L \<and>
    set (plan_positions p) = {i. 0 \<le> i \<and> i < L \<and> (i < sink \<or> L - recent \<le> i)} \<and>
    int (plan_kept p) = min L (max 0 (min sink L) + max 0 (min recent L))"
  using assms visible_window_sorted set_visible_window [of L sink recent]
  by (auto simp: local_plan_eq plan_wf_def plan_kept_def length_visible_window)

text \<open>
  C6. The three routines that compute a sink-plus-window index list, in the v1 runtime, in the v2
  plans and in the trimmed storage, return the same list on every input; on a negative length each
  of them raises the error of \<^verbatim>\<open>torch.arange\<close>.
\<close>

theorem window_routines_agree:
  "local_visible_indices L sink recent = rbind (local_plan L sink recent) (\<lambda>p. Inr (plan_positions p)) \<and>
   select_indices L keep sink =
     local_visible_indices L sink (if keep < 0 then L else keep)"
proof (cases "0 \<le> L")
  case True
  then show ?thesis by (simp add: local_visible_indices_eq local_plan_eq select_indices_eq)
next
  case False
  then show ?thesis
    by (auto simp: local_visible_indices_def local_plan_def select_indices_def arange_def Let_def)
qed

text \<open>
  C7. \<^verbatim>\<open>custom_plan\<close> turns any index list into a well-formed plan that keeps exactly the requested
  positions inside the sequence, and it leaves the positions of a plan that is already well formed
  as they are.
\<close>

theorem custom_plan_canonical:
  "plan_wf (custom_plan L ps) \<and>
   set (plan_positions (custom_plan L ps)) = {p \<in> set ps. 0 \<le> p \<and> p < L} \<and>
   custom_plan L (plan_positions (custom_plan L ps)) = custom_plan L ps"
proof -
  have "filter (\<lambda>p. 0 \<le> p \<and> p < L) (sort (remdups (filter (\<lambda>p. 0 \<le> p \<and> p < L) ps)))
      = sort (remdups (filter (\<lambda>p. 0 \<le> p \<and> p < L) ps))"
    by (simp add: filter_id_conv)
  then show ?thesis
    by (auto simp: custom_plan_def plan_wf_def Let_def sorted_sort_id distinct_remdups_id)
qed

section \<open>Witnesses\<close>

theorem local_plan_is_window_witness:
  "\<exists>p. local_plan 10 2 3 = Inr p \<and> plan_wf p \<and> plan_positions p = [0, 1, 7, 8, 9] \<and>
    int (plan_kept p) = 5"
proof -
  have "local_plan 10 2 3 = Inr \<lparr>plan_policy = POLICY_LOCAL,
      plan_positions = [0, 1, 7, 8, 9], plan_seq_len = 10\<rparr>"
    by code_simp
  with local_plan_is_window [of 10 2 3] show ?thesis by simp
qed

end
