(* ===== verification/Paged_Storage.thy ===== *)
theory Paged_Storage
  imports Visible_Plan "HOL-Library.AList"
begin

text \<open>
  Segment-paged KV storage: \<^verbatim>\<open>segpaged_v2/storage.py\<close>, \<^verbatim>\<open>segpaged_v2/page_table.py\<close> and the
  builder \<^verbatim>\<open>build_paged_cache\<close> of \<^verbatim>\<open>segpaged_v2/attention.py\<close>.

  \<^item> The abstract class \<^verbatim>\<open>KVStorageBackend\<close> is a record of operations \<open>kv_backend\<close> on a state type,
    together with the locale \<open>kv_storage\<close> that states what the page table relies on.
  \<^item> \<^verbatim>\<open>LocalPagedPool\<close> is the record \<open>local_paged_pool\<close>; \<open>local_backend\<close> packs its operations and the
    interpretation \<open>pool\<close> discharges the laws of the locale for it.
  \<^item> \<^verbatim>\<open>PagedHeadKVCache\<close> is the record \<open>paged_cache\<close> over any backend; its lemmas are proved once in
    the locale. Python dicts are association lists in insertion order.

  A tensor of shape \<^verbatim>\<open>[n, D]\<close> is a list of rows. An assignment \<^verbatim>\<open>page[:n] = t\<close> follows torch:
  sizes must agree or be 1, anything else raises. A raising call yields the error only; what it
  had already written is not described.
\<close>

section \<open>Backend\<close>

type_synonym row = "real list"
type_synonym page = "row list"

record 's kv_backend =
  be_page_size :: "'s \<Rightarrow> nat"
  be_head_dim :: "'s \<Rightarrow> nat"
  be_alloc_pages :: "'s \<Rightarrow> nat \<Rightarrow> nat list \<times> 's"
  be_write_page :: "'s \<Rightarrow> nat \<Rightarrow> page \<Rightarrow> page \<Rightarrow> 's result"
  be_read_page :: "'s \<Rightarrow> nat \<Rightarrow> nat \<Rightarrow> (page \<times> page) result"
  be_num_physical_pages :: "'s \<Rightarrow> nat"

definition physical_bytes :: "'s kv_backend \<Rightarrow> nat \<Rightarrow> 's \<Rightarrow> nat" where
  "physical_bytes be elt s =
     (let n = be_num_physical_pages be s
      in if n = 0 then 0
         else let per_page = be_page_size be s * be_head_dim be s * elt in 2 * n * per_page)"

record local_paged_pool =
  pl_head_dim :: nat
  pl_page_size :: nat
  k_pages :: "page list"
  v_pages :: "page list"
  virt_to_phys :: "nat \<rightharpoonup> nat"
  next_virt :: nat
  next_phys :: nat

definition local_paged_pool_init :: "nat \<Rightarrow> nat \<Rightarrow> local_paged_pool" where
  "local_paged_pool_init head_dim page_size =
     \<lparr>pl_head_dim = head_dim, pl_page_size = page_size, k_pages = [], v_pages = [],
      virt_to_phys = Map.empty, next_virt = 0, next_phys = 0\<rparr>"

definition zero_page :: "nat \<Rightarrow> nat \<Rightarrow> page" where
  "zero_page page_size head_dim = replicate page_size (replicate head_dim 0)"

definition alloc_one_page :: "local_paged_pool \<Rightarrow> nat \<times> local_paged_pool" where
  "alloc_one_page p =
     (let vid = next_virt p; phys = next_phys p;
          zero = zero_page (pl_page_size p) (pl_head_dim p)
      in (vid, p\<lparr>next_virt := vid + 1, next_phys := phys + 1,
                 virt_to_phys := (virt_to_phys p)(vid \<mapsto> phys),
                 k_pages := k_pages p @ [zero], v_pages := v_pages p @ [zero]\<rparr>))"

fun alloc_pages :: "local_paged_pool \<Rightarrow> nat \<Rightarrow> nat list \<times> local_paged_pool" where
  "alloc_pages p 0 = ([], p)"
| "alloc_pages p (Suc n) =
     (let (vid, p1) = alloc_one_page p; (vids, p2) = alloc_pages p1 n in (vid # vids, p2))"

definition assign_row :: "nat \<Rightarrow> row \<Rightarrow> row result" where
  "assign_row D r =
     (if length r = D then Inr r
      else if length r = 1 then Inr (replicate D (hd r))
      else Inl RuntimeError)"

definition assign_rows :: "nat \<Rightarrow> nat \<Rightarrow> page \<Rightarrow> page result" where
  "assign_rows n D t =
     (if length t = n then mmap (assign_row D) t
      else if length t = 1 then rbind (assign_row D (hd t)) (\<lambda>r. Inr (replicate n r))
      else Inl RuntimeError)"

text \<open>\<^verbatim>\<open>pages[phys][:n] = t\<close>\<close>

definition page_assign :: "nat \<Rightarrow> page list \<Rightarrow> nat \<Rightarrow> nat \<Rightarrow> page \<Rightarrow> page list result" where
  "page_assign D pages phys n t =
     rbind (py_get pages (int phys)) (\<lambda>pg.
     rbind (assign_rows (min n (length pg)) D t) (\<lambda>rows.
     py_set pages (int phys) (rows @ drop n pg)))"

definition virt_lookup :: "local_paged_pool \<Rightarrow> nat \<Rightarrow> nat result" where
  "virt_lookup p vid = (case virt_to_phys p vid of None \<Rightarrow> Inl KeyError | Some phys \<Rightarrow> Inr phys)"

definition write_page :: "local_paged_pool \<Rightarrow> nat \<Rightarrow> page \<Rightarrow> page \<Rightarrow> local_paged_pool result" where
  "write_page p vid k v =
     (let n = length k
      in if n > pl_page_size p then Inl ValueError
         else
           rbind (virt_lookup p vid) (\<lambda>phys.
           rbind (page_assign (pl_head_dim p) (k_pages p) phys n k) (\<lambda>kp.
           rbind (page_assign (pl_head_dim p) (v_pages p) phys n v) (\<lambda>vp.
           Inr (p\<lparr>k_pages := kp, v_pages := vp\<rparr>)))))"

definition read_page :: "local_paged_pool \<Rightarrow> nat \<Rightarrow> nat \<Rightarrow> (page \<times> page) result" where
  "read_page p vid n =
     rbind (virt_lookup p vid) (\<lambda>phys.
     rbind (py_get (k_pages p) (int phys)) (\<lambda>k.
     rbind (py_get (v_pages p) (int phys)) (\<lambda>v.
     Inr (take n k, take n v))))"

definition num_physical_pages :: "local_paged_pool \<Rightarrow> nat" where
  "num_physical_pages p = next_phys p"

definition local_backend :: "local_paged_pool kv_backend" where
  "local_backend =
     \<lparr>be_page_size = pl_page_size, be_head_dim = pl_head_dim, be_alloc_pages = alloc_pages,
      be_write_page = write_page, be_read_page = read_page,
      be_num_physical_pages = num_physical_pages\<rparr>"

section \<open>Page table and per-head cache\<close>

record head_segment =
  seg_layer :: int
  seg_head :: int
  seg_segment :: int
  seg_page_ids :: "nat list"
  seg_positions :: "int list"

definition seg_kept :: "head_segment \<Rightarrow> nat" where
  "seg_kept seg = length (seg_positions seg)"

record segment_page_table =
  pt_page_size :: nat
  pt_segments :: "((int \<times> int \<times> int) \<times> head_segment) list"
  pt_head_segments :: "((int \<times> int) \<times> int list) list"

definition page_table_init :: "nat \<Rightarrow> segment_page_table" where
  "page_table_init page_size =
     \<lparr>pt_page_size = page_size, pt_segments = [], pt_head_segments = []\<rparr>"

text \<open>\<^verbatim>\<open>d.get(key, [])\<close>, also the value \<^verbatim>\<open>d.setdefault(key, [])\<close> returns\<close>

definition dict_get_list :: "('k \<times> 'v list) list \<Rightarrow> 'k \<Rightarrow> 'v list" where
  "dict_get_list d key = (case map_of d key of None \<Rightarrow> [] | Some xs \<Rightarrow> xs)"

definition table_add :: "segment_page_table \<Rightarrow> head_segment \<Rightarrow> segment_page_table" where
  "table_add t seg =
     (let key = (seg_layer seg, seg_head seg, seg_segment seg);
          hkey = (seg_layer seg, seg_head seg)
      in t\<lparr>pt_segments := AList.update key seg (pt_segments t),
           pt_head_segments := AList.update hkey
             (dict_get_list (pt_head_segments t) hkey @ [seg_segment seg]) (pt_head_segments t)\<rparr>)"

definition table_get :: "segment_page_table \<Rightarrow> int \<Rightarrow> int \<Rightarrow> int \<Rightarrow> head_segment result" where
  "table_get t layer head segment =
     (case map_of (pt_segments t) (layer, head, segment) of
        None \<Rightarrow> Inl KeyError | Some seg \<Rightarrow> Inr seg)"

definition segments_of :: "segment_page_table \<Rightarrow> int \<Rightarrow> int \<Rightarrow> head_segment list result" where
  "segments_of t layer head =
     mmap (table_get t layer head) (dict_get_list (pt_head_segments t) (layer, head))"

definition all_segments :: "segment_page_table \<Rightarrow> head_segment list" where
  "all_segments t = map snd (pt_segments t)"

record 's paged_cache =
  pc_num_kv_heads :: nat
  pc_head_dim :: nat
  pc_page_size :: nat
  pc_storage :: 's
  pc_table :: segment_page_table

definition paged_cache_init :: "nat \<Rightarrow> nat \<Rightarrow> nat \<Rightarrow> 's \<Rightarrow> 's paged_cache" where
  "paged_cache_init n_heads head_dim page_size storage =
     \<lparr>pc_num_kv_heads = n_heads, pc_head_dim = head_dim, pc_page_size = page_size,
      pc_storage = storage, pc_table = page_table_init page_size\<rparr>"

text \<open>The loop that scatters the selected rows into the pages.\<close>

definition scatter_step ::
  "'s kv_backend \<Rightarrow> nat \<Rightarrow> nat \<Rightarrow> page \<Rightarrow> page \<Rightarrow> 's \<Rightarrow> nat \<times> nat \<Rightarrow> 's result" where
  "scatter_step be ps n k v s = (\<lambda>(i, vid).
     let start = i * ps; e = min (start + ps) n
     in if e > start then be_write_page be s vid (slice start e k) (slice start e v) else Inr s)"

definition store_head_segment ::
  "'s kv_backend \<Rightarrow> 's paged_cache \<Rightarrow> int \<Rightarrow> int \<Rightarrow> int \<Rightarrow> page \<Rightarrow> page \<Rightarrow> head_visible_plan
   \<Rightarrow> (head_segment \<times> 's paged_cache) result" where
  "store_head_segment be c layer head segment k_dense v_dense plan =
     (let pos = plan_positions plan in
      rbind (index_select k_dense pos) (\<lambda>k_vis.
      rbind (index_select v_dense pos) (\<lambda>v_vis.
      let n = length k_vis in
      rbind (py_cdiv n (pc_page_size c)) (\<lambda>n_pages.
      let (virt_ids, s1) = be_alloc_pages be (pc_storage c) n_pages in
      rbind (foldM (scatter_step be (pc_page_size c) n k_vis v_vis) s1
              (List.enumerate 0 virt_ids)) (\<lambda>s2.
      let seg = \<lparr>seg_layer = layer, seg_head = head, seg_segment = segment,
                 seg_page_ids = virt_ids, seg_positions = pos\<rparr>
      in Inr (seg, c\<lparr>pc_storage := s2, pc_table := table_add (pc_table c) seg\<rparr>))))))"

text \<open>The loop of \<^verbatim>\<open>gather_segment\<close>; it stops at the first page with nothing left to take.\<close>

fun gather_pages :: "'s kv_backend \<Rightarrow> 's \<Rightarrow> nat \<Rightarrow> nat list \<Rightarrow> nat \<Rightarrow> (page \<times> page) result" where
  "gather_pages be s ps [] remaining = Inr ([], [])"
| "gather_pages be s ps (vid # vids) remaining =
     (let t = min ps remaining
      in if t \<le> 0 then Inr ([], [])
         else
           rbind (be_read_page be s vid t) (\<lambda>(k, v).
           rbind (gather_pages be s ps vids (remaining - t)) (\<lambda>(ks, vs).
           Inr (k @ ks, v @ vs))))"

definition gather_segment :: "'s kv_backend \<Rightarrow> 's paged_cache \<Rightarrow> head_segment \<Rightarrow> (page \<times> page) result" where
  "gather_segment be c seg =
     gather_pages be (pc_storage c) (pc_page_size c) (seg_page_ids seg) (seg_kept seg)"

definition gather_head :: "'s kv_backend \<Rightarrow> 's paged_cache \<Rightarrow> int \<Rightarrow> int \<Rightarrow> (page \<times> page) result" where
  "gather_head be c layer head =
     rbind (segments_of (pc_table c) layer head) (\<lambda>segs.
     rbind (mmap (gather_segment be c) segs) (\<lambda>parts.
     Inr (concat (map fst parts), concat (map snd parts))))"

definition stored_token_count :: "'s paged_cache \<Rightarrow> nat" where
  "stored_token_count c = sum_list (map seg_kept (all_segments (pc_table c)))"

definition cache_physical_bytes :: "'s kv_backend \<Rightarrow> nat \<Rightarrow> 's paged_cache \<Rightarrow> nat" where
  "cache_physical_bytes be elt c = physical_bytes be elt (pc_storage c)"

text \<open>
  \<^verbatim>\<open>build_paged_cache\<close> on \<^verbatim>\<open>[H, L, D]\<close> tensors, one list of rows per head. The default storage is
  a new \<^verbatim>\<open>LocalPagedPool\<close> with the same page size.
\<close>

definition build_head ::
  "page list \<Rightarrow> page list \<Rightarrow> head_visible_plan list \<Rightarrow> int
   \<Rightarrow> local_paged_pool paged_cache \<Rightarrow> nat \<Rightarrow> local_paged_pool paged_cache result" where
  "build_head k_dense v_dense plans layer c h =
     rbind (py_get k_dense (int h)) (\<lambda>k.
     rbind (py_get v_dense (int h)) (\<lambda>v.
     rbind (py_get plans (int h)) (\<lambda>plan.
     rbind (store_head_segment local_backend c layer (int h) 0 k v plan) (\<lambda>(seg, c').
     Inr c'))))"

definition build_paged_cache ::
  "nat \<Rightarrow> page list \<Rightarrow> page list \<Rightarrow> head_visible_plan list \<Rightarrow> nat \<Rightarrow> int
   \<Rightarrow> local_paged_pool paged_cache result" where
  "build_paged_cache D k_dense v_dense plans page_size layer =
     (let H = length k_dense in
      if length plans \<noteq> H then Inl ValueError
      else
        foldM (build_head k_dense v_dense plans layer)
          (paged_cache_init H D page_size (local_paged_pool_init D page_size)) [0..<H])"

section \<open>What the page table relies on\<close>

definition rows_ok :: "nat \<Rightarrow> page \<Rightarrow> bool" where
  "rows_ok D t \<longleftrightarrow> (\<forall>r \<in> set t. length r = D)"

locale kv_storage =
  fixes be :: "'s kv_backend" and sinv :: "'s \<Rightarrow> bool" and live :: "'s \<Rightarrow> nat set"
  assumes alloc_law: "sinv s \<Longrightarrow> be_alloc_pages be s n = (vids, s') \<Longrightarrow>
      sinv s' \<and> length vids = n \<and> distinct vids \<and> set vids \<inter> live s = {} \<and>
      live s' = live s \<union> set vids \<and> be_page_size be s' = be_page_size be s \<and>
      be_head_dim be s' = be_head_dim be s \<and>
      be_num_physical_pages be s' = be_num_physical_pages be s + n \<and>
      (\<forall>vid \<in> live s. \<forall>m. be_read_page be s' vid m = be_read_page be s vid m)"
    and write_law: "sinv s \<Longrightarrow> vid \<in> live s \<Longrightarrow> length k \<le> be_page_size be s \<Longrightarrow>
      length v = length k \<Longrightarrow> rows_ok (be_head_dim be s) k \<Longrightarrow> rows_ok (be_head_dim be s) v \<Longrightarrow>
      \<exists>s'. be_write_page be s vid k v = Inr s' \<and> sinv s' \<and> live s' = live s \<and>
        be_page_size be s' = be_page_size be s \<and> be_head_dim be s' = be_head_dim be s \<and>
        be_num_physical_pages be s' = be_num_physical_pages be s \<and>
        be_read_page be s' vid (length k) = Inr (k, v) \<and>
        (\<forall>w \<in> live s - {vid}. \<forall>m. be_read_page be s' w m = be_read_page be s w m)"

text \<open>What a segment, and a whole cache, must satisfy for every gather to succeed.\<close>

definition segment_ok :: "'s kv_backend \<Rightarrow> ('s \<Rightarrow> nat set) \<Rightarrow> 's \<Rightarrow> nat \<Rightarrow> head_segment \<Rightarrow> bool" where
  "segment_ok be live s ps seg \<longleftrightarrow>
     set (seg_page_ids seg) \<subseteq> live s \<and> length (seg_page_ids seg) = cdiv (seg_kept seg) ps \<and>
     (\<exists>k v. gather_pages be s ps (seg_page_ids seg) (seg_kept seg) = Inr (k, v) \<and>
            length k = seg_kept seg \<and> length v = seg_kept seg)"

definition cache_ok :: "'s kv_backend \<Rightarrow> ('s \<Rightarrow> bool) \<Rightarrow> ('s \<Rightarrow> nat set) \<Rightarrow> 's paged_cache \<Rightarrow> bool" where
  "cache_ok be sinv live c \<longleftrightarrow>
     sinv (pc_storage c) \<and> 0 < pc_page_size c \<and>
     be_page_size be (pc_storage c) = pc_page_size c \<and>
     be_head_dim be (pc_storage c) = pc_head_dim c \<and>
     distinct (map fst (pt_segments (pc_table c))) \<and>
     (\<forall>seg \<in> set (all_segments (pc_table c)).
        segment_ok be live (pc_storage c) (pc_page_size c) seg) \<and>
     (\<forall>l h. \<forall>i \<in> set (dict_get_list (pt_head_segments (pc_table c)) (l, h)).
        map_of (pt_segments (pc_table c)) (l, h, i) \<noteq> None)"

section \<open>Page table lemmas\<close>

lemma dict_get_list_update [simp]:
  "dict_get_list (AList.update k xs d) k' = (if k' = k then xs else dict_get_list d k')"
  by (simp add: dict_get_list_def update_conv')

lemma segments_of_add:
  assumes "map_of (pt_segments t) (seg_layer seg, seg_head seg, seg_segment seg) = None"
    and "\<forall>i \<in> set (dict_get_list (pt_head_segments t) (l, h)). map_of (pt_segments t) (l, h, i) \<noteq> None"
  shows "segments_of (table_add t seg) l h =
    (if (l, h) = (seg_layer seg, seg_head seg)
     then rbind (segments_of t l h) (\<lambda>segs. Inr (segs @ [seg])) else segments_of t l h)"
proof -
  have get: "table_get (table_add t seg) l h i = table_get t l h i"
    if "i \<in> set (dict_get_list (pt_head_segments t) (l, h))" for i
    using that assms by (auto simp: table_get_def table_add_def Let_def update_conv')
  have old: "mmap (table_get (table_add t seg) l h) (dict_get_list (pt_head_segments t) (l, h))
      = segments_of t l h"
    unfolding segments_of_def by (rule mmap_cong) (simp_all add: get)
  show ?thesis
  proof (cases "(l, h) = (seg_layer seg, seg_head seg)")
    case True
    have "table_get (table_add t seg) l h (seg_segment seg) = Inr seg"
      using True by (simp add: table_get_def table_add_def Let_def update_conv')
    moreover have "dict_get_list (pt_head_segments (table_add t seg)) (l, h)
        = dict_get_list (pt_head_segments t) (l, h) @ [seg_segment seg]"
      using True by (simp add: table_add_def Let_def)
    ultimately show ?thesis
      using True old by (simp add: segments_of_def mmap_append)
  next
    case False
    then have "dict_get_list (pt_head_segments (table_add t seg)) (l, h)
        = dict_get_list (pt_head_segments t) (l, h)"
      by (auto simp: table_add_def Let_def)
    with False old show ?thesis by (auto simp: segments_of_def)
  qed
qed

lemma segments_of_mem:
  assumes "segments_of t l h = Inr segs" "seg \<in> set segs"
  shows "seg \<in> set (all_segments t)"
proof -
  from assms obtain i where "i < length segs" "segs ! i = seg" by (auto simp: in_set_conv_nth)
  with assms(1) have "table_get t l h (dict_get_list (pt_head_segments t) (l, h) ! i) = Inr seg"
    by (auto simp: segments_of_def mmap_Inr_iff)
  then show ?thesis
    by (force simp: table_get_def all_segments_def dest!: map_of_SomeD split: option.splits)
qed

lemma gather_pages_frame:
  assumes "\<forall>vid \<in> set vids. \<forall>m. be_read_page be s' vid m = be_read_page be s vid m"
  shows "gather_pages be s' ps vids n = gather_pages be s ps vids n"
  using assms by (induction vids arbitrary: n) (auto simp: Let_def)

lemma update_new_key: "map_of al k = None \<Longrightarrow> AList.update k v al = al @ [(k, v)]"
  by (induction al) (auto split: if_splits)

lemma all_segments_add:
  assumes "map_of (pt_segments t) (seg_layer seg, seg_head seg, seg_segment seg) = None"
  shows "all_segments (table_add t seg) = all_segments t @ [seg]"
  using update_new_key [OF assms] by (simp add: all_segments_def table_add_def Let_def)

lemma rows_ok_select:
  "rows_ok D k \<Longrightarrow> in_range (length k) ps \<Longrightarrow> rows_ok D (map (\<lambda>p. k ! nat p) ps)"
proof (clarsimp simp: rows_ok_def in_range_iff)
  fix p assume "\<forall>r \<in> set k. length r = D" "\<forall>p \<in> set ps. 0 \<le> p \<and> p < int (length k)" "p \<in> set ps"
  moreover from this have "nat p < length k" by (simp add: nat_less_iff)
  ultimately show "length (k ! nat p) = D" by simp
qed

section \<open>Storing and gathering over any backend\<close>

context kv_storage
begin

lemma scatter_gather:
  assumes "sinv s" "distinct vids" "set vids \<subseteq> live s" "0 < ps" "ps = be_page_size be s"
    and "rows_ok (be_head_dim be s) k" "rows_ok (be_head_dim be s) v" "length k = n" "length v = n"
    and "length vids = cdiv (n - i * ps) ps"
  shows "\<exists>s'. foldM (scatter_step be ps n k v) s (List.enumerate i vids) = Inr s' \<and>
    sinv s' \<and> live s' = live s \<and> be_page_size be s' = be_page_size be s \<and>
    be_head_dim be s' = be_head_dim be s \<and>
    be_num_physical_pages be s' = be_num_physical_pages be s \<and>
    gather_pages be s' ps vids (n - i * ps) = Inr (drop (i * ps) k, drop (i * ps) v) \<and>
    (\<forall>w \<in> live s - set vids. \<forall>m. be_read_page be s' w m = be_read_page be s w m)"
  using assms
proof (induction vids arbitrary: s i)
  case Nil
  then have "n \<le> i * ps" using less_cdiv_iff [of ps 0 "n - i * ps"] by simp
  with Nil show ?case by simp
next
  case (Cons vid vids)
  let ?a = "i * ps" and ?e = "min (i * ps + ps) n"
  have lt: "?a < n" using Cons.prems(4,10) less_cdiv_iff [of ps 0 "n - ?a"] by simp
  have len: "length (slice ?a ?e k) = min ps (n - ?a)" "length (slice ?a ?e v) = min ps (n - ?a)"
    using Cons.prems lt by (auto simp: min_def)
  have rows: "rows_ok (be_head_dim be s) (slice ?a ?e k)" "rows_ok (be_head_dim be s) (slice ?a ?e v)"
    using Cons.prems(6,7) set_slice by (fastforce simp: rows_ok_def)+
  obtain s1 where s1: "be_write_page be s vid (slice ?a ?e k) (slice ?a ?e v) = Inr s1"
      "sinv s1" "live s1 = live s" "be_page_size be s1 = be_page_size be s"
      "be_head_dim be s1 = be_head_dim be s"
      "be_num_physical_pages be s1 = be_num_physical_pages be s"
      "be_read_page be s1 vid (min ps (n - ?a)) = Inr (slice ?a ?e k, slice ?a ?e v)"
      "\<forall>w \<in> live s - {vid}. \<forall>m. be_read_page be s1 w m = be_read_page be s w m"
    using write_law [of s vid "slice ?a ?e k" "slice ?a ?e v"] Cons.prems rows len by auto
  have step: "scatter_step be ps n k v s (i, vid) = Inr s1"
    using s1(1) lt Cons.prems(4) by (simp add: scatter_step_def Let_def min_def)
  have cnt: "length vids = cdiv (n - Suc i * ps) ps"
    using Cons.prems(4,10) lt cdiv_step [of ps "n - ?a"] by (simp add: diff_diff_left add.commute)
  obtain s' where s': "foldM (scatter_step be ps n k v) s1 (List.enumerate (Suc i) vids) = Inr s'"
      "sinv s'" "live s' = live s" "be_page_size be s' = be_page_size be s"
      "be_head_dim be s' = be_head_dim be s"
      "be_num_physical_pages be s' = be_num_physical_pages be s"
      "gather_pages be s' ps vids (n - Suc i * ps) = Inr (drop (Suc i * ps) k, drop (Suc i * ps) v)"
      "\<forall>w \<in> live s - set vids. \<forall>m. be_read_page be s' w m = be_read_page be s1 w m"
    using Cons.IH [of s1 "Suc i"] Cons.prems s1 cnt by auto
  have read: "be_read_page be s' vid (min ps (n - ?a)) = Inr (slice ?a ?e k, slice ?a ?e v)"
    using s'(8) s1(7) Cons.prems(2,3) by auto
  have join: "slice ?a ?e t @ drop (Suc i * ps) t = drop ?a t" if "length t = n" for t :: page
    using slice_drop [of ?a ?e t] that lt by (auto simp: min_def add.commute split: if_splits)
  have rest: "n - (?a + min ps (n - ?a)) = n - Suc i * ps"
    by (simp add: min_def add.commute)
  have "gather_pages be s' ps (vid # vids) (n - ?a) = Inr (drop ?a k, drop ?a v)"
    using read s'(7) join [OF Cons.prems(8)] join [OF Cons.prems(9)] lt Cons.prems(4)
    by (simp add: Let_def rest del: mult_Suc)
  with s' s1 step show ?case by auto
qed

lemma scatter_all:
  assumes "sinv s" "distinct vids" "set vids \<subseteq> live s" "0 < ps" "be_page_size be s = ps"
    and "rows_ok (be_head_dim be s) k" "rows_ok (be_head_dim be s) v" "length k = n" "length v = n"
    and "length vids = cdiv n ps"
  obtains s' where "foldM (scatter_step be ps n k v) s (List.enumerate 0 vids) = Inr s'"
    "sinv s'" "live s' = live s" "be_page_size be s' = ps" "be_head_dim be s' = be_head_dim be s"
    "be_num_physical_pages be s' = be_num_physical_pages be s"
    "gather_pages be s' ps vids n = Inr (k, v)"
    "\<forall>w \<in> live s. \<forall>m. w \<notin> set vids \<longrightarrow> be_read_page be s' w m = be_read_page be s w m"
proof -
  have cnt: "length vids = cdiv (n - 0 * ps) ps" using assms(10) by simp
  show thesis
    using scatter_gather [OF assms(1-4) assms(5) [symmetric] assms(6-9) cnt] assms(5) that
    by (metis Diff_iff drop0 minus_nat.diff_0 mult_0)
qed

lemma store_ok:
  assumes ok: "cache_ok be sinv live c"
    and new: "map_of (pt_segments (pc_table c)) (l, h, i) = None"
    and pos: "in_range (length k) (plan_positions plan)" "in_range (length v) (plan_positions plan)"
    and rows: "rows_ok (pc_head_dim c) k" "rows_ok (pc_head_dim c) v"
  defines "pk \<equiv> map (\<lambda>p. k ! nat p) (plan_positions plan)"
    and "pv \<equiv> map (\<lambda>p. v ! nat p) (plan_positions plan)"
  shows "\<exists>seg c'. store_head_segment be c l h i k v plan = Inr (seg, c') \<and>
    seg_layer seg = l \<and> seg_head seg = h \<and> seg_segment seg = i \<and>
    seg_positions seg = plan_positions plan \<and>
    pc_page_size c' = pc_page_size c \<and> pc_head_dim c' = pc_head_dim c \<and>
    pc_num_kv_heads c' = pc_num_kv_heads c \<and> pc_table c' = table_add (pc_table c) seg \<and>
    sinv (pc_storage c') \<and> live (pc_storage c) \<subseteq> live (pc_storage c') \<and>
    be_page_size be (pc_storage c') = pc_page_size c \<and> be_head_dim be (pc_storage c') = pc_head_dim c \<and>
    be_num_physical_pages be (pc_storage c') =
      be_num_physical_pages be (pc_storage c) + cdiv (plan_kept plan) (pc_page_size c) \<and>
    segment_ok be live (pc_storage c') (pc_page_size c) seg \<and>
    gather_segment be c' seg = Inr (pk, pv) \<and>
    (\<forall>vid \<in> live (pc_storage c). \<forall>m.
       be_read_page be (pc_storage c') vid m = be_read_page be (pc_storage c) vid m)"
proof -
  let ?ps = "pc_page_size c" and ?n = "plan_kept plan"
  have c: "sinv (pc_storage c)" "0 < ?ps" "be_page_size be (pc_storage c) = ?ps"
      "be_head_dim be (pc_storage c) = pc_head_dim c"
    using ok by (simp_all add: cache_ok_def)
  obtain vids s1 where al: "be_alloc_pages be (pc_storage c) (cdiv ?n ?ps) = (vids, s1)"
    by (cases "be_alloc_pages be (pc_storage c) (cdiv ?n ?ps)")
  note al' = alloc_law [OF c(1) al]
  have sel: "rows_ok (pc_head_dim c) pk" "rows_ok (pc_head_dim c) pv"
    using rows pos by (simp_all add: pk_def pv_def rows_ok_select)
  have len: "length pk = ?n" "length pv = ?n" by (simp_all add: pk_def pv_def plan_kept_def)
  have pre: "sinv s1" "distinct vids" "set vids \<subseteq> live s1" "be_page_size be s1 = ?ps"
      "be_head_dim be s1 = pc_head_dim c" "length vids = cdiv ?n ?ps"
    using al' c by simp_all
  have sel': "rows_ok (be_head_dim be s1) pk" "rows_ok (be_head_dim be s1) pv"
    using sel pre(5) by simp_all
  obtain s2 where s2: "foldM (scatter_step be ?ps ?n pk pv) s1 (List.enumerate 0 vids) = Inr s2"
      "sinv s2" "live s2 = live s1" "be_page_size be s2 = ?ps" "be_head_dim be s2 = be_head_dim be s1"
      "be_num_physical_pages be s2 = be_num_physical_pages be s1"
      "gather_pages be s2 ?ps vids ?n = Inr (pk, pv)"
      "\<forall>w \<in> live s1. \<forall>m. w \<notin> set vids \<longrightarrow> be_read_page be s2 w m = be_read_page be s1 w m"
    using scatter_all [OF pre(1-3) c(2) pre(4) sel' len pre(6)] .
  let ?seg = "\<lparr>seg_layer = l, seg_head = h, seg_segment = i, seg_page_ids = vids,
               seg_positions = plan_positions plan\<rparr>"
  let ?c' = "c\<lparr>pc_storage := s2, pc_table := table_add (pc_table c) ?seg\<rparr>"
  have run: "store_head_segment be c l h i k v plan = Inr (?seg, ?c')"
    using al s2(1) c(2) len
    by (simp add: store_head_segment_def Let_def index_select_ok [OF pos(1)] index_select_ok [OF pos(2)]
        pk_def [symmetric] pv_def [symmetric])
  have kept: "seg_kept ?seg = ?n" by (simp add: seg_kept_def plan_kept_def)
  have "segment_ok be live s2 ?ps ?seg"
    using al' s2(3,7) len kept by (simp add: segment_ok_def)
  moreover have "gather_segment be ?c' ?seg = Inr (pk, pv)"
    using s2(7) kept by (simp add: gather_segment_def)
  moreover have "be_read_page be s2 vid m = be_read_page be (pc_storage c) vid m"
    if "vid \<in> live (pc_storage c)" for vid m
    using that al' s2(8) by (metis UnI1 disjoint_iff)
  ultimately show ?thesis
    using run al' s2(2-6) pre(5) c(3,4) by (intro exI [of _ ?seg] exI [of _ ?c']) simp
qed

lemma store_cache_ok:
  assumes ok: "cache_ok be sinv live c"
    and new: "map_of (pt_segments (pc_table c)) (l, h, i) = None"
    and pos: "in_range (length k) (plan_positions plan)" "in_range (length v) (plan_positions plan)"
    and rows: "rows_ok (pc_head_dim c) k" "rows_ok (pc_head_dim c) v"
    and run: "store_head_segment be c l h i k v plan = Inr (seg, c')"
  shows "cache_ok be sinv live c'"
    and "be_num_physical_pages be (pc_storage c') =
      be_num_physical_pages be (pc_storage c) + cdiv (plan_kept plan) (pc_page_size c)"
    and "all_segments (pc_table c') = all_segments (pc_table c) @ [seg]"
    and "seg_kept seg = plan_kept plan"
    and "pc_page_size c' = pc_page_size c" "pc_head_dim c' = pc_head_dim c"
      "pc_num_kv_heads c' = pc_num_kv_heads c"
    and "\<And>key. map_of (pt_segments (pc_table c')) key =
      (if key = (l, h, i) then Some seg else map_of (pt_segments (pc_table c)) key)"
proof -
  note st = store_ok [OF ok new pos rows]
  have f: "pc_table c' = table_add (pc_table c) seg" "seg_layer seg = l" "seg_head seg = h"
      "seg_segment seg = i" "seg_positions seg = plan_positions plan"
    using st run by auto
  from new have new': "map_of (pt_segments (pc_table c)) (seg_layer seg, seg_head seg, seg_segment seg) = None"
    by (simp add: f)
  have old: "segment_ok be live (pc_storage c') (pc_page_size c) sg"
    if "sg \<in> set (all_segments (pc_table c))" for sg
  proof -
    have sg: "segment_ok be live (pc_storage c) (pc_page_size c) sg"
      using ok that by (simp add: cache_ok_def)
    then have "gather_pages be (pc_storage c') (pc_page_size c) (seg_page_ids sg) (seg_kept sg)
        = gather_pages be (pc_storage c) (pc_page_size c) (seg_page_ids sg) (seg_kept sg)"
      using st run by (intro gather_pages_frame) (auto simp: segment_ok_def)
    with sg st run show ?thesis by (auto simp: segment_ok_def)
  qed
  show all: "all_segments (pc_table c') = all_segments (pc_table c) @ [seg]"
    using all_segments_add [OF new'] by (simp add: f)
  show keys: "map_of (pt_segments (pc_table c')) key =
      (if key = (l, h, i) then Some seg else map_of (pt_segments (pc_table c)) key)" for key
    by (auto simp: f table_add_def Let_def update_conv')
  have "distinct (map fst (pt_segments (pc_table c')))"
    using ok by (simp add: f table_add_def Let_def cache_ok_def distinct_update)
  moreover have "map_of (pt_segments (pc_table c')) (l', h', j) \<noteq> None"
    if "j \<in> set (dict_get_list (pt_head_segments (pc_table c')) (l', h'))" for l' h' j
    using that ok keys by (auto simp: f table_add_def Let_def cache_ok_def split: if_splits)
  ultimately show "cache_ok be sinv live c'"
    using ok st run old all by (auto simp: cache_ok_def)
  show "be_num_physical_pages be (pc_storage c') =
      be_num_physical_pages be (pc_storage c) + cdiv (plan_kept plan) (pc_page_size c)"
    "seg_kept seg = plan_kept plan" "pc_page_size c' = pc_page_size c"
    "pc_head_dim c' = pc_head_dim c" "pc_num_kv_heads c' = pc_num_kv_heads c"
    using st run by (auto simp: seg_kept_def plan_kept_def)
qed

lemma gather_segment_frame:
  assumes "cache_ok be sinv live c" "seg \<in> set (all_segments (pc_table c))"
    and "pc_page_size c' = pc_page_size c"
    and "\<forall>vid \<in> live (pc_storage c). \<forall>m.
       be_read_page be (pc_storage c') vid m = be_read_page be (pc_storage c) vid m"
  shows "gather_segment be c' seg = gather_segment be c seg"
proof -
  have "set (seg_page_ids seg) \<subseteq> live (pc_storage c)"
    using assms(1,2) by (auto simp: cache_ok_def segment_ok_def)
  then show ?thesis
    unfolding gather_segment_def assms(3) using assms(4) by (intro gather_pages_frame) blast
qed

lemma gather_head_total:
  assumes "cache_ok be sinv live c"
  shows "\<exists>k v. gather_head be c l h = Inr (k, v)"
proof -
  have "\<exists>segs. segments_of (pc_table c) l h = Inr segs"
    unfolding segments_of_def using assms
    by (intro mmap_defined) (fastforce simp: cache_ok_def table_get_def)
  then obtain segs where segs: "segments_of (pc_table c) l h = Inr segs" by blast
  have "\<exists>parts. mmap (gather_segment be c) segs = Inr parts"
  proof (rule mmap_defined)
    fix seg assume "seg \<in> set segs"
    then have "seg \<in> set (all_segments (pc_table c))" by (rule segments_of_mem [OF segs])
    then show "\<exists>x. gather_segment be c seg = Inr x"
      using assms unfolding cache_ok_def segment_ok_def gather_segment_def by blast
  qed
  with segs show ?thesis by (auto simp: gather_head_def)
qed

lemma gather_head_store:
  assumes ok: "cache_ok be sinv live c"
    and new: "map_of (pt_segments (pc_table c)) (l, h, i) = None"
    and pos: "in_range (length k) (plan_positions plan)" "in_range (length v) (plan_positions plan)"
    and rows: "rows_ok (pc_head_dim c) k" "rows_ok (pc_head_dim c) v"
    and run: "store_head_segment be c l h i k v plan = Inr (seg, c')"
  shows "gather_head be c' l' h' =
    (if (l', h') = (l, h)
     then rbind (gather_head be c l h) (\<lambda>(a, b).
        Inr (a @ map (\<lambda>p. k ! nat p) (plan_positions plan),
             b @ map (\<lambda>p. v ! nat p) (plan_positions plan)))
     else gather_head be c l' h')"
proof -
  note st = store_ok [OF ok new pos rows]
  have f: "pc_table c' = table_add (pc_table c) seg" "seg_layer seg = l" "seg_head seg = h"
      "seg_segment seg = i" "pc_page_size c' = pc_page_size c"
      "gather_segment be c' seg = Inr (map (\<lambda>p. k ! nat p) (plan_positions plan),
         map (\<lambda>p. v ! nat p) (plan_positions plan))"
      "\<forall>vid \<in> live (pc_storage c). \<forall>m.
         be_read_page be (pc_storage c') vid m = be_read_page be (pc_storage c) vid m"
    using st run by auto
  have old: "mmap (gather_segment be c') segs = mmap (gather_segment be c) segs"
    if "segments_of (pc_table c) l' h' = Inr segs" for segs
    by (rule mmap_cong [OF refl], rule gather_segment_frame [OF ok _ f(5,7)])
       (rule segments_of_mem [OF that])
  have "segments_of (table_add (pc_table c) seg) l' h' =
      (if (l', h') = (l, h) then rbind (segments_of (pc_table c) l' h') (\<lambda>segs. Inr (segs @ [seg]))
       else segments_of (pc_table c) l' h')"
    using segments_of_add [of "pc_table c" seg l' h'] new ok f
    by (auto simp: cache_ok_def)
  then show ?thesis
    using old f(6) unfolding gather_head_def f(1)
    by (cases "segments_of (pc_table c) l' h'")
       (auto simp: mmap_append rbind_assoc intro!: rbind_cong split: if_splits)
qed

end

section \<open>LocalPagedPool provides the contract\<close>

definition pool_ok :: "local_paged_pool \<Rightarrow> bool" where
  "pool_ok p \<longleftrightarrow>
     next_phys p = next_virt p \<and> length (k_pages p) = next_phys p \<and> length (v_pages p) = next_phys p \<and>
     (\<forall>vid. virt_to_phys p vid = (if vid < next_virt p then Some vid else None)) \<and>
     (\<forall>pg \<in> set (k_pages p) \<union> set (v_pages p). length pg = pl_page_size p)"

definition pool_live :: "local_paged_pool \<Rightarrow> nat set" where
  "pool_live p = {vid. virt_to_phys p vid \<noteq> None}"

lemma pool_live_eq: "pool_ok p \<Longrightarrow> pool_live p = {..<next_virt p}"
  by (auto simp: pool_live_def pool_ok_def split: if_splits)

lemma local_backend_simps [simp]:
  "be_page_size local_backend = pl_page_size" "be_head_dim local_backend = pl_head_dim"
  "be_alloc_pages local_backend = alloc_pages" "be_write_page local_backend = write_page"
  "be_read_page local_backend = read_page" "be_num_physical_pages local_backend = num_physical_pages"
  by (simp_all add: local_backend_def)

lemma read_page_eq:
  "pool_ok p \<Longrightarrow> vid < next_virt p \<Longrightarrow>
   read_page p vid n = Inr (take n (k_pages p ! vid), take n (v_pages p ! vid))"
  by (simp add: read_page_def virt_lookup_def pool_ok_def)

lemma alloc_one_ok:
  assumes "pool_ok p" "alloc_one_page p = (vid, p')"
  shows "pool_ok p' \<and> vid = next_virt p \<and> next_virt p' = Suc (next_virt p) \<and>
    pl_page_size p' = pl_page_size p \<and> pl_head_dim p' = pl_head_dim p \<and>
    (\<forall>w < next_virt p. \<forall>m. read_page p' w m = read_page p w m)"
proof -
  have p': "vid = next_virt p" "next_virt p' = Suc (next_virt p)" "pl_page_size p' = pl_page_size p"
      "pl_head_dim p' = pl_head_dim p" "k_pages p' = k_pages p @ [zero_page (pl_page_size p) (pl_head_dim p)]"
      "v_pages p' = v_pages p @ [zero_page (pl_page_size p) (pl_head_dim p)]"
      "virt_to_phys p' = (virt_to_phys p)(next_virt p \<mapsto> next_phys p)" "next_phys p' = Suc (next_phys p)"
    using assms(2) by (auto simp: alloc_one_page_def Let_def)
  have ok': "pool_ok p'"
    using assms(1) by (auto simp: pool_ok_def p' zero_page_def)
  moreover have "read_page p' w m = read_page p w m" if "w < next_virt p" for w m
    using that assms(1) ok' by (simp add: read_page_eq p') (simp add: nth_append pool_ok_def)
  ultimately show ?thesis by (simp add: p')
qed

lemma alloc_pages_ok:
  assumes "pool_ok p" "alloc_pages p n = (vids, p')"
  shows "pool_ok p' \<and> vids = [next_virt p..<next_virt p + n] \<and> next_virt p' = next_virt p + n \<and>
    pl_page_size p' = pl_page_size p \<and> pl_head_dim p' = pl_head_dim p \<and>
    (\<forall>w < next_virt p. \<forall>m. read_page p' w m = read_page p w m)"
  using assms
proof (induction n arbitrary: p vids)
  case (Suc n)
  obtain vid p1 vs where one: "alloc_one_page p = (vid, p1)" and rest: "alloc_pages p1 n = (vs, p')"
      "vids = vid # vs"
    using Suc.prems(2) by (auto simp: Let_def split: prod.splits)
  note o = alloc_one_ok [OF Suc.prems(1) one]
  then have "pool_ok p1" by blast
  from Suc.IH [OF this rest(1)] o rest(2) show ?case
    by (auto simp: upt_conv_Cons)
qed auto

lemma page_assign_ok:
  assumes "phys < length pages" "length (pages ! phys) = ps" "n \<le> ps" "length t = n" "rows_ok D t"
  shows "page_assign D pages phys n t = Inr (pages[phys := t @ drop n (pages ! phys)])"
proof -
  have "mmap (assign_row D) t = Inr (map id t)"
    using assms(5) by (intro mmap_total) (simp add: assign_row_def rows_ok_def)
  with assms show ?thesis by (simp add: page_assign_def assign_rows_def min_absorb1)
qed

lemma write_page_ok:
  assumes "pool_ok p" "vid < next_virt p" "length k \<le> pl_page_size p" "length v = length k"
    "rows_ok (pl_head_dim p) k" "rows_ok (pl_head_dim p) v"
  shows "\<exists>p'. write_page p vid k v = Inr p' \<and> pool_ok p' \<and> next_virt p' = next_virt p \<and>
    pl_page_size p' = pl_page_size p \<and> pl_head_dim p' = pl_head_dim p \<and>
    read_page p' vid (length k) = Inr (k, v) \<and>
    (\<forall>w < next_virt p. w \<noteq> vid \<longrightarrow> (\<forall>m. read_page p' w m = read_page p w m))"
proof -
  let ?k = "(k_pages p)[vid := k @ drop (length k) (k_pages p ! vid)]"
  let ?v = "(v_pages p)[vid := v @ drop (length k) (v_pages p ! vid)]"
  let ?p = "p\<lparr>k_pages := ?k, v_pages := ?v\<rparr>"
  have len: "vid < length (k_pages p)" "vid < length (v_pages p)"
      "length (k_pages p ! vid) = pl_page_size p" "length (v_pages p ! vid) = pl_page_size p"
    using assms(1,2) by (auto simp: pool_ok_def)
  have run: "write_page p vid k v = Inr ?p"
    using assms len
    by (simp add: write_page_def Let_def virt_lookup_def pool_ok_def page_assign_ok)
  have ok: "pool_ok ?p"
    using assms len unfolding pool_ok_def
    by (auto dest!: set_update_subset_insert [THEN subsetD])
  have "read_page ?p vid (length k) = Inr (k, v)"
    using ok assms(2,4) len by (simp add: read_page_eq)
  moreover have "read_page ?p w m = read_page p w m" if "w < next_virt p" "w \<noteq> vid" for w m
    using that ok assms(1) by (simp add: read_page_eq)
  ultimately show ?thesis using run ok by (intro exI [of _ ?p]) simp
qed

interpretation pool: kv_storage local_backend pool_ok pool_live
proof
  fix s n vids s'
  assume ok: "pool_ok s" and al: "be_alloc_pages local_backend s n = (vids, s')"
  then have "alloc_pages s n = (vids, s')" by (simp add: local_backend_def)
  note a = alloc_pages_ok [OF ok this]
  then have ok': "pool_ok s'" by blast
  show "pool_ok s' \<and> length vids = n \<and> distinct vids \<and> set vids \<inter> pool_live s = {} \<and>
      pool_live s' = pool_live s \<union> set vids \<and>
      be_page_size local_backend s' = be_page_size local_backend s \<and>
      be_head_dim local_backend s' = be_head_dim local_backend s \<and>
      be_num_physical_pages local_backend s' = be_num_physical_pages local_backend s + n \<and>
      (\<forall>vid \<in> pool_live s. \<forall>m. be_read_page local_backend s' vid m = be_read_page local_backend s vid m)"
    using a ok ok'
    by (auto simp: pool_live_eq local_backend_def num_physical_pages_def pool_ok_def)
next
  fix s vid k v
  assume "pool_ok s" "vid \<in> pool_live s" "length k \<le> be_page_size local_backend s"
    "length v = length k" "rows_ok (be_head_dim local_backend s) k" "rows_ok (be_head_dim local_backend s) v"
  then have "pool_ok s" "vid < next_virt s" "length k \<le> pl_page_size s"
    "length v = length k" "rows_ok (pl_head_dim s) k" "rows_ok (pl_head_dim s) v"
    by (simp_all add: local_backend_def pool_live_eq)
  from write_page_ok [OF this] \<open>pool_ok s\<close>
  show "\<exists>s'. be_write_page local_backend s vid k v = Inr s' \<and> pool_ok s' \<and>
        pool_live s' = pool_live s \<and>
        be_page_size local_backend s' = be_page_size local_backend s \<and>
        be_head_dim local_backend s' = be_head_dim local_backend s \<and>
        be_num_physical_pages local_backend s' = be_num_physical_pages local_backend s \<and>
        be_read_page local_backend s' vid (length k) = Inr (k, v) \<and>
        (\<forall>w \<in> pool_live s - {vid}. \<forall>m. be_read_page local_backend s' w m = be_read_page local_backend s w m)"
    by (auto simp: local_backend_def pool_live_eq num_physical_pages_def pool_ok_def)
qed

section \<open>Building the cache of one layer\<close>

definition kv_select :: "page \<Rightarrow> head_visible_plan \<Rightarrow> page" where
  "kv_select t plan = map (\<lambda>p. t ! nat p) (plan_positions plan)"

text \<open>Shapes a caller of \<^verbatim>\<open>build_paged_cache\<close> provides: one plan per head, into that head's rows.\<close>

definition dense_ok :: "nat \<Rightarrow> page list \<Rightarrow> page list \<Rightarrow> head_visible_plan list \<Rightarrow> bool" where
  "dense_ok D k v plans \<longleftrightarrow>
     length v = length k \<and> length plans = length k \<and>
     (\<forall>h < length k. rows_ok D (k ! h) \<and> rows_ok D (v ! h) \<and>
        in_range (length (k ! h)) (plan_positions (plans ! h)) \<and>
        in_range (length (v ! h)) (plan_positions (plans ! h)))"

lemma pool_init_ok: "pool_ok (local_paged_pool_init D ps)"
  by (simp add: pool_ok_def local_paged_pool_init_def)

lemma cache_init_ok:
  "0 < ps \<Longrightarrow> cache_ok local_backend pool_ok pool_live
     (paged_cache_init H D ps (local_paged_pool_init D ps))"
  using pool_init_ok [of D ps]
  by (simp add: cache_ok_def paged_cache_init_def page_table_init_def all_segments_def
      dict_get_list_def local_backend_def local_paged_pool_init_def)

lemma build_prefix:
  assumes ok: "dense_ok D k v plans" and ps: "0 < ps" and n: "n \<le> length k"
  shows "\<exists>c. foldM (build_head k v plans layer)
          (paged_cache_init (length k) D ps (local_paged_pool_init D ps)) [0..<n] = Inr c \<and>
    cache_ok local_backend pool_ok pool_live c \<and> pc_page_size c = ps \<and> pc_head_dim c = D \<and>
    pc_num_kv_heads c = length k \<and>
    (\<forall>h. gather_head local_backend c layer (int h) =
       Inr (if h < n then (kv_select (k ! h) (plans ! h), kv_select (v ! h) (plans ! h)) else ([], []))) \<and>
    (\<forall>h \<ge> n. map_of (pt_segments (pc_table c)) (layer, int h, 0) = None) \<and>
    num_physical_pages (pc_storage c) = (\<Sum>h<n. cdiv (plan_kept (plans ! h)) ps) \<and>
    stored_token_count c = (\<Sum>h<n. plan_kept (plans ! h))"
  using n
proof (induction n)
  case 0
  show ?case
    using cache_init_ok [OF ps]
    by (simp add: paged_cache_init_def page_table_init_def gather_head_def segments_of_def
        dict_get_list_def stored_token_count_def all_segments_def num_physical_pages_def
        local_paged_pool_init_def)
next
  case (Suc n)
  then obtain c where c: "foldM (build_head k v plans layer)
          (paged_cache_init (length k) D ps (local_paged_pool_init D ps)) [0..<n] = Inr c"
      "cache_ok local_backend pool_ok pool_live c" "pc_page_size c = ps" "pc_head_dim c = D"
      "pc_num_kv_heads c = length k"
      "\<forall>h. gather_head local_backend c layer (int h) =
       Inr (if h < n then (kv_select (k ! h) (plans ! h), kv_select (v ! h) (plans ! h)) else ([], []))"
      "\<forall>h \<ge> n. map_of (pt_segments (pc_table c)) (layer, int h, 0) = None"
      "num_physical_pages (pc_storage c) = (\<Sum>h<n. cdiv (plan_kept (plans ! h)) ps)"
      "stored_token_count c = (\<Sum>h<n. plan_kept (plans ! h))"
    by auto
  have n: "n < length k" "n < length v" "n < length plans"
    using Suc.prems ok by (auto simp: dense_ok_def)
  have h: "in_range (length (k ! n)) (plan_positions (plans ! n))"
      "in_range (length (v ! n)) (plan_positions (plans ! n))"
      "rows_ok (pc_head_dim c) (k ! n)" "rows_ok (pc_head_dim c) (v ! n)"
    using ok n(1) c(4) by (simp_all add: dense_ok_def)
  have new: "map_of (pt_segments (pc_table c)) (layer, int n, 0) = None" using c(7) by simp
  obtain seg c' where run:
    "store_head_segment local_backend c layer (int n) 0 (k ! n) (v ! n) (plans ! n) = Inr (seg, c')"
    using pool.store_ok [OF c(2) new h] by blast
  note st = pool.store_cache_ok [OF c(2) new h run]
  have pages: "num_physical_pages (pc_storage c') =
      num_physical_pages (pc_storage c) + cdiv (plan_kept (plans ! n)) ps"
    using st(2) c(3) by (simp add: local_backend_def)
  have gh: "gather_head local_backend c' layer (int h) =
       Inr (if h < Suc n then (kv_select (k ! h) (plans ! h), kv_select (v ! h) (plans ! h)) else ([], []))"
    for h
    using pool.gather_head_store [OF c(2) new h run, of layer "int h"] c(6)
    by (auto simp: kv_select_def)
  have cnt: "stored_token_count c' = stored_token_count c + plan_kept (plans ! n)"
    using st(3,4) by (simp add: stored_token_count_def)
  have step: "build_head k v plans layer c n = Inr c'"
    using n run by (simp add: build_head_def)
  show ?case
    using c(1) step st(1,5,6,7) c(3,4,5,7,8,9) pages gh cnt
    by (intro exI [of _ c']) (simp add: foldM_append st(8))
qed

lemma build_paged_cache_ok:
  assumes "dense_ok D k v plans" "0 < ps"
  shows "\<exists>c. build_paged_cache D k v plans ps layer = Inr c \<and>
    cache_ok local_backend pool_ok pool_live c \<and> pc_page_size c = ps \<and> pc_num_kv_heads c = length k \<and>
    (\<forall>h < length k. gather_head local_backend c layer (int h) =
       Inr (kv_select (k ! h) (plans ! h), kv_select (v ! h) (plans ! h))) \<and>
    num_physical_pages (pc_storage c) = (\<Sum>h<length k. cdiv (plan_kept (plans ! h)) ps) \<and>
    stored_token_count c = (\<Sum>h<length k. plan_kept (plans ! h))"
proof -
  have "length plans = length k" using assms(1) by (simp add: dense_ok_def)
  with build_prefix [OF assms order_refl, of layer] show ?thesis
    unfolding build_paged_cache_def Let_def by (simp only: simp_thms if_False) force
qed

lemma page_sum_bounds:
  assumes "0 < (ps::nat)"
  shows "(\<Sum>h<H. f h) \<le> (\<Sum>h<H. cdiv (f h) ps) * ps"
    and "(\<Sum>h<H. cdiv (f h) ps) * ps \<le> (\<Sum>h<H. f h) + H * (ps - 1)"
proof -
  show "(\<Sum>h<H. f h) \<le> (\<Sum>h<H. cdiv (f h) ps) * ps"
    unfolding sum_distrib_right by (intro sum_mono cdiv_mult_ge assms)
  have "(\<Sum>h<H. cdiv (f h) ps * ps) \<le> (\<Sum>h<H. f h + (ps - 1))"
    using cdiv_mult_less [OF assms] assms by (intro sum_mono) (metis Nat.le_diff_conv2 One_nat_def
      Suc_leI add.commute add_diff_assoc le_add1 less_iff_Suc_add less_Suc_eq_le plus_1_eq_Suc)
  then show "(\<Sum>h<H. cdiv (f h) ps) * ps \<le> (\<Sum>h<H. f h) + H * (ps - 1)"
    by (simp add: sum_distrib_right sum.distrib)
qed

section \<open>Properties\<close>


text \<open>
  \<^verbatim>\<open>build_paged_cache\<close> returns on well-shaped inputs; each head reads back exactly the rows of
  its plan. The pool holds the sum over the heads of their rounded-up page counts: every stored
  token fits, and at most one partial page per head is wasted.
\<close>

theorem build_paged_cache_capacity:
  assumes "dense_ok D k v plans" "0 < ps"
  shows "\<exists>c. build_paged_cache D k v plans ps layer = Inr c \<and>
    (\<forall>h. h < length k \<longrightarrow> gather_head local_backend c layer (int h) =
       Inr (kv_select (k ! h) (plans ! h), kv_select (v ! h) (plans ! h))) \<and>
    stored_token_count c = (\<Sum>h<length k. plan_kept (plans ! h)) \<and>
    stored_token_count c \<le> num_physical_pages (pc_storage c) * ps \<and>
    num_physical_pages (pc_storage c) * ps \<le> stored_token_count c + length k * (ps - 1)"
  using build_paged_cache_ok [OF assms, of layer]
    page_sum_bounds [OF assms(2), of "\<lambda>h. plan_kept (plans ! h)" "length k"]
  by auto

section \<open>Witnesses\<close>

definition sample_cache :: "local_paged_pool paged_cache" where
  "sample_cache = paged_cache_init 1 2 2 (local_paged_pool_init 2 2)"

definition sample_kv :: page where
  "sample_kv = [[1, 2], [3, 4], [5, 6], [7, 8]]"


theorem build_paged_cache_capacity_witness:
  "\<exists>c. build_paged_cache 2 [sample_kv] [sample_kv] [custom_plan 4 [3, 0, 1]] 2 0 = Inr c \<and>
    stored_token_count c = 3 \<and>
    num_physical_pages (pc_storage c) * 2 \<le> stored_token_count c + 1 * (2 - 1)"
proof -
  have plan: "plan_positions (custom_plan 4 [3, 0, 1]) = [0, 1, 3]" by code_simp
  have "dense_ok 2 [sample_kv] [sample_kv] [custom_plan 4 [3, 0, 1]]"
    by (simp add: dense_ok_def sample_kv_def rows_ok_def plan in_range_iff)
  from build_paged_cache_capacity [OF this, of 2 0] show ?thesis
    by (auto simp: plan_kept_def plan)
qed

end
