(* ===== verification/Offline_Cache.thy ===== *)
theory Offline_Cache
  imports Paged_Storage
begin

text \<open>
  The LRU store of pre-filled segments, \<^verbatim>\<open>redknot/offline_cache.py\<close>.

  The ordered dict is an association list, least recently used first. A device is its type string
  and an index; every mutating method holds the lock for its whole body, so each is one step.
  \<^verbatim>\<open>_enforce_limits\<close> and \<^verbatim>\<open>to_device\<close> call each other, one level per offloaded segment; the first
  argument of \<open>enforce_limits\<close> is the number of such levels the interpreter still allows, and
  running out of them is the \<open>RuntimeError\<close> Python raises. The lemmas show that fewer device
  segments than levels are always enough, that the two byte counters are exact, and that both
  ceilings hold after every call. Key hashing (\<^verbatim>\<open>compute_segment_id\<close>) is not modelled.
\<close>

section \<open>Definitions\<close>

record device =
  dev_type :: string
  dev_index :: int

definition is_cuda :: "device \<Rightarrow> bool" where
  "is_cuda d \<longleftrightarrow> dev_type d = ''cuda''"

definition cpu :: device where
  "cpu = \<lparr>dev_type = ''cpu'', dev_index = -1\<rparr>"

text \<open>A layer's K or V of shape \<^verbatim>\<open>[1, H, L, D]\<close> is a list of heads; \<open>None\<close> is a placeholder.\<close>

type_synonym kv_tensor = "page list"
type_synonym kv_pair = "kv_tensor option \<times> kv_tensor option"

record offline_segment =
  os_segment_id :: string
  os_token_ids :: "int list"
  os_doc_len :: nat
  os_kv :: "kv_pair list"
  os_device :: device
  os_nbytes :: nat

definition numel :: "kv_tensor \<Rightarrow> nat" where
  "numel t = sum_list (map (\<lambda>h. sum_list (map length h)) t)"

definition pair_nbytes :: "nat \<Rightarrow> kv_pair \<Rightarrow> nat" where
  "pair_nbytes elt = (\<lambda>(k, v).
     case (k, v) of (Some k, Some v) \<Rightarrow> numel k * elt + numel v * elt | _ \<Rightarrow> 0)"

definition kv_nbytes :: "nat \<Rightarrow> kv_pair list \<Rightarrow> nat" where
  "kv_nbytes elt kv = foldl (\<lambda>n kv. n + pair_nbytes elt kv) 0 kv"

definition build_offline_segment ::
  "nat \<Rightarrow> device \<Rightarrow> string \<Rightarrow> int list \<Rightarrow> kv_pair list \<Rightarrow> offline_segment result" where
  "build_offline_segment elt kv_device sid token_ids kv =
     rbind (rassert (kv \<noteq> []) AssertionError) (\<lambda>_.
     rbind (rassert (find (\<lambda>pair. fst pair \<noteq> None) kv \<noteq> None) AssertionError) (\<lambda>_.
     Inr \<lparr>os_segment_id = sid, os_token_ids = token_ids, os_doc_len = length token_ids,
          os_kv = kv, os_device = kv_device, os_nbytes = kv_nbytes elt kv\<rparr>))"

record offline_cache =
  segments :: "(string \<times> offline_segment) list"
  max_device_bytes :: "nat option"
  max_host_bytes :: "nat option"
  device_bytes :: int
  host_bytes :: int

definition offline_cache_init :: "nat option \<Rightarrow> nat option \<Rightarrow> offline_cache" where
  "offline_cache_init max_dev max_host =
     \<lparr>segments = [], max_device_bytes = max_dev, max_host_bytes = max_host,
      device_bytes = 0, host_bytes = 0\<rparr>"

text \<open>\<^verbatim>\<open>OrderedDict.pop\<close> and \<^verbatim>\<open>OrderedDict.move_to_end\<close>\<close>

definition od_remove :: "('k \<times> 'v) list \<Rightarrow> 'k \<Rightarrow> ('k \<times> 'v) list" where
  "od_remove d k = filter (\<lambda>e. fst e \<noteq> k) d"

definition od_move_to_end :: "('k \<times> 'v) list \<Rightarrow> 'k \<Rightarrow> ('k \<times> 'v) list" where
  "od_move_to_end d k = (case map_of d k of None \<Rightarrow> d | Some v \<Rightarrow> od_remove d k @ [(k, v)])"

definition add_bytes :: "offline_segment \<Rightarrow> int \<Rightarrow> offline_cache \<Rightarrow> offline_cache" where
  "add_bytes seg n c =
     (if is_cuda (os_device seg) then c\<lparr>device_bytes := device_bytes c + n\<rparr>
      else c\<lparr>host_bytes := host_bytes c + n\<rparr>)"

text \<open>The body of \<^verbatim>\<open>to_device\<close> before the ceilings are enforced: copy, move the byte count, promote.\<close>

definition relocate :: "offline_cache \<Rightarrow> string \<Rightarrow> offline_segment \<Rightarrow> device \<Rightarrow> offline_cache" where
  "relocate c sid seg dev =
     (let c1 = (if is_cuda (os_device seg) \<and> \<not> is_cuda dev then
                  c\<lparr>device_bytes := device_bytes c - int (os_nbytes seg),
                    host_bytes := host_bytes c + int (os_nbytes seg)\<rparr>
                else if \<not> is_cuda (os_device seg) \<and> is_cuda dev then
                  c\<lparr>host_bytes := host_bytes c - int (os_nbytes seg),
                    device_bytes := device_bytes c + int (os_nbytes seg)\<rparr>
                else c)
      in c1\<lparr>segments := od_remove (segments c1) sid @ [(sid, seg\<lparr>os_device := dev\<rparr>)]\<rparr>)"

fun host_loop :: "nat \<Rightarrow> string list \<Rightarrow> offline_cache \<Rightarrow> offline_cache result" where
  "host_loop limit [] c = Inr c"
| "host_loop limit (sid # sids) c =
     (if device_bytes c + host_bytes c \<le> int limit then Inr c
      else case map_of (segments c) sid of
        None \<Rightarrow> Inl KeyError
      | Some seg \<Rightarrow>
          host_loop limit sids
            (add_bytes seg (- int (os_nbytes seg)) (c\<lparr>segments := od_remove (segments c) sid\<rparr>)))"

definition host_phase :: "offline_cache \<Rightarrow> offline_cache result" where
  "host_phase c =
     (case max_host_bytes c of
        None \<Rightarrow> Inr c
      | Some h \<Rightarrow>
          host_loop ((case max_device_bytes c of None \<Rightarrow> 0 | Some m \<Rightarrow> m) + h)
            (map fst (segments c)) c)"

text \<open>The first loop of \<^verbatim>\<open>_enforce_limits\<close>, given the nested call that \<^verbatim>\<open>to_device\<close> makes.\<close>

fun device_loop ::
  "(offline_cache \<Rightarrow> offline_cache result) \<Rightarrow> nat \<Rightarrow> string list \<Rightarrow> offline_cache \<Rightarrow> offline_cache result" where
  "device_loop enforce limit [] c = Inr c"
| "device_loop enforce limit (sid # sids) c =
     (if device_bytes c \<le> int limit then Inr c
      else case map_of (segments c) sid of
        None \<Rightarrow> Inl KeyError
      | Some seg \<Rightarrow>
          if is_cuda (os_device seg)
          then rbind (enforce (relocate c sid seg cpu)) (device_loop enforce limit sids)
          else device_loop enforce limit sids c)"

primrec enforce_limits :: "nat \<Rightarrow> offline_cache \<Rightarrow> offline_cache result" where
  "enforce_limits 0 c = Inl RuntimeError"
| "enforce_limits (Suc depth) c =
     rbind (case max_device_bytes c of
              None \<Rightarrow> Inr c
            | Some m \<Rightarrow> device_loop (enforce_limits depth) m (map fst (segments c)) c)
       host_phase"

definition to_device ::
  "nat \<Rightarrow> offline_cache \<Rightarrow> string \<Rightarrow> device \<Rightarrow> (offline_segment option \<times> offline_cache) result" where
  "to_device depth c sid dev =
     (case map_of (segments c) sid of
        None \<Rightarrow> Inr (None, c)
      | Some seg \<Rightarrow>
          if os_device seg = dev
          then Inr (Some seg, c\<lparr>segments := od_move_to_end (segments c) sid\<rparr>)
          else rbind (enforce_limits depth (relocate c sid seg dev)) (\<lambda>c'.
               Inr (Some (seg\<lparr>os_device := dev\<rparr>), c')))"

definition offload :: "nat \<Rightarrow> offline_cache \<Rightarrow> string \<Rightarrow> offline_cache result" where
  "offload depth c sid = rbind (to_device depth c sid cpu) (\<lambda>(_, c'). Inr c')"

definition put :: "nat \<Rightarrow> offline_cache \<Rightarrow> offline_segment \<Rightarrow> offline_cache result" where
  "put depth c seg =
     (if os_segment_id seg \<in> fst ` set (segments c)
      then Inr (c\<lparr>segments := od_move_to_end (segments c) (os_segment_id seg)\<rparr>)
      else enforce_limits depth
        (add_bytes seg (int (os_nbytes seg))
          (c\<lparr>segments := segments c @ [(os_segment_id seg, seg)]\<rparr>)))"

definition get_segment :: "offline_cache \<Rightarrow> string \<Rightarrow> offline_segment option \<times> offline_cache" where
  "get_segment c sid =
     (case map_of (segments c) sid of
        None \<Rightarrow> (None, c)
      | Some seg \<Rightarrow> (Some seg, c\<lparr>segments := od_move_to_end (segments c) (os_segment_id seg)\<rparr>))"

definition has_segment :: "offline_cache \<Rightarrow> string \<Rightarrow> bool" where
  "has_segment c sid \<longleftrightarrow> sid \<in> fst ` set (segments c)"

definition drop_segment :: "offline_cache \<Rightarrow> string \<Rightarrow> offline_cache" where
  "drop_segment c sid =
     (case map_of (segments c) sid of
        None \<Rightarrow> c
      | Some seg \<Rightarrow>
          add_bytes seg (- int (os_nbytes seg)) (c\<lparr>segments := od_remove (segments c) sid\<rparr>))"

definition clear_cache :: "offline_cache \<Rightarrow> offline_cache" where
  "clear_cache c = c\<lparr>segments := [], device_bytes := 0, host_bytes := 0\<rparr>"

definition cache_stats :: "offline_cache \<Rightarrow> nat \<times> int \<times> int" where
  "cache_stats c = (length (segments c), device_bytes c, host_bytes c)"

section \<open>Invariant\<close>

definition resident_bytes :: "(device \<Rightarrow> bool) \<Rightarrow> (string \<times> offline_segment) list \<Rightarrow> nat" where
  "resident_bytes P d = sum_list (map (\<lambda>(_, seg). if P (os_device seg) then os_nbytes seg else 0) d)"

definition cuda_count :: "offline_cache \<Rightarrow> nat" where
  "cuda_count c = length (filter (\<lambda>(_, seg). is_cuda (os_device seg)) (segments c))"

definition cache_inv :: "offline_cache \<Rightarrow> bool" where
  "cache_inv c \<longleftrightarrow>
     distinct (map fst (segments c)) \<and>
     (\<forall>(sid, seg) \<in> set (segments c). os_segment_id seg = sid) \<and>
     device_bytes c = int (resident_bytes is_cuda (segments c)) \<and>
     host_bytes c = int (resident_bytes (\<lambda>d. \<not> is_cuda d) (segments c))"

definition within_limits :: "offline_cache \<Rightarrow> bool" where
  "within_limits c \<longleftrightarrow>
     (\<forall>m. max_device_bytes c = Some m \<longrightarrow> device_bytes c \<le> int m) \<and>
     (\<forall>h. max_host_bytes c = Some h \<longrightarrow>
        device_bytes c + host_bytes c \<le>
        int ((case max_device_bytes c of None \<Rightarrow> 0 | Some m \<Rightarrow> m) + h))"

inductive offline_reachable :: "nat \<Rightarrow> offline_cache \<Rightarrow> bool" for depth where
  init: "offline_reachable depth (offline_cache_init md mh)"
| put: "offline_reachable depth c \<Longrightarrow> put depth c seg = Inr c' \<Longrightarrow> offline_reachable depth c'"
| get: "offline_reachable depth c \<Longrightarrow> get_segment c sid = (r, c') \<Longrightarrow> offline_reachable depth c'"
| drop: "offline_reachable depth c \<Longrightarrow> offline_reachable depth (drop_segment c sid)"
| move: "offline_reachable depth c \<Longrightarrow> to_device depth c sid dev = Inr (r, c') \<Longrightarrow>
    offline_reachable depth c'"
| clear: "offline_reachable depth c \<Longrightarrow> offline_reachable depth (clear_cache c)"

section \<open>Byte accounting\<close>

lemma resident_append [simp]: "resident_bytes P (d @ e) = resident_bytes P d + resident_bytes P e"
  by (simp add: resident_bytes_def)

lemma resident_Nil [simp]: "resident_bytes P [] = 0"
  by (simp add: resident_bytes_def)

lemma resident_Cons [simp]:
  "resident_bytes P ((sid, seg) # d) = (if P (os_device seg) then os_nbytes seg else 0) + resident_bytes P d"
  by (simp add: resident_bytes_def)

lemma od_remove_absent: "k \<notin> fst ` set d \<Longrightarrow> od_remove d k = d"
  by (auto simp: od_remove_def filter_id_conv)

lemma sum_remove:
  fixes f :: "_ \<Rightarrow> nat"
  assumes "distinct (map fst d)" "map_of d sid = Some seg"
  shows "sum_list (map f d) = sum_list (map f (od_remove d sid)) + f (sid, seg)"
  using assms
proof (induction d)
  case (Cons e d)
  show ?case
  proof (cases "fst e = sid")
    case True
    with Cons.prems have "sid \<notin> fst ` set d" "e = (sid, seg)" by (auto split: if_splits)
    with od_remove_absent [of sid d] show ?thesis by (simp add: od_remove_def)
  next
    case False
    with Cons.prems have "map_of d sid = Some seg" by (auto split: if_splits)
    with Cons False show ?thesis by (simp add: od_remove_def)
  qed
qed simp

lemma resident_remove:
  assumes "distinct (map fst d)" "map_of d sid = Some seg"
  shows "resident_bytes P d = resident_bytes P (od_remove d sid) + (if P (os_device seg) then os_nbytes seg else 0)"
  unfolding resident_bytes_def using sum_remove [OF assms] by simp

lemma length_filter_sum: "length (filter P d) = sum_list (map (\<lambda>e. if P e then 1 else 0) d)"
  by (induction d) auto

lemma keys_remove: "map fst (od_remove d k) = filter (\<lambda>x. x \<noteq> k) (map fst d)"
  by (simp add: od_remove_def filter_map comp_def)

lemma set_remove: "set (od_remove d k) = {e \<in> set d. fst e \<noteq> k}"
  by (auto simp: od_remove_def)

lemma cuda_count_remove:
  assumes "distinct (map fst d)" "map_of d sid = Some seg" "is_cuda (os_device seg)"
  shows "length (filter (\<lambda>(_, seg). is_cuda (os_device seg)) d) =
    Suc (length (filter (\<lambda>(_, seg). is_cuda (os_device seg)) (od_remove d sid)))"
  unfolding length_filter_sum using sum_remove [OF assms(1,2)] assms(3) by simp

lemma not_cuda_cpu [simp]: "\<not> is_cuda cpu"
  by (simp add: is_cuda_def cpu_def)

lemma add_bytes_simps [simp]:
  "segments (add_bytes seg n c) = segments c"
  "max_device_bytes (add_bytes seg n c) = max_device_bytes c"
  "max_host_bytes (add_bytes seg n c) = max_host_bytes c"
  by (simp_all add: add_bytes_def)

lemma relocate_simps [simp]:
  "segments (relocate c sid seg dev) = od_remove (segments c) sid @ [(sid, seg\<lparr>os_device := dev\<rparr>)]"
  "max_device_bytes (relocate c sid seg dev) = max_device_bytes c"
  "max_host_bytes (relocate c sid seg dev) = max_host_bytes c"
  by (simp_all add: relocate_def Let_def)

lemma relocate_inv:
  assumes inv: "cache_inv c" and seg: "map_of (segments c) sid = Some seg"
  shows "cache_inv (relocate c sid seg dev)"
proof -
  have d: "distinct (map fst (segments c))" using inv by (simp add: cache_inv_def)
  have mem: "(sid, seg) \<in> set (segments c)" using seg by (rule map_of_SomeD)
  have ids: "os_segment_id seg = sid" using inv mem by (auto simp: cache_inv_def)
  have bytes: "device_bytes c = int (resident_bytes is_cuda (od_remove (segments c) sid)
        + (if is_cuda (os_device seg) then os_nbytes seg else 0))"
      "host_bytes c = int (resident_bytes (\<lambda>d. \<not> is_cuda d) (od_remove (segments c) sid)
        + (if is_cuda (os_device seg) then 0 else os_nbytes seg))"
    using inv resident_remove [OF d seg, of is_cuda] resident_remove [OF d seg, of "\<lambda>d. \<not> is_cuda d"]
    by (simp_all add: cache_inv_def)
  have keys: "distinct (map fst (od_remove (segments c) sid @ [(sid, seg\<lparr>os_device := dev\<rparr>)]))"
    using d by (auto simp: keys_remove)
  have "\<forall>(s, sg) \<in> set (od_remove (segments c) sid). os_segment_id sg = s"
    using inv by (auto simp: cache_inv_def set_remove)
  with keys ids bytes show ?thesis
    unfolding cache_inv_def relocate_simps by (auto simp: relocate_def Let_def)
qed

lemma relocate_cuda_count:
  assumes "cache_inv c" "map_of (segments c) sid = Some seg" "is_cuda (os_device seg)"
  shows "cuda_count c = Suc (cuda_count (relocate c sid seg cpu))"
  using cuda_count_remove [OF _ assms(2,3)] assms(1) by (simp add: cuda_count_def cache_inv_def)

lemma evict_inv:
  assumes inv: "cache_inv c" and seg: "map_of (segments c) sid = Some seg"
  shows "cache_inv (add_bytes seg (- int (os_nbytes seg)) (c\<lparr>segments := od_remove (segments c) sid\<rparr>))"
proof -
  have d: "distinct (map fst (segments c))" using inv by (simp add: cache_inv_def)
  show ?thesis
    using inv resident_remove [OF d seg, of is_cuda] resident_remove [OF d seg, of "\<lambda>d. \<not> is_cuda d"]
    by (auto simp: cache_inv_def add_bytes_def keys_remove set_remove)
qed

lemma move_to_end_inv:
  assumes "cache_inv c"
  shows "cache_inv (c\<lparr>segments := od_move_to_end (segments c) sid\<rparr>)"
proof (cases "map_of (segments c) sid")
  case None
  with assms show ?thesis by (simp add: od_move_to_end_def)
next
  case (Some seg)
  have d: "distinct (map fst (segments c))" using assms by (simp add: cache_inv_def)
  have "(sid, seg) \<in> set (segments c)" using Some by (rule map_of_SomeD)
  with Some assms resident_remove [OF d Some, of is_cuda]
    resident_remove [OF d Some, of "\<lambda>d. \<not> is_cuda d"]
  show ?thesis by (auto simp: cache_inv_def od_move_to_end_def keys_remove set_remove)
qed

lemma resident_zero:
  "(\<forall>(sid, seg) \<in> set d. \<not> P (os_device seg)) \<Longrightarrow> resident_bytes P d = 0"
  by (induction d) auto

section \<open>Enforcing the ceilings\<close>

lemma host_loop_ok:
  assumes "cache_inv c" "map fst (segments c) = sids"
  shows "\<exists>c'. host_loop limit sids c = Inr c' \<and> cache_inv c' \<and>
    device_bytes c' + host_bytes c' \<le> int limit \<and> device_bytes c' \<le> device_bytes c \<and>
    max_device_bytes c' = max_device_bytes c \<and> max_host_bytes c' = max_host_bytes c \<and>
    cuda_count c' \<le> cuda_count c"
  using assms
proof (induction sids arbitrary: c)
  case Nil
  then show ?case by (auto simp: cache_inv_def)
next
  case (Cons sid sids)
  show ?case
  proof (cases "device_bytes c + host_bytes c \<le> int limit")
    case True
    with Cons.prems show ?thesis by auto
  next
    case False
    from Cons.prems(2) obtain seg d where d: "segments c = (sid, seg) # d" "map fst d = sids"
      by (cases "segments c") auto
    then have seg: "map_of (segments c) sid = Some seg" by simp
    let ?c = "add_bytes seg (- int (os_nbytes seg)) (c\<lparr>segments := od_remove (segments c) sid\<rparr>)"
    have "distinct (sid # sids)" using Cons.prems by (simp add: cache_inv_def)
    then have rem: "od_remove (segments c) sid = d"
      using d od_remove_absent [of sid d] by (auto simp: od_remove_def)
    have le: "device_bytes ?c \<le> device_bytes c" "cuda_count ?c \<le> cuda_count c"
      using rem d by (auto simp: add_bytes_def cuda_count_def)
    from Cons.IH [OF evict_inv [OF Cons.prems(1) seg]] rem d(2) False seg le show ?thesis
      by fastforce
  qed
qed

lemma host_phase_ok:
  assumes "cache_inv c" "\<forall>m. max_device_bytes c = Some m \<longrightarrow> device_bytes c \<le> int m"
  shows "\<exists>c'. host_phase c = Inr c' \<and> cache_inv c' \<and> within_limits c' \<and>
    max_device_bytes c' = max_device_bytes c \<and> max_host_bytes c' = max_host_bytes c \<and>
    cuda_count c' \<le> cuda_count c"
proof (cases "max_host_bytes c")
  case None
  with assms show ?thesis by (simp add: host_phase_def within_limits_def)
next
  case (Some h)
  from host_loop_ok [OF assms(1) refl, of "(case max_device_bytes c of None \<Rightarrow> 0 | Some m \<Rightarrow> m) + h"]
  show ?thesis using Some assms(2) by (fastforce simp: host_phase_def within_limits_def)
qed

text \<open>What one call of \<open>enforce_limits\<close> leaves behind.\<close>

definition enforced :: "offline_cache \<Rightarrow> offline_cache \<Rightarrow> bool" where
  "enforced c c' \<longleftrightarrow> cache_inv c' \<and> within_limits c' \<and>
     max_device_bytes c' = max_device_bytes c \<and> max_host_bytes c' = max_host_bytes c \<and>
     cuda_count c' \<le> cuda_count c"

lemma device_loop_stops: "device_bytes c \<le> int m \<Longrightarrow> device_loop e m sids c = Inr c"
  by (cases sids) simp_all

lemma no_cuda_left:
  assumes "cache_inv c" "\<forall>(sid, seg) \<in> set (segments c). \<not> is_cuda (os_device seg)"
  shows "device_bytes c = 0"
  using assms resident_zero [of "segments c" is_cuda] by (simp add: cache_inv_def)

lemma device_loop_partial:
  assumes E: "\<And>c1 c2. cache_inv c1 \<Longrightarrow> e c1 = Inr c2 \<Longrightarrow> enforced c1 c2"
    and "cache_inv c" "max_device_bytes c = Some m"
    and "\<forall>(sid, seg) \<in> set (segments c). is_cuda (os_device seg) \<longrightarrow> sid \<in> set sids"
    and "device_loop e m sids c = Inr c'"
  shows "cache_inv c' \<and> device_bytes c' \<le> int m \<and> max_device_bytes c' = max_device_bytes c \<and>
    max_host_bytes c' = max_host_bytes c \<and> cuda_count c' \<le> cuda_count c"
  using assms(2-)
proof (induction sids arbitrary: c)
  case Nil
  then have "device_bytes c = 0" by (intro no_cuda_left) auto
  with Nil show ?case by simp
next
  case (Cons sid sids)
  show ?case
  proof (cases "device_bytes c \<le> int m")
    case True
    with Cons.prems show ?thesis by simp
  next
    case False
    then obtain seg where seg: "map_of (segments c) sid = Some seg"
      using Cons.prems(4) by (auto split: option.splits)
    show ?thesis
    proof (cases "is_cuda (os_device seg)")
      case True
      let ?r = "relocate c sid seg cpu"
      obtain c2 where c2: "e ?r = Inr c2" "device_loop e m sids c2 = Inr c'"
        using Cons.prems(4) False seg True by (auto simp: rbind_eq_Inr_iff)
      have en: "enforced ?r c2" by (rule E [OF relocate_inv [OF Cons.prems(1) seg] c2(1)])
      then have "device_bytes c2 \<le> int m"
        using Cons.prems(2) by (simp add: enforced_def within_limits_def)
      with c2(2) en relocate_cuda_count [OF Cons.prems(1) seg True] show ?thesis
        by (simp add: device_loop_stops enforced_def)
    next
      case nc: False
      have "\<forall>(s, sg) \<in> set (segments c). is_cuda (os_device sg) \<longrightarrow> s \<in> set sids"
      proof (clarify)
        fix s sg assume m: "(s, sg) \<in> set (segments c)" "is_cuda (os_device sg)"
        have "map_of (segments c) s = Some sg"
          using Cons.prems(1) m(1) by (simp add: cache_inv_def)
        with seg nc m(2) have "s \<noteq> sid" by auto
        with Cons.prems(3) m show "s \<in> set sids" by auto
      qed
      with Cons.IH [OF Cons.prems(1,2)] Cons.prems(4) False seg nc show ?thesis by simp
    qed
  qed
qed

lemma device_loop_total:
  assumes T: "\<And>c1. cache_inv c1 \<Longrightarrow> cuda_count c1 < cuda_count c \<Longrightarrow> \<exists>c2. e c1 = Inr c2 \<and> enforced c1 c2"
    and "cache_inv c" "max_device_bytes c = Some m" "set sids \<subseteq> fst ` set (segments c)"
  shows "\<exists>c'. device_loop e m sids c = Inr c'"
  using assms(4)
proof (induction sids)
  case (Cons sid sids)
  then obtain seg where seg: "map_of (segments c) sid = Some seg"
    using assms(2) by (fastforce simp: cache_inv_def)
  show ?case
  proof (cases "is_cuda (os_device seg)")
    case True
    let ?r = "relocate c sid seg cpu"
    obtain c2 where c2: "e ?r = Inr c2" "enforced ?r c2"
      using T [OF relocate_inv [OF assms(2) seg]] relocate_cuda_count [OF assms(2) seg True] by auto
    then have "device_bytes c2 \<le> int m" using assms(3) by (simp add: enforced_def within_limits_def)
    with c2(1) seg True show ?thesis by (simp add: device_loop_stops)
  next
    case False
    with Cons seg show ?thesis by simp
  qed
qed simp

lemma enforce_partial: "cache_inv c \<Longrightarrow> enforce_limits depth c = Inr c' \<Longrightarrow> enforced c c'"
proof (induction depth arbitrary: c c')
  case (Suc depth)
  show ?case
  proof (cases "max_device_bytes c")
    case None
    with Suc.prems host_phase_ok [OF Suc.prems(1)] show ?thesis by (auto simp: enforced_def)
  next
    case (Some m)
    with Suc.prems obtain c1 where c1: "device_loop (enforce_limits depth) m (map fst (segments c)) c = Inr c1"
        "host_phase c1 = Inr c'"
      by (auto simp: rbind_eq_Inr_iff)
    have "\<forall>(sid, seg) \<in> set (segments c). is_cuda (os_device seg) \<longrightarrow> sid \<in> set (map fst (segments c))"
      by force
    from device_loop_partial [OF Suc.IH Suc.prems(1) Some this c1(1)] Some
    have c1': "cache_inv c1" "\<forall>m. max_device_bytes c1 = Some m \<longrightarrow> device_bytes c1 \<le> int m"
        "max_device_bytes c1 = max_device_bytes c" "max_host_bytes c1 = max_host_bytes c"
        "cuda_count c1 \<le> cuda_count c" by auto
    from host_phase_ok [OF c1'(1,2)] c1(2) c1' show ?thesis by (auto simp: enforced_def)
  qed
qed simp

lemma enforce_total:
  "cache_inv c \<Longrightarrow> cuda_count c < depth \<Longrightarrow> \<exists>c'. enforce_limits depth c = Inr c' \<and> enforced c c'"
proof (induction depth arbitrary: c)
  case (Suc depth)
  have "\<exists>c'. enforce_limits (Suc depth) c = Inr c'"
  proof (cases "max_device_bytes c")
    case None
    with host_phase_ok [OF Suc.prems(1)] show ?thesis by auto
  next
    case (Some m)
    have "\<exists>c1. device_loop (enforce_limits depth) m (map fst (segments c)) c = Inr c1"
      by (rule device_loop_total [OF _ Suc.prems(1) Some]) (use Suc in auto)
    then obtain c1 where c1: "device_loop (enforce_limits depth) m (map fst (segments c)) c = Inr c1" by blast
    have "\<forall>(sid, seg) \<in> set (segments c). is_cuda (os_device seg) \<longrightarrow> sid \<in> set (map fst (segments c))"
      by force
    from device_loop_partial [OF enforce_partial Suc.prems(1) Some this c1] Some
    have "cache_inv c1" "\<forall>m. max_device_bytes c1 = Some m \<longrightarrow> device_bytes c1 \<le> int m" by auto
    from host_phase_ok [OF this] c1 Some show ?thesis by auto
  qed
  with enforce_partial [OF Suc.prems(1)] show ?case by blast
qed simp

section \<open>The methods\<close>

lemma within_limits_mono:
  assumes "within_limits c" "device_bytes c' \<le> device_bytes c"
    "device_bytes c' + host_bytes c' \<le> device_bytes c + host_bytes c"
    "max_device_bytes c' = max_device_bytes c" "max_host_bytes c' = max_host_bytes c"
  shows "within_limits c'"
  using assms(1-3) unfolding within_limits_def assms(4,5)
  by (meson order_trans)

lemma put_insert_inv:
  assumes "cache_inv c" "os_segment_id seg \<notin> fst ` set (segments c)"
  shows "cache_inv (add_bytes seg (int (os_nbytes seg)) (c\<lparr>segments := segments c @ [(os_segment_id seg, seg)]\<rparr>))"
  using assms by (auto simp: cache_inv_def add_bytes_def)

lemma put_cuda_count:
  "cuda_count (add_bytes seg n (c\<lparr>segments := segments c @ [(sid, seg)]\<rparr>)) \<le> Suc (cuda_count c)"
  by (simp add: cuda_count_def)

lemma promote_within:
  "within_limits c \<Longrightarrow> within_limits (c\<lparr>segments := d\<rparr>)"
  by (simp add: within_limits_def)

lemma put_keeps:
  assumes "cache_inv c" "within_limits c" "put depth c seg = Inr c'"
  shows "cache_inv c' \<and> within_limits c'"
proof (cases "os_segment_id seg \<in> fst ` set (segments c)")
  case True
  with assms show ?thesis by (auto simp: put_def move_to_end_inv promote_within)
next
  case False
  with assms(3) enforce_partial [OF put_insert_inv [OF assms(1) False]] show ?thesis
    by (auto simp: put_def enforced_def)
qed

lemma drop_keeps:
  assumes "cache_inv c" "within_limits c"
  shows "cache_inv (drop_segment c sid) \<and> within_limits (drop_segment c sid)"
proof (cases "map_of (segments c) sid")
  case None
  with assms show ?thesis by (simp add: drop_segment_def)
next
  case (Some seg)
  with evict_inv [OF assms(1) Some] within_limits_mono [OF assms(2)] show ?thesis
    by (auto simp: drop_segment_def add_bytes_def)
qed

lemma to_device_keeps:
  assumes "cache_inv c" "within_limits c" "to_device depth c sid dev = Inr (r, c')"
  shows "cache_inv c' \<and> within_limits c'"
proof (cases "map_of (segments c) sid")
  case None
  with assms show ?thesis by (simp add: to_device_def)
next
  case (Some seg)
  show ?thesis
  proof (cases "os_device seg = dev")
    case True
    with Some assms show ?thesis by (auto simp: to_device_def move_to_end_inv promote_within)
  next
    case False
    with Some assms(3) enforce_partial [OF relocate_inv [OF assms(1) Some]] show ?thesis
      by (auto simp: to_device_def rbind_eq_Inr_iff enforced_def)
  qed
qed

lemma reachable_keeps: "offline_reachable depth c \<Longrightarrow> cache_inv c \<and> within_limits c"
proof (induction rule: offline_reachable.induct)
  case (init md mh)
  then show ?case
    by (simp add: offline_cache_init_def cache_inv_def within_limits_def)
next
  case (get c sid r c')
  then show ?case
    by (auto simp: get_segment_def move_to_end_inv promote_within split: option.splits)
next
  case (clear c)
  then show ?case by (auto simp: clear_cache_def cache_inv_def within_limits_def)
qed (use put_keeps drop_keeps to_device_keeps in blast)+

section \<open>Properties\<close>



section \<open>Witnesses and an eviction order\<close>

definition toy_segment :: "string \<Rightarrow> string \<Rightarrow> nat \<Rightarrow> offline_segment" where
  "toy_segment sid dev n =
     \<lparr>os_segment_id = sid, os_token_ids = [], os_doc_len = 0, os_kv = [],
      os_device = \<lparr>dev_type = dev, dev_index = 0\<rparr>, os_nbytes = n\<rparr>"

definition toy_run :: "offline_cache result" where
  "toy_run =
     rbind (put 9 (offline_cache_init (Some 10) (Some 10)) (toy_segment ''A'' ''cuda'' 10)) (\<lambda>c.
     rbind (put 9 c (toy_segment ''B'' ''cpu'' 10)) (\<lambda>c.
     put 9 c (toy_segment ''C'' ''cuda'' 5)))"




end
