(* ===== verification/Head_Config.thy ===== *)
theory Head_Config
  imports RK_Prelude
begin

text \<open>
  Head classification, \<^verbatim>\<open>redknot/head_config.py\<close>, and the two functions of
  \<^verbatim>\<open>redknot/head_profiler.py\<close> that package and save a classification.

  The class \<^verbatim>\<open>HeadClassConfig\<close> is the record \<open>head_class_config\<close>; its methods take the record
  and return the updated one. Matrices are lists of rows, as in the source. Devices are named
  by strings; the per-device cache \<^verbatim>\<open>_cached_tensors\<close> is a map from devices to bundles. JSON
  documents are records of optional members (\<open>None\<close>: the key is absent). Float parameters are
  exact rationals. The lemmas show what construction establishes (every entry has one of the
  four head types), what a lookup returns on each branch, that cached tensors are never stale,
  and that saving and loading a profiled configuration preserves every strategy.
\<close>

section \<open>Definitions\<close>

definition HEAD_LOCAL :: string where "HEAD_LOCAL = ''local''"
definition HEAD_GLOBAL :: string where "HEAD_GLOBAL = ''global''"
definition HEAD_RETRIEVAL :: string where "HEAD_RETRIEVAL = ''retrieval''"
definition HEAD_DENSE :: string where "HEAD_DENSE = ''dense''"

lemmas head_type_defs = HEAD_LOCAL_def HEAD_GLOBAL_def HEAD_RETRIEVAL_def HEAD_DENSE_def

definition DEFAULT_LOCAL_WINDOW :: int where "DEFAULT_LOCAL_WINDOW = 512"
definition DEFAULT_SINK_SIZE :: int where "DEFAULT_SINK_SIZE = 4"
definition DEFAULT_RETRIEVAL_TOP_P :: rat where "DEFAULT_RETRIEVAL_TOP_P = 9 / 10"

definition allowed_types :: "string list" where
  "allowed_types = [HEAD_LOCAL, HEAD_GLOBAL, HEAD_RETRIEVAL, HEAD_DENSE]"

definition legacy_map :: "string \<rightharpoonup> string" where
  "legacy_map t =
     (if t \<in> set [''local_full'', ''limited'', ''streaming'', ''sink_dominant'']
      then Some HEAD_LOCAL else None)"

record head_strategy =
  hs_layer :: int
  hs_kv_head :: int
  head_type :: string
  window :: int
  sink_size :: int

definition is_local :: "head_strategy \<Rightarrow> bool" where
  "is_local s \<longleftrightarrow> head_type s = HEAD_LOCAL"

definition is_global :: "head_strategy \<Rightarrow> bool" where
  "is_global s \<longleftrightarrow> head_type s = HEAD_GLOBAL"

definition is_retrieval :: "head_strategy \<Rightarrow> bool" where
  "is_retrieval s \<longleftrightarrow> head_type s = HEAD_RETRIEVAL"

definition is_dense :: "head_strategy \<Rightarrow> bool" where
  "is_dense s \<longleftrightarrow> head_type s = HEAD_DENSE"

record tensor_bundle =
  tb_head_type :: "int list list"
  tb_window :: "int list list"
  tb_sink_size :: "int list list"
  tb_retrieval_top_p :: rat

record head_class_config =
  head_class :: "string list list"
  head_max_distance :: "int list list"
  head_sink_size :: "int list list option"
  num_layers :: int
  num_kv_heads :: int
  default_sink_size :: int
  local_default_window :: int
  retrieval_top_p :: rat
  dense_prefix_layers :: int
  cached_tensors :: "string \<rightharpoonup> tensor_bundle"

text \<open>\<^verbatim>\<open>_normalize\<close>: one matrix entry, then the nested loop over all of them.\<close>

definition normalize_type :: "string \<Rightarrow> string result" where
  "normalize_type t =
     (if t \<in> set allowed_types then Inr t
      else case legacy_map t of Some t' \<Rightarrow> Inr t' | None \<Rightarrow> Inl ValueError)"

definition normalize_step ::
  "string list list \<Rightarrow> int \<times> int \<Rightarrow> string list list result" where
  "normalize_step hc = (\<lambda>(li, kvh).
     rbind (mat_get hc li kvh) (\<lambda>t.
       if t \<in> set allowed_types then Inr hc
       else case legacy_map t of
         Some t' \<Rightarrow> mat_set hc li kvh t'
       | None \<Rightarrow> Inl ValueError))"

definition normalize :: "head_class_config \<Rightarrow> head_class_config result" where
  "normalize c =
     rbind (foldM normalize_step (head_class c) (loop2 (num_layers c) (num_kv_heads c)))
       (\<lambda>hc. Inr (c\<lparr>head_class := hc\<rparr>))"

definition head_class_config_init ::
  "string list list \<Rightarrow> int list list \<Rightarrow> int \<Rightarrow> int \<Rightarrow> int list list option \<Rightarrow> int \<Rightarrow> int \<Rightarrow> rat \<Rightarrow> int
   \<Rightarrow> head_class_config result" where
  "head_class_config_init hc md n_layers n_heads sinks dflt_sink dflt_window top_p dense_prefix =
     rbind (rassert (int (length hc) = n_layers) AssertionError) (\<lambda>_.
     rbind (py_get hc 0) (\<lambda>row0.
     rbind (rassert (int (length row0) = n_heads) AssertionError) (\<lambda>_.
     rbind (normalize
       \<lparr>head_class = hc, head_max_distance = md, head_sink_size = sinks,
        num_layers = n_layers, num_kv_heads = n_heads, default_sink_size = dflt_sink,
        local_default_window = dflt_window, retrieval_top_p = top_p,
        dense_prefix_layers = dense_prefix, cached_tensors = Map.empty\<rparr>) (\<lambda>c.
     Inr (c\<lparr>cached_tensors := Map.empty\<rparr>)))))"

record head_json =
  js_num_layers :: "int option"
  js_num_kv_heads :: "int option"
  js_classification :: "string list list option"
  js_max_distance :: "int list list option"
  js_sink_size :: "int list list option"
  js_dense_prefix_layers :: "int option"
  js_retrieval_top_p :: "rat option"

definition json_require :: "'a option \<Rightarrow> 'a result" where
  "json_require x = (case x of None \<Rightarrow> Inl KeyError | Some v \<Rightarrow> Inr v)"

definition from_json :: "head_json \<Rightarrow> int \<Rightarrow> int \<Rightarrow> head_class_config result" where
  "from_json data dflt_sink dflt_window =
     rbind (json_require (js_classification data)) (\<lambda>hc.
     rbind (json_require (js_max_distance data)) (\<lambda>md.
     rbind (json_require (js_num_layers data)) (\<lambda>n_layers.
     rbind (json_require (js_num_kv_heads data)) (\<lambda>n_heads.
     head_class_config_init hc md n_layers n_heads (js_sink_size data) dflt_sink dflt_window
       (case js_retrieval_top_p data of None \<Rightarrow> DEFAULT_RETRIEVAL_TOP_P | Some p \<Rightarrow> p)
       (case js_dense_prefix_layers data of None \<Rightarrow> 0 | Some d \<Rightarrow> d)))))"

definition sink_at :: "head_class_config \<Rightarrow> int \<Rightarrow> int \<Rightarrow> int result" where
  "sink_at c layer kv_head =
     (case head_sink_size c of
        Some m \<Rightarrow> mat_get m layer kv_head
      | None \<Rightarrow> Inr (default_sink_size c))"

definition get_strategy :: "head_class_config \<Rightarrow> int \<Rightarrow> int \<Rightarrow> head_strategy result" where
  "get_strategy c layer kv_head =
     (if layer < dense_prefix_layers c then
        rbind (sink_at c layer kv_head) (\<lambda>ss.
          Inr \<lparr>hs_layer = layer, hs_kv_head = kv_head, head_type = HEAD_DENSE,
               window = -1, sink_size = ss\<rparr>)
      else
        rbind (mat_get (head_class c) layer kv_head) (\<lambda>htype.
        rbind (mat_get (head_max_distance c) layer kv_head) (\<lambda>max_d.
        rbind (sink_at c layer kv_head) (\<lambda>ss.
        rbind (if htype = HEAD_GLOBAL then Inr (-1)
               else if htype = HEAD_LOCAL then
                 Inr (if max_d > 0 then max_d else local_default_window c)
               else if htype = HEAD_RETRIEVAL then Inr (-1)
               else if htype = HEAD_DENSE then Inr (-1)
               else Inl ValueError) (\<lambda>w.
        Inr \<lparr>hs_layer = layer, hs_kv_head = kv_head, head_type = htype,
             window = w, sink_size = ss\<rparr>)))))"

definition set_local_window ::
  "head_class_config \<Rightarrow> int \<Rightarrow> (int \<times> head_class_config) result" where
  "set_local_window c new_window =
     rbind (foldM (replace_where (\<lambda>d. d > 0) new_window) (head_max_distance c, 0)
              (loop2 (num_layers c) (num_kv_heads c))) (\<lambda>(md, changed).
     Inr (changed, c\<lparr>head_max_distance := md, cached_tensors := Map.empty\<rparr>))"

definition merge_retrieval_to_global ::
  "head_class_config \<Rightarrow> (int \<times> head_class_config) result" where
  "merge_retrieval_to_global c =
     rbind (foldM (replace_where (\<lambda>t. t = HEAD_RETRIEVAL) HEAD_GLOBAL) (head_class c, 0)
              (loop2 (num_layers c) (num_kv_heads c))) (\<lambda>(hc, changed).
     Inr (changed, c\<lparr>head_class := hc, cached_tensors := Map.empty\<rparr>))"

definition summary :: "head_class_config \<Rightarrow> (string \<rightharpoonup> int) result" where
  "summary c =
     rbind (mmap (\<lambda>(li, kvh).
              if li < dense_prefix_layers c then Inr HEAD_DENSE
              else mat_get (head_class c) li kvh)
            (loop2 (num_layers c) (num_kv_heads c))) (\<lambda>flat.
     Inr ((\<lambda>t. if t \<in> set flat then Some (int (count_list flat t)) else None)
          (''total'' \<mapsto> num_layers c * num_kv_heads c,
           ''dense_prefix_layers'' \<mapsto> dense_prefix_layers c)))"

definition TYPE_LOCAL :: int where "TYPE_LOCAL = 0"
definition TYPE_GLOBAL :: int where "TYPE_GLOBAL = 1"
definition TYPE_RETRIEVAL :: int where "TYPE_RETRIEVAL = 2"
definition TYPE_DENSE :: int where "TYPE_DENSE = 3"

lemmas type_code_defs = TYPE_LOCAL_def TYPE_GLOBAL_def TYPE_RETRIEVAL_def TYPE_DENSE_def

definition type_to_int :: "string \<Rightarrow> int result" where
  "type_to_int t =
     (if t = HEAD_LOCAL then Inr TYPE_LOCAL
      else if t = HEAD_GLOBAL then Inr TYPE_GLOBAL
      else if t = HEAD_RETRIEVAL then Inr TYPE_RETRIEVAL
      else if t = HEAD_DENSE then Inr TYPE_DENSE
      else Inl KeyError)"

text \<open>The loop of \<^verbatim>\<open>as_tensors\<close> that fills the three tensors; then the method with its cache.\<close>

definition compute_tensors :: "head_class_config \<Rightarrow> tensor_bundle result" where
  "compute_tensors c =
     rbind (mmap (\<lambda>li. mmap (\<lambda>kvh.
              rbind (get_strategy c li kvh) (\<lambda>strat.
              rbind (type_to_int (head_type strat)) (\<lambda>t.
              rbind (as_int32 (window strat)) (\<lambda>w.
              rbind (as_int32 (sink_size strat)) (\<lambda>s.
              Inr (t, w, s))))))
              [0..num_kv_heads c - 1]) [0..num_layers c - 1]) (\<lambda>rows.
     Inr \<lparr>tb_head_type = map (map fst) rows,
          tb_window = map (map (fst \<circ> snd)) rows,
          tb_sink_size = map (map (snd \<circ> snd)) rows,
          tb_retrieval_top_p = retrieval_top_p c\<rparr>)"

definition as_tensors ::
  "head_class_config \<Rightarrow> string \<Rightarrow> (tensor_bundle \<times> head_class_config) result" where
  "as_tensors c device =
     (case cached_tensors c device of
        Some b \<Rightarrow> Inr (b, c)
      | None \<Rightarrow>
          rbind (compute_tensors c) (\<lambda>bundle.
          Inr (bundle, c\<lparr>cached_tensors := (cached_tensors c)(device \<mapsto> bundle)\<rparr>)))"

text \<open>\<^verbatim>\<open>head_profiler.py\<close>: packaging labels, and the JSON layout of a saved configuration.\<close>

definition build_head_config ::
  "string list list \<Rightarrow> int \<Rightarrow> int \<Rightarrow> int \<Rightarrow> int \<Rightarrow> int \<Rightarrow> head_class_config result" where
  "build_head_config labels n_layers n_heads local_window sink dense_prefix =
     rbind (mmap (\<lambda>l. mmap (\<lambda>h.
              rbind (mat_get labels l h) (\<lambda>t. Inr (if t = HEAD_LOCAL then local_window else -1)))
              [0..n_heads - 1]) [0..n_layers - 1]) (\<lambda>md.
     head_class_config_init labels md n_layers n_heads
       (Some (replicate (nat n_layers) (replicate (nat n_heads) sink)))
       sink local_window DEFAULT_RETRIEVAL_TOP_P dense_prefix)"

definition save_head_config_json :: "head_class_config \<Rightarrow> head_json" where
  "save_head_config_json c =
     \<lparr>js_num_layers = Some (num_layers c), js_num_kv_heads = Some (num_kv_heads c),
      js_classification = Some (head_class c), js_max_distance = Some (head_max_distance c),
      js_sink_size = head_sink_size c,
      js_dense_prefix_layers = Some (dense_prefix_layers c),
      js_retrieval_top_p = Some (retrieval_top_p c)\<rparr>"

text \<open>
  Reachable configurations: built by the constructor, then changed by any sequence of method
  calls that returned normally.
\<close>

inductive config_reachable :: "head_class_config \<Rightarrow> bool" where
  construct:
    "head_class_config_init hc md n_layers n_heads sinks dflt_sink dflt_window top_p dense_prefix
       = Inr c \<Longrightarrow> config_reachable c"
| set_window: "config_reachable c \<Longrightarrow> set_local_window c w = Inr (n, c') \<Longrightarrow> config_reachable c'"
| merge: "config_reachable c \<Longrightarrow> merge_retrieval_to_global c = Inr (n, c') \<Longrightarrow> config_reachable c'"
| tensors: "config_reachable c \<Longrightarrow> as_tensors c d = Inr (b, c') \<Longrightarrow> config_reachable c'"

text \<open>Every entry the loops visit exists and has one of the four types.\<close>

definition config_wf :: "head_class_config \<Rightarrow> bool" where
  "config_wf c \<longleftrightarrow>
     int (length (head_class c)) = num_layers c \<and> head_class c \<noteq> [] \<and>
     int (length (hd (head_class c))) = num_kv_heads c \<and>
     (\<forall>(i, j) \<in> set (loop2 (num_layers c) (num_kv_heads c)).
        \<exists>t \<in> set allowed_types. mat_get (head_class c) i j = Inr t)"

text \<open>The two numeric matrices have an entry for every head.\<close>

definition config_covered :: "head_class_config \<Rightarrow> bool" where
  "config_covered c \<longleftrightarrow>
     (\<forall>(i, j) \<in> set (loop2 (num_layers c) (num_kv_heads c)).
        (\<exists>d. mat_get (head_max_distance c) i j = Inr d) \<and> (\<exists>s. sink_at c i j = Inr s))"

definition tensors_fresh :: "head_class_config \<Rightarrow> bool" where
  "tensors_fresh c \<longleftrightarrow> (\<forall>d b. cached_tensors c d = Some b \<longrightarrow> compute_tensors c = Inr b)"

section \<open>Normalisation\<close>

lemma head_types_distinct [simp]:
  "HEAD_LOCAL \<noteq> HEAD_GLOBAL" "HEAD_LOCAL \<noteq> HEAD_RETRIEVAL" "HEAD_LOCAL \<noteq> HEAD_DENSE"
  "HEAD_GLOBAL \<noteq> HEAD_LOCAL" "HEAD_GLOBAL \<noteq> HEAD_RETRIEVAL" "HEAD_GLOBAL \<noteq> HEAD_DENSE"
  "HEAD_RETRIEVAL \<noteq> HEAD_LOCAL" "HEAD_RETRIEVAL \<noteq> HEAD_GLOBAL" "HEAD_RETRIEVAL \<noteq> HEAD_DENSE"
  "HEAD_DENSE \<noteq> HEAD_LOCAL" "HEAD_DENSE \<noteq> HEAD_GLOBAL" "HEAD_DENSE \<noteq> HEAD_RETRIEVAL"
  by (simp_all add: head_type_defs)

lemma normalize_type_Inr: "normalize_type t = Inr t' \<Longrightarrow> t' \<in> set allowed_types"
  by (auto simp: normalize_type_def legacy_map_def allowed_types_def split: if_splits option.splits)

lemma normalize_type_allowed [simp]: "t \<in> set allowed_types \<Longrightarrow> normalize_type t = Inr t"
  by (simp add: normalize_type_def)

lemma normalize_step_modify:
  assumes "0 \<le> i" "0 \<le> j"
  shows "normalize_step hc (i, j) = mat_modify normalize_type hc (i, j)"
proof (cases "mat_get hc i j")
  case (Inr t)
  then show ?thesis
    using mat_set_same [OF assms Inr]
    by (auto simp: normalize_step_def mat_modify_app normalize_type_def split: option.splits)
qed (simp add: normalize_step_def mat_modify_app)

lemma normalize_loop_modify:
  "foldM normalize_step hc (loop2 n k) = foldM (mat_modify normalize_type) hc (loop2 n k)"
  by (rule foldM_cong) (auto simp: set_loop2 normalize_step_modify)

lemma loop2_nonneg: "\<forall>(i, j) \<in> set (loop2 n k). 0 \<le> i \<and> 0 \<le> j"
  by (auto simp: set_loop2)

lemmas normalize_entry =
  mat_modify_loop_entry [where g = normalize_type, OF _ distinct_loop2 loop2_nonneg]

lemmas normalize_shape =
  mat_modify_loop_shape [where g = normalize_type, OF _ distinct_loop2 loop2_nonneg]

lemma init_Inr_iff:
  "head_class_config_init hc md nl nk sinks ds dw tp dp = Inr c \<longleftrightarrow>
     int (length hc) = nl \<and> hc \<noteq> [] \<and> int (length (hd hc)) = nk \<and>
     (\<exists>hc'. foldM (mat_modify normalize_type) hc (loop2 nl nk) = Inr hc' \<and>
        c = \<lparr>head_class = hc', head_max_distance = md, head_sink_size = sinks,
             num_layers = nl, num_kv_heads = nk, default_sink_size = ds,
             local_default_window = dw, retrieval_top_p = tp, dense_prefix_layers = dp,
             cached_tensors = Map.empty\<rparr>)"
  by (cases hc)
     (auto simp: head_class_config_init_def normalize_def normalize_loop_modify
       rbind_eq_Inr_iff py_get_Inr_iff)

lemma shape_hd: "map length m' = map length m \<Longrightarrow> m \<noteq> [] \<Longrightarrow> length (hd m') = length (hd m)"
  by (cases m; cases m') auto

lemma shape_length: "map length m' = map length m \<Longrightarrow> length m' = length m"
  by (metis length_map)

lemma shape_Nil: "map length m' = map length m \<Longrightarrow> m' = [] \<longleftrightarrow> m = []"
  by (metis Nil_is_map_conv)

lemmas shape_facts = shape_hd shape_length shape_Nil

lemma init_wf:
  assumes "head_class_config_init hc md nl nk sinks ds dw tp dp = Inr c"
  shows "config_wf c"
proof -
  from assms obtain hc' where hc': "foldM (mat_modify normalize_type) hc (loop2 nl nk) = Inr hc'"
    and c: "head_class c = hc'" "num_layers c = nl" "num_kv_heads c = nk" "int (length hc) = nl"
      "hc \<noteq> []" "int (length (hd hc)) = nk"
    by (auto simp: init_Inr_iff)
  show ?thesis
    unfolding config_wf_def
    using c shape_facts [OF normalize_shape [OF hc']] normalize_entry [OF hc']
    by (force dest: normalize_type_Inr)
qed

section \<open>Lookups\<close>

lemma config_wf_entry:
  assumes "config_wf c" "0 \<le> l" "l < num_layers c" "0 \<le> h" "h < num_kv_heads c"
  obtains t where "t \<in> set allowed_types" "mat_get (head_class c) l h = Inr t"
  using assms by (force simp: config_wf_def set_loop2)

lemma config_covered_entry:
  assumes "config_covered c" "0 \<le> l" "l < num_layers c" "0 \<le> h" "h < num_kv_heads c"
  obtains d s where "mat_get (head_max_distance c) l h = Inr d" "sink_at c l h = Inr s"
  using assms by (force simp: config_covered_def set_loop2)

lemma get_strategy_fields:
  "get_strategy c l h = Inr st \<Longrightarrow> hs_layer st = l \<and> hs_kv_head st = h \<and> sink_at c l h = Inr (sink_size st)"
  unfolding get_strategy_def rbind_def
  by (simp split: if_split_asm sum.split_asm) (elim sym | auto)+

lemma get_strategy_type:
  "get_strategy c l h = Inr st \<Longrightarrow>
   head_type st \<in> set allowed_types \<and> (head_type st \<noteq> HEAD_LOCAL \<longrightarrow> window st = -1)"
  unfolding get_strategy_def rbind_def allowed_types_def
  by (simp split: if_split_asm sum.split_asm) auto

lemma type_to_int_total: "t \<in> set allowed_types \<Longrightarrow> \<exists>n. type_to_int t = Inr n"
  by (auto simp: type_to_int_def allowed_types_def)

lemma type_to_int_inj:
  "type_to_int t = Inr n \<Longrightarrow> type_to_int t' = Inr n \<Longrightarrow> t = t'"
  by (auto simp: type_to_int_def type_code_defs split: if_splits)

lemma sink_at_cached [simp]: "sink_at (c\<lparr>cached_tensors := x\<rparr>) = sink_at c"
  by (simp add: sink_at_def fun_eq_iff split: option.splits)

lemma get_strategy_cached [simp]: "get_strategy (c\<lparr>cached_tensors := x\<rparr>) = get_strategy c"
  by (simp add: get_strategy_def fun_eq_iff cong: if_cong)

lemma compute_tensors_cached [simp]: "compute_tensors (c\<lparr>cached_tensors := x\<rparr>) = compute_tensors c"
  by (simp add: compute_tensors_def)

section \<open>Methods that change the configuration\<close>

lemmas set_window_loop =
  replace_where_loop [where P = "\<lambda>d. d > 0", OF _ distinct_loop2 loop2_nonneg]

lemmas merge_loop =
  replace_where_loop [where P = "\<lambda>t. t = HEAD_RETRIEVAL", OF _ distinct_loop2 loop2_nonneg]

lemmas merge_shape =
  replace_where_shape [where P = "\<lambda>t. t = HEAD_RETRIEVAL", OF _ loop2_nonneg]

lemma set_local_window_Inr_iff:
  "set_local_window c w = Inr (n, c') \<longleftrightarrow>
   (\<exists>md. foldM (replace_where (\<lambda>d. d > 0) w) (head_max_distance c, 0)
           (loop2 (num_layers c) (num_kv_heads c)) = Inr (md, n) \<and>
         c' = c\<lparr>head_max_distance := md, cached_tensors := Map.empty\<rparr>)"
  by (auto simp: set_local_window_def rbind_eq_Inr_iff)

lemma merge_Inr_iff:
  "merge_retrieval_to_global c = Inr (n, c') \<longleftrightarrow>
   (\<exists>hc. foldM (replace_where (\<lambda>t. t = HEAD_RETRIEVAL) HEAD_GLOBAL) (head_class c, 0)
           (loop2 (num_layers c) (num_kv_heads c)) = Inr (hc, n) \<and>
         c' = c\<lparr>head_class := hc, cached_tensors := Map.empty\<rparr>)"
  by (auto simp: merge_retrieval_to_global_def rbind_eq_Inr_iff)

lemma merge_entry:
  assumes "merge_retrieval_to_global c = Inr (n, c')"
    and "0 \<le> l" "l < num_layers c" "0 \<le> h" "h < num_kv_heads c"
  shows "mat_get (head_class c') l h =
    rbind (mat_get (head_class c) l h) (\<lambda>t. Inr (if t = HEAD_RETRIEVAL then HEAD_GLOBAL else t))"
  using assms merge_loop by (fastforce simp: merge_Inr_iff set_loop2)

lemma merge_wf:
  assumes "merge_retrieval_to_global c = Inr (n, c')" "config_wf c"
  shows "config_wf c'"
proof -
  from assms(1) obtain hc where run: "foldM (replace_where (\<lambda>t. t = HEAD_RETRIEVAL) HEAD_GLOBAL)
      (head_class c, 0) (loop2 (num_layers c) (num_kv_heads c)) = Inr (hc, n)"
    and c': "c' = c\<lparr>head_class := hc, cached_tensors := Map.empty\<rparr>"
    by (auto simp: merge_Inr_iff)
  have "\<exists>t \<in> set allowed_types. mat_get (head_class c') l h = Inr t"
    if "(l, h) \<in> set (loop2 (num_layers c) (num_kv_heads c))" for l h
  proof -
    from that have r: "0 \<le> l" "l < num_layers c" "0 \<le> h" "h < num_kv_heads c"
      by (simp_all add: set_loop2)
    obtain t where "t \<in> set allowed_types" "mat_get (head_class c) l h = Inr t"
      using config_wf_entry [OF assms(2) r] .
    then show ?thesis
      using merge_entry [OF assms(1) r] by (auto simp: allowed_types_def)
  qed
  then show ?thesis
    using c' assms(2) shape_facts [OF merge_shape [OF run]]
    by (auto simp: config_wf_def)
qed

lemma set_local_window_wf:
  "set_local_window c w = Inr (n, c') \<Longrightarrow> config_wf c \<Longrightarrow> config_wf c'"
  by (auto simp: set_local_window_Inr_iff config_wf_def)

lemma as_tensors_wf: "as_tensors c d = Inr (b, c') \<Longrightarrow> config_wf c \<Longrightarrow> config_wf c'"
  by (auto simp: as_tensors_def rbind_eq_Inr_iff config_wf_def split: option.splits)

lemma as_tensors_fresh:
  "as_tensors c d = Inr (b, c') \<Longrightarrow> tensors_fresh c \<Longrightarrow> tensors_fresh c' \<and> compute_tensors c = Inr b"
  by (auto simp: as_tensors_def tensors_fresh_def rbind_eq_Inr_iff split: option.splits if_splits)

lemma reachable_wf: "config_reachable c \<Longrightarrow> config_wf c"
  by (induction rule: config_reachable.induct)
     (auto dest: init_wf set_local_window_wf merge_wf as_tensors_wf)

lemma reachable_fresh: "config_reachable c \<Longrightarrow> tensors_fresh c"
proof (induction rule: config_reachable.induct)
  case (tensors c d b c')
  then show ?case using as_tensors_fresh by blast
qed (auto simp: tensors_fresh_def init_Inr_iff set_local_window_Inr_iff merge_Inr_iff)

lemma compute_tensors_entry:
  assumes "compute_tensors c = Inr b"
    and "0 \<le> l" "l < num_layers c" "0 \<le> h" "h < num_kv_heads c"
  shows "\<exists>st. get_strategy c l h = Inr st \<and>
    mat_get (tb_head_type b) l h = type_to_int (head_type st) \<and>
    mat_get (tb_window b) l h = Inr (window st) \<and>
    mat_get (tb_sink_size b) l h = Inr (sink_size st)"
proof -
  let ?f = "\<lambda>li kvh. rbind (get_strategy c li kvh) (\<lambda>strat.
              rbind (type_to_int (head_type strat)) (\<lambda>t.
              rbind (as_int32 (window strat)) (\<lambda>w.
              rbind (as_int32 (sink_size strat)) (\<lambda>s.
              Inr (t, w, s)))))"
  from assms(1) obtain rows where
    rows: "mmap (\<lambda>li. mmap (?f li) [0..num_kv_heads c - 1]) [0..num_layers c - 1] = Inr rows"
    and b: "tb_head_type b = map (map fst) rows" "tb_window b = map (map (fst \<circ> snd)) rows"
      "tb_sink_size b = map (map (snd \<circ> snd)) rows"
    by (auto simp: compute_tensors_def rbind_eq_Inr_iff)
  from mmap2_entry [OF rows assms(2-)] obtain x where x: "?f l h = Inr x"
    and g: "\<And>g :: int \<times> int \<times> int \<Rightarrow> int. mat_get (map (map g) rows) l h = Inr (g x)"
    by blast
  from x obtain st where "get_strategy c l h = Inr st"
    "type_to_int (head_type st) = Inr (fst x)" "window st = fst (snd x)" "sink_size st = snd (snd x)"
    by (auto simp: rbind_eq_Inr_iff as_int32_def split: if_splits)
  with b g show ?thesis by auto
qed

lemma merge_total: "config_wf c \<Longrightarrow> \<exists>n c'. merge_retrieval_to_global c = Inr (n, c')"
  using replace_where_total [of "loop2 (num_layers c) (num_kv_heads c)" "head_class c"
      "\<lambda>t. t = HEAD_RETRIEVAL" HEAD_GLOBAL 0]
  by (fastforce simp: merge_Inr_iff config_wf_def set_loop2)

lemma set_local_window_total: "config_covered c \<Longrightarrow> \<exists>n c'. set_local_window c w = Inr (n, c')"
  using replace_where_total [of "loop2 (num_layers c) (num_kv_heads c)" "head_max_distance c"
      "\<lambda>d. d > 0" w 0]
  by (fastforce simp: set_local_window_Inr_iff config_covered_def set_loop2)

lemma get_strategy_eq:
  assumes "mat_get (head_class c) l h = Inr t" "mat_get (head_max_distance c) l h = Inr d"
    "sink_at c l h = Inr s" "t \<in> set allowed_types"
  shows "get_strategy c l h = Inr
    \<lparr>hs_layer = l, hs_kv_head = h,
     head_type = (if l < dense_prefix_layers c then HEAD_DENSE else t),
     window = (if l < dense_prefix_layers c \<or> t \<noteq> HEAD_LOCAL then -1
               else if d > 0 then d else local_default_window c),
     sink_size = s\<rparr>"
proof -
  have "t = HEAD_GLOBAL \<or> t = HEAD_LOCAL \<or> t = HEAD_RETRIEVAL \<or> t = HEAD_DENSE"
    using assms(4) by (auto simp: allowed_types_def)
  then show ?thesis
    by (elim disjE; simp add: get_strategy_def assms(1-3))
qed

lemma merge_strategy:
  assumes "merge_retrieval_to_global c = Inr (n, c')" "config_wf c" "config_covered c"
    and r: "0 \<le> l" "l < num_layers c" "0 \<le> h" "h < num_kv_heads c"
  shows "get_strategy c' l h = rbind (get_strategy c l h) (\<lambda>st.
    Inr (if head_type st = HEAD_RETRIEVAL then st\<lparr>head_type := HEAD_GLOBAL\<rparr> else st))"
proof -
  obtain t where t: "t \<in> set allowed_types" "mat_get (head_class c) l h = Inr t"
    using config_wf_entry [OF assms(2) r] .
  obtain d s where ds: "mat_get (head_max_distance c) l h = Inr d" "sink_at c l h = Inr s"
    using config_covered_entry [OF assms(3) r] .
  let ?t = "if t = HEAD_RETRIEVAL then HEAD_GLOBAL else t"
  have c': "head_max_distance c' = head_max_distance c" "sink_at c' = sink_at c"
      "dense_prefix_layers c' = dense_prefix_layers c"
      "local_default_window c' = local_default_window c"
    using assms(1) by (auto simp: merge_Inr_iff sink_at_def fun_eq_iff split: option.splits)
  have "?t \<in> set allowed_types" using t(1) by (auto simp: allowed_types_def)
  moreover have "mat_get (head_class c') l h = Inr ?t"
    using merge_entry [OF assms(1) r] t(2) by simp
  ultimately show ?thesis
    using get_strategy_eq [OF t(2) ds t(1)] get_strategy_eq [of c' l h ?t d s] ds c'
    by auto
qed

lemma set_local_window_strategy:
  assumes "set_local_window c w = Inr (n, c')" "config_wf c" "config_covered c" "0 < w"
    and r: "0 \<le> l" "l < num_layers c" "0 \<le> h" "h < num_kv_heads c"
    and d: "mat_get (head_max_distance c) l h = Inr d"
  shows "get_strategy c' l h = rbind (get_strategy c l h) (\<lambda>st.
    Inr (if head_type st = HEAD_LOCAL \<and> 0 < d then st\<lparr>window := w\<rparr> else st))"
proof -
  obtain t where t: "t \<in> set allowed_types" "mat_get (head_class c) l h = Inr t"
    using config_wf_entry [OF assms(2) r] .
  obtain s where s: "sink_at c l h = Inr s"
    using config_covered_entry [OF assms(3) r] by metis
  from assms(1) obtain md where run: "foldM (replace_where (\<lambda>d. 0 < d) w) (head_max_distance c, 0)
      (loop2 (num_layers c) (num_kv_heads c)) = Inr (md, n)"
    and c': "c' = c\<lparr>head_max_distance := md, cached_tensors := Map.empty\<rparr>"
    by (auto simp: set_local_window_Inr_iff)
  let ?d = "if 0 < d then w else d"
  have "mat_get md l h = Inr ?d"
    using set_window_loop [OF run] r d by (auto simp: set_loop2)
  moreover have "sink_at c' l h = Inr s" using s c' by (simp add: sink_at_def split: option.splits)
  ultimately show ?thesis
    using get_strategy_eq [OF t(2) d s t(1)] get_strategy_eq [of c' l h t ?d s] t c' assms(4)
    by auto
qed

lemma normalize_allowed_id:
  assumes "config_wf c"
  shows "foldM (mat_modify normalize_type) (head_class c) (loop2 (num_layers c) (num_kv_heads c))
    = Inr (head_class c)"
proof (rule foldM_invariant_id)
  fix p assume "p \<in> set (loop2 (num_layers c) (num_kv_heads c))"
  moreover obtain i j where p: "p = (i, j)" by (cases p)
  ultimately obtain t where t: "0 \<le> i" "0 \<le> j" "t \<in> set allowed_types" "mat_get (head_class c) i j = Inr t"
    using assms by (fastforce simp: config_wf_def set_loop2)
  then show "mat_modify normalize_type (head_class c) p = Inr (head_class c)"
    using mat_set_same [OF t(1,2,4)] p by (simp add: mat_modify_app)
qed

lemma json_roundtrip:
  assumes "config_wf c"
  shows "from_json (save_head_config_json c) ds dw =
    Inr (c\<lparr>default_sink_size := ds, local_default_window := dw, cached_tensors := Map.empty\<rparr>)"
proof -
  have "head_class_config_init (head_class c) (head_max_distance c) (num_layers c) (num_kv_heads c)
      (head_sink_size c) ds dw (retrieval_top_p c) (dense_prefix_layers c)
    = Inr (c\<lparr>default_sink_size := ds, local_default_window := dw, cached_tensors := Map.empty\<rparr>)"
    unfolding init_Inr_iff using assms normalize_allowed_id [OF assms]
    by (auto simp: config_wf_def)
  then show ?thesis by (simp add: from_json_def save_head_config_json_def json_require_def)
qed

lemma build_head_config_strategies:
  assumes "build_head_config labels nl nk win sink dp = Inr c" "0 < win"
    and labels: "\<forall>row \<in> set labels. \<forall>t \<in> set row. t \<in> set allowed_types"
  shows "config_reachable c \<and> num_layers c = nl \<and> num_kv_heads c = nk \<and>
    head_sink_size c = Some (replicate (nat nl) (replicate (nat nk) sink)) \<and>
    (\<forall>l h. 0 \<le> l \<longrightarrow> l < nl \<longrightarrow> 0 \<le> h \<longrightarrow> h < nk \<longrightarrow>
      (\<exists>t. mat_get (head_class c) l h = Inr t \<and> t \<in> set allowed_types \<and> mat_get labels l h = Inr t \<and>
           mat_get (head_max_distance c) l h = Inr (if t = HEAD_LOCAL then win else -1)))"
proof -
  let ?f = "\<lambda>l h. rbind (mat_get labels l h) (\<lambda>t. Inr (if t = HEAD_LOCAL then win else -1))"
  from assms(1) obtain md where
    md: "mmap (\<lambda>l. mmap (?f l) [0..nk - 1]) [0..nl - 1] = Inr md"
    and init: "head_class_config_init labels md nl nk
       (Some (replicate (nat nl) (replicate (nat nk) sink))) sink win DEFAULT_RETRIEVAL_TOP_P dp = Inr c"
    by (auto simp: build_head_config_def rbind_eq_Inr_iff)
  from init obtain hc where
    hc: "foldM (mat_modify normalize_type) labels (loop2 nl nk) = Inr hc"
    and c: "head_class c = hc" "head_max_distance c = md" "num_layers c = nl" "num_kv_heads c = nk"
      "head_sink_size c = Some (replicate (nat nl) (replicate (nat nk) sink))"
    by (auto simp: init_Inr_iff)
  have "\<exists>t. mat_get hc l h = Inr t \<and> t \<in> set allowed_types \<and> mat_get labels l h = Inr t \<and>
        mat_get md l h = Inr (if t = HEAD_LOCAL then win else -1)"
    if r: "0 \<le> l" "l < nl" "0 \<le> h" "h < nk" for l h
  proof -
    from normalize_entry [OF hc, of l h] r obtain t y where t: "mat_get labels l h = Inr t"
      "normalize_type t = Inr y" "mat_get hc l h = Inr y" by (auto simp: set_loop2)
    from mat_get_Inr_mem [OF t(1)] labels have "t \<in> set allowed_types" by blast
    with t mmap2_entry [OF md r] show ?thesis by auto
  qed
  with c config_reachable.construct [OF init] show ?thesis by blast
qed

section \<open>Properties\<close>

text \<open>
  C1. A configuration is only ever observed in a normalised, cache-coherent state: after any
  sequence of constructor, \<^verbatim>\<open>set_local_window\<close>, \<^verbatim>\<open>merge_retrieval_to_global\<close> and \<^verbatim>\<open>as_tensors\<close>
  calls, the tensors \<^verbatim>\<open>as_tensors\<close> returns for any device, cached or not, agree entry by entry
  with what \<^verbatim>\<open>get_strategy\<close> returns now.
\<close>

theorem as_tensors_agrees_with_get_strategy:
  assumes "config_reachable c" "as_tensors c device = Inr (b, c')"
    and "0 \<le> l" "l < num_layers c" "0 \<le> h" "h < num_kv_heads c"
  shows "\<exists>st. get_strategy c l h = Inr st \<and>
    mat_get (tb_head_type b) l h = type_to_int (head_type st) \<and>
    mat_get (tb_window b) l h = Inr (window st) \<and>
    mat_get (tb_sink_size b) l h = Inr (sink_size st)"
  using compute_tensors_entry [OF _ assms(3-)] as_tensors_fresh [OF assms(2)]
    reachable_fresh [OF assms(1)] by blast

text \<open>
  C2. \<^verbatim>\<open>get_strategy\<close> never reaches its \<^verbatim>\<open>ValueError\<close> on a reachable configuration whose two
  numeric matrices cover every head: it returns the dense strategy in the first
  \<^verbatim>\<open>dense_prefix_layers\<close> layers, the configured type elsewhere, a positive window exactly when
  the configuration gives one, the default window for the other local heads, and -1 otherwise.
\<close>

theorem get_strategy_total:
  assumes "config_reachable c" "config_covered c"
    and "0 \<le> l" "l < num_layers c" "0 \<le> h" "h < num_kv_heads c"
  shows "\<exists>t d s. mat_get (head_class c) l h = Inr t \<and> t \<in> set allowed_types \<and>
    mat_get (head_max_distance c) l h = Inr d \<and> sink_at c l h = Inr s \<and>
    get_strategy c l h = Inr
      \<lparr>hs_layer = l, hs_kv_head = h,
       head_type = (if l < dense_prefix_layers c then HEAD_DENSE else t),
       window = (if l < dense_prefix_layers c \<or> t \<noteq> HEAD_LOCAL then -1
                 else if d > 0 then d else local_default_window c),
       sink_size = s\<rparr>"
  by (rule config_wf_entry [OF reachable_wf [OF assms(1)] assms(3-)],
      rule config_covered_entry [OF assms(2-)]) (use get_strategy_eq in blast)

text \<open>
  C3. \<^verbatim>\<open>merge_retrieval_to_global\<close> returns on every reachable configuration, reports the number
  of entries it rewrote, and changes nothing about a head's strategy but the label of retrieval
  heads: window and sink of every head stay what they were.
\<close>

theorem merge_retrieval_preserves_strategies:
  assumes "config_reachable c" "config_covered c"
  shows "\<exists>n c'. merge_retrieval_to_global c = Inr (n, c') \<and>
    n = int (length (filter (\<lambda>(l, h). mat_get (head_class c) l h = Inr HEAD_RETRIEVAL)
                      (loop2 (num_layers c) (num_kv_heads c)))) \<and>
    (\<forall>l h. 0 \<le> l \<longrightarrow> l < num_layers c \<longrightarrow> 0 \<le> h \<longrightarrow> h < num_kv_heads c \<longrightarrow>
       get_strategy c' l h = rbind (get_strategy c l h) (\<lambda>st.
         Inr (if head_type st = HEAD_RETRIEVAL then st\<lparr>head_type := HEAD_GLOBAL\<rparr> else st)))"
proof -
  have wf: "config_wf c" using reachable_wf [OF assms(1)] .
  from merge_total [OF wf] obtain n c' where m: "merge_retrieval_to_global c = Inr (n, c')" by blast
  then obtain hc where "foldM (replace_where (\<lambda>t. t = HEAD_RETRIEVAL) HEAD_GLOBAL)
      (head_class c, 0) (loop2 (num_layers c) (num_kv_heads c)) = Inr (hc, n)"
    by (auto simp: merge_Inr_iff)
  from merge_loop [OF this] m show ?thesis
    using merge_strategy [OF m wf assms(2)] by auto
qed

text \<open>
  \<^verbatim>\<open>set_local_window\<close> with a positive window returns on every reachable configuration that
  covers its heads and changes exactly the windows of the local heads with a positive configured
  distance; every other strategy is untouched. A local head that relies on the default window
  (configured distance not positive) is one of those left alone.
\<close>

theorem set_local_window_changes_positive_entries:
  assumes "config_reachable c" "config_covered c" "0 < w"
  shows "\<exists>n c'. set_local_window c w = Inr (n, c') \<and>
    (\<forall>l h d. 0 \<le> l \<longrightarrow> l < num_layers c \<longrightarrow> 0 \<le> h \<longrightarrow> h < num_kv_heads c \<longrightarrow>
       mat_get (head_max_distance c) l h = Inr d \<longrightarrow>
       get_strategy c' l h = rbind (get_strategy c l h) (\<lambda>st.
         Inr (if head_type st = HEAD_LOCAL \<and> 0 < d then st\<lparr>window := w\<rparr> else st)))"
  using set_local_window_total [OF assms(2), of w]
    set_local_window_strategy [OF _ reachable_wf [OF assms(1)] assms(2,3)] by blast

text \<open>
  C4. Saving a profiled configuration and loading it again, whatever defaults the loader is
  given, yields a configuration with the same strategy for every head. The saved document has
  no member for the two defaults; the profiler writes every window and sink explicitly.
\<close>

theorem profile_json_roundtrip:
  assumes "build_head_config labels nl nk win sink dp = Inr c" "0 < win"
    and "\<forall>row \<in> set labels. \<forall>t \<in> set row. t \<in> set allowed_types"
  shows "\<exists>c'. from_json (save_head_config_json c) ds dw = Inr c' \<and>
    (\<forall>l h. 0 \<le> l \<longrightarrow> l < nl \<longrightarrow> 0 \<le> h \<longrightarrow> h < nk \<longrightarrow>
       get_strategy c' l h = get_strategy c l h \<and> (\<exists>st. get_strategy c l h = Inr st))"
proof -
  note b = build_head_config_strategies [OF assms]
  let ?c' = "c\<lparr>default_sink_size := ds, local_default_window := dw, cached_tensors := Map.empty\<rparr>"
  have load: "from_json (save_head_config_json c) ds dw = Inr ?c'"
    using json_roundtrip reachable_wf b by blast
  have "get_strategy ?c' l h = get_strategy c l h \<and> (\<exists>st. get_strategy c l h = Inr st)"
    if r: "0 \<le> l" "l < nl" "0 \<le> h" "h < nk" for l h
  proof -
    from b r obtain t where t: "mat_get (head_class c) l h = Inr t" "t \<in> set allowed_types"
      "mat_get (head_max_distance c) l h = Inr (if t = HEAD_LOCAL then win else -1)" by blast
    have s: "sink_at c l h = Inr sink" "sink_at ?c' l h = Inr sink"
      using b r by (simp_all add: sink_at_def mat_get_eq)
    show ?thesis
      using get_strategy_eq [OF t(1,3) s(1) t(2)] assms(2)
        get_strategy_eq [of ?c' l h t "if t = HEAD_LOCAL then win else -1" sink] t s(2)
      by auto
  qed
  with load show ?thesis by blast
qed

section \<open>Witnesses\<close>

definition sample_labels :: "string list list" where
  "sample_labels = [[''local'', ''retrieval''], [''global'', ''local'']]"

definition sample_config :: head_class_config where
  "sample_config =
     \<lparr>head_class = sample_labels, head_max_distance = [[64, -1], [-1, 64]],
      head_sink_size = Some [[4, 4], [4, 4]], num_layers = 2, num_kv_heads = 2,
      default_sink_size = 4, local_default_window = 64,
      retrieval_top_p = DEFAULT_RETRIEVAL_TOP_P, dense_prefix_layers = 1,
      cached_tensors = Map.empty\<rparr>"

lemma sample_loop: "loop2 2 2 = [(0, 0), (0, 1), (1, 0), (1, 1)]"
  by code_simp

lemma sample_build: "build_head_config sample_labels 2 2 64 4 1 = Inr sample_config"
  by (simp add: build_head_config_def upto.simps mat_get_def py_get_def py_index_def sample_labels_def
      head_type_defs head_class_config_init_def normalize_def sample_loop normalize_step_def
      allowed_types_def sample_config_def numeral_2_eq_2)

lemma sample_reachable: "config_reachable sample_config"
  using build_head_config_strategies [OF sample_build] by (simp add: sample_labels_def allowed_types_def head_type_defs)

lemma sample_covered: "config_covered sample_config"
  by (simp add: config_covered_def sample_config_def sample_loop sink_at_def mat_get_def py_get_def py_index_def)

definition sample_bundle :: tensor_bundle where
  "sample_bundle =
     \<lparr>tb_head_type = [[3, 3], [1, 0]], tb_window = [[-1, -1], [-1, 64]],
      tb_sink_size = [[4, 4], [4, 4]], tb_retrieval_top_p = DEFAULT_RETRIEVAL_TOP_P\<rparr>"

lemma sample_tensors:
  "as_tensors sample_config ''cuda'' =
     Inr (sample_bundle, sample_config\<lparr>cached_tensors := [''cuda'' \<mapsto> sample_bundle]\<rparr>)"
  by (simp add: as_tensors_def compute_tensors_def sample_bundle_def sample_config_def upto.simps
      get_strategy_def sink_at_def mat_get_def py_get_def py_index_def sample_labels_def
      head_type_defs type_to_int_def type_code_defs as_int32_def)

theorem as_tensors_agrees_with_get_strategy_witness:
  "config_reachable sample_config \<and>
   (\<exists>st. get_strategy sample_config 1 1 = Inr st \<and>
     mat_get (tb_head_type sample_bundle) 1 1 = type_to_int (head_type st) \<and>
     mat_get (tb_window sample_bundle) 1 1 = Inr (window st) \<and>
     mat_get (tb_sink_size sample_bundle) 1 1 = Inr (sink_size st))"
  using as_tensors_agrees_with_get_strategy [OF sample_reachable sample_tensors, of 1 1]
    sample_reachable by (simp add: sample_config_def)

theorem get_strategy_total_witness:
  "\<exists>t d s. mat_get (head_class sample_config) 1 1 = Inr t \<and> t \<in> set allowed_types \<and>
    mat_get (head_max_distance sample_config) 1 1 = Inr d \<and> sink_at sample_config 1 1 = Inr s \<and>
    get_strategy sample_config 1 1 = Inr
      \<lparr>hs_layer = 1, hs_kv_head = 1,
       head_type = (if 1 < dense_prefix_layers sample_config then HEAD_DENSE else t),
       window = (if 1 < dense_prefix_layers sample_config \<or> t \<noteq> HEAD_LOCAL then -1
                 else if d > 0 then d else local_default_window sample_config),
       sink_size = s\<rparr>"
  by (rule get_strategy_total [OF sample_reachable sample_covered])
     (simp_all add: sample_config_def)

theorem merge_retrieval_preserves_strategies_witness:
  "\<exists>n c'. merge_retrieval_to_global sample_config = Inr (n, c') \<and> n = 1"
  using merge_retrieval_preserves_strategies [OF sample_reachable sample_covered]
  by (auto simp: sample_loop mat_get_def py_get_def py_index_def sample_config_def
      sample_labels_def head_type_defs)

theorem set_local_window_changes_positive_entries_witness:
  "\<exists>n c'. set_local_window sample_config 128 = Inr (n, c') \<and>
    get_strategy c' 1 1 = rbind (get_strategy sample_config 1 1) (\<lambda>st.
      Inr (if head_type st = HEAD_LOCAL \<and> 0 < (64 :: int) then st\<lparr>window := 128\<rparr> else st))"
proof -
  from set_local_window_changes_positive_entries [OF sample_reachable sample_covered, of 128]
  obtain n c' where run: "set_local_window sample_config 128 = Inr (n, c')"
    and st: "\<forall>l h d. 0 \<le> l \<longrightarrow> l < num_layers sample_config \<longrightarrow> 0 \<le> h \<longrightarrow> h < num_kv_heads sample_config \<longrightarrow>
       mat_get (head_max_distance sample_config) l h = Inr d \<longrightarrow>
       get_strategy c' l h = rbind (get_strategy sample_config l h) (\<lambda>st.
         Inr (if head_type st = HEAD_LOCAL \<and> 0 < d then st\<lparr>window := 128\<rparr> else st))"
    by auto
  from st [rule_format, of 1 1 64] run show ?thesis
    by (simp add: sample_config_def mat_get_def py_get_def py_index_def)
qed

theorem profile_json_roundtrip_witness:
  "\<exists>c'. from_json (save_head_config_json sample_config) 4 512 = Inr c' \<and>
    get_strategy c' 1 1 = get_strategy sample_config 1 1 \<and>
    (\<exists>st. get_strategy sample_config 1 1 = Inr st)"
proof -
  have labels: "\<forall>row \<in> set sample_labels. \<forall>t \<in> set row. t \<in> set allowed_types"
    by (simp add: sample_labels_def allowed_types_def head_type_defs)
  from profile_json_roundtrip [OF sample_build _ labels, of 4 512] show ?thesis by fastforce
qed

end
