(* ===== verification/Head_Trim.thy ===== *)
theory Head_Trim
  imports Offline_Cache Head_Config
begin

text \<open>
  Per-head trimmed segments, \<^verbatim>\<open>redknot/per_head_storage.py\<close>: the trim policy and its derivation
  from a head configuration, trimming, the dense expansion with zero padding, and the savings
  estimate. The batch dimension is 1 and left out; a K or V tensor has at least one head, whose
  length is the sequence length. \<open>zero_fill\<close> is the specification of trim-then-expand on one head.
\<close>

section \<open>Definitions\<close>

record head_trim_policy =
  keep_lens :: "int list list"
  sink_lens :: "int list list"

definition trim_num_layers :: "head_trim_policy \<Rightarrow> nat" where
  "trim_num_layers p = length (keep_lens p)"

definition trim_num_kv_heads :: "head_trim_policy \<Rightarrow> nat" where
  "trim_num_kv_heads p = (if keep_lens p \<noteq> [] then length (keep_lens p ! 0) else 0)"

definition trim_entry :: "head_class_config \<Rightarrow> int \<Rightarrow> int \<Rightarrow> int \<Rightarrow> (int \<times> int) result" where
  "trim_entry cfg retrieval_budget li hi =
     rbind (mat_get (head_class cfg) li hi) (\<lambda>cls.
     rbind (mat_get (head_max_distance cfg) li hi) (\<lambda>w.
     rbind (case head_sink_size cfg of None \<Rightarrow> Inl TypeError | Some m \<Rightarrow> mat_get m li hi) (\<lambda>s.
     if cls = ''global'' \<or> cls = ''dense'' then Inr (-1, 0)
     else if cls = ''local'' \<or> cls = ''local_full''
       then Inr (if w > 0 then w else 0, if s > 0 then s else 0)
     else if cls = ''retrieval'' then Inr (retrieval_budget, if s > 0 then s else 0)
     else Inr (-1, 0))))"

definition from_head_config :: "head_class_config \<Rightarrow> int \<Rightarrow> head_trim_policy result" where
  "from_head_config cfg retrieval_budget =
     (let n_layers = int (length (head_class cfg)) in
      rbind (py_get (head_class cfg) 0) (\<lambda>row0.
      let n_heads = int (length row0) in
      rbind (mmap (\<lambda>li. mmap (trim_entry cfg retrieval_budget li) [0..n_heads - 1]) [0..n_layers - 1]) (\<lambda>rows.
      Inr \<lparr>keep_lens = map (map fst) rows, sink_lens = map (map snd) rows\<rparr>)))"

record trimmed_segment =
  ts_segment_id :: string
  ts_doc_len :: nat
  ts_head_dim :: nat
  ts_num_kv_heads :: nat
  ts_num_layers :: nat
  per_head_kv :: "(page \<times> page) list list"
  ts_positions :: "int list list list"
  ts_nbytes :: nat
  ts_device :: device

definition seq_len_of :: "kv_tensor \<Rightarrow> nat" where
  "seq_len_of k = (case k of [] \<Rightarrow> 0 | h # _ \<Rightarrow> length h)"

text \<open>Subscripting a placeholder layer is a \<open>TypeError\<close>.\<close>

definition layer_kv :: "kv_pair list \<Rightarrow> int \<Rightarrow> (kv_tensor \<times> kv_tensor) result" where
  "layer_kv kv li =
     rbind (py_get kv li) (\<lambda>pair.
     case pair of (Some k, Some v) \<Rightarrow> Inr (k, v) | _ \<Rightarrow> Inl TypeError)"

definition trim_head ::
  "head_trim_policy \<Rightarrow> nat \<Rightarrow> kv_tensor \<Rightarrow> kv_tensor \<Rightarrow> int \<Rightarrow> int \<Rightarrow> (int list \<times> page \<times> page) result" where
  "trim_head policy L K V li hi =
     rbind (mat_get (keep_lens policy) li hi) (\<lambda>keep.
     rbind (mat_get (sink_lens policy) li hi) (\<lambda>sink.
     rbind (select_indices (int L) keep sink) (\<lambda>idx.
     rbind (py_get K hi) (\<lambda>kh.
     rbind (index_select kh idx) (\<lambda>k.
     rbind (py_get V hi) (\<lambda>vh.
     rbind (index_select vh idx) (\<lambda>v.
     Inr (idx, k, v))))))))"

definition rows_numel :: "page \<Rightarrow> nat" where
  "rows_numel t = sum_list (map length t)"

definition trim_segment_per_head ::
  "nat \<Rightarrow> nat \<Rightarrow> offline_segment \<Rightarrow> head_trim_policy \<Rightarrow> trimmed_segment result" where
  "trim_segment_per_head elt D seg policy =
     (if os_kv seg = [] then Inl ValueError
      else case fst (os_kv seg ! 0) of
        None \<Rightarrow> Inl AttributeError
      | Some sample_k \<Rightarrow>
          let n_layers = length (os_kv seg); n_heads = length sample_k; L = seq_len_of sample_k
          in if L \<noteq> os_doc_len seg then Inl ValueError
             else if trim_num_layers policy \<noteq> n_layers then Inl ValueError
             else if trim_num_kv_heads policy \<noteq> n_heads then Inl ValueError
             else
               rbind (mmap (\<lambda>li. rbind (layer_kv (os_kv seg) li) (\<lambda>(K, V).
                        mmap (trim_head policy L K V li) [0..int n_heads - 1]))
                      [0..int n_layers - 1]) (\<lambda>rows.
               Inr \<lparr>ts_segment_id = os_segment_id seg, ts_doc_len = L, ts_head_dim = D,
                    ts_num_kv_heads = n_heads, ts_num_layers = n_layers,
                    per_head_kv = map (map snd) rows, ts_positions = map (map fst) rows,
                    ts_nbytes = sum_list (map (\<lambda>row. sum_list (map (\<lambda>(idx, k, v).
                      rows_numel k * elt + rows_numel v * elt) row)) rows),
                    ts_device = os_device seg\<rparr>))"

definition zeros3 :: "nat \<Rightarrow> nat \<Rightarrow> nat \<Rightarrow> kv_tensor" where
  "zeros3 H L D = replicate H (replicate L (replicate D 0))"

definition expand_head ::
  "trimmed_segment \<Rightarrow> int \<Rightarrow> kv_tensor \<times> kv_tensor \<Rightarrow> int \<Rightarrow> (kv_tensor \<times> kv_tensor) result" where
  "expand_head t li = (\<lambda>(K, V) hi.
     rbind (mat_get (per_head_kv t) li hi) (\<lambda>(kh, vh).
     if length kh = 0 then Inr (K, V)
     else
       rbind (mat_get (ts_positions t) li hi) (\<lambda>idx.
       rbind (py_get K hi) (\<lambda>kd.
       rbind (index_copy kd idx kh) (\<lambda>kd'.
       rbind (py_get V hi) (\<lambda>vd.
       rbind (index_copy vd idx vh) (\<lambda>vd'.
       rbind (py_set K hi kd') (\<lambda>K'.
       rbind (py_set V hi vd') (\<lambda>V'.
       Inr (K', V'))))))))))"

text \<open>The token ids of the result are an uninitialised tensor, the argument \<open>uninit\<close>.\<close>

definition expand_to_dense :: "nat \<Rightarrow> int list \<Rightarrow> trimmed_segment \<Rightarrow> offline_segment result" where
  "expand_to_dense elt uninit t =
     rbind (mat_get (per_head_kv t) 0 0) (\<lambda>_.
     let L = ts_doc_len t; H = ts_num_kv_heads t; D = ts_head_dim t in
     rbind (mmap (\<lambda>li.
              rbind (foldM (expand_head t li) (zeros3 H L D, zeros3 H L D) [0..int H - 1]) (\<lambda>(K, V).
              Inr (Some K, Some V))) [0..int (ts_num_layers t) - 1]) (\<lambda>dense_kv.
     Inr \<lparr>os_segment_id = ts_segment_id t, os_token_ids = uninit, os_doc_len = L,
          os_kv = dense_kv, os_device = ts_device t, os_nbytes = kv_nbytes elt dense_kv\<rparr>))"

record savings =
  original_bytes :: nat
  trimmed_bytes :: nat
  saving_frac :: rat
  per_class_breakdown :: "(string \<times> nat) list"

definition savings_step ::
  "head_trim_policy \<Rightarrow> nat \<Rightarrow> nat \<Rightarrow> nat \<times> (string \<times> nat) list \<Rightarrow> int \<times> int
   \<Rightarrow> (nat \<times> (string \<times> nat) list) result" where
  "savings_step policy L per_token = (\<lambda>(trimmed, tokens) (li, hi).
     rbind (mat_get (keep_lens policy) li hi) (\<lambda>keep.
     rbind (mat_get (sink_lens policy) li hi) (\<lambda>sink.
     rbind (select_indices (int L) keep sink) (\<lambda>idx.
     let n = length idx;
         cls = (if keep < 0 then ''global''
                else if keep + sink \<ge> int L then ''full_via_overflow''
                else ''local_or_retrieval'')
     in Inr (trimmed + n * per_token,
          AList.update cls ((case map_of tokens cls of None \<Rightarrow> 0 | Some m \<Rightarrow> m) + n) tokens)))))"

definition estimate_savings ::
  "nat \<Rightarrow> nat \<Rightarrow> offline_segment \<Rightarrow> head_trim_policy \<Rightarrow> savings result" where
  "estimate_savings elt D seg policy =
     (if os_kv seg = [] then
        Inr \<lparr>original_bytes = 0, trimmed_bytes = 0, saving_frac = 0, per_class_breakdown = []\<rparr>
      else case fst (os_kv seg ! 0) of
        None \<Rightarrow> Inl AttributeError
      | Some sample_k \<Rightarrow>
          let L = seq_len_of sample_k; per_token = 2 * D * elt;
              orig = trim_num_layers policy * trim_num_kv_heads policy * L * per_token
          in rbind (foldM (savings_step policy L per_token) (0, [])
                 (loop2 (int (trim_num_layers policy)) (int (trim_num_kv_heads policy)))) (\<lambda>(trimmed, tokens).
             Inr \<lparr>original_bytes = orig, trimmed_bytes = trimmed,
                  saving_frac = 1 - (if orig \<noteq> 0 then of_nat trimmed / of_nat orig else 0),
                  per_class_breakdown = tokens\<rparr>))"

section \<open>Specification\<close>

text \<open>One head after trimming and expanding: rows outside the index list are zero.\<close>

definition zero_fill :: "nat \<Rightarrow> int list \<Rightarrow> page \<Rightarrow> page" where
  "zero_fill D idx t = map (\<lambda>i. if int i \<in> set idx then t ! i else replicate D 0) [0..<length t]"

definition kept_window :: "head_trim_policy \<Rightarrow> nat \<Rightarrow> nat \<Rightarrow> nat \<Rightarrow> int list" where
  "kept_window policy L li hi =
     visible_window (int L) (sink_lens policy ! li ! hi)
       (if keep_lens policy ! li ! hi < 0 then int L else keep_lens policy ! li ! hi)"

text \<open>A segment all of whose layers are present and have shape \<^verbatim>\<open>[1, H, L, D]\<close>.\<close>

definition segment_shape :: "nat \<Rightarrow> nat \<Rightarrow> nat \<Rightarrow> offline_segment \<Rightarrow> bool" where
  "segment_shape H L D seg \<longleftrightarrow>
     os_kv seg \<noteq> [] \<and> 0 < H \<and> os_doc_len seg = L \<and>
     (\<forall>kv \<in> set (os_kv seg). \<exists>K V. kv = (Some K, Some V) \<and> length K = H \<and> length V = H \<and>
        (\<forall>t \<in> set K \<union> set V. length t = L \<and> rows_ok D t))"

definition policy_shape :: "nat \<Rightarrow> nat \<Rightarrow> head_trim_policy \<Rightarrow> bool" where
  "policy_shape n H p \<longleftrightarrow>
     length (keep_lens p) = n \<and> length (sink_lens p) = n \<and>
     (\<forall>row \<in> set (keep_lens p) \<union> set (sink_lens p). length row = H)"

abbreviation seg_K :: "offline_segment \<Rightarrow> nat \<Rightarrow> kv_tensor" where
  "seg_K seg li \<equiv> the (fst (os_kv seg ! li))"

abbreviation seg_V :: "offline_segment \<Rightarrow> nat \<Rightarrow> kv_tensor" where
  "seg_V seg li \<equiv> the (snd (os_kv seg ! li))"

lemma segment_shapeD:
  assumes "segment_shape H L D seg" "li < length (os_kv seg)"
  shows "os_kv seg ! li = (Some (seg_K seg li), Some (seg_V seg li))"
    "length (seg_K seg li) = H" "length (seg_V seg li) = H"
    "\<And>hi. hi < H \<Longrightarrow> length (seg_K seg li ! hi) = L \<and> rows_ok D (seg_K seg li ! hi)"
    "\<And>hi. hi < H \<Longrightarrow> length (seg_V seg li ! hi) = L \<and> rows_ok D (seg_V seg li ! hi)"
proof -
  have "os_kv seg ! li \<in> set (os_kv seg)" using assms(2) by simp
  then obtain K V where kv: "os_kv seg ! li = (Some K, Some V)" "length K = H" "length V = H"
      "\<forall>t \<in> set K \<union> set V. length t = L \<and> rows_ok D t"
    using assms(1) unfolding segment_shape_def by blast
  then show "os_kv seg ! li = (Some (seg_K seg li), Some (seg_V seg li))"
    "length (seg_K seg li) = H" "length (seg_V seg li) = H"
    "\<And>hi. hi < H \<Longrightarrow> length (seg_K seg li ! hi) = L \<and> rows_ok D (seg_K seg li ! hi)"
    "\<And>hi. hi < H \<Longrightarrow> length (seg_V seg li ! hi) = L \<and> rows_ok D (seg_V seg li ! hi)"
    by auto
qed

lemma policy_shapeD:
  assumes "policy_shape n H p" "li < n" "hi < H"
  shows "mat_get (keep_lens p) (int li) (int hi) = Inr (keep_lens p ! li ! hi)"
    "mat_get (sink_lens p) (int li) (int hi) = Inr (sink_lens p ! li ! hi)"
  using assms by (auto simp: policy_shape_def mat_get_eq)

lemma kept_window_in_range: "in_range L (kept_window p L li hi)"
  by (auto simp: kept_window_def in_range_iff set_visible_window)

section \<open>Trimming\<close>

definition trimmed_head :: "offline_segment \<Rightarrow> head_trim_policy \<Rightarrow> nat \<Rightarrow> nat \<Rightarrow> nat \<Rightarrow> int list \<times> page \<times> page" where
  "trimmed_head seg p L li hi =
     (let idx = kept_window p L li hi
      in (idx, map (\<lambda>q. seg_K seg li ! hi ! nat q) idx, map (\<lambda>q. seg_V seg li ! hi ! nat q) idx))"

lemma trim_head_ok:
  assumes "segment_shape H L D seg" "policy_shape n H p" "li < n" "n = length (os_kv seg)" "hi < H"
  shows "trim_head p L (seg_K seg li) (seg_V seg li) (int li) (int hi) = Inr (trimmed_head seg p L li hi)"
proof -
  note sh = segment_shapeD [OF assms(1), of li]
  have idx: "select_indices (int L) (keep_lens p ! li ! hi) (sink_lens p ! li ! hi) = Inr (kept_window p L li hi)"
    by (simp add: select_indices_eq kept_window_def)
  show ?thesis
    using sh policy_shapeD [OF assms(2,3,5)] assms idx kept_window_in_range [of L p li hi]
    by (simp add: trim_head_def index_select_ok trimmed_head_def Let_def)
qed

lemma trim_rows_ok:
  assumes "segment_shape H L D seg" "policy_shape (length (os_kv seg)) H p"
  shows "mmap (\<lambda>li. rbind (layer_kv (os_kv seg) li) (\<lambda>(K, V). mmap (trim_head p L K V li) [0..int H - 1]))
      [0..int (length (os_kv seg)) - 1]
    = Inr (map (\<lambda>li. map (trimmed_head seg p L li) [0..<H]) [0..<length (os_kv seg)])"
proof (rule mmap_upto)
  fix li assume li: "li < length (os_kv seg)"
  have "layer_kv (os_kv seg) (int li) = Inr (seg_K seg li, seg_V seg li)"
  proof -
    obtain K V where "os_kv seg ! li = (Some K, Some V)" using segment_shapeD(1) [OF assms(1) li] by blast
    then show ?thesis using li by (simp add: layer_kv_def)
  qed
  then show "rbind (layer_kv (os_kv seg) (int li)) (\<lambda>(K, V). mmap (trim_head p L K V (int li)) [0..int H - 1])
      = Inr (map (trimmed_head seg p L li) [0..<H])"
    using trim_head_ok [OF assms li refl] by (simp add: mmap_upto)
qed

definition trim_result :: "nat \<Rightarrow> nat \<Rightarrow> nat \<Rightarrow> nat \<Rightarrow> offline_segment \<Rightarrow> head_trim_policy \<Rightarrow> trimmed_segment" where
  "trim_result elt H L D seg p =
     (let n = length (os_kv seg);
          rows = map (\<lambda>li. map (trimmed_head seg p L li) [0..<H]) [0..<n]
      in \<lparr>ts_segment_id = os_segment_id seg, ts_doc_len = L, ts_head_dim = D,
          ts_num_kv_heads = H, ts_num_layers = n,
          per_head_kv = map (map snd) rows, ts_positions = map (map fst) rows,
          ts_nbytes = sum_list (map (\<lambda>row. sum_list (map (\<lambda>(idx, k, v).
            rows_numel k * elt + rows_numel v * elt) row)) rows),
          ts_device = os_device seg\<rparr>)"

lemma segment_sample:
  assumes "segment_shape H L D seg"
  obtains K where "fst (os_kv seg ! 0) = Some K" "length K = H" "seq_len_of K = L"
proof -
  have n: "0 < length (os_kv seg)" and H: "0 < H" using assms by (auto simp: segment_shape_def)
  note sh = segment_shapeD [OF assms n]
  obtain h t where "seg_K seg 0 = h # t" using sh(2) H by (cases "seg_K seg 0") auto
  with sh(4) [of 0] H have "seq_len_of (seg_K seg 0) = L" by (simp add: seq_len_of_def)
  with that [of "seg_K seg 0"] sh(1,2) show thesis by (metis fst_conv)
qed

lemma trim_ok:
  assumes "segment_shape H L D seg" "policy_shape (length (os_kv seg)) H p"
  shows "trim_segment_per_head elt D seg p = Inr (trim_result elt H L D seg p)"
proof -
  have "os_kv seg \<noteq> []" "os_doc_len seg = L" using assms(1) by (auto simp: segment_shape_def)
  moreover have "trim_num_layers p = length (os_kv seg)" "trim_num_kv_heads p = H"
    using assms(2) \<open>os_kv seg \<noteq> []\<close> by (auto simp: policy_shape_def trim_num_layers_def trim_num_kv_heads_def)
  moreover obtain K where "fst (os_kv seg ! 0) = Some K" "length K = H" "seq_len_of K = L"
    using segment_sample [OF assms(1)] .
  ultimately show ?thesis
    using trim_rows_ok [OF assms]
    by (simp add: trim_segment_per_head_def trim_result_def Let_def)
qed

section \<open>Expanding\<close>

lemma zero_fill_Nil: "length t = L \<Longrightarrow> zero_fill D [] t = replicate L (replicate D 0)"
  by (auto simp: zero_fill_def intro!: nth_equalityI)

lemma zero_fill_all: "(\<And>i. i < length t \<Longrightarrow> int i \<in> set idx) \<Longrightarrow> zero_fill D idx t = t"
  by (auto simp: zero_fill_def intro!: nth_equalityI)

lemma index_copy_zero:
  assumes "length t = L" "in_range L idx"
  shows "index_copy (replicate L (replicate D 0)) idx (map (\<lambda>q. t ! nat q) idx) = Inr (zero_fill D idx t)"
proof -
  have "index_copy (replicate L (replicate D 0)) idx (map (\<lambda>q. t ! nat q) idx) =
      Inr (map (\<lambda>i. if int i \<in> set idx then t ! nat (int i) else replicate L (replicate D 0) ! i) [0..<L])"
    using index_copy_map_ok [of "replicate L (replicate D 0)" idx "\<lambda>q. t ! nat q"] assms by simp
  then show ?thesis using assms(1) by (auto simp: zero_fill_def cong: map_cong)
qed

lemma expand_head_ok:
  assumes shape: "segment_shape H L D seg" and li: "li < length (os_kv seg)" and hi: "hi < H"
    and kv: "length K = H" "length V = H" "K ! hi = replicate L (replicate D 0)" "V ! hi = replicate L (replicate D 0)"
  shows "expand_head (trim_result elt H L D seg p) (int li) (K, V) (int hi) =
    Inr (K[hi := zero_fill D (kept_window p L li hi) (seg_K seg li ! hi)],
         V[hi := zero_fill D (kept_window p L li hi) (seg_V seg li ! hi)])"
proof -
  let ?t = "trim_result elt H L D seg p" and ?idx = "kept_window p L li hi"
  have get: "mat_get (per_head_kv ?t) (int li) (int hi) = Inr (snd (trimmed_head seg p L li hi))"
      "mat_get (ts_positions ?t) (int li) (int hi) = Inr (fst (trimmed_head seg p L li hi))"
    using li hi by (simp_all add: mat_get_eq trim_result_def Let_def)
  note len = segment_shapeD(4,5) [OF shape li hi]
  show ?thesis
  proof (cases "?idx = []")
    case True
    have "K[hi := replicate L (replicate D 0)] = K" "V[hi := replicate L (replicate D 0)] = V"
      using kv by (metis list_update_id)+
    with True get len show ?thesis
      by (simp add: expand_head_def trimmed_head_def Let_def zero_fill_Nil)
  next
    case False
    with get len hi kv index_copy_zero [of "seg_K seg li ! hi" L ?idx D]
      index_copy_zero [of "seg_V seg li ! hi" L ?idx D] kept_window_in_range [of L p li hi]
    show ?thesis by (simp add: expand_head_def trimmed_head_def Let_def)
  qed
qed

lemma expand_layer_ok:
  assumes "segment_shape H L D seg" "li < length (os_kv seg)"
  shows "foldM (expand_head (trim_result elt H L D seg p) (int li)) (zeros3 H L D, zeros3 H L D) [0..int H - 1] =
    Inr (map (\<lambda>hi. zero_fill D (kept_window p L li hi) (seg_K seg li ! hi)) [0..<H],
         map (\<lambda>hi. zero_fill D (kept_window p L li hi) (seg_V seg li ! hi)) [0..<H])"
proof -
  let ?z = "replicate L (replicate D 0)"
  let ?f = "\<lambda>hi. zero_fill D (kept_window p L li hi) (seg_K seg li ! hi)"
  let ?g = "\<lambda>hi. zero_fill D (kept_window p L li hi) (seg_V seg li ! hi)"
  have "foldM (\<lambda>s x. expand_head (trim_result elt H L D seg p) (int li) s (int x))
      (replicate H ?z, replicate H ?z) [0..<H] =
      Inr (map (\<lambda>i. if i < H then ?f i else ?z) [0..<H], map (\<lambda>i. if i < H then ?g i else ?z) [0..<H])"
    by (rule foldM_fill2) (use expand_head_ok [OF assms] in auto)
  then show ?thesis unfolding upto_int foldM_map zeros3_def by simp
qed

lemma expand_ok:
  assumes "segment_shape H L D seg" "policy_shape (length (os_kv seg)) H p"
  shows "\<exists>dense. expand_to_dense elt uninit (trim_result elt H L D seg p) = Inr dense \<and>
    os_segment_id dense = os_segment_id seg \<and> os_doc_len dense = os_doc_len seg \<and>
    os_kv dense = map (\<lambda>li.
      (Some (map (\<lambda>hi. zero_fill D (kept_window p L li hi) (seg_K seg li ! hi)) [0..<H]),
       Some (map (\<lambda>hi. zero_fill D (kept_window p L li hi) (seg_V seg li ! hi)) [0..<H])))
      [0..<length (os_kv seg)]"
proof -
  let ?t = "trim_result elt H L D seg p"
  have n: "0 < length (os_kv seg)" "0 < H" "os_doc_len seg = L"
    using assms(1) by (auto simp: segment_shape_def)
  have t: "ts_num_layers ?t = length (os_kv seg)" "ts_num_kv_heads ?t = H" "ts_doc_len ?t = L"
      "ts_head_dim ?t = D" "ts_segment_id ?t = os_segment_id seg"
    by (simp_all add: trim_result_def Let_def)
  have first: "mat_get (per_head_kv ?t) 0 0 = Inr (per_head_kv ?t ! 0 ! 0)"
    using n by (simp add: mat_get_eq trim_result_def Let_def)
  show ?thesis
    unfolding expand_to_dense_def Let_def first rbind_Inr t
    using mmap_upto [of "length (os_kv seg)" "\<lambda>li.
        rbind (foldM (expand_head ?t li) (zeros3 H L D, zeros3 H L D) [0..int H - 1]) (\<lambda>(K, V). Inr (Some K, Some V))"]
      expand_layer_ok [OF assms(1), of _ elt p] n(3) by simp
qed

section \<open>Savings estimate\<close>

lemma rows_numel_select:
  assumes "rows_ok D t" "in_range (length t) idx"
  shows "rows_numel (map (\<lambda>q. t ! nat q) idx) = length idx * D"
proof -
  have "rows_ok D (map (\<lambda>q. t ! nat q) idx)" by (rule rows_ok_select [OF assms])
  then have "map length (map (\<lambda>q. t ! nat q) idx) = replicate (length idx) D"
    by (auto simp: rows_ok_def intro!: nth_equalityI)
  then show ?thesis unfolding rows_numel_def by (simp add: sum_list_replicate)
qed

lemma savings_fold:
  assumes "policy_shape n H p" "\<forall>(li, hi) \<in> set ps. 0 \<le> li \<and> li < int n \<and> 0 \<le> hi \<and> hi < int H"
  shows "\<exists>tok'. foldM (savings_step p L per) (a, tok) ps =
    Inr (a + sum_list (map (\<lambda>(li, hi). length (kept_window p L (nat li) (nat hi)) * per) ps), tok')"
  using assms(2)
proof (induction ps arbitrary: a tok)
  case (Cons x ps)
  obtain li hi where x: "x = (li, hi)" by (cases x)
  then have r: "nat li < n" "nat hi < H" "int (nat li) = li" "int (nat hi) = hi" using Cons.prems by auto
  note get = policy_shapeD [OF assms(1) r(1,2), unfolded r(3,4)]
  have "\<exists>tok1. savings_step p L per (a, tok) x = Inr (a + length (kept_window p L (nat li) (nat hi)) * per, tok1)"
    using x get by (simp add: savings_step_def select_indices_eq kept_window_def Let_def)
  then obtain tok1 where
    "savings_step p L per (a, tok) x = Inr (a + length (kept_window p L (nat li) (nat hi)) * per, tok1)" ..
  with Cons.IH [of "a + length (kept_window p L (nat li) (nat hi)) * per" tok1] Cons.prems x show ?case
    by (auto simp: add.assoc)
qed simp

lemma estimate_trimmed:
  assumes "segment_shape H L D seg" "policy_shape (length (os_kv seg)) H p"
  shows "\<exists>s. estimate_savings elt D seg p = Inr s \<and>
    trimmed_bytes s = (\<Sum>li<length (os_kv seg). \<Sum>hi<H. length (kept_window p L li hi) * (2 * D * elt)) \<and>
    original_bytes s = length (os_kv seg) * H * L * (2 * D * elt)"
proof -
  let ?n = "length (os_kv seg)" and ?per = "2 * D * elt"
  have ne: "os_kv seg \<noteq> []" using assms(1) by (auto simp: segment_shape_def)
  have num: "trim_num_layers p = ?n" "trim_num_kv_heads p = H"
    using assms(2) ne by (auto simp: policy_shape_def trim_num_layers_def trim_num_kv_heads_def)
  obtain K where K: "fst (os_kv seg ! 0) = Some K" "length K = H" "seq_len_of K = L"
    using segment_sample [OF assms(1)] .
  have rng: "\<forall>(li, hi) \<in> set (loop2 (int ?n) (int H)). 0 \<le> li \<and> li < int ?n \<and> 0 \<le> hi \<and> hi < int H"
    by (auto simp: set_loop2)
  obtain tok where fold: "foldM (savings_step p L ?per) (0, []) (loop2 (int ?n) (int H)) =
      Inr (0 + sum_list (map (\<lambda>(li, hi). length (kept_window p L (nat li) (nat hi)) * ?per) (loop2 (int ?n) (int H))), tok)"
    using savings_fold [OF assms(2) rng] by blast
  have "sum_list (map (\<lambda>(li, hi). length (kept_window p L (nat li) (nat hi)) * ?per) (loop2 (int ?n) (int H)))
      = (\<Sum>li<?n. \<Sum>hi<H. length (kept_window p L li hi) * ?per)"
    unfolding loop2_def sum_list_product upto_int
    by (simp add: comp_def interv_sum_list_conv_sum_set_nat atLeast0LessThan)
  with fold ne K num show ?thesis by (simp add: estimate_savings_def Let_def)
qed

lemma trim_nbytes:
  assumes "segment_shape H L D seg"
  shows "ts_nbytes (trim_result elt H L D seg p) =
    (\<Sum>li<length (os_kv seg). \<Sum>hi<H. length (kept_window p L li hi) * (2 * D * elt))"
proof -
  have one: "(case trimmed_head seg p L li hi of (idx, k, v) \<Rightarrow> rows_numel k * elt + rows_numel v * elt)
      = length (kept_window p L li hi) * (2 * D * elt)" if "li < length (os_kv seg)" "hi < H" for li hi
  proof -
    note sh = segment_shapeD(4,5) [OF assms that]
    have "rows_numel (map (\<lambda>q. seg_K seg li ! hi ! nat q) (kept_window p L li hi)) = length (kept_window p L li hi) * D"
      "rows_numel (map (\<lambda>q. seg_V seg li ! hi ! nat q) (kept_window p L li hi)) = length (kept_window p L li hi) * D"
      using sh kept_window_in_range [of L p li hi] by (intro rows_numel_select; simp)+
    then show ?thesis by (simp add: trimmed_head_def Let_def algebra_simps)
  qed
  show ?thesis
    by (simp add: trim_result_def Let_def comp_def interv_sum_list_conv_sum_set_nat atLeast0LessThan)
       (intro sum.cong refl, simp add: one)
qed

lemma trim_keep_all:
  assumes "segment_shape H L D seg" "policy_shape (length (os_kv seg)) H p"
    and "\<forall>row \<in> set (keep_lens p). \<forall>k \<in> set row. k < 0" "li < length (os_kv seg)"
  shows "map (\<lambda>hi. zero_fill D (kept_window p L li hi) (seg_K seg li ! hi)) [0..<H] = seg_K seg li"
    "map (\<lambda>hi. zero_fill D (kept_window p L li hi) (seg_V seg li ! hi)) [0..<H] = seg_V seg li"
proof -
  have "keep_lens p ! li ! hi < 0" if "hi < H" for hi
  proof -
    have "keep_lens p ! li \<in> set (keep_lens p)" using assms(2,4) by (simp add: policy_shape_def)
    moreover from this have "keep_lens p ! li ! hi \<in> set (keep_lens p ! li)"
      using assms(2) that by (simp add: policy_shape_def)
    ultimately show ?thesis using assms(3) by blast
  qed
  then have "zero_fill D (kept_window p L li hi) t = t" if "hi < H" "length t = L" for hi t
    using that by (intro zero_fill_all) (auto simp: kept_window_def set_visible_window)
  with segment_shapeD [OF assms(1,4)] show
    "map (\<lambda>hi. zero_fill D (kept_window p L li hi) (seg_K seg li ! hi)) [0..<H] = seg_K seg li"
    "map (\<lambda>hi. zero_fill D (kept_window p L li hi) (seg_V seg li ! hi)) [0..<H] = seg_V seg li"
    by (auto intro!: nth_equalityI)
qed

section \<open>Policy from a head configuration\<close>

lemma from_head_config_entry:
  assumes "config_wf c" "from_head_config c budget = Inr pol"
    and "0 \<le> l" "l < num_layers c" "0 \<le> h" "h < num_kv_heads c"
  shows "\<exists>e. trim_entry c budget l h = Inr e \<and> keep_lens pol ! nat l ! nat h = fst e \<and> sink_lens pol ! nat l ! nat h = snd e"
proof -
  have wf: "int (length (head_class c)) = num_layers c" "head_class c \<noteq> []"
      "int (length (hd (head_class c))) = num_kv_heads c"
    using assms(1) by (simp_all add: config_wf_def)
  have row0: "py_get (head_class c) 0 = Inr (hd (head_class c))"
    using wf(2) by (cases "head_class c") simp_all
  from assms(2) obtain rows where
    rows: "mmap (\<lambda>li. mmap (trim_entry c budget li) [0..num_kv_heads c - 1]) [0..num_layers c - 1] = Inr rows"
    and pol: "keep_lens pol = map (map fst) rows" "sink_lens pol = map (map snd) rows"
    by (auto simp: from_head_config_def Let_def row0 wf rbind_eq_Inr_iff)
  from mmap2_entry [OF rows assms(3-)] obtain e where e: "trim_entry c budget l h = Inr e"
    and g: "\<And>g :: int \<times> int \<Rightarrow> int. mat_get (map (map g) rows) l h = Inr (g e)" by blast
  from g [of fst] g [of snd] e assms(3,5) pol show ?thesis
    by (auto simp: mat_get_eq split: if_splits)
qed

lemma trim_entry_eq:
  assumes "mat_get (head_class c) l h = Inr t" "mat_get (head_max_distance c) l h = Inr d"
    "head_sink_size c = Some m" "mat_get m l h = Inr s" "t \<in> set allowed_types"
  shows "trim_entry c budget l h = Inr
    (if t = HEAD_LOCAL then (max 0 d, max 0 s)
     else if t = HEAD_RETRIEVAL then (budget, max 0 s) else (-1, 0))"
  using assms by (auto simp: trim_entry_def allowed_types_def head_type_defs)

section \<open>Properties\<close>

text \<open>
  C17. Trimming a segment per head and expanding it again succeeds on every well-shaped segment and
  policy and restores the dense layout: every row inside a head's kept window is the original row,
  every other row is zero, and layers, heads and id are those of the original.
\<close>

theorem trim_expand_roundtrip:
  assumes "segment_shape H L D seg" "policy_shape (length (os_kv seg)) H p"
  shows "\<exists>t dense. trim_segment_per_head elt D seg p = Inr t \<and> expand_to_dense elt uninit t = Inr dense \<and>
    os_segment_id dense = os_segment_id seg \<and> os_doc_len dense = os_doc_len seg \<and>
    os_kv dense = map (\<lambda>li.
      (Some (map (\<lambda>hi. zero_fill D (kept_window p L li hi) (the (fst (os_kv seg ! li)) ! hi)) [0..<H]),
       Some (map (\<lambda>hi. zero_fill D (kept_window p L li hi) (the (snd (os_kv seg ! li)) ! hi)) [0..<H])))
      [0..<length (os_kv seg)]"
  using trim_ok [OF assms, of elt] expand_ok [OF assms, of elt uninit] by blast

text \<open>
  C18. With a policy that keeps every head whole (keep length -1 everywhere), trimming and expanding
  gives back exactly the KV tensors of the segment.
\<close>

theorem trim_keep_all_identity:
  assumes "segment_shape H L D seg" "policy_shape (length (os_kv seg)) H p"
    and "\<forall>row \<in> set (keep_lens p). \<forall>k \<in> set row. k < 0"
  shows "\<exists>t dense. trim_segment_per_head elt D seg p = Inr t \<and> expand_to_dense elt uninit t = Inr dense \<and>
    os_kv dense = os_kv seg"
proof -
  obtain dense where d: "expand_to_dense elt uninit (trim_result elt H L D seg p) = Inr dense"
      "os_kv dense = map (\<lambda>li.
      (Some (map (\<lambda>hi. zero_fill D (kept_window p L li hi) (seg_K seg li ! hi)) [0..<H]),
       Some (map (\<lambda>hi. zero_fill D (kept_window p L li hi) (seg_V seg li ! hi)) [0..<H])))
      [0..<length (os_kv seg)]"
    using expand_ok [OF assms(1,2)] by blast
  have "os_kv dense = os_kv seg"
    unfolding d(2) using trim_keep_all [OF assms] segment_shapeD(1) [OF assms(1)]
    by (intro nth_equalityI) simp_all
  with d(1) trim_ok [OF assms(1,2), of elt] show ?thesis by blast
qed

text \<open>
  C19. The savings estimate is exact: the bytes \<^verbatim>\<open>estimate_savings\<close> predicts without materialising
  anything are the bytes \<^verbatim>\<open>trim_segment_per_head\<close> records for the trimmed segment.
\<close>

theorem estimate_matches_trim:
  assumes "segment_shape H L D seg" "policy_shape (length (os_kv seg)) H p"
  shows "\<exists>t s. trim_segment_per_head elt D seg p = Inr t \<and> estimate_savings elt D seg p = Inr s \<and>
    trimmed_bytes s = ts_nbytes t \<and> trimmed_bytes s \<le> original_bytes s"
proof -
  obtain s where s: "estimate_savings elt D seg p = Inr s"
      "trimmed_bytes s = (\<Sum>li<length (os_kv seg). \<Sum>hi<H. length (kept_window p L li hi) * (2 * D * elt))"
      "original_bytes s = length (os_kv seg) * H * L * (2 * D * elt)"
    using estimate_trimmed [OF assms] by blast
  have "length (kept_window p L li hi) \<le> L" for li hi
    by (simp add: kept_window_def length_visible_window)
  then have "trimmed_bytes s \<le> (\<Sum>li<length (os_kv seg). \<Sum>hi<H. L * (2 * D * elt))"
    unfolding s(2) by (intro sum_mono mult_right_mono) simp_all
  then have "trimmed_bytes s \<le> original_bytes s" by (simp add: s(3) algebra_simps)
  with s trim_ok [OF assms, of elt] trim_nbytes [OF assms(1), of elt p] show ?thesis by simp
qed



section \<open>Witnesses\<close>

definition sample_segment :: offline_segment where
  "sample_segment =
     \<lparr>os_segment_id = ''s'', os_token_ids = [7, 8, 9, 10], os_doc_len = 4,
      os_kv = [(Some [sample_kv, sample_kv], Some [sample_kv, sample_kv])],
      os_device = cpu, os_nbytes = 64\<rparr>"

definition sample_policy :: head_trim_policy where
  "sample_policy = \<lparr>keep_lens = [[-1, 1]], sink_lens = [[0, 1]]\<rparr>"

lemma sample_shapes:
  "segment_shape 2 4 2 sample_segment" "policy_shape (length (os_kv sample_segment)) 2 sample_policy"
  by (simp_all add: segment_shape_def sample_segment_def sample_kv_def rows_ok_def policy_shape_def sample_policy_def)

theorem trim_expand_roundtrip_witness:
  "\<exists>t dense. trim_segment_per_head 2 2 sample_segment sample_policy = Inr t \<and>
    expand_to_dense 2 [0, 0, 0, 0] t = Inr dense \<and>
    os_kv dense = [(Some [sample_kv, [[1, 2], [0, 0], [0, 0], [7, 8]]],
                    Some [sample_kv, [[1, 2], [0, 0], [0, 0], [7, 8]]])]"
proof -
  have w: "kept_window sample_policy 4 0 0 = [0, 1, 2, 3]" "kept_window sample_policy 4 0 (Suc 0) = [0, 3]"
    by code_simp+
  from trim_expand_roundtrip [OF sample_shapes, of 2 "[0, 0, 0, 0]"] show ?thesis
    by (auto simp: sample_segment_def w zero_fill_def sample_kv_def numeral_2_eq_2 upt_rec)
qed

theorem trim_keep_all_identity_witness:
  "\<exists>t dense. trim_segment_per_head 2 2 sample_segment \<lparr>keep_lens = [[-1, -1]], sink_lens = [[0, 0]]\<rparr> = Inr t \<and>
    expand_to_dense 2 [0, 0, 0, 0] t = Inr dense \<and> os_kv dense = os_kv sample_segment"
  by (rule trim_keep_all_identity [OF sample_shapes(1)])
     (simp_all add: policy_shape_def sample_segment_def)

theorem estimate_matches_trim_witness:
  "\<exists>t s. trim_segment_per_head 2 2 sample_segment sample_policy = Inr t \<and>
    estimate_savings 2 2 sample_segment sample_policy = Inr s \<and>
    trimmed_bytes s = ts_nbytes t \<and> trimmed_bytes s \<le> original_bytes s"
  by (rule estimate_matches_trim [OF sample_shapes])


end
