(* ===== verification/Seg_Paged.thy ===== *)
theory Seg_Paged
  imports Paged_Storage
begin

text \<open>
  The first segment-paged store, \<^verbatim>\<open>SegPagedKVCache\<close> and \<^verbatim>\<open>build_segpaged_cache\<close> of
  \<^verbatim>\<open>redknot/segpaged.py\<close>.

  The five pool fields of \<^verbatim>\<open>SegPagedKVCache\<close> and its allocation loop are those of
  \<^verbatim>\<open>LocalPagedPool\<close>, so the record \<open>seg_paged_cache\<close> embeds a \<open>local_paged_pool\<close>. The refinement
  \<open>v1_abs\<close> maps a v1 cache to the v2 cache that holds the same rows under trivial plans; adding a
  head segment commutes with it, so the v2 lemmas carry over.
\<close>

section \<open>Definitions\<close>

record v1_segment =
  s1_layer :: int
  s1_head :: int
  s1_segment :: int
  s1_page_ids :: "nat list"
  s1_seq_len :: nat

record seg_paged_cache =
  sp_num_layers :: int
  sp_num_kv_heads :: nat
  sp_pool :: local_paged_pool
  sp_segments :: "((int \<times> int \<times> int) \<times> v1_segment) list"
  sp_head_policy :: "((int \<times> int) \<times> string) list"
  sp_head_segments :: "((int \<times> int) \<times> int list) list"

definition seg_paged_cache_init :: "int \<Rightarrow> nat \<Rightarrow> nat \<Rightarrow> nat \<Rightarrow> seg_paged_cache" where
  "seg_paged_cache_init n_layers n_heads head_dim page_size =
     \<lparr>sp_num_layers = n_layers, sp_num_kv_heads = n_heads,
      sp_pool = local_paged_pool_init head_dim page_size,
      sp_segments = [], sp_head_policy = [], sp_head_segments = []\<rparr>"

definition v1_lookup :: "seg_paged_cache \<Rightarrow> int \<Rightarrow> int \<Rightarrow> int \<Rightarrow> v1_segment result" where
  "v1_lookup c layer head segment =
     (case map_of (sp_segments c) (layer, head, segment) of
        None \<Rightarrow> Inl KeyError | Some seg \<Rightarrow> Inr seg)"

definition v1_policy :: "seg_paged_cache \<Rightarrow> int \<Rightarrow> int \<Rightarrow> string result" where
  "v1_policy c layer head =
     (case map_of (sp_head_policy c) (layer, head) of
        None \<Rightarrow> Inl KeyError | Some pol \<Rightarrow> Inr pol)"

definition v1_segments_of :: "seg_paged_cache \<Rightarrow> int \<Rightarrow> int \<Rightarrow> v1_segment list result" where
  "v1_segments_of c layer head =
     mmap (v1_lookup c layer head) (dict_get_list (sp_head_segments c) (layer, head))"

definition v1_alloc_pages ::
  "seg_paged_cache \<Rightarrow> nat \<Rightarrow> (nat list \<times> local_paged_pool) result" where
  "v1_alloc_pages c n_tokens =
     rbind (py_cdiv n_tokens (pl_page_size (sp_pool c))) (\<lambda>n_pages.
     Inr (alloc_pages (sp_pool c) n_pages))"

definition v1_scatter_step ::
  "nat \<Rightarrow> page \<Rightarrow> page \<Rightarrow> local_paged_pool \<Rightarrow> nat \<times> nat \<Rightarrow> local_paged_pool result" where
  "v1_scatter_step seq_len k v p = (\<lambda>(i, vid).
     rbind (virt_lookup p vid) (\<lambda>phys.
     let start = i * pl_page_size p;
         e = min (start + pl_page_size p) seq_len;
         n = e - start
     in rbind (page_assign (pl_head_dim p) (k_pages p) phys n (slice start e k)) (\<lambda>kp.
        rbind (page_assign (pl_head_dim p) (v_pages p) phys n (slice start e v)) (\<lambda>vp.
        Inr (p\<lparr>k_pages := kp, v_pages := vp\<rparr>)))))"

definition add_head_segment ::
  "seg_paged_cache \<Rightarrow> int \<Rightarrow> int \<Rightarrow> int \<Rightarrow> string \<Rightarrow> page \<Rightarrow> page
   \<Rightarrow> (v1_segment \<times> seg_paged_cache) result" where
  "add_head_segment c layer head segment policy k v =
     (let seq_len = length k in
      rbind (v1_alloc_pages c seq_len) (\<lambda>(virt_ids, p1).
      rbind (foldM (v1_scatter_step seq_len k v) p1 (List.enumerate 0 virt_ids)) (\<lambda>p2.
      let seg = \<lparr>s1_layer = layer, s1_head = head, s1_segment = segment,
                 s1_page_ids = virt_ids, s1_seq_len = seq_len\<rparr>
      in Inr (seg, c\<lparr>sp_pool := p2,
           sp_segments := AList.update (layer, head, segment) seg (sp_segments c),
           sp_head_policy := AList.update (layer, head) policy (sp_head_policy c),
           sp_head_segments := AList.update (layer, head)
             (dict_get_list (sp_head_segments c) (layer, head) @ [segment])
             (sp_head_segments c)\<rparr>))))"

fun v1_gather_pages :: "local_paged_pool \<Rightarrow> nat list \<Rightarrow> nat \<Rightarrow> (page \<times> page) result" where
  "v1_gather_pages p [] remaining = Inr ([], [])"
| "v1_gather_pages p (vid # vids) remaining =
     (let t = min (pl_page_size p) remaining
      in rbind (read_page p vid t) (\<lambda>(k, v).
         rbind (v1_gather_pages p vids (remaining - t)) (\<lambda>(ks, vs).
         Inr (k @ ks, v @ vs))))"

definition v1_gather_segment :: "seg_paged_cache \<Rightarrow> v1_segment \<Rightarrow> (page \<times> page) result" where
  "v1_gather_segment c seg = v1_gather_pages (sp_pool c) (s1_page_ids seg) (s1_seq_len seg)"

definition v1_gather_head :: "seg_paged_cache \<Rightarrow> int \<Rightarrow> int \<Rightarrow> (page \<times> page) result" where
  "v1_gather_head c layer head =
     rbind (v1_segments_of c layer head) (\<lambda>segs.
     rbind (mmap (v1_gather_segment c) segs) (\<lambda>parts.
     Inr (concat (map fst parts), concat (map snd parts))))"

text \<open>\<^verbatim>\<open>self._k_pages[0].numel()\<close> is the element count of one page.\<close>

definition v1_physical_bytes :: "nat \<Rightarrow> seg_paged_cache \<Rightarrow> nat" where
  "v1_physical_bytes elt c =
     (let p = sp_pool c
      in if k_pages p = [] then 0
         else let per_page = sum_list (map length (k_pages p ! 0)) * elt
              in 2 * length (k_pages p) * per_page)"

definition v1_stored_token_count :: "seg_paged_cache \<Rightarrow> nat" where
  "v1_stored_token_count c = sum_list (map (s1_seq_len \<circ> snd) (sp_segments c))"

text \<open>The body of the head loop of \<^verbatim>\<open>build_segpaged_cache\<close>: select the rows, then store them.\<close>

definition v1_head_rows :: "string \<Rightarrow> nat \<Rightarrow> int \<Rightarrow> int \<Rightarrow> page \<Rightarrow> page \<Rightarrow> (page \<times> page) result" where
  "v1_head_rows policy L sink recent kh vh =
     (if policy = POLICY_GLOBAL then Inr (kh, vh)
      else if policy = POLICY_LOCAL then
        rbind (local_visible_indices (int L) sink recent) (\<lambda>idx.
        rbind (index_select kh idx) (\<lambda>k.
        rbind (index_select vh idx) (\<lambda>v. Inr (k, v))))
      else Inl ValueError)"

definition v1_build_head ::
  "nat \<Rightarrow> page list \<Rightarrow> page list \<Rightarrow> string list \<Rightarrow> int \<Rightarrow> int \<Rightarrow> int \<Rightarrow> seg_paged_cache \<Rightarrow> nat
   \<Rightarrow> seg_paged_cache result" where
  "v1_build_head L k_dense v_dense head_policy sink recent layer c h =
     rbind (py_get head_policy (int h)) (\<lambda>policy.
     rbind (py_get k_dense (int h)) (\<lambda>kh.
     rbind (py_get v_dense (int h)) (\<lambda>vh.
     rbind (v1_head_rows policy L sink recent kh vh) (\<lambda>(k, v).
     rbind (add_head_segment c layer (int h) 0 policy k v) (\<lambda>(seg, c').
     Inr c')))))"

definition build_segpaged_cache ::
  "nat \<Rightarrow> nat \<Rightarrow> page list \<Rightarrow> page list \<Rightarrow> string list \<Rightarrow> int \<Rightarrow> int \<Rightarrow> nat \<Rightarrow> int
   \<Rightarrow> seg_paged_cache result" where
  "build_segpaged_cache L D k_dense v_dense head_policy sink recent page_size layer =
     (let H = length k_dense in
      foldM (v1_build_head L k_dense v_dense head_policy sink recent layer)
        (seg_paged_cache_init (layer + 1) H D page_size) [0..<H])"

section \<open>Refinement to the v2 store\<close>

definition whole_plan :: "string \<Rightarrow> nat \<Rightarrow> head_visible_plan" where
  "whole_plan pol n = \<lparr>plan_policy = pol, plan_positions = map int [0..<n], plan_seq_len = int n\<rparr>"

definition v1_abs_seg :: "v1_segment \<Rightarrow> head_segment" where
  "v1_abs_seg s =
     \<lparr>seg_layer = s1_layer s, seg_head = s1_head s, seg_segment = s1_segment s,
      seg_page_ids = s1_page_ids s, seg_positions = map int [0..<s1_seq_len s]\<rparr>"

definition v1_abs :: "seg_paged_cache \<Rightarrow> local_paged_pool paged_cache" where
  "v1_abs c =
     \<lparr>pc_num_kv_heads = sp_num_kv_heads c, pc_head_dim = pl_head_dim (sp_pool c),
      pc_page_size = pl_page_size (sp_pool c), pc_storage = sp_pool c,
      pc_table = \<lparr>pt_page_size = pl_page_size (sp_pool c),
        pt_segments = map (\<lambda>(key, s). (key, v1_abs_seg s)) (sp_segments c),
        pt_head_segments = sp_head_segments c\<rparr>\<rparr>"

lemma update_map_values:
  "AList.update k (f v) (map (\<lambda>(key, x). (key, f x)) al) = map (\<lambda>(key, x). (key, f x)) (AList.update k v al)"
  by (induction al) auto

lemma map_of_map_values:
  "map_of (map (\<lambda>(key, x). (key, f x)) al) k = map_option f (map_of al k)"
  by (induction al) auto

lemma index_select_whole: "length t = n \<Longrightarrow> index_select t (map int [0..<n]) = Inr t"
  by (auto simp: index_select_def in_range_iff intro!: nth_equalityI)

lemma alloc_pages_sizes:
  "alloc_pages p n = (vids, p') \<Longrightarrow>
   pl_page_size p' = pl_page_size p \<and> pl_head_dim p' = pl_head_dim p \<and> length vids = n"
  by (induction n arbitrary: p vids) (auto simp: Let_def alloc_one_page_def split: prod.splits)

text \<open>One v1 scatter step is one v2 step, as long as the page has something to hold.\<close>

lemma v1_scatter_step_eq:
  assumes "0 < pl_page_size p" "i < cdiv n (pl_page_size p)" "length k = n" "length v = n"
  shows "v1_scatter_step n k v p (i, vid) =
    scatter_step local_backend (pl_page_size p) n k v p (i, vid)"
proof -
  have lt: "i * pl_page_size p < n" using less_cdiv_iff [OF assms(1)] assms(2) by blast
  have len: "length (slice (i * pl_page_size p) (min (i * pl_page_size p + pl_page_size p) n) t)
      = min (i * pl_page_size p + pl_page_size p) n - i * pl_page_size p" if "length t = n" for t :: page
    using that lt by simp
  have "min (i * pl_page_size p + pl_page_size p) n - i * pl_page_size p \<le> pl_page_size p" by simp
  then show ?thesis
    using lt assms(1) len [OF assms(3)]
    by (simp add: v1_scatter_step_def scatter_step_def local_backend_def write_page_def Let_def)
qed

lemma write_page_sizes:
  "write_page p vid k v = Inr p' \<Longrightarrow> pl_page_size p' = pl_page_size p \<and> pl_head_dim p' = pl_head_dim p"
  by (auto simp: write_page_def Let_def rbind_eq_Inr_iff split: if_splits)

lemma scatter_step_sizes:
  "scatter_step local_backend ps n k v p x = Inr p' \<Longrightarrow>
   pl_page_size p' = pl_page_size p \<and> pl_head_dim p' = pl_head_dim p"
  by (auto simp: scatter_step_def local_backend_def Let_def split: prod.splits if_splits
      dest: write_page_sizes)

lemma v1_scatter_eq:
  assumes "0 < pl_page_size p" "i + length vids \<le> cdiv n (pl_page_size p)" "length k = n" "length v = n"
  shows "foldM (v1_scatter_step n k v) p (List.enumerate i vids) =
    foldM (scatter_step local_backend (pl_page_size p) n k v) p (List.enumerate i vids)"
  using assms
proof (induction vids arbitrary: i p)
  case (Cons vid vids)
  have eq: "v1_scatter_step n k v p (i, vid) =
      scatter_step local_backend (pl_page_size p) n k v p (i, vid)"
    using Cons.prems by (intro v1_scatter_step_eq) simp_all
  show ?case
  proof (cases "scatter_step local_backend (pl_page_size p) n k v p (i, vid)")
    case (Inr p1)
    then have "pl_page_size p1 = pl_page_size p" using scatter_step_sizes by blast
    with Cons.IH [of p1 "Suc i"] Cons.prems eq Inr show ?thesis by simp
  qed (simp add: eq)
qed simp

lemma scatter_sizes:
  assumes "foldM (scatter_step local_backend ps n k v) p xs = Inr p'"
  shows "pl_page_size p' = pl_page_size p \<and> pl_head_dim p' = pl_head_dim p"
  using assms
proof (induction xs arbitrary: p)
  case (Cons x xs)
  then show ?case by (auto simp: rbind_eq_Inr_iff dest!: scatter_step_sizes)
qed simp

lemma add_refines:
  assumes "length v = length k"
  shows "rbind (add_head_segment c l h i pol k v) (\<lambda>(s, c'). Inr (v1_abs_seg s, v1_abs c'))
    = store_head_segment local_backend (v1_abs c) l h i k v (whole_plan pol (length k))"
proof (cases "pl_page_size (sp_pool c) = 0")
  case True
  then show ?thesis
    using assms by (simp add: add_head_segment_def v1_alloc_pages_def py_cdiv_def store_head_segment_def
        Let_def v1_abs_def whole_plan_def index_select_whole)
next
  case False
  let ?ps = "pl_page_size (sp_pool c)" and ?n = "length k"
  obtain vids p1 where al: "alloc_pages (sp_pool c) (cdiv ?n ?ps) = (vids, p1)"
    by (cases "alloc_pages (sp_pool c) (cdiv ?n ?ps)")
  note sz = alloc_pages_sizes [OF al]
  have fold: "foldM (v1_scatter_step ?n k v) p1 (List.enumerate 0 vids) =
      foldM (scatter_step local_backend ?ps ?n k v) p1 (List.enumerate 0 vids)"
    using v1_scatter_eq [of p1 0 vids ?n k v] False sz assms by simp
  show ?thesis
  proof (cases "foldM (scatter_step local_backend ?ps ?n k v) p1 (List.enumerate 0 vids)")
    case (Inl e)
    then show ?thesis
      using False al fold assms
      by (simp add: add_head_segment_def v1_alloc_pages_def store_head_segment_def Let_def
          v1_abs_def whole_plan_def index_select_whole)
  next
    case (Inr p2)
    let ?s1 = "\<lparr>s1_layer = l, s1_head = h, s1_segment = i, s1_page_ids = vids, s1_seq_len = ?n\<rparr>"
    let ?s2 = "\<lparr>seg_layer = l, seg_head = h, seg_segment = i, seg_page_ids = vids,
                 seg_positions = map int [0..<?n]\<rparr>"
    have seg: "v1_abs_seg ?s1 = ?s2" by (simp add: v1_abs_seg_def)
    note upd = update_map_values [of "(l, h, i)" v1_abs_seg ?s1 "sp_segments c", unfolded seg]
    show ?thesis
      using Inr scatter_sizes [OF Inr] sz False al fold assms seg upd
      by (simp add: add_head_segment_def v1_alloc_pages_def store_head_segment_def Let_def
          v1_abs_def whole_plan_def index_select_whole table_add_def)
  qed
qed

lemma v1_gather_pages_eq:
  assumes "0 < pl_page_size p" "length vids = cdiv n (pl_page_size p)"
  shows "v1_gather_pages p vids n = gather_pages local_backend p (pl_page_size p) vids n"
  using assms(2)
proof (induction vids arbitrary: n)
  case (Cons vid vids)
  then have "0 < n" using less_cdiv_iff [OF assms(1), of 0 n] by simp
  moreover have "length vids = cdiv (n - min (pl_page_size p) n) (pl_page_size p)"
    using Cons.prems cdiv_step [OF assms(1) \<open>0 < n\<close>] by (cases "pl_page_size p \<le> n") simp_all
  ultimately show ?case
    using Cons.IH [of "n - min (pl_page_size p) n"] assms(1) by (auto simp: Let_def)
qed simp

lemma v1_gather_head_refines:
  assumes "cache_ok local_backend pool_ok pool_live (v1_abs c)"
  shows "v1_gather_head c l h = gather_head local_backend (v1_abs c) l h"
proof -
  have look: "table_get (pc_table (v1_abs c)) l h i = rbind (v1_lookup c l h i) (\<lambda>s. Inr (v1_abs_seg s))" for i
    by (simp add: table_get_def v1_lookup_def v1_abs_def map_of_map_values split: option.splits)
  have segs: "segments_of (pc_table (v1_abs c)) l h =
      rbind (v1_segments_of c l h) (\<lambda>ss. Inr (map v1_abs_seg ss))"
    unfolding segments_of_def v1_segments_of_def look mmap_map_result
    by (simp add: v1_abs_def)
  have one: "gather_segment local_backend (v1_abs c) (v1_abs_seg s) = v1_gather_segment c s"
    if "v1_abs_seg s \<in> set (all_segments (pc_table (v1_abs c)))" for s
  proof -
    from assms that have "length (s1_page_ids s) = cdiv (s1_seq_len s) (pl_page_size (sp_pool c))"
      "0 < pl_page_size (sp_pool c)"
      by (auto simp: cache_ok_def segment_ok_def v1_abs_seg_def seg_kept_def v1_abs_def)
    then show ?thesis
      using v1_gather_pages_eq by (simp add: gather_segment_def v1_gather_segment_def v1_abs_def
          v1_abs_seg_def seg_kept_def)
  qed
  show ?thesis
  proof (cases "v1_segments_of c l h")
    case (Inl e)
    then show ?thesis by (simp add: v1_gather_head_def gather_head_def segs)
  next
    case (Inr ss)
    then have "segments_of (pc_table (v1_abs c)) l h = Inr (map v1_abs_seg ss)" using segs by simp
    then have "mmap (gather_segment local_backend (v1_abs c)) (map v1_abs_seg ss) = mmap (v1_gather_segment c) ss"
      unfolding mmap_map using one segments_of_mem by (intro mmap_cong) auto
    with Inr show ?thesis by (simp add: v1_gather_head_def gather_head_def segs)
  qed
qed

section \<open>Building the v1 cache\<close>

text \<open>The plan that describes what a head of the given policy keeps.\<close>

definition policy_plan :: "string \<Rightarrow> nat \<Rightarrow> int \<Rightarrow> int \<Rightarrow> head_visible_plan" where
  "policy_plan pol L sink recent =
     \<lparr>plan_policy = pol,
      plan_positions = (if pol = POLICY_GLOBAL then [0..int L - 1] else visible_window (int L) sink recent),
      plan_seq_len = int L\<rparr>"

definition dense_shape :: "nat \<Rightarrow> nat \<Rightarrow> page list \<Rightarrow> page list \<Rightarrow> bool" where
  "dense_shape L D k v \<longleftrightarrow>
     length v = length k \<and>
     (\<forall>t \<in> set k \<union> set v. length t = L \<and> rows_ok D t)"

lemma policy_plan_in_range: "in_range L (plan_positions (policy_plan pol L s r))"
  by (auto simp: policy_plan_def in_range_iff set_visible_window)

lemma kv_select_all: "length t = L \<Longrightarrow> map (\<lambda>p. t ! nat p) [0..int L - 1] = t"
  using index_select_all [of "int L" t] by (auto simp: index_select_def split: if_splits)

lemma v1_head_rows_ok:
  assumes "pol = POLICY_GLOBAL \<or> pol = POLICY_LOCAL" "length kh = L" "length vh = L"
  shows "v1_head_rows pol L s r kh vh =
    Inr (kv_select kh (policy_plan pol L s r), kv_select vh (policy_plan pol L s r))"
proof -
  have "in_range L (visible_window (int L) s r)"
    by (auto simp: in_range_iff set_visible_window)
  with assms show ?thesis
    by (auto simp: v1_head_rows_def kv_select_def policy_plan_def kv_select_all
        local_visible_indices_eq index_select_ok POLICY_GLOBAL_def POLICY_LOCAL_def)
qed

lemma v1_init_abs:
  "v1_abs (seg_paged_cache_init nl H D ps) = paged_cache_init H D ps (local_paged_pool_init D ps)"
  by (simp add: v1_abs_def seg_paged_cache_init_def paged_cache_init_def page_table_init_def
      local_paged_pool_init_def)

lemma v1_stored_abs: "v1_stored_token_count c = stored_token_count (v1_abs c)"
  by (simp add: v1_stored_token_count_def stored_token_count_def all_segments_def v1_abs_def
      v1_abs_seg_def seg_kept_def comp_def case_prod_beta)

lemma v1_add_ok:
  assumes ok: "cache_ok local_backend pool_ok pool_live (v1_abs c)"
    and new: "map_of (pt_segments (pc_table (v1_abs c))) (l, h, i) = None"
    and rows: "rows_ok (pc_head_dim (v1_abs c)) k" "rows_ok (pc_head_dim (v1_abs c)) v" "length v = length k"
  shows "\<exists>s c'. add_head_segment c l h i pol k v = Inr (s, c') \<and>
    store_head_segment local_backend (v1_abs c) l h i k v (whole_plan pol (length k)) = Inr (v1_abs_seg s, v1_abs c')"
proof -
  have r: "in_range (length k) (plan_positions (whole_plan pol (length k)))"
      "in_range (length v) (plan_positions (whole_plan pol (length k)))"
    using rows(3) by (auto simp: whole_plan_def in_range_iff)
  obtain seg c2 where
    "store_head_segment local_backend (v1_abs c) l h i k v (whole_plan pol (length k)) = Inr (seg, c2)"
    using pool.store_ok [OF ok new r rows(1,2)] by blast
  with add_refines [OF rows(3), of c l h i pol] show ?thesis
    by (fastforce simp: rbind_eq_Inr_iff)
qed

lemma kv_select_whole: "length t = n \<Longrightarrow> map (\<lambda>p. t ! nat p) (plan_positions (whole_plan pol n)) = t"
  by (auto simp: whole_plan_def intro!: nth_equalityI)

lemma v1_build_prefix:
  assumes shape: "dense_shape L D k v" and pols: "length pols = length k"
      "\<forall>pol \<in> set pols. pol = POLICY_GLOBAL \<or> pol = POLICY_LOCAL"
    and ps: "0 < ps" and n: "n \<le> length k"
  shows "\<exists>c. foldM (v1_build_head L k v pols sink recent layer)
      (seg_paged_cache_init nl (length k) D ps) [0..<n] = Inr c \<and>
    cache_ok local_backend pool_ok pool_live (v1_abs c) \<and> pc_page_size (v1_abs c) = ps \<and>
    pc_head_dim (v1_abs c) = D \<and> pc_num_kv_heads (v1_abs c) = length k \<and>
    (\<forall>h. gather_head local_backend (v1_abs c) layer (int h) =
       Inr (if h < n then (kv_select (k ! h) (policy_plan (pols ! h) L sink recent),
                           kv_select (v ! h) (policy_plan (pols ! h) L sink recent)) else ([], []))) \<and>
    (\<forall>h \<ge> n. map_of (pt_segments (pc_table (v1_abs c))) (layer, int h, 0) = None) \<and>
    v1_stored_token_count c = (\<Sum>h<n. plan_kept (policy_plan (pols ! h) L sink recent))"
  using n
proof (induction n)
  case 0
  show ?case
    using cache_init_ok [OF ps, of "length k" D] unfolding v1_stored_abs
    by (simp add: v1_init_abs)
       (simp add: paged_cache_init_def page_table_init_def gather_head_def segments_of_def
        dict_get_list_def stored_token_count_def all_segments_def)
next
  case (Suc n)
  then obtain c where c: "foldM (v1_build_head L k v pols sink recent layer)
      (seg_paged_cache_init nl (length k) D ps) [0..<n] = Inr c"
    "cache_ok local_backend pool_ok pool_live (v1_abs c)" "pc_page_size (v1_abs c) = ps"
    "pc_head_dim (v1_abs c) = D" "pc_num_kv_heads (v1_abs c) = length k"
    "\<forall>h. gather_head local_backend (v1_abs c) layer (int h) =
       Inr (if h < n then (kv_select (k ! h) (policy_plan (pols ! h) L sink recent),
                           kv_select (v ! h) (policy_plan (pols ! h) L sink recent)) else ([], []))"
    "\<forall>h \<ge> n. map_of (pt_segments (pc_table (v1_abs c))) (layer, int h, 0) = None"
    "v1_stored_token_count c = (\<Sum>h<n. plan_kept (policy_plan (pols ! h) L sink recent))"
    by auto
  let ?pl = "policy_plan (pols ! n) L sink recent"
  let ?kn = "kv_select (k ! n) ?pl" and ?vn = "kv_select (v ! n) ?pl"
  have n: "n < length k" "n < length v" "n < length pols"
    using Suc.prems shape pols(1) by (auto simp: dense_shape_def)
  then have mem: "k ! n \<in> set k" "v ! n \<in> set v" "pols ! n \<in> set pols" by simp_all
  then have len: "length (k ! n) = L" "length (v ! n) = L"
    and rows: "rows_ok D (k ! n)" "rows_ok D (v ! n)"
    using shape by (auto simp: dense_shape_def)
  have rows': "rows_ok (pc_head_dim (v1_abs c)) ?kn" "rows_ok (pc_head_dim (v1_abs c)) ?vn"
    using rows len policy_plan_in_range c(4) unfolding kv_select_def by (auto intro!: rows_ok_select)
  have lens: "length ?vn = length ?kn" by (simp add: kv_select_def)
  have new: "map_of (pt_segments (pc_table (v1_abs c))) (layer, int n, 0) = None" using c(7) by simp
  obtain s c' where add: "add_head_segment c layer (int n) 0 (pols ! n) ?kn ?vn = Inr (s, c')"
    and run: "store_head_segment local_backend (v1_abs c) layer (int n) 0 ?kn ?vn
        (whole_plan (pols ! n) (length ?kn)) = Inr (v1_abs_seg s, v1_abs c')"
    using v1_add_ok [OF c(2) new rows' lens] by blast
  have r: "in_range (length ?kn) (plan_positions (whole_plan (pols ! n) (length ?kn)))"
      "in_range (length ?vn) (plan_positions (whole_plan (pols ! n) (length ?kn)))"
    using lens by (auto simp: whole_plan_def in_range_iff)
  note st = pool.store_cache_ok [OF c(2) new r rows' run]
  have gh: "gather_head local_backend (v1_abs c') layer (int h) =
       Inr (if h < Suc n then (kv_select (k ! h) (policy_plan (pols ! h) L sink recent),
                               kv_select (v ! h) (policy_plan (pols ! h) L sink recent)) else ([], []))" for h
    using pool.gather_head_store [OF c(2) new r rows' run, of layer "int h"] c(6) lens
    by (auto simp: kv_select_whole)
  have step: "v1_build_head L k v pols sink recent layer c n = Inr c'"
    using n add v1_head_rows_ok [of "pols ! n" "k ! n" L "v ! n" sink recent] mem(3) len pols(2)
    by (simp add: v1_build_head_def)
  have cnt: "v1_stored_token_count c' = v1_stored_token_count c + plan_kept ?pl"
    using st(3,4) by (simp add: v1_stored_abs stored_token_count_def plan_kept_def whole_plan_def kv_select_def)
  show ?case
    using c(1) step st(1,5,6,7) c(3,4,5,7,8) gh cnt
    by (intro exI [of _ c']) (simp add: foldM_append st(8))
qed

lemma build_segpaged_cache_ok:
  assumes "dense_shape L D k v" "length pols = length k"
      "\<forall>pol \<in> set pols. pol = POLICY_GLOBAL \<or> pol = POLICY_LOCAL" "0 < ps"
  shows "\<exists>c. build_segpaged_cache L D k v pols sink recent ps layer = Inr c \<and>
    sp_num_kv_heads c = length k \<and>
    (\<forall>h < length k. v1_gather_head c layer (int h) =
       Inr (kv_select (k ! h) (policy_plan (pols ! h) L sink recent),
            kv_select (v ! h) (policy_plan (pols ! h) L sink recent))) \<and>
    v1_stored_token_count c = (\<Sum>h<length k. plan_kept (policy_plan (pols ! h) L sink recent))"
proof -
  from v1_build_prefix [OF assms order_refl, of sink recent layer "layer + 1"]
  obtain c where c: "foldM (v1_build_head L k v pols sink recent layer)
      (seg_paged_cache_init (layer + 1) (length k) D ps) [0..<length k] = Inr c"
    "cache_ok local_backend pool_ok pool_live (v1_abs c)" "pc_num_kv_heads (v1_abs c) = length k"
    "\<forall>h. gather_head local_backend (v1_abs c) layer (int h) =
       Inr (if h < length k then (kv_select (k ! h) (policy_plan (pols ! h) L sink recent),
                           kv_select (v ! h) (policy_plan (pols ! h) L sink recent)) else ([], []))"
    "v1_stored_token_count c = (\<Sum>h<length k. plan_kept (policy_plan (pols ! h) L sink recent))"
    by auto
  with v1_gather_head_refines [OF c(2)] show ?thesis
    by (intro exI [of _ c]) (simp add: build_segpaged_cache_def v1_abs_def)
qed

section \<open>Properties\<close>

text \<open>
  C9. The v1 store refines the v2 store: adding a head segment to a v1 cache and then forgetting
  the v1 bookkeeping is storing the same rows under the plan that keeps all of them, with the same
  result and the same error in every case, and gathering a head reads the same rows.
\<close>

theorem v1_store_refines_v2:
  assumes "length v = length k"
  shows "rbind (add_head_segment c l h i pol k v) (\<lambda>(s, c'). Inr (v1_abs_seg s, v1_abs c'))
      = store_head_segment local_backend (v1_abs c) l h i k v (whole_plan pol (length k)) \<and>
    (cache_ok local_backend pool_ok pool_live (v1_abs c) \<longrightarrow>
       v1_gather_head c l h = gather_head local_backend (v1_abs c) l h)"
  using add_refines [OF assms] v1_gather_head_refines by blast

section \<open>Witnesses\<close>

theorem v1_store_refines_v2_witness:
  "rbind (add_head_segment (seg_paged_cache_init 1 1 2 2) 0 0 0 POLICY_GLOBAL sample_kv sample_kv)
      (\<lambda>(s, c'). Inr (v1_abs_seg s, v1_abs c'))
    = store_head_segment local_backend (v1_abs (seg_paged_cache_init 1 1 2 2)) 0 0 0 sample_kv sample_kv
        (whole_plan POLICY_GLOBAL (length sample_kv)) \<and>
   v1_gather_head (seg_paged_cache_init 1 1 2 2) 0 0
    = gather_head local_backend (v1_abs (seg_paged_cache_init 1 1 2 2)) 0 0"
proof -
  have "cache_ok local_backend pool_ok pool_live (v1_abs (seg_paged_cache_init 1 1 2 2))"
    unfolding v1_init_abs by (rule cache_init_ok) simp
  with v1_store_refines_v2 [of sample_kv sample_kv "seg_paged_cache_init 1 1 2 2" 0 0 0 POLICY_GLOBAL]
  show ?thesis by blast
qed

end
