(* ===== verification/Seg_Attention.thy ===== *)
theory Seg_Attention
  imports Seg_Paged
begin

text \<open>
  Attention over the segment-paged stores: \<^verbatim>\<open>segpaged_attention\<close> of \<^verbatim>\<open>segpaged.py\<close> and
  \<^verbatim>\<open>paged_attention\<close> of \<^verbatim>\<open>segpaged_v2/attention.py\<close>, with their dense masked references.

  Scores are exact reals; \<^verbatim>\<open>torch.softmax\<close> is \<open>exp x / (\<Sum> exp)\<close> over the finite scores, and a masked
  score \<^verbatim>\<open>-inf\<close> is \<open>None\<close>. A row whose scores are all masked is a row of NaN, the value \<open>None\<close>.
  The fused kernel \<^verbatim>\<open>flash_attn_varlen_func\<close> is a parameter \<open>fa3\<close>; \<open>fa3_spec\<close> states its
  documented behaviour per packed sequence. Tensors are well shaped: the shape errors of \<^verbatim>\<open>@\<close> are
  not modelled. Half-precision casts are the identity.
\<close>

section \<open>Definitions\<close>

definition dot :: "row \<Rightarrow> row \<Rightarrow> real" where
  "dot q k = (\<Sum>i<length q. q ! i * k ! i)"

definition score_weight :: "real option \<Rightarrow> real" where
  "score_weight s = (case s of None \<Rightarrow> 0 | Some x \<Rightarrow> exp x)"

definition softmax :: "real option list \<Rightarrow> real list option" where
  "softmax scores =
     (let w = map score_weight scores; Z = sum_list w
      in if Z = 0 then None else Some (map (\<lambda>x. x / Z) w))"

definition mix_rows :: "nat \<Rightarrow> real list \<Rightarrow> page \<Rightarrow> row" where
  "mix_rows D probs v = map (\<lambda>d. \<Sum>i<length probs. probs ! i * v ! i ! d) [0..<D]"

definition sdpa_one_head :: "nat \<Rightarrow> page \<Rightarrow> page \<Rightarrow> page \<Rightarrow> real \<Rightarrow> row option list" where
  "sdpa_one_head D q k v sm_scale =
     (if length k = 0 then map (\<lambda>_. Some (replicate D 0)) q
      else map (\<lambda>qr. map_option (\<lambda>probs. mix_rows D probs v)
                  (softmax (map (\<lambda>kr. Some (dot qr kr * sm_scale)) k))) q)"

text \<open>\<^verbatim>\<open>visible = zeros(L, bool); visible[idx] = True\<close>; indexing accepts negative positions.\<close>

definition visible_mask :: "nat \<Rightarrow> int list \<Rightarrow> bool list result" where
  "visible_mask L idx =
     (if list_all (\<lambda>p. - int L \<le> p \<and> p < int L) idx
      then Inr (foldl (\<lambda>acc p. acc[nat (if p < 0 then p + int L else p) := True]) (replicate L False) idx)
      else Inl IndexError)"

definition masked_attention ::
  "nat \<Rightarrow> bool list \<Rightarrow> page \<Rightarrow> page \<Rightarrow> page \<Rightarrow> real \<Rightarrow> row option list" where
  "masked_attention D visible q k v sm_scale =
     map (\<lambda>qr. map_option (\<lambda>probs. mix_rows D probs v)
           (softmax (map (\<lambda>(vis, kr). if vis then Some (dot qr kr * sm_scale) else None)
              (zip visible k)))) q"

text \<open>
  The two nested loops over KV heads and the query heads of each: the view is computed once per
  KV head, and \<^verbatim>\<open>out[qh]\<close> is assigned for \<^verbatim>\<open>qh = kv_h * num_q_per_kv + g\<close>.
\<close>

definition query_loop ::
  "('kv \<Rightarrow> page \<Rightarrow> 'o) \<Rightarrow> page list \<Rightarrow> nat \<Rightarrow> nat \<Rightarrow> 'kv \<Rightarrow> 'o list \<Rightarrow> nat \<Rightarrow> 'o list result" where
  "query_loop attend query n kv_h view out g =
     (let qh = int (kv_h * n + g)
      in rbind (py_get query qh) (\<lambda>q. py_set out qh (attend view q)))"

definition head_loop ::
  "(nat \<Rightarrow> 'kv result) \<Rightarrow> ('kv \<Rightarrow> page \<Rightarrow> 'o) \<Rightarrow> page list \<Rightarrow> nat \<Rightarrow> 'o list \<Rightarrow> nat \<Rightarrow> 'o list result" where
  "head_loop view attend query n out kv_h =
     rbind (view kv_h) (\<lambda>kv. foldM (query_loop attend query n kv_h kv) out [0..<n])"

definition zeros_like :: "nat \<Rightarrow> page list \<Rightarrow> row option list list" where
  "zeros_like D query = map (map (\<lambda>_. Some (replicate D 0))) query"

definition reference_path ::
  "nat \<Rightarrow> (nat \<Rightarrow> (page \<times> page) result) \<Rightarrow> page list \<Rightarrow> nat \<Rightarrow> nat \<Rightarrow> real \<Rightarrow> row option list list result" where
  "reference_path D gather query Hkv n sm_scale =
     foldM (head_loop gather (\<lambda>(k, v) q. sdpa_one_head D q k v sm_scale) query n)
       (zeros_like D query) [0..<Hkv]"

text \<open>The fused path: packing, one kernel call, unpacking.\<close>

record pack =
  q_parts :: "page list"
  k_parts :: "page list"
  v_parts :: "page list"
  cu_q :: "nat list"
  cu_k :: "nat list"
  max_q :: nat
  max_k :: nat

definition pack_init :: pack where
  "pack_init = \<lparr>q_parts = [], k_parts = [], v_parts = [], cu_q = [0], cu_k = [0], max_q = 0, max_k = 0\<rparr>"

definition pack_query ::
  "page list \<Rightarrow> nat \<Rightarrow> nat \<Rightarrow> nat \<Rightarrow> page \<times> page \<Rightarrow> pack \<Rightarrow> nat \<Rightarrow> pack result" where
  "pack_query query Lq n kv_h = (\<lambda>(k, v) P g.
     rbind (py_get query (int (kv_h * n + g))) (\<lambda>q.
     Inr \<lparr>q_parts = q_parts P @ [q], k_parts = k_parts P @ [k], v_parts = v_parts P @ [v],
          cu_q = cu_q P @ [last (cu_q P) + Lq], cu_k = cu_k P @ [last (cu_k P) + length k],
          max_q = max (max_q P) Lq, max_k = max (max_k P) (length k)\<rparr>))"

definition pack_head ::
  "(nat \<Rightarrow> (page \<times> page) result) \<Rightarrow> page list \<Rightarrow> nat \<Rightarrow> nat \<Rightarrow> pack \<Rightarrow> nat \<Rightarrow> pack result" where
  "pack_head gather query Lq n P kv_h =
     rbind (gather kv_h) (\<lambda>kv. foldM (pack_query query Lq n kv_h kv) P [0..<n])"

type_synonym fa3_kernel =
  "page \<Rightarrow> page \<Rightarrow> page \<Rightarrow> nat list \<Rightarrow> nat list \<Rightarrow> nat \<Rightarrow> nat \<Rightarrow> real \<Rightarrow> row option list"

text \<open>\<^verbatim>\<open>torch.cat\<close> of an empty list raises.\<close>

definition cat :: "page list \<Rightarrow> page result" where
  "cat parts = (if parts = [] then Inl RuntimeError else Inr (concat parts))"

text \<open>In the unpacking loops the counter \<^verbatim>\<open>slot\<close> runs in step with \<^verbatim>\<open>qh\<close>; both are \<open>slot\<close> here.\<close>

definition unpack_query ::
  "row option list \<Rightarrow> nat list \<Rightarrow> row option list list \<Rightarrow> nat \<Rightarrow> row option list list result" where
  "unpack_query packed cu out slot =
     py_set out (int slot) (slice (cu ! slot) (cu ! Suc slot) packed)"

definition fused_path ::
  "fa3_kernel \<Rightarrow> nat \<Rightarrow> (nat \<Rightarrow> (page \<times> page) result) \<Rightarrow> page list \<Rightarrow> nat \<Rightarrow> nat \<Rightarrow> nat \<Rightarrow> real
   \<Rightarrow> row option list list result" where
  "fused_path fa3 D gather query Lq Hkv n sm_scale =
     rbind (foldM (pack_head gather query Lq n) pack_init [0..<Hkv]) (\<lambda>P.
     rbind (cat (q_parts P)) (\<lambda>q_packed.
     rbind (cat (k_parts P)) (\<lambda>k_packed.
     rbind (cat (v_parts P)) (\<lambda>v_packed.
     rbind (mmap (\<lambda>x. as_int32 (int x)) (cu_q P)) (\<lambda>_.
     rbind (mmap (\<lambda>x. as_int32 (int x)) (cu_k P)) (\<lambda>_.
     let packed = fa3 q_packed k_packed v_packed (cu_q P) (cu_k P) (max_q P) (max_k P) sm_scale
     in foldM (unpack_query packed (cu_q P)) (zeros_like D query) [0..<Hkv * n]))))))"

definition paged_attention ::
  "'s kv_backend \<Rightarrow> fa3_kernel \<Rightarrow> bool \<Rightarrow> nat \<Rightarrow> nat \<Rightarrow> page list \<Rightarrow> 's paged_cache \<Rightarrow> int \<Rightarrow> nat \<Rightarrow> real
   \<Rightarrow> row option list list result" where
  "paged_attention be fa3 fused_ok D Lq query cache layer num_q_per_kv sm_scale =
     (let Hkv = pc_num_kv_heads cache
      in if length query \<noteq> Hkv * num_q_per_kv then Inl ValueError
         else if fused_ok then
           fused_path fa3 D (\<lambda>h. gather_head be cache layer (int h)) query Lq Hkv num_q_per_kv sm_scale
         else
           reference_path D (\<lambda>h. gather_head be cache layer (int h)) query Hkv num_q_per_kv sm_scale)"

definition segpaged_attention ::
  "fa3_kernel \<Rightarrow> bool \<Rightarrow> nat \<Rightarrow> nat \<Rightarrow> page list \<Rightarrow> seg_paged_cache \<Rightarrow> int \<Rightarrow> nat \<Rightarrow> real
   \<Rightarrow> row option list list result" where
  "segpaged_attention fa3 fused_ok D Lq query cache layer num_q_per_kv sm_scale =
     (let Hkv = sp_num_kv_heads cache
      in if length query \<noteq> Hkv * num_q_per_kv then Inl ValueError
         else if fused_ok then
           fused_path fa3 D (\<lambda>h. v1_gather_head cache layer (int h)) query Lq Hkv num_q_per_kv sm_scale
         else
           reference_path D (\<lambda>h. v1_gather_head cache layer (int h)) query Hkv num_q_per_kv sm_scale)"

definition dense_view_v2 ::
  "nat \<Rightarrow> page list \<Rightarrow> page list \<Rightarrow> head_visible_plan list \<Rightarrow> nat \<Rightarrow> (bool list \<times> page \<times> page) result" where
  "dense_view_v2 L k_dense v_dense plans kv_h =
     rbind (py_get plans (int kv_h)) (\<lambda>plan.
     rbind (visible_mask L (plan_positions plan)) (\<lambda>visible.
     rbind (py_get k_dense (int kv_h)) (\<lambda>k.
     rbind (py_get v_dense (int kv_h)) (\<lambda>v.
     Inr (visible, k, v)))))"

definition dense_reference_attention_v2 ::
  "nat \<Rightarrow> nat \<Rightarrow> page list \<Rightarrow> page list \<Rightarrow> page list \<Rightarrow> head_visible_plan list \<Rightarrow> nat \<Rightarrow> real
   \<Rightarrow> row option list list result" where
  "dense_reference_attention_v2 L D query k_dense v_dense plans num_q_per_kv sm_scale =
     foldM (head_loop (dense_view_v2 L k_dense v_dense plans)
         (\<lambda>(vis, k, v) q. masked_attention D vis q k v sm_scale) query num_q_per_kv)
       (zeros_like D query) [0..<length k_dense]"

definition dense_view_v1 ::
  "nat \<Rightarrow> page list \<Rightarrow> page list \<Rightarrow> string list \<Rightarrow> int \<Rightarrow> int \<Rightarrow> nat \<Rightarrow> (bool list \<times> page \<times> page) result" where
  "dense_view_v1 L k_dense v_dense head_policy sink recent kv_h =
     rbind (py_get head_policy (int kv_h)) (\<lambda>pol.
     rbind (if pol = POLICY_GLOBAL then Inr (replicate L True)
            else rbind (local_visible_indices (int L) sink recent) (visible_mask L)) (\<lambda>visible.
     rbind (py_get k_dense (int kv_h)) (\<lambda>k.
     rbind (py_get v_dense (int kv_h)) (\<lambda>v.
     Inr (visible, k, v)))))"

definition dense_reference_attention_v1 ::
  "nat \<Rightarrow> nat \<Rightarrow> page list \<Rightarrow> page list \<Rightarrow> page list \<Rightarrow> string list \<Rightarrow> int \<Rightarrow> int \<Rightarrow> nat \<Rightarrow> real
   \<Rightarrow> row option list list result" where
  "dense_reference_attention_v1 L D query k_dense v_dense head_policy sink recent num_q_per_kv sm_scale =
     foldM (head_loop (dense_view_v1 L k_dense v_dense head_policy sink recent)
         (\<lambda>(vis, k, v) q. masked_attention D vis q k v sm_scale) query num_q_per_kv)
       (zeros_like D query) [0..<length k_dense]"

section \<open>The head loops\<close>

lemma query_loop_prefix:
  assumes "h * n + m \<le> length query" "length out = length query"
  shows "foldM (query_loop attend query n h kv) out [0..<m] =
    Inr (map (\<lambda>i. if h * n \<le> i \<and> i < h * n + m then attend kv (query ! i) else out ! i) [0..<length out])"
  using assms(1)
proof (induction m)
  case 0
  show ?case by (auto intro!: nth_equalityI)
next
  case (Suc m)
  let ?f = "\<lambda>m i. if h * n \<le> i \<and> i < h * n + m then attend kv (query ! i) else out ! i"
  have "query_loop attend query n h kv (map (?f m) [0..<length out]) m
      = Inr ((map (?f m) [0..<length out])[h * n + m := attend kv (query ! (h * n + m))])"
    using Suc.prems assms(2) by (simp add: query_loop_def Let_def py_get_nat py_set_nat del: of_nat_add of_nat_mult)
  also have "(map (?f m) [0..<length out])[h * n + m := attend kv (query ! (h * n + m))]
      = map (?f (Suc m)) [0..<length out]"
    using Suc.prems assms(2) by (intro nth_equalityI) (auto simp: nth_list_update)
  finally show ?case using Suc.IH Suc.prems by (simp add: foldM_append)
qed

lemma head_loop_prefix:
  assumes "\<And>h. h < Hkv \<Longrightarrow> view h = Inr (kvf h)" "Hkv * n \<le> length query" "length out = length query"
  shows "foldM (head_loop view attend query n) out [0..<Hkv] =
    Inr (map (\<lambda>i. if i < Hkv * n then attend (kvf (i div n)) (query ! i) else out ! i) [0..<length out])"
  using assms(1,2)
proof (induction Hkv)
  case 0
  then show ?case by (simp add: map_nth)
next
  case (Suc H)
  let ?f = "\<lambda>H i. if i < H * n then attend (kvf (i div n)) (query ! i) else out ! i"
  have le: "H * n + n \<le> length query" using Suc.prems(2) by (simp add: add.commute)
  have IH: "foldM (head_loop view attend query n) out [0..<H] = Inr (map (?f H) [0..<length out])"
    using Suc.IH Suc.prems by simp
  have "head_loop view attend query n (map (?f H) [0..<length out]) H =
      Inr (map (\<lambda>i. if H * n \<le> i \<and> i < H * n + n then attend (kvf H) (query ! i)
                 else map (?f H) [0..<length out] ! i) [0..<length out])"
    using query_loop_prefix [of H n n query "map (?f H) [0..<length out]" attend "kvf H"] le
      Suc.prems(1) [of H] assms(3) by (simp add: head_loop_def)
  also have "\<dots> = Inr (map (?f (Suc H)) [0..<length out])"
  proof -
    have "i div n = H" if "H * n \<le> i" "i < H * n + n" for i
      using that by (metis div_nat_eqI mult.commute mult_Suc_right add.commute)
    then show ?thesis by (auto simp: add.commute)
  qed
  finally show ?case using IH by (simp add: foldM_append)
qed

lemma head_loop_all:
  assumes "\<And>h. h < Hkv \<Longrightarrow> view h = Inr (kvf h)" "length query = Hkv * n" "length out = length query"
  shows "foldM (head_loop view attend query n) out [0..<Hkv] =
    Inr (map (\<lambda>i. attend (kvf (i div n)) (query ! i)) [0..<Hkv * n])"
  using head_loop_prefix [where n = n and query = query and out = out, OF assms(1)] assms(2,3) by simp

section \<open>Masked attention is attention over the visible rows\<close>

lemma foldl_mark:
  assumes "\<forall>p \<in> set idx. 0 \<le> p" "length acc = L"
  shows "foldl (\<lambda>acc p. acc[nat (if p < 0 then p + int L else p) := True]) acc idx =
    map (\<lambda>j. acc ! j \<or> int j \<in> set idx) [0..<L]"
  using assms
proof (induction idx arbitrary: acc)
  case Nil
  then show ?case by (auto intro!: nth_equalityI)
next
  case (Cons p idx)
  then have p: "0 \<le> p" by simp
  have "foldl (\<lambda>acc p. acc[nat (if p < 0 then p + int L else p) := True]) (acc[nat p := True]) idx
      = map (\<lambda>j. acc[nat p := True] ! j \<or> int j \<in> set idx) [0..<L]"
    by (rule Cons.IH) (use Cons.prems in auto)
  also have "\<dots> = map (\<lambda>j. acc ! j \<or> int j \<in> set (p # idx)) [0..<L]"
  proof (rule map_cong [OF refl])
    fix j assume "j \<in> set [0..<L]"
    then show "(acc[nat p := True] ! j \<or> int j \<in> set idx) = (acc ! j \<or> int j \<in> set (p # idx))"
      using p Cons.prems(2) by (cases "nat p = j") auto
  qed
  finally show ?case using p by simp
qed

lemma visible_mask_eq:
  assumes "in_range L idx"
  shows "visible_mask L idx = Inr (map (\<lambda>j. int j \<in> set idx) [0..<L])"
proof -
  have "list_all (\<lambda>p. - int L \<le> p \<and> p < int L) idx"
    using assms by (fastforce simp: in_range_iff list_all_iff)
  moreover have "foldl (\<lambda>acc p. acc[nat (if p < 0 then p + int L else p) := True]) (replicate L False) idx
      = map (\<lambda>j. replicate L False ! j \<or> int j \<in> set idx) [0..<L]"
    by (rule foldl_mark) (use assms in \<open>auto simp: in_range_iff\<close>)
  ultimately show ?thesis by (simp add: visible_mask_def)
qed

lemma sum_visible:
  fixes f :: "nat \<Rightarrow> real"
  assumes "distinct idx" "in_range L idx"
  shows "(\<Sum>j<L. if int j \<in> set idx then f j else 0) = (\<Sum>i<length idx. f (nat (idx ! i)))"
proof -
  have inj: "inj_on nat (set idx)" using assms(2) by (metis eq_nat_nat_iff in_range_iff inj_onI)
  have "{j \<in> {..<L}. int j \<in> set idx} = nat ` set idx"
    using assms(2) by (force simp: in_range_iff image_iff)
  then have "(\<Sum>j<L. if int j \<in> set idx then f j else 0) = sum f (nat ` set idx)"
    by (simp add: sum.inter_filter [symmetric])
  also have "\<dots> = (\<Sum>p \<in> set idx. f (nat p))" using inj by (simp add: sum.reindex)
  also have "\<dots> = sum_list (map (\<lambda>p. f (nat p)) idx)"
    using assms(1) by (simp add: sum_list_distinct_conv_sum_set)
  also have "\<dots> = (\<Sum>i<length idx. f (nat (idx ! i)))"
    by (simp add: sum_list_sum_nth atLeast0LessThan)
  finally show ?thesis .
qed

lemma sum_list_upt: "sum_list (map f [0..<n]) = (\<Sum>i<n. f i)" for f :: "nat \<Rightarrow> real"
  by (simp add: sum_list_distinct_conv_sum_set atLeast0LessThan)

lemma softmax_upt:
  fixes w :: "nat \<Rightarrow> real option"
  assumes "0 < (\<Sum>i<n. score_weight (w i))"
  shows "softmax (map w [0..<n]) =
    Some (map (\<lambda>i. score_weight (w i) / (\<Sum>i<n. score_weight (w i))) [0..<n])"
  using assms by (simp add: softmax_def Let_def comp_def sum_list_upt)

lemma zip_mask: "length k = L \<Longrightarrow> map f (zip (map g [0..<L]) k) = map (\<lambda>j. f (g j, k ! j)) [0..<L]"
  by (auto intro!: nth_equalityI)

lemma mix_rows_upt: "mix_rows D (map f [0..<n]) v = map (\<lambda>d. \<Sum>i<n. f i * v ! i ! d) [0..<D]"
  by (auto simp: mix_rows_def intro!: sum.cong)

lemma masked_is_selected:
  assumes idx: "distinct idx" "in_range L idx" "idx \<noteq> []" and len: "length k = L" "length v = L"
  shows "masked_attention D (map (\<lambda>j. int j \<in> set idx) [0..<L]) q k v sc =
    sdpa_one_head D q (map (\<lambda>p. k ! nat p) idx) (map (\<lambda>p. v ! nat p) idx) sc"
proof -
  have "map_option (\<lambda>probs. mix_rows D probs v)
        (softmax (map (\<lambda>(vis, kr). if vis then Some (dot qr kr * sc) else None)
          (zip (map (\<lambda>j. int j \<in> set idx) [0..<L]) k))) =
      map_option (\<lambda>probs. mix_rows D probs (map (\<lambda>p. v ! nat p) idx))
        (softmax (map (\<lambda>kr. Some (dot qr kr * sc)) (map (\<lambda>p. k ! nat p) idx)))" for qr
  proof -
    let ?e = "\<lambda>j. exp (dot qr (k ! j) * sc)"
    let ?m = "\<lambda>j. if int j \<in> set idx then Some (dot qr (k ! j) * sc) else None"
    let ?s = "\<lambda>i. Some (dot qr (k ! nat (idx ! i)) * sc)"
    let ?n = "length idx"
    let ?Z = "\<Sum>i<?n. ?e (nat (idx ! i))"
    have wm: "score_weight (?m j) = (if int j \<in> set idx then ?e j else 0)" for j
      by (simp add: score_weight_def)
    have ws: "score_weight (?s i) = ?e (nat (idx ! i))" for i by (simp add: score_weight_def)
    have Z: "(\<Sum>j<L. score_weight (?m j)) = ?Z"
      unfolding wm by (rule sum_visible [OF idx(1,2)])
    have pos: "0 < ?Z" using idx(3) by (intro sum_pos) auto
    have "softmax (map ?m [0..<L]) = Some (map (\<lambda>j. (if int j \<in> set idx then ?e j else 0) / ?Z) [0..<L])"
      using softmax_upt [of ?m L] pos unfolding Z by (simp only: wm)
    moreover have "softmax (map ?s [0..<?n]) = Some (map (\<lambda>i. ?e (nat (idx ! i)) / ?Z) [0..<?n])"
      using softmax_upt [of ?s ?n] pos unfolding ws by simp
    moreover have "map (\<lambda>(vis, kr). if vis then Some (dot qr kr * sc) else None)
          (zip (map (\<lambda>j. int j \<in> set idx) [0..<L]) k) = map ?m [0..<L]"
      unfolding zip_mask [OF len(1)] by simp
    moreover have "map (\<lambda>kr. Some (dot qr kr * sc)) (map (\<lambda>p. k ! nat p) idx) = map ?s [0..<?n]"
      by (auto intro!: nth_equalityI)
    moreover have "mix_rows D (map (\<lambda>j. (if int j \<in> set idx then ?e j else 0) / ?Z) [0..<L]) v
        = mix_rows D (map (\<lambda>i. ?e (nat (idx ! i)) / ?Z) [0..<?n]) (map (\<lambda>p. v ! nat p) idx)"
    proof -
      have "(\<Sum>j<L. (if int j \<in> set idx then ?e j else 0) / ?Z * v ! j ! d)
          = (\<Sum>i<?n. ?e (nat (idx ! i)) / ?Z * map (\<lambda>p. v ! nat p) idx ! i ! d)" for d
      proof -
        have "(\<Sum>j<L. (if int j \<in> set idx then ?e j else 0) / ?Z * v ! j ! d)
            = (\<Sum>j<L. if int j \<in> set idx then ?e j / ?Z * v ! j ! d else 0)"
          by (rule sum.cong) simp_all
        also have "\<dots> = (\<Sum>i<?n. ?e (nat (idx ! i)) / ?Z * v ! nat (idx ! i) ! d)"
          by (rule sum_visible [OF idx(1,2)])
        also have "\<dots> = (\<Sum>i<?n. ?e (nat (idx ! i)) / ?Z * map (\<lambda>p. v ! nat p) idx ! i ! d)"
          by (rule sum.cong) simp_all
        finally show ?thesis .
      qed
      then show ?thesis unfolding mix_rows_upt by (simp only:)
    qed
    ultimately show ?thesis by simp
  qed
  then show ?thesis
    using idx(3) by (simp add: masked_attention_def sdpa_one_head_def)
qed

section \<open>Paged attention equals the dense reference\<close>

text \<open>Well-shaped inputs of the v2 path whose plans keep at least one token.\<close>

definition plans_ok :: "nat \<Rightarrow> nat \<Rightarrow> page list \<Rightarrow> page list \<Rightarrow> head_visible_plan list \<Rightarrow> bool" where
  "plans_ok L D k v plans \<longleftrightarrow>
     dense_shape L D k v \<and> length plans = length k \<and>
     (\<forall>p \<in> set plans. distinct (plan_positions p) \<and> in_range L (plan_positions p) \<and> plan_positions p \<noteq> [])"

lemma plans_ok_dense: "plans_ok L D k v plans \<Longrightarrow> dense_ok D k v plans"
  by (fastforce simp: plans_ok_def dense_ok_def dense_shape_def)

lemma reference_path_eq:
  assumes "\<And>h. h < Hkv \<Longrightarrow> gather h = Inr (kf h, vf h)" "length query = Hkv * n"
  shows "reference_path D gather query Hkv n sc =
    Inr (map (\<lambda>i. sdpa_one_head D (query ! i) (kf (i div n)) (vf (i div n)) sc) [0..<Hkv * n])"
  unfolding reference_path_def
  using head_loop_all [of Hkv gather "\<lambda>h. (kf h, vf h)" query n "zeros_like D query"] assms
  by (simp add: zeros_like_def)

lemma dense_path_eq:
  assumes "\<And>h. h < Hkv \<Longrightarrow> view h = Inr (msk h, kf h, vf h)" "length query = Hkv * n"
  shows "foldM (head_loop view (\<lambda>(vis, k, v) q. masked_attention D vis q k v sc) query n)
      (zeros_like D query) [0..<Hkv] =
    Inr (map (\<lambda>i. masked_attention D (msk (i div n)) (query ! i) (kf (i div n)) (vf (i div n)) sc) [0..<Hkv * n])"
  using head_loop_all [of Hkv view "\<lambda>h. (msk h, kf h, vf h)" query n "zeros_like D query"] assms
  by (simp add: zeros_like_def)

lemma div_head: "i < H * n \<Longrightarrow> i div n < (H::nat)"
  by (simp add: less_mult_imp_div_less)

lemma v2_attention_eq:
  assumes "plans_ok L D k v plans" "length query = length k * n"
    and "build_paged_cache D k v plans ps layer = Inr c" "0 < ps"
  shows "reference_path D (\<lambda>h. gather_head local_backend c layer (int h)) query (pc_num_kv_heads c) n sc
    = dense_reference_attention_v2 L D query k v plans n sc"
proof -
  note ok = plans_ok_dense [OF assms(1)]
  have c: "pc_num_kv_heads c = length k"
      "\<And>h. h < length k \<Longrightarrow> gather_head local_backend c layer (int h) =
         Inr (kv_select (k ! h) (plans ! h), kv_select (v ! h) (plans ! h))"
    using build_paged_cache_ok [OF ok assms(4), of layer] assms(3) by auto
  have shape: "length (k ! h) = L" "length (v ! h) = L" "distinct (plan_positions (plans ! h))"
      "in_range L (plan_positions (plans ! h))" "plan_positions (plans ! h) \<noteq> []"
      "h < length v" "h < length plans" if "h < length k" for h
    using that assms(1) by (auto simp: plans_ok_def dense_shape_def)
  have view: "dense_view_v2 L k v plans h =
      Inr (map (\<lambda>j. int j \<in> set (plan_positions (plans ! h))) [0..<L], k ! h, v ! h)"
    if "h < length k" for h
    using shape [OF that] that by (simp add: dense_view_v2_def visible_mask_eq)
  have same: "sdpa_one_head D q (kv_select (k ! h) (plans ! h)) (kv_select (v ! h) (plans ! h)) sc
      = masked_attention D (map (\<lambda>j. int j \<in> set (plan_positions (plans ! h))) [0..<L]) q (k ! h) (v ! h) sc"
    if "h < length k" for h q
    unfolding kv_select_def
    by (rule masked_is_selected [OF shape(3,4,5,1,2) [OF that], symmetric])
  show ?thesis
    unfolding c(1) dense_reference_attention_v2_def
    using reference_path_eq [of "length k" "\<lambda>h. gather_head local_backend c layer (int h)"
        "\<lambda>h. kv_select (k ! h) (plans ! h)" "\<lambda>h. kv_select (v ! h) (plans ! h)" query n D sc]
      dense_path_eq [of "length k" "dense_view_v2 L k v plans"
        "\<lambda>h. map (\<lambda>j. int j \<in> set (plan_positions (plans ! h))) [0..<L]" "\<lambda>h. k ! h" "\<lambda>h. v ! h" query n D sc]
      c(2) view same assms(2) by (simp add: div_head)
qed

lemma v1_attention_eq:
  assumes "dense_shape L D k v" "length pols = length k"
      "\<forall>pol \<in> set pols. pol = POLICY_GLOBAL \<or> pol = POLICY_LOCAL"
      "0 < L" "0 < sink \<or> 0 < recent" "length query = length k * n"
    and "build_segpaged_cache L D k v pols sink recent ps layer = Inr c" "0 < ps"
  shows "reference_path D (\<lambda>h. v1_gather_head c layer (int h)) query (sp_num_kv_heads c) n sc
    = dense_reference_attention_v1 L D query k v pols sink recent n sc"
proof -
  let ?pl = "\<lambda>h. policy_plan (pols ! h) L sink recent"
  have c: "sp_num_kv_heads c = length k"
      "\<And>h. h < length k \<Longrightarrow> v1_gather_head c layer (int h) =
         Inr (kv_select (k ! h) (?pl h), kv_select (v ! h) (?pl h))"
    using build_segpaged_cache_ok [OF assms(1-3,8), of sink recent layer] assms(7) by auto
  have shape: "length (k ! h) = L" "length (v ! h) = L" "h < length v" "h < length pols"
    if "h < length k" for h
    using that assms(1,2) by (auto simp: dense_shape_def)
  have "(if 0 < sink then 0 else int L - 1) \<in> set (visible_window (int L) sink recent)"
    using assms(4,5) by (auto simp: set_visible_window)
  then have "visible_window (int L) sink recent \<noteq> []" by (metis empty_iff empty_set)
  then have plan: "distinct (plan_positions (?pl h))" "in_range L (plan_positions (?pl h))"
      "plan_positions (?pl h) \<noteq> []" for h
    using assms(4) policy_plan_in_range visible_window_sorted(2) by (simp_all add: policy_plan_def)
  have view: "dense_view_v1 L k v pols sink recent h =
      Inr (map (\<lambda>j. int j \<in> set (plan_positions (?pl h))) [0..<L], k ! h, v ! h)"
    if "h < length k" for h
  proof -
    have "replicate L True = map (\<lambda>j. int j \<in> set [0..int L - 1]) [0..<L]"
      by (auto intro!: nth_equalityI)
    then show ?thesis
      using shape [OF that] that plan(2) [of h]
      by (auto simp: dense_view_v1_def local_visible_indices_eq visible_mask_eq policy_plan_def)
  qed
  have same: "sdpa_one_head D q (kv_select (k ! h) (?pl h)) (kv_select (v ! h) (?pl h)) sc
      = masked_attention D (map (\<lambda>j. int j \<in> set (plan_positions (?pl h))) [0..<L]) q (k ! h) (v ! h) sc"
    if "h < length k" for h q
    unfolding kv_select_def
    by (rule masked_is_selected [OF plan shape(1,2) [OF that], symmetric])
  show ?thesis
    unfolding c(1) dense_reference_attention_v1_def
    using reference_path_eq [of "length k" "\<lambda>h. v1_gather_head c layer (int h)"
        "\<lambda>h. kv_select (k ! h) (?pl h)" "\<lambda>h. kv_select (v ! h) (?pl h)" query n D sc]
      dense_path_eq [of "length k" "dense_view_v1 L k v pols sink recent"
        "\<lambda>h. map (\<lambda>j. int j \<in> set (plan_positions (?pl h))) [0..<L]" "\<lambda>h. k ! h" "\<lambda>h. v ! h" query n D sc]
      c(2) view same assms(6) by (simp add: div_head)
qed

section \<open>The fused path\<close>

text \<open>
  The documented contract of the varlen kernel without causal masking: for cumulative offsets that
  start at 0 and end at the packed length, each packed sequence gets the attention of its own
  queries over its own keys. Sequences without keys are left open.
\<close>

definition offsets_ok :: "nat list \<Rightarrow> nat \<Rightarrow> bool" where
  "offsets_ok cu len \<longleftrightarrow> cu \<noteq> [] \<and> hd cu = 0 \<and> sorted cu \<and> last cu = len"

definition fa3_spec :: "nat \<Rightarrow> fa3_kernel \<Rightarrow> bool" where
  "fa3_spec D fa3 \<longleftrightarrow> (\<forall>q k v cuq cuk mq mk sc.
     length cuq = length cuk \<and> offsets_ok cuq (length q) \<and> offsets_ok cuk (length k) \<and>
     length v = length k \<and>
     (\<forall>i. Suc i < length cuq \<longrightarrow>
        cuq ! Suc i - cuq ! i \<le> mq \<and> cuk ! Suc i - cuk ! i \<le> mk \<and> cuk ! i < cuk ! Suc i) \<longrightarrow>
     (\<forall>i. Suc i < length cuq \<longrightarrow>
        slice (cuq ! i) (cuq ! Suc i) (fa3 q k v cuq cuk mq mk sc) =
        sdpa_one_head D (slice (cuq ! i) (cuq ! Suc i) q)
          (slice (cuk ! i) (cuk ! Suc i) k) (slice (cuk ! i) (cuk ! Suc i) v) sc))"

lemma fa3_specD:
  assumes "fa3_spec D fa3" "length cuq = length cuk" "offsets_ok cuq (length q)"
    "offsets_ok cuk (length k)" "length v = length k"
    "\<And>i. Suc i < length cuq \<Longrightarrow>
        cuq ! Suc i - cuq ! i \<le> mq \<and> cuk ! Suc i - cuk ! i \<le> mk \<and> cuk ! i < cuk ! Suc i"
    "Suc i < length cuq"
  shows "slice (cuq ! i) (cuq ! Suc i) (fa3 q k v cuq cuk mq mk sc) =
        sdpa_one_head D (slice (cuq ! i) (cuq ! Suc i) q)
          (slice (cuk ! i) (cuk ! Suc i) k) (slice (cuk ! i) (cuk ! Suc i) v) sc"
  using assms unfolding fa3_spec_def by blast

definition packed :: "page list \<Rightarrow> nat \<Rightarrow> page list \<Rightarrow> page list \<Rightarrow> nat \<Rightarrow> pack \<Rightarrow> bool" where
  "packed query Lq ks vs N P \<longleftrightarrow>
     q_parts P = take N query \<and> k_parts P = take N ks \<and> v_parts P = take N vs \<and>
     cu_q P = map (\<lambda>i. i * Lq) [0..<Suc N] \<and> cu_k P = map (offset ks) [0..<Suc N] \<and>
     (0 < N \<longrightarrow> Lq \<le> max_q P) \<and> (\<forall>j < N. length (ks ! j) \<le> max_k P)"

lemma packed_init: "packed query Lq ks vs 0 pack_init"
  by (simp add: packed_def pack_init_def)

lemma pack_query_step:
  assumes "packed query Lq ks vs (h * n + g) P" "h * n + g < length query"
    "h * n + g < length ks" "h * n + g < length vs" "ks ! (h * n + g) = k" "vs ! (h * n + g) = v"
  shows "\<exists>P'. pack_query query Lq n h (k, v) P g = Inr P' \<and> packed query Lq ks vs (Suc (h * n + g)) P'"
  using assms
  by (auto simp: pack_query_def packed_def py_get_nat take_Suc_conv_app_nth less_Suc_eq
      simp del: of_nat_add of_nat_mult)

lemma pack_inner:
  assumes "packed query Lq ks vs (h * n) P" "h * n + m \<le> length query" "length ks = length query"
    "length vs = length query" "\<And>g. g < m \<Longrightarrow> ks ! (h * n + g) = k \<and> vs ! (h * n + g) = v"
  shows "\<exists>P'. foldM (pack_query query Lq n h (k, v)) P [0..<m] = Inr P' \<and> packed query Lq ks vs (h * n + m) P'"
  using assms(2,5)
proof (induction m)
  case 0
  then show ?case using assms(1) by simp
next
  case (Suc m)
  then obtain P1 where P1: "foldM (pack_query query Lq n h (k, v)) P [0..<m] = Inr P1"
      "packed query Lq ks vs (h * n + m) P1" by auto
  from pack_query_step [OF P1(2), of k v] Suc.prems assms(3,4) P1(1) show ?case
    by (auto simp: foldM_append)
qed

lemma pack_outer:
  assumes "\<And>h. h < Hkv \<Longrightarrow> gather h = Inr (kf h, vf h)" "length query = N" "H * n \<le> N" "H \<le> Hkv"
  defines "ks \<equiv> map (\<lambda>i. kf (i div n)) [0..<N]" and "vs \<equiv> map (\<lambda>i. vf (i div n)) [0..<N]"
  shows "\<exists>P. foldM (pack_head gather query Lq n) pack_init [0..<H] = Inr P \<and> packed query Lq ks vs (H * n) P"
  using assms(3,4)
proof (induction H)
  case 0
  then show ?case by (simp add: packed_init)
next
  case (Suc H)
  then obtain P1 where P1: "foldM (pack_head gather query Lq n) pack_init [0..<H] = Inr P1"
      "packed query Lq ks vs (H * n) P1" by auto
  have le: "H * n + n \<le> length query" using Suc.prems(1) assms(2) by (simp add: add.commute)
  have "ks ! (H * n + g) = kf H \<and> vs ! (H * n + g) = vf H" if "g < n" for g
    using that le assms(2) by (simp add: ks_def vs_def)
  from pack_inner [OF P1(2) le _ _ this] obtain P2 where
    "foldM (pack_query query Lq n H (kf H, vf H)) P1 [0..<n] = Inr P2" "packed query Lq ks vs (H * n + n) P2"
    using assms(2) by (auto simp: ks_def vs_def)
  moreover from this assms(1) [of H] Suc.prems(2) have "pack_head gather query Lq n P1 H = Inr P2"
    by (simp add: pack_head_def)
  ultimately show ?case using P1(1) by (simp add: foldM_append add.commute)
qed

lemma unpack_all:
  assumes "length out = N" "\<And>i. i < N \<Longrightarrow> slice (cu ! i) (cu ! Suc i) res = r i"
  shows "foldM (unpack_query res cu) out [0..<N] = Inr (map r [0..<N])"
proof -
  have "foldM (unpack_query res cu) out [0..<m] = Inr (map r [0..<m] @ drop m out)" if "m \<le> N" for m
    using that
  proof (induction m)
    case (Suc m)
    then have "m < length out" using assms(1) by simp
    then show ?case
      using Suc assms(2) [of m]
      by (simp add: foldM_append unpack_query_def py_set_nat list_update_append Cons_nth_drop_Suc [symmetric])
  qed simp
  from this [of N] assms(1) show ?thesis by simp
qed

lemma as_int32_all:
  assumes "\<forall>x \<in> set xs. x < 2 ^ 31"
  shows "mmap (\<lambda>x. as_int32 (int x)) xs = Inr (map int xs)"
proof (rule mmap_total)
  fix x assume "x \<in> set xs"
  then have "int x < 2 ^ 31" using assms by auto
  then show "as_int32 (int x) = Inr (int x)" by (simp add: as_int32_def)
qed

lemma offset_const: "\<forall>x \<in> set xs. length x = m \<Longrightarrow> i \<le> length xs \<Longrightarrow> offset xs i = i * m"
  by (induction i) auto

lemma offsets_ok_map: "offsets_ok (map (offset xs) [0..<Suc (length xs)]) (length (concat xs))"
proof -
  have "sorted (map (offset xs) [0..<Suc (length xs)])"
    by (auto simp: sorted_iff_nth_mono simp del: upt_Suc intro: offset_mono)
  moreover have "last (map (offset xs) [0..<Suc (length xs)]) = length (concat xs)"
    by (simp add: offset_length)
  moreover have "hd (map (offset xs) [0..<Suc (length xs)]) = 0"
    by (simp add: upt_conv_Cons del: upt_Suc)
  ultimately show ?thesis by (simp add: offsets_ok_def)
qed

lemma offsets_below:
  assumes "offset xs N < b"
  shows "\<forall>x \<in> set (map (offset xs) [0..<Suc N]). x < b"
proof
  fix x assume "x \<in> set (map (offset xs) [0..<Suc N])"
  then obtain i where "i \<le> N" "x = offset xs i" by (auto simp: less_Suc_eq_le simp del: upt_Suc)
  then show "x < b" using offset_mono [of i N xs] assms by simp
qed

lemma fused_path_eq:
  assumes gather: "\<And>h. h < Hkv \<Longrightarrow> gather h = Inr (kf h, vf h)"
    and len: "length query = Hkv * n" "0 < Hkv * n" "\<forall>q \<in> set query. length q = Lq"
    and keys: "\<And>h. h < Hkv \<Longrightarrow> kf h \<noteq> [] \<and> length (vf h) = length (kf h)"
    and spec: "fa3_spec D fa3"
    and small: "Hkv * n * Lq < 2 ^ 31" "(\<Sum>i<Hkv * n. length (kf (i div n))) < 2 ^ 31"
  shows "fused_path fa3 D gather query Lq Hkv n sc = reference_path D gather query Hkv n sc"
proof -
  define N where "N = Hkv * n"
  define ks where "ks = map (\<lambda>i. kf (i div n)) [0..<N]"
  define vs where "vs = map (\<lambda>i. vf (i div n)) [0..<N]"
  have len': "length query = N" "length ks = N" "length vs = N" "0 < N"
    using len by (simp_all add: N_def ks_def vs_def)
  have nth: "ks ! i = kf (i div n)" "vs ! i = vf (i div n)" "kf (i div n) \<noteq> []"
      "length (vf (i div n)) = length (kf (i div n))" "length (query ! i) = Lq" if "i < N" for i
    using that keys [of "i div n"] len(3) len'(1) by (auto simp: N_def ks_def vs_def div_head)
  obtain P where run: "foldM (pack_head gather query Lq n) pack_init [0..<Hkv] = Inr P"
    and P: "packed query Lq ks vs N P"
    using pack_outer [of Hkv gather kf vf query N Hkv n Lq] gather len'(1)
    by (auto simp: ks_def vs_def N_def)
  have parts: "q_parts P = query" "k_parts P = ks" "v_parts P = vs"
    using P len' by (simp_all add: packed_def)
  have cu: "cu_q P = map (offset query) [0..<Suc N]" "cu_k P = map (offset ks) [0..<Suc N]"
    using P offset_const [OF len(3)] len'(1) by (simp_all add: packed_def del: upt_Suc)
  have at: "cu_q P ! i = offset query i" "cu_k P ! i = offset ks i" if "i \<le> N" for i
    using that by (simp_all add: cu del: upt_Suc)
  have vlen: "offset vs i = offset ks i" if "i \<le> N" for i
    using that nth by (intro offset_cong) simp
  have total: "offset ks N < 2 ^ 31" "offset query N < 2 ^ 31"
    using small offset_const [OF len(3), of N] len'(1) by (simp_all add: offset_def nth N_def)
  have i32: "\<forall>x \<in> set (cu_q P). x < 2 ^ 31" "\<forall>x \<in> set (cu_k P). x < 2 ^ 31"
    unfolding cu by (rule offsets_below [OF total(2)], rule offsets_below [OF total(1)])
  have ok: "offsets_ok (cu_q P) (length (concat query))" "offsets_ok (cu_k P) (length (concat ks))"
    using offsets_ok_map [of query] offsets_ok_map [of ks] len' by (simp_all only: cu)
  have vcat: "length (concat vs) = length (concat ks)"
    using vlen [of N] offset_length [of vs] offset_length [of ks] len' by simp
  have bound: "Lq \<le> max_q P" "\<And>i. i < N \<Longrightarrow> length (ks ! i) \<le> max_k P"
    using P len'(4) by (simp_all add: packed_def)
  have step: "cu_q P ! Suc i - cu_q P ! i \<le> max_q P \<and> cu_k P ! Suc i - cu_k P ! i \<le> max_k P \<and>
      cu_k P ! i < cu_k P ! Suc i" if "i < N" for i
    using that bound(1) bound(2) [OF that] nth [OF that] by (simp add: at)
  let ?out = "fa3 (concat query) (concat ks) (concat vs) (cu_q P) (cu_k P) (max_q P) (max_k P) sc"
  have slot: "slice (cu_q P ! i) (cu_q P ! Suc i) ?out
      = sdpa_one_head D (query ! i) (kf (i div n)) (vf (i div n)) sc" if i: "i < N" for i
  proof -
    have lcu: "length (cu_q P) = Suc N" "length (cu_k P) = Suc N" by (simp_all only: cu length_map length_upt)
    have "slice (cu_q P ! i) (cu_q P ! Suc i) ?out =
        sdpa_one_head D (slice (cu_q P ! i) (cu_q P ! Suc i) (concat query))
          (slice (cu_k P ! i) (cu_k P ! Suc i) (concat ks)) (slice (cu_k P ! i) (cu_k P ! Suc i) (concat vs)) sc"
      by (rule fa3_specD [OF spec _ ok vcat]) (use step i lcu in simp_all)
    moreover have "slice (cu_q P ! i) (cu_q P ! Suc i) (concat query) = query ! i"
      using slice_concat [of i query] i len' by (simp add: at)
    moreover have "slice (cu_k P ! i) (cu_k P ! Suc i) (concat ks) = ks ! i"
      using slice_concat [of i ks] i len' by (simp add: at)
    moreover have "slice (cu_k P ! i) (cu_k P ! Suc i) (concat vs) = vs ! i"
      using slice_concat [of i vs] i len' vlen [of i] vlen [of "Suc i"] by (simp add: at)
    ultimately show ?thesis using nth [OF i] by simp
  qed
  have "fused_path fa3 D gather query Lq Hkv n sc
      = Inr (map (\<lambda>i. sdpa_one_head D (query ! i) (kf (i div n)) (vf (i div n)) sc) [0..<N])"
    using len' run parts i32 unpack_all [OF _ slot, of "zeros_like D query"]
    by (auto simp: fused_path_def cat_def as_int32_all Let_def zeros_like_def N_def [symmetric])
  then show ?thesis
    using reference_path_eq [of Hkv gather kf vf query n] gather len(1) by (simp add: N_def)
qed

lemma fused_attention_eq:
  assumes "plans_ok L D k v plans" "length query = length k * n" "0 < length query"
    "\<forall>q \<in> set query. length q = Lq"
    and "build_paged_cache D k v plans ps layer = Inr c" "0 < ps"
    and "fa3_spec D fa3" "length query * Lq < 2 ^ 31" "length query * L < 2 ^ 31"
  shows "fused_path fa3 D (\<lambda>h. gather_head local_backend c layer (int h)) query Lq (pc_num_kv_heads c) n sc
    = reference_path D (\<lambda>h. gather_head local_backend c layer (int h)) query (pc_num_kv_heads c) n sc"
proof -
  let ?kf = "\<lambda>h. kv_select (k ! h) (plans ! h)" and ?vf = "\<lambda>h. kv_select (v ! h) (plans ! h)"
  have c: "pc_num_kv_heads c = length k"
      "\<And>h. h < length k \<Longrightarrow> gather_head local_backend c layer (int h) = Inr (?kf h, ?vf h)"
    using build_paged_cache_ok [OF plans_ok_dense [OF assms(1)] assms(6), of layer] assms(5) by auto
  have plan: "plan_positions (plans ! h) \<noteq> []" "length (plan_positions (plans ! h)) \<le> L" if "h < length k" for h
  proof -
    have mem: "plans ! h \<in> set plans" using that assms(1) by (simp add: plans_ok_def)
    then show "plan_positions (plans ! h) \<noteq> []" using assms(1) by (auto simp: plans_ok_def)
    have "distinct (plan_positions (plans ! h))" and sub: "set (plan_positions (plans ! h)) \<subseteq> {0..<int L}"
      using mem assms(1) by (auto simp: plans_ok_def in_range_iff)
    then have "length (plan_positions (plans ! h)) = card (set (plan_positions (plans ! h)))"
      by (simp add: distinct_card)
    also have "\<dots> \<le> card {0..<int L}" by (rule card_mono [OF _ sub]) simp
    finally show "length (plan_positions (plans ! h)) \<le> L" by simp
  qed
  have "(\<Sum>i<length k * n. length (?kf (i div n))) \<le> (\<Sum>i<length k * n. L)"
    by (rule sum_mono) (simp add: kv_select_def plan(2) div_head)
  then have sum: "(\<Sum>i<length k * n. length (?kf (i div n))) < 2 ^ 31"
    using assms(2,9) by simp
  show ?thesis
    unfolding c(1)
    by (rule fused_path_eq [OF c(2) assms(2) _ assms(4) _ assms(7) _ sum])
       (use assms(2,3,8) plan(1) in \<open>simp_all add: kv_select_def\<close>)
qed

section \<open>Properties\<close>

text \<open>
  C10. Segment-paged attention is exact: for every head plan that keeps at least one token, building
  the paged cache and attending head by head over the stored rows returns, entry for entry, what
  the dense attention with the additive mask returns, for any page size, group size and scale.
\<close>

theorem paged_attention_equals_dense:
  assumes "plans_ok L D k v plans" "length query = length k * n" "0 < ps"
  shows "\<exists>c out. build_paged_cache D k v plans ps layer = Inr c \<and>
    paged_attention local_backend fa3 False D Lq query c layer n sc = Inr out \<and>
    dense_reference_attention_v2 L D query k v plans n sc = Inr out"
proof -
  obtain c where c: "build_paged_cache D k v plans ps layer = Inr c" "pc_num_kv_heads c = length k"
      "\<forall>h < length k. gather_head local_backend c layer (int h) =
         Inr (kv_select (k ! h) (plans ! h), kv_select (v ! h) (plans ! h))"
    using build_paged_cache_ok [OF plans_ok_dense [OF assms(1)] assms(3)] by blast
  then have "\<exists>out. reference_path D (\<lambda>h. gather_head local_backend c layer (int h)) query (length k) n sc = Inr out"
    using reference_path_eq [of "length k" "\<lambda>h. gather_head local_backend c layer (int h)"
      "\<lambda>h. kv_select (k ! h) (plans ! h)" "\<lambda>h. kv_select (v ! h) (plans ! h)" query n D sc] assms(2) by simp
  with c v2_attention_eq [OF assms(1,2) c(1) assms(3), of sc] assms(2) show ?thesis
    by (auto simp: paged_attention_def Let_def)
qed

text \<open>
  C11. The v1 runtime is exact too: for global and local heads with a non-empty window,
  \<^verbatim>\<open>segpaged_attention\<close> on the cache that \<^verbatim>\<open>build_segpaged_cache\<close> builds equals the dense masked
  reference.
\<close>

theorem segpaged_attention_equals_dense:
  assumes "dense_shape L D k v" "length pols = length k"
    and "\<forall>pol \<in> set pols. pol = POLICY_GLOBAL \<or> pol = POLICY_LOCAL"
    and "0 < L" "0 < sink \<or> 0 < recent" "length query = length k * n" "0 < ps"
  shows "\<exists>c out. build_segpaged_cache L D k v pols sink recent ps layer = Inr c \<and>
    segpaged_attention fa3 False D Lq query c layer n sc = Inr out \<and>
    dense_reference_attention_v1 L D query k v pols sink recent n sc = Inr out"
proof -
  let ?pl = "\<lambda>h. policy_plan (pols ! h) L sink recent"
  obtain c where c: "build_segpaged_cache L D k v pols sink recent ps layer = Inr c"
      "sp_num_kv_heads c = length k"
      "\<forall>h < length k. v1_gather_head c layer (int h) =
         Inr (kv_select (k ! h) (?pl h), kv_select (v ! h) (?pl h))"
    using build_segpaged_cache_ok [OF assms(1-3,7)] by blast
  then have "\<exists>out. reference_path D (\<lambda>h. v1_gather_head c layer (int h)) query (length k) n sc = Inr out"
    using reference_path_eq [of "length k" "\<lambda>h. v1_gather_head c layer (int h)"
      "\<lambda>h. kv_select (k ! h) (?pl h)" "\<lambda>h. kv_select (v ! h) (?pl h)" query n D sc] assms(6) by simp
  with c v1_attention_eq [OF assms(1-6) c(1) assms(7), of sc] assms(6) show ?thesis
    by (auto simp: segpaged_attention_def Let_def)
qed

text \<open>
  C12. The fused path packs, calls the varlen kernel once and unpacks without mixing up heads: with a
  kernel that meets its documented contract per packed sequence, it returns what the head-by-head
  path returns, as long as the packed token counts fit the 32-bit offsets.
\<close>

theorem fused_attention_equals_reference:
  assumes "plans_ok L D k v plans" "length query = length k * n" "0 < length query"
    and "\<forall>q \<in> set query. length q = Lq" "0 < ps"
    and "fa3_spec D fa3" "length query * Lq < 2 ^ 31" "length query * L < 2 ^ 31"
  shows "\<exists>c. build_paged_cache D k v plans ps layer = Inr c \<and>
    paged_attention local_backend fa3 True D Lq query c layer n sc =
    paged_attention local_backend fa3 False D Lq query c layer n sc"
proof -
  obtain c where c: "build_paged_cache D k v plans ps layer = Inr c"
    using build_paged_cache_ok [OF plans_ok_dense [OF assms(1)] assms(5)] by blast
  with fused_attention_eq [OF assms(1-4) c assms(5-8), of sc] show ?thesis
    by (simp add: paged_attention_def Let_def)
qed


section \<open>Witnesses\<close>

text \<open>A kernel that meets the contract: it attends sequence by sequence.\<close>

definition fa3_model :: "nat \<Rightarrow> fa3_kernel" where
  "fa3_model D q k v cuq cuk mq mk sc =
     concat (map (\<lambda>i. sdpa_one_head D (slice (cuq ! i) (cuq ! Suc i) q)
        (slice (cuk ! i) (cuk ! Suc i) k) (slice (cuk ! i) (cuk ! Suc i) v) sc) [0..<length cuq - 1])"

lemma length_sdpa [simp]: "length (sdpa_one_head D q k v sc) = length q"
  by (simp add: sdpa_one_head_def)

lemma fa3_model_spec: "fa3_spec D (fa3_model D)"
  unfolding fa3_spec_def
proof (intro allI impI)
  fix q k v :: page and cuq cuk :: "nat list" and mq mk i :: nat and sc :: real
  assume a: "length cuq = length cuk \<and> offsets_ok cuq (length q) \<and> offsets_ok cuk (length k) \<and>
     length v = length k \<and> (\<forall>i. Suc i < length cuq \<longrightarrow>
        cuq ! Suc i - cuq ! i \<le> mq \<and> cuk ! Suc i - cuk ! i \<le> mk \<and> cuk ! i < cuk ! Suc i)"
    and i: "Suc i < length cuq"
  let ?f = "\<lambda>i. sdpa_one_head D (slice (cuq ! i) (cuq ! Suc i) q)
        (slice (cuk ! i) (cuk ! Suc i) k) (slice (cuk ! i) (cuk ! Suc i) v) sc"
  let ?xs = "map ?f [0..<length cuq - 1]"
  have cu: "cuq \<noteq> []" "cuq ! 0 = 0" "sorted cuq" "last cuq = length q"
    using a by (auto simp: offsets_ok_def hd_conv_nth)
  have le: "cuq ! j \<le> cuq ! Suc j" "cuq ! Suc j \<le> length q" if "Suc j < length cuq" for j
  proof -
    show "cuq ! j \<le> cuq ! Suc j" using cu(3) that by (simp add: sorted_nth_mono)
    have "cuq ! Suc j \<le> cuq ! (length cuq - 1)" using cu(3) that by (intro sorted_nth_mono) auto
    then show "cuq ! Suc j \<le> length q" using cu(1,4) by (simp add: last_conv_nth)
  qed
  have off: "offset ?xs j = cuq ! j" if "j < length cuq" for j
    using that
  proof (induction j)
    case (Suc j)
    then have "[0..<length cuq - Suc 0] ! j = j" by (subst nth_upt) auto
    with Suc show ?case using le [of j] by simp
  qed (simp add: cu(2))
  have "slice (cuq ! i) (cuq ! Suc i) (concat ?xs) = ?f i"
    using slice_concat [of i ?xs] off [of i] off [of "Suc i"] i
      nth_upt [of 0 i "length cuq - 1"] by (simp del: offset_Suc)
  then show "slice (cuq ! i) (cuq ! Suc i) (fa3_model D q k v cuq cuk mq mk sc) = ?f i"
    by (simp add: fa3_model_def)
qed

definition sample_plan :: head_visible_plan where
  "sample_plan = \<lparr>plan_policy = POLICY_LOCAL, plan_positions = [0, 3], plan_seq_len = 4\<rparr>"

definition sample_query :: "page list" where
  "sample_query = [[[1, 0]], [[0, 1]]]"

lemma sample_plans_ok: "plans_ok 4 2 [sample_kv] [sample_kv] [sample_plan]"
  by (simp add: plans_ok_def dense_shape_def sample_kv_def rows_ok_def sample_plan_def in_range_iff)

theorem paged_attention_equals_dense_witness:
  "\<exists>c out. build_paged_cache 2 [sample_kv] [sample_kv] [sample_plan] 3 0 = Inr c \<and>
    paged_attention local_backend (fa3_model 2) False 2 1 sample_query c 0 2 (1 / 2) = Inr out \<and>
    dense_reference_attention_v2 4 2 sample_query [sample_kv] [sample_kv] [sample_plan] 2 (1 / 2) = Inr out"
  by (rule paged_attention_equals_dense [OF sample_plans_ok]) (simp_all add: sample_query_def)

theorem segpaged_attention_equals_dense_witness:
  "\<exists>c out. build_segpaged_cache 4 2 [sample_kv] [sample_kv] [POLICY_LOCAL] 1 2 3 0 = Inr c \<and>
    segpaged_attention (fa3_model 2) False 2 1 sample_query c 0 2 (1 / 2) = Inr out \<and>
    dense_reference_attention_v1 4 2 sample_query [sample_kv] [sample_kv] [POLICY_LOCAL] 1 2 2 (1 / 2) = Inr out"
  by (rule segpaged_attention_equals_dense)
     (simp_all add: sample_query_def dense_shape_def sample_kv_def rows_ok_def)

theorem fused_attention_equals_reference_witness:
  "\<exists>c. build_paged_cache 2 [sample_kv] [sample_kv] [sample_plan] 3 0 = Inr c \<and>
    paged_attention local_backend (fa3_model 2) True 2 1 sample_query c 0 2 (1 / 2) =
    paged_attention local_backend (fa3_model 2) False 2 1 sample_query c 0 2 (1 / 2)"
  by (rule fused_attention_equals_reference [OF sample_plans_ok _ _ _ _ fa3_model_spec])
     (simp_all add: sample_query_def)

end
