(* ===== verification/Pd_Transfer.thy ===== *)
theory Pd_Transfer
  imports Head_Trim Seg_Attention
begin

text \<open>
  Head-class KV transfer between prefill and decode, \<^verbatim>\<open>redknot/pd_transfer.py\<close>.

  The serialised form is the dictionary that \<^verbatim>\<open>serialize\<close> hands to \<^verbatim>\<open>torch.save\<close>; the string keys
  \<^verbatim>\<open>pos_i\<close>, \<^verbatim>\<open>k_i\<close> and \<^verbatim>\<open>v_i\<close> are the constructors of \<open>tensor_key\<close>. \<^verbatim>\<open>torch.save\<close> and
  \<^verbatim>\<open>torch.load\<close> are parameters, related by \<open>load (save x) = Inr x\<close>. The lemmas show that the wire
  format loses nothing, that restoring rebuilds the dense layout up to zero rows nobody reads,
  and how many bytes cross.
\<close>

section \<open>Definitions\<close>

datatype kv_dtype = Float16 | BFloat16 | Float32 | Float64

fun element_size :: "kv_dtype \<Rightarrow> nat" where
  "element_size Float16 = 2"
| "element_size BFloat16 = 2"
| "element_size Float32 = 4"
| "element_size Float64 = 8"

fun dtype_name :: "kv_dtype \<Rightarrow> string" where
  "dtype_name Float16 = ''float16''"
| "dtype_name BFloat16 = ''bfloat16''"
| "dtype_name Float32 = ''float32''"
| "dtype_name Float64 = ''float64''"

definition torch_getattr :: "string \<Rightarrow> kv_dtype result" where
  "torch_getattr name =
     (case find (\<lambda>d. dtype_name d = name) [Float16, BFloat16, Float32, Float64] of
        None \<Rightarrow> Inl AttributeError | Some d \<Rightarrow> Inr d)"

record head_kv_slice =
  sl_layer :: nat
  sl_head :: nat
  sl_policy :: string
  sl_positions :: "int list"
  sl_k :: page
  sl_v :: page

record head_class_kv_payload =
  pd_num_layers :: nat
  pd_num_kv_heads :: nat
  pd_head_dim :: nat
  pd_seq_len :: nat
  pd_slices :: "head_kv_slice list"
  pd_dtype :: kv_dtype

definition transferred_bytes :: "head_class_kv_payload \<Rightarrow> nat" where
  "transferred_bytes p = foldl (\<lambda>total s.
     total + rows_numel (sl_k s) * element_size (pd_dtype p)
           + rows_numel (sl_v s) * element_size (pd_dtype p)
           + length (sl_positions s) * 8) 0 (pd_slices p)"

definition dense_bytes :: "head_class_kv_payload \<Rightarrow> nat" where
  "dense_bytes p =
     (let elt = element_size (pd_dtype p);
          per_kv = pd_num_kv_heads p * pd_seq_len p * pd_head_dim p * elt
      in 2 * pd_num_layers p * per_kv)"

text \<open>\<^verbatim>\<open>saving\<close>; the reduction factor is \<open>None\<close> for infinity.\<close>

definition saving :: "head_class_kv_payload \<Rightarrow> nat \<times> nat \<times> rat \<times> rat option" where
  "saving p =
     (let dense = dense_bytes p; sent = transferred_bytes p
      in (dense, sent,
          if dense \<noteq> 0 then 1 - of_nat sent / of_nat dense else 0,
          if sent \<noteq> 0 then Some (of_nat dense / of_nat sent) else None))"

datatype tensor_key = PosKey nat | KKey nat | VKey nat
datatype wire_tensor = IntTensor "int list" | RowTensor page

record slice_meta =
  sm_layer :: nat
  sm_head :: nat
  sm_policy :: string
  sm_kept :: nat

record wire_object =
  w_num_layers :: nat
  w_num_kv_heads :: nat
  w_head_dim :: nat
  w_seq_len :: nat
  w_dtype :: string
  w_slices :: "slice_meta list"
  w_tensors :: "tensor_key \<rightharpoonup> wire_tensor"

definition wire_tensors :: "head_kv_slice list \<Rightarrow> tensor_key \<rightharpoonup> wire_tensor" where
  "wire_tensors slices = foldl (\<lambda>m (i, s).
     m(PosKey i \<mapsto> IntTensor (sl_positions s), KKey i \<mapsto> RowTensor (sl_k s), VKey i \<mapsto> RowTensor (sl_v s)))
     Map.empty (List.enumerate 0 slices)"

definition serialize :: "(wire_object \<Rightarrow> 'blob) \<Rightarrow> head_class_kv_payload \<Rightarrow> 'blob" where
  "serialize save p = save
     \<lparr>w_num_layers = pd_num_layers p, w_num_kv_heads = pd_num_kv_heads p,
      w_head_dim = pd_head_dim p, w_seq_len = pd_seq_len p, w_dtype = dtype_name (pd_dtype p),
      w_slices = map (\<lambda>s. \<lparr>sm_layer = sl_layer s, sm_head = sl_head s, sm_policy = sl_policy s,
                         sm_kept = length (sl_positions s)\<rparr>) (pd_slices p),
      w_tensors = wire_tensors (pd_slices p)\<rparr>"

definition wire_lookup :: "wire_object \<Rightarrow> tensor_key \<Rightarrow> wire_tensor result" where
  "wire_lookup w key = (case w_tensors w key of None \<Rightarrow> Inl KeyError | Some t \<Rightarrow> Inr t)"

fun as_ints :: "wire_tensor \<Rightarrow> int list" where
  "as_ints (IntTensor xs) = xs"
| "as_ints (RowTensor _) = []"

fun as_rows :: "wire_tensor \<Rightarrow> page" where
  "as_rows (RowTensor t) = t"
| "as_rows (IntTensor _) = []"

definition read_slice :: "wire_object \<Rightarrow> nat \<times> slice_meta \<Rightarrow> head_kv_slice result" where
  "read_slice w = (\<lambda>(i, sm).
     rbind (wire_lookup w (PosKey i)) (\<lambda>pos.
     rbind (wire_lookup w (KKey i)) (\<lambda>k.
     rbind (wire_lookup w (VKey i)) (\<lambda>v.
     Inr \<lparr>sl_layer = sm_layer sm, sl_head = sm_head sm, sl_policy = sm_policy sm,
          sl_positions = as_ints pos, sl_k = as_rows k, sl_v = as_rows v\<rparr>))))"

definition deserialize :: "('blob \<Rightarrow> wire_object result) \<Rightarrow> 'blob \<Rightarrow> head_class_kv_payload result" where
  "deserialize load blob =
     rbind (load blob) (\<lambda>w.
     rbind (torch_getattr (w_dtype w)) (\<lambda>dtype.
     rbind (mmap (read_slice w) (List.enumerate 0 (w_slices w))) (\<lambda>slices.
     Inr \<lparr>pd_num_layers = w_num_layers w, pd_num_kv_heads = w_num_kv_heads w,
          pd_head_dim = w_head_dim w, pd_seq_len = w_seq_len w,
          pd_slices = slices, pd_dtype = dtype\<rparr>)))"

definition policy_for :: "head_class_config \<Rightarrow> int \<Rightarrow> int \<Rightarrow> string result" where
  "policy_for cfg layer head =
     rbind (get_strategy cfg layer head) (\<lambda>strat.
     Inr (if is_local strat then POLICY_LOCAL else POLICY_GLOBAL))"

text \<open>The positions a head's strategy keeps, and the body of the two nested loops.\<close>

definition transfer_positions :: "nat \<Rightarrow> head_strategy \<Rightarrow> int list result" where
  "transfer_positions L strat =
     (let policy = (if is_local strat then POLICY_LOCAL else POLICY_GLOBAL)
      in if policy = POLICY_GLOBAL then arange 0 (int L)
         else
           let w = (if window strat > 0 then window strat else 0)
           in local_visible_indices (int L) (max (sink_size strat) 0) w)"

definition transfer_slice ::
  "(kv_tensor \<times> kv_tensor) list \<Rightarrow> head_class_config \<Rightarrow> nat \<Rightarrow> int \<times> int \<Rightarrow> head_kv_slice result" where
  "transfer_slice kv cfg L = (\<lambda>(li, h).
     rbind (py_get kv li) (\<lambda>(K, V).
     rbind (get_strategy cfg li h) (\<lambda>strat.
     rbind (transfer_positions L strat) (\<lambda>pos.
     rbind (py_get K h) (\<lambda>kh.
     rbind (index_select kh pos) (\<lambda>k.
     rbind (py_get V h) (\<lambda>vh.
     rbind (index_select vh pos) (\<lambda>v.
     Inr \<lparr>sl_layer = nat li, sl_head = nat h,
          sl_policy = (if is_local strat then POLICY_LOCAL else POLICY_GLOBAL),
          sl_positions = pos, sl_k = k, sl_v = v\<rparr>))))))))"

definition build_transfer_payload ::
  "nat \<Rightarrow> kv_dtype \<Rightarrow> (kv_tensor \<times> kv_tensor) list \<Rightarrow> head_class_config \<Rightarrow> head_class_kv_payload result" where
  "build_transfer_payload D dtype kv cfg =
     (if kv = [] then Inl ValueError
      else
        let sample_k = fst (kv ! 0); H = length sample_k; L = seq_len_of sample_k;
            n_layers = length kv
        in rbind (mmap (transfer_slice kv cfg L) (loop2 (int n_layers) (int H))) (\<lambda>slices.
           Inr \<lparr>pd_num_layers = n_layers, pd_num_kv_heads = H, pd_head_dim = D,
                pd_seq_len = L, pd_slices = slices, pd_dtype = dtype\<rparr>))"

definition restore_slice ::
  "(kv_tensor \<times> kv_tensor) list \<Rightarrow> head_kv_slice \<Rightarrow> (kv_tensor \<times> kv_tensor) list result" where
  "restore_slice out s =
     rbind (py_get out (int (sl_layer s))) (\<lambda>(K, V).
     rbind (py_get K (int (sl_head s))) (\<lambda>kd.
     rbind (index_copy kd (sl_positions s) (sl_k s)) (\<lambda>kd'.
     rbind (py_get V (int (sl_head s))) (\<lambda>vd.
     rbind (index_copy vd (sl_positions s) (sl_v s)) (\<lambda>vd'.
     rbind (py_set K (int (sl_head s)) kd') (\<lambda>K'.
     rbind (py_set V (int (sl_head s)) vd') (\<lambda>V'.
     py_set out (int (sl_layer s)) (K', V'))))))))"

definition restore_payload :: "head_class_kv_payload \<Rightarrow> (kv_tensor \<times> kv_tensor) list result" where
  "restore_payload p =
     (let Z = zeros3 (pd_num_kv_heads p) (pd_seq_len p) (pd_head_dim p)
      in foldM restore_slice (replicate (pd_num_layers p) (Z, Z)) (pd_slices p))"

section \<open>The wire format\<close>

lemma torch_getattr_name [simp]: "torch_getattr (dtype_name d) = Inr d"
  by (cases d) (simp_all add: torch_getattr_def)

lemma wire_tensors_enum:
  "foldl (\<lambda>m (i, s).
     m(PosKey i \<mapsto> IntTensor (sl_positions s), KKey i \<mapsto> RowTensor (sl_k s), VKey i \<mapsto> RowTensor (sl_v s)))
     m0 (List.enumerate n ss) key =
   (case key of
      PosKey j \<Rightarrow> if n \<le> j \<and> j < n + length ss then Some (IntTensor (sl_positions (ss ! (j - n)))) else m0 key
    | KKey j \<Rightarrow> if n \<le> j \<and> j < n + length ss then Some (RowTensor (sl_k (ss ! (j - n)))) else m0 key
    | VKey j \<Rightarrow> if n \<le> j \<and> j < n + length ss then Some (RowTensor (sl_v (ss ! (j - n)))) else m0 key)"
proof (induction ss arbitrary: n m0)
  case Nil
  then show ?case by (auto split: tensor_key.splits)
next
  case (Cons s ss)
  show ?case
    unfolding enumerate_simps foldl_Cons prod.case Cons.IH
    by (cases key) (auto simp: nth_Cons' Suc_le_eq Suc_diff_Suc)
qed

lemma wire_tensors_at:
  assumes "i < length ss"
  shows "wire_tensors ss (PosKey i) = Some (IntTensor (sl_positions (ss ! i)))"
    "wire_tensors ss (KKey i) = Some (RowTensor (sl_k (ss ! i)))"
    "wire_tensors ss (VKey i) = Some (RowTensor (sl_v (ss ! i)))"
  using assms by (simp_all add: wire_tensors_def wire_tensors_enum)

lemma deserialize_serialize:
  assumes "\<forall>x. load (save x) = Inr x"
  shows "deserialize load (serialize save p) = Inr p"
proof -
  let ?w = "\<lparr>w_num_layers = pd_num_layers p, w_num_kv_heads = pd_num_kv_heads p,
      w_head_dim = pd_head_dim p, w_seq_len = pd_seq_len p, w_dtype = dtype_name (pd_dtype p),
      w_slices = map (\<lambda>s. \<lparr>sm_layer = sl_layer s, sm_head = sl_head s, sm_policy = sl_policy s,
                         sm_kept = length (sl_positions s)\<rparr>) (pd_slices p),
      w_tensors = wire_tensors (pd_slices p)\<rparr>"
  have "mmap (read_slice ?w) (List.enumerate 0 (w_slices ?w)) = Inr (pd_slices p)"
    unfolding mmap_Inr_iff
    by (simp add: read_slice_def nth_enumerate_eq wire_lookup_def wire_tensors_at)
  then show ?thesis using assms by (simp add: deserialize_def serialize_def)
qed

section \<open>Building and restoring\<close>

text \<open>Layers, heads and rows of the KV that prefill hands over.\<close>

definition kv_shape :: "nat \<Rightarrow> nat \<Rightarrow> nat \<Rightarrow> (kv_tensor \<times> kv_tensor) list \<Rightarrow> bool" where
  "kv_shape H L D kv \<longleftrightarrow>
     kv \<noteq> [] \<and> 0 < H \<and>
     (\<forall>(K, V) \<in> set kv. length K = H \<and> length V = H \<and>
        (\<forall>t \<in> set K \<union> set V. length t = L \<and> rows_ok D t))"

definition sent_positions :: "nat \<Rightarrow> head_strategy \<Rightarrow> int list" where
  "sent_positions L st =
     (if is_local st then visible_window (int L) (max (sink_size st) 0) (max (window st) 0)
      else [0..int L - 1])"

lemma transfer_positions_eq: "transfer_positions L st = Inr (sent_positions L st)"
  by (auto simp: transfer_positions_def sent_positions_def Let_def local_visible_indices_eq
      POLICY_GLOBAL_def POLICY_LOCAL_def max_def)

lemma sent_positions_in_range: "in_range L (sent_positions L st)"
  by (auto simp: sent_positions_def in_range_iff set_visible_window)

lemma kv_shapeD:
  assumes "kv_shape H L D kv" "li < length kv"
  shows "length (fst (kv ! li)) = H" "length (snd (kv ! li)) = H"
    "\<And>h. h < H \<Longrightarrow> length (fst (kv ! li) ! h) = L \<and> rows_ok D (fst (kv ! li) ! h)"
    "\<And>h. h < H \<Longrightarrow> length (snd (kv ! li) ! h) = L \<and> rows_ok D (snd (kv ! li) ! h)"
proof -
  have "kv ! li \<in> set kv" using assms(2) by simp
  then have "length (fst (kv ! li)) = H \<and> length (snd (kv ! li)) = H \<and>
      (\<forall>t \<in> set (fst (kv ! li)) \<union> set (snd (kv ! li)). length t = L \<and> rows_ok D t)"
    using assms(1) unfolding kv_shape_def by fastforce
  then show "length (fst (kv ! li)) = H" "length (snd (kv ! li)) = H"
    "\<And>h. h < H \<Longrightarrow> length (fst (kv ! li) ! h) = L \<and> rows_ok D (fst (kv ! li) ! h)"
    "\<And>h. h < H \<Longrightarrow> length (snd (kv ! li) ! h) = L \<and> rows_ok D (snd (kv ! li) ! h)"
    by auto
qed

definition sent_slice :: "(kv_tensor \<times> kv_tensor) list \<Rightarrow> (nat \<times> nat \<Rightarrow> head_strategy) \<Rightarrow> nat \<Rightarrow> nat \<times> nat \<Rightarrow> head_kv_slice" where
  "sent_slice kv st L = (\<lambda>(li, h).
     let pos = sent_positions L (st (li, h))
     in \<lparr>sl_layer = li, sl_head = h,
         sl_policy = (if is_local (st (li, h)) then POLICY_LOCAL else POLICY_GLOBAL),
         sl_positions = pos, sl_k = map (\<lambda>q. fst (kv ! li) ! h ! nat q) pos,
         sl_v = map (\<lambda>q. snd (kv ! li) ! h ! nat q) pos\<rparr>)"

lemma transfer_slice_ok:
  assumes "kv_shape H L D kv" "li < length kv" "h < H" "get_strategy cfg (int li) (int h) = Inr (st (li, h))"
  shows "transfer_slice kv cfg L (int li, int h) = Inr (sent_slice kv st L (li, h))"
  using kv_shapeD [OF assms(1,2)] assms sent_positions_in_range [of L "st (li, h)"]
  by (cases "kv ! li")
     (simp add: transfer_slice_def transfer_positions_eq index_select_ok sent_slice_def Let_def)

definition pairs :: "nat \<Rightarrow> nat \<Rightarrow> (nat \<times> nat) list" where
  "pairs n H = List.product [0..<n] [0..<H]"

lemma loop2_pairs: "loop2 (int n) (int H) = map (\<lambda>(li, h). (int li, int h)) (pairs n H)"
proof -
  have "List.product (map f xs) (map g ys) = map (\<lambda>(x, y). (f x, g y)) (List.product xs ys)"
    for f :: "nat \<Rightarrow> int" and g :: "nat \<Rightarrow> int" and xs ys
    by (induction xs) (simp_all add: comp_def)
  then show ?thesis by (simp add: loop2_def upto_int pairs_def)
qed

lemma build_ok:
  assumes shape: "kv_shape H L D kv"
    and st: "\<And>li h. li < length kv \<Longrightarrow> h < H \<Longrightarrow> get_strategy cfg (int li) (int h) = Inr (st (li, h))"
  shows "build_transfer_payload D dtype kv cfg = Inr
    \<lparr>pd_num_layers = length kv, pd_num_kv_heads = H, pd_head_dim = D, pd_seq_len = L,
     pd_slices = map (sent_slice kv st L) (pairs (length kv) H), pd_dtype = dtype\<rparr>"
proof -
  have ne: "kv \<noteq> []" "0 < length kv" "0 < H" using shape by (auto simp: kv_shape_def)
  note k0 = kv_shapeD [OF shape ne(2)]
  have L: "seq_len_of (fst (kv ! 0)) = L"
    using k0(1) k0(3) [of 0] ne(3) by (cases "fst (kv ! 0)") (auto simp: seq_len_of_def)
  have "mmap (transfer_slice kv cfg L) (loop2 (int (length kv)) (int H))
      = Inr (map (sent_slice kv st L) (pairs (length kv) H))"
    unfolding loop2_pairs mmap_map
    by (rule mmap_total) (use transfer_slice_ok [OF shape] st in \<open>auto simp: pairs_def\<close>)
  with ne k0(1) L show ?thesis by (simp add: build_transfer_payload_def Let_def)
qed

text \<open>The state of the restore loop: a grid of heads, given by a function of layer and head.\<close>

definition grid :: "nat \<Rightarrow> nat \<Rightarrow> (nat \<times> nat \<Rightarrow> page) \<Rightarrow> (nat \<times> nat \<Rightarrow> page) \<Rightarrow> (kv_tensor \<times> kv_tensor) list" where
  "grid n H f g = map (\<lambda>li. (map (\<lambda>h. f (li, h)) [0..<H], map (\<lambda>h. g (li, h)) [0..<H])) [0..<n]"

lemma grid_update:
  assumes "li < n" "h < H"
  shows "(grid n H f g)[li := ((map (\<lambda>h. f (li, h)) [0..<H])[h := a], (map (\<lambda>h. g (li, h)) [0..<H])[h := b])]
    = grid n H (f((li, h) := a)) (g((li, h) := b))"
  using assms by (auto simp: grid_def nth_list_update intro!: nth_equalityI)

lemma restore_slice_ok:
  assumes "kv_shape H L D kv" "li < length kv" "h < H"
    and z: "f (li, h) = replicate L (replicate D 0)" "g (li, h) = replicate L (replicate D 0)"
  shows "restore_slice (grid (length kv) H f g) (sent_slice kv st L (li, h)) =
    Inr (grid (length kv) H
      (f((li, h) := zero_fill D (sent_positions L (st (li, h))) (fst (kv ! li) ! h)))
      (g((li, h) := zero_fill D (sent_positions L (st (li, h))) (snd (kv ! li) ! h))))"
proof -
  have at: "grid (length kv) H f g ! li = (map (\<lambda>h. f (li, h)) [0..<H], map (\<lambda>h. g (li, h)) [0..<H])"
    using assms(2) by (simp add: grid_def)
  have len: "length (grid (length kv) H f g) = length kv" by (simp add: grid_def)
  note sh = kv_shapeD(3,4) [OF assms(1-3)]
  show ?thesis
    using at len assms(2,3) z sh index_copy_zero [OF _ sent_positions_in_range]
      grid_update [OF assms(2,3)]
    by (simp add: restore_slice_def sent_slice_def Let_def)
qed

lemma restore_fold:
  assumes "kv_shape H L D kv" "distinct ps" "set ps \<subseteq> {..<length kv} \<times> {..<H}"
    and "\<forall>x \<in> set ps. f x = replicate L (replicate D 0) \<and> g x = replicate L (replicate D 0)"
  shows "foldM restore_slice (grid (length kv) H f g) (map (sent_slice kv st L) ps) =
    Inr (grid (length kv) H
      (\<lambda>(li, h). if (li, h) \<in> set ps then zero_fill D (sent_positions L (st (li, h))) (fst (kv ! li) ! h) else f (li, h))
      (\<lambda>(li, h). if (li, h) \<in> set ps then zero_fill D (sent_positions L (st (li, h))) (snd (kv ! li) ! h) else g (li, h)))"
  using assms(2-)
proof (induction ps arbitrary: f g)
  case (Cons x ps)
  obtain li h where x: "x = (li, h)" by (cases x)
  let ?a = "zero_fill D (sent_positions L (st (li, h))) (fst (kv ! li) ! h)"
  let ?b = "zero_fill D (sent_positions L (st (li, h))) (snd (kv ! li) ! h)"
  have step: "restore_slice (grid (length kv) H f g) (sent_slice kv st L (li, h)) =
      Inr (grid (length kv) H (f((li, h) := ?a)) (g((li, h) := ?b)))"
    by (rule restore_slice_ok [OF assms(1)]) (use Cons.prems x in auto)
  have "\<forall>y \<in> set ps. (f((li, h) := ?a)) y = replicate L (replicate D 0) \<and>
      (g((li, h) := ?b)) y = replicate L (replicate D 0)"
    using Cons.prems x by auto
  from Cons.IH [OF _ _ this] Cons.prems(1,2) x step show ?case
    by (auto simp: grid_def fun_eq_iff)
qed (simp add: grid_def)

lemma restore_ok:
  assumes shape: "kv_shape H L D kv"
  shows "restore_payload \<lparr>pd_num_layers = length kv, pd_num_kv_heads = H, pd_head_dim = D, pd_seq_len = L,
     pd_slices = map (sent_slice kv st L) (pairs (length kv) H), pd_dtype = dtype\<rparr> =
   Inr (map (\<lambda>li. (map (\<lambda>h. zero_fill D (sent_positions L (st (li, h))) (fst (kv ! li) ! h)) [0..<H],
                   map (\<lambda>h. zero_fill D (sent_positions L (st (li, h))) (snd (kv ! li) ! h)) [0..<H])) [0..<length kv])"
proof -
  let ?z = "\<lambda>x :: nat \<times> nat. replicate L (replicate D (0 :: real))"
  have z: "replicate (length kv) (zeros3 H L D, zeros3 H L D) = grid (length kv) H ?z ?z"
    by (auto simp: grid_def zeros3_def intro!: nth_equalityI)
  have "distinct (pairs (length kv) H)" "set (pairs (length kv) H) = {..<length kv} \<times> {..<H}"
    by (auto simp: pairs_def distinct_product)
  with restore_fold [OF shape, of "pairs (length kv) H" ?z ?z st] show ?thesis
    by (simp add: restore_payload_def Let_def z) (simp add: grid_def)
qed

lemma sent_positions_distinct: "distinct (sent_positions L st)"
  by (simp add: sent_positions_def visible_window_sorted)

lemma masked_attention_zero_fill:
  assumes idx: "distinct idx" "in_range L idx" "idx \<noteq> []" and len: "length k = L" "length v = L"
  shows "masked_attention D (map (\<lambda>j. int j \<in> set idx) [0..<L]) q (zero_fill D idx k) (zero_fill D idx v) sc =
    masked_attention D (map (\<lambda>j. int j \<in> set idx) [0..<L]) q k v sc"
proof -
  have "map (\<lambda>p. zero_fill D idx t ! nat p) idx = map (\<lambda>p. t ! nat p) idx" if "length t = L" for t
    using idx(2) that by (auto simp: zero_fill_def in_range_iff)
  moreover have "length (zero_fill D idx t) = length t" for t by (simp add: zero_fill_def)
  ultimately show ?thesis using masked_is_selected [OF idx] len by (simp cong: map_cong)
qed

lemma transferred_bytes_sum:
  "transferred_bytes p = sum_list (map (\<lambda>s. rows_numel (sl_k s) * element_size (pd_dtype p)
     + rows_numel (sl_v s) * element_size (pd_dtype p) + length (sl_positions s) * 8) (pd_slices p))"
proof -
  have "foldl (\<lambda>n s. n + a s + b s + c s) m xs = m + sum_list (map (\<lambda>s. a s + b s + c s) xs)"
    for a b c :: "head_kv_slice \<Rightarrow> nat" and m xs
    by (induction xs arbitrary: m) (simp_all add: algebra_simps)
  then show ?thesis unfolding transferred_bytes_def by simp
qed

section \<open>Properties\<close>

text \<open>
  C22. Prefill to decode: for well-shaped KV whose heads all have a strategy, building the payload,
  serialising, deserialising and restoring succeeds, and every head of the result holds the
  original rows at the positions its strategy keeps (all of them for a global head) and zero
  rows elsewhere.
\<close>

theorem transfer_roundtrip:
  assumes "kv_shape H L D kv"
    and "\<forall>li < length kv. \<forall>h < H. get_strategy cfg (int li) (int h) = Inr (st (li, h))"
    and "\<forall>x. load (save x) = Inr x"
  shows "\<exists>p. build_transfer_payload D dtype kv cfg = Inr p \<and>
    rbind (deserialize load (serialize save p)) restore_payload = Inr
      (map (\<lambda>li. (map (\<lambda>h. zero_fill D (sent_positions L (st (li, h))) (fst (kv ! li) ! h)) [0..<H],
                 map (\<lambda>h. zero_fill D (sent_positions L (st (li, h))) (snd (kv ! li) ! h)) [0..<H]))
        [0..<length kv])"
  using build_ok [OF assms(1), of cfg st dtype] assms(2) deserialize_serialize [of load save, OF assms(3)]
    restore_ok [OF assms(1)]
  by simp

text \<open>
  C23. The transfer does not change what decode computes: attention of any queries over the
  restored KV of a head, masked to the positions its strategy sees, equals the same attention
  over the original KV.
\<close>

theorem transfer_preserves_attention:
  assumes "kv_shape H L D kv"
    and "\<forall>li < length kv. \<forall>h < H. get_strategy cfg (int li) (int h) = Inr (st (li, h))"
    and "\<forall>x. load (save x) = Inr x"
    and "li < length kv" "h < H" "sent_positions L (st (li, h)) \<noteq> []"
  shows "\<exists>p out. build_transfer_payload D dtype kv cfg = Inr p \<and>
    rbind (deserialize load (serialize save p)) restore_payload = Inr out \<and>
    masked_attention D (map (\<lambda>j. int j \<in> set (sent_positions L (st (li, h)))) [0..<L]) q
      (fst (out ! li) ! h) (snd (out ! li) ! h) sc =
    masked_attention D (map (\<lambda>j. int j \<in> set (sent_positions L (st (li, h)))) [0..<L]) q
      (fst (kv ! li) ! h) (snd (kv ! li) ! h) sc"
  using build_ok [OF assms(1), of cfg st dtype] assms(2) deserialize_serialize [of load save, OF assms(3)]
    restore_ok [OF assms(1)] kv_shapeD(3,4) [OF assms(1,4,5)] assms(4-)
    masked_attention_zero_fill [OF sent_positions_distinct sent_positions_in_range assms(6)]
  by simp

text \<open>
  The bytes that cross are exactly, per head, the kept rows of K and V at the element size
  plus eight bytes per position, and the dense size is the same formula with every row kept and no
  positions.
\<close>

theorem transferred_bytes_formula:
  assumes "kv_shape H L D kv"
    and "\<forall>li < length kv. \<forall>h < H. get_strategy cfg (int li) (int h) = Inr (st (li, h))"
  shows "\<exists>p. build_transfer_payload D dtype kv cfg = Inr p \<and>
    transferred_bytes p = (\<Sum>li<length kv. \<Sum>h<H.
      length (sent_positions L (st (li, h))) * (2 * D * element_size dtype + 8)) \<and>
    dense_bytes p = (\<Sum>li<length kv. \<Sum>h<H. L * (2 * D * element_size dtype))"
proof -
  let ?c = "\<lambda>x. length (sent_positions L (st x)) * (2 * D * element_size dtype + 8)"
  have one: "rows_numel (sl_k (sent_slice kv st L x)) * element_size dtype
      + rows_numel (sl_v (sent_slice kv st L x)) * element_size dtype
      + length (sl_positions (sent_slice kv st L x)) * 8 = ?c x"
    if "x \<in> set (pairs (length kv) H)" for x
  proof -
    obtain li h where x: "x = (li, h)" by (cases x)
    with that have lh: "li < length kv" "h < H" by (auto simp: pairs_def)
    have "rows_numel (map (\<lambda>q. t ! nat q) (sent_positions L (st x))) = length (sent_positions L (st x)) * D"
      if "length t = L \<and> rows_ok D t" for t
      using rows_numel_select [of D t] sent_positions_in_range [of L "st x"] that by simp
    from this [OF kv_shapeD(3) [OF assms(1) lh]] this [OF kv_shapeD(4) [OF assms(1) lh]] show ?thesis
      by (simp add: x sent_slice_def Let_def algebra_simps)
  qed
  have "sum_list (map ?c (pairs (length kv) H)) = (\<Sum>li<length kv. \<Sum>h<H. ?c (li, h))"
    unfolding pairs_def
    by (simp add: sum_list_product interv_sum_list_conv_sum_set_nat lessThan_atLeast0)
  then show ?thesis
    using build_ok [OF assms(1), of cfg st dtype] assms(2) one
    by (simp add: transferred_bytes_sum dense_bytes_def Let_def comp_def cong: map_cong)
qed

section \<open>Witnesses\<close>

definition sample_transfer_config :: head_class_config where
  "sample_transfer_config = sample_config
     \<lparr>head_max_distance := [[1, -1]], head_sink_size := Some [[1, 4]], dense_prefix_layers := 0\<rparr>"

definition sample_strategy :: "nat \<times> nat \<Rightarrow> head_strategy" where
  "sample_strategy = (\<lambda>(li, h).
     if h = 0 then \<lparr>hs_layer = int li, hs_kv_head = int h, head_type = HEAD_LOCAL, window = 1, sink_size = 1\<rparr>
     else \<lparr>hs_layer = int li, hs_kv_head = int h, head_type = HEAD_RETRIEVAL, window = -1, sink_size = 4\<rparr>)"

definition sample_transfer :: "(kv_tensor \<times> kv_tensor) list" where
  "sample_transfer = [([sample_kv, sample_kv], [sample_kv, sample_kv])]"

lemma sample_transfer_shape: "kv_shape 2 4 2 sample_transfer" "length sample_transfer = 1"
  by (simp_all add: kv_shape_def sample_transfer_def sample_kv_def rows_ok_def)

lemma sample_strategies:
  "\<forall>li < length sample_transfer. \<forall>h < 2.
     get_strategy sample_transfer_config (int li) (int h) = Inr (sample_strategy (li, h))"
  by (auto simp: sample_transfer_def sample_transfer_config_def sample_config_def sample_labels_def
      get_strategy_def sink_at_def mat_get_def py_get_def py_index_def head_type_defs sample_strategy_def
      less_2_cases_iff)

lemma sample_positions:
  "sent_positions 4 (sample_strategy (0, 0)) = [0, 3]" "sent_positions 4 (sample_strategy (0, Suc 0)) = [0, 1, 2, 3]"
  by code_simp+

theorem transfer_roundtrip_witness:
  "\<exists>p. build_transfer_payload 2 BFloat16 sample_transfer sample_transfer_config = Inr p \<and>
    rbind (deserialize Inr (serialize id p)) restore_payload =
      Inr [([[[1, 2], [0, 0], [0, 0], [7, 8]], sample_kv], [[[1, 2], [0, 0], [0, 0], [7, 8]], sample_kv])]"
  using transfer_roundtrip [OF sample_transfer_shape(1) sample_strategies, of Inr id BFloat16]
  by (simp add: sample_transfer_def numeral_2_eq_2 sample_positions)
     (simp add: zero_fill_def sample_kv_def numeral_2_eq_2 upt_rec)

theorem transfer_preserves_attention_witness:
  "\<exists>p out. build_transfer_payload 2 BFloat16 sample_transfer sample_transfer_config = Inr p \<and>
    rbind (deserialize Inr (serialize id p)) restore_payload = Inr out \<and>
    masked_attention 2 (map (\<lambda>j. int j \<in> set (sent_positions 4 (sample_strategy (0, 0)))) [0..<4]) [[1, 1]]
      (fst (out ! 0) ! 0) (snd (out ! 0) ! 0) 1 =
    masked_attention 2 (map (\<lambda>j. int j \<in> set (sent_positions 4 (sample_strategy (0, 0)))) [0..<4]) [[1, 1]]
      (fst (sample_transfer ! 0) ! 0) (snd (sample_transfer ! 0) ! 0) 1"
  by (rule transfer_preserves_attention [OF sample_transfer_shape(1) sample_strategies])
     (simp_all add: sample_transfer_shape sample_positions)

theorem transferred_bytes_formula_witness:
  "\<exists>p. build_transfer_payload 2 BFloat16 sample_transfer sample_transfer_config = Inr p \<and>
    transferred_bytes p = 96 \<and> dense_bytes p = 64"
  using transferred_bytes_formula [OF sample_transfer_shape(1) sample_strategies, of BFloat16]
  by (simp add: sample_transfer_shape numeral_2_eq_2 sample_positions)

end
