(* ===== verification/Radix_Key.thy ===== *)
theory Radix_Key
  imports RK_Prelude
begin

text \<open>
  Keys of the prefix cache, class \<^verbatim>\<open>RadixKey\<close> of \<^verbatim>\<open>mem_cache/radix_cache.py\<close>: a token sequence seen
  as single tokens or as overlapping pairs (\<^verbatim>\<open>is_bigram\<close>), in a namespace \<^verbatim>\<open>extra_key\<close>.

  \<open>units\<close> lists the logical units of a key and \<open>path\<close> tags them with the namespace; the lemmas reduce
  slicing, matching and child keys to operations on these lists. \<^verbatim>\<open>hash_page\<close> (SHA-256, used for cache
  events) is not modelled.
\<close>

section \<open>Definitions\<close>

record radix_key =
  token_ids :: "int list"
  extra_key :: "string option"
  is_bigram :: bool

datatype key_unit = Token int | Bigram int int

definition key_len :: "radix_key \<Rightarrow> nat" where
  "key_len k =
     (if is_bigram k
      then let n = length (token_ids k) in if n > 0 then n - 1 else 0
      else length (token_ids k))"

definition key_units :: "radix_key \<Rightarrow> key_unit list" where
  "key_units k =
     (if is_bigram k
      then map (\<lambda>i. Bigram (token_ids k ! i) (token_ids k ! Suc i)) [0..<length (token_ids k) - 1]
      else map Token (token_ids k))"

text \<open>
  \<^verbatim>\<open>__getitem__\<close> for a slice with bounds \<open>start\<close> and \<open>stop\<close> (already clipped as \<^verbatim>\<open>slice.indices\<close> does).
\<close>

definition key_slice :: "radix_key \<Rightarrow> nat \<Rightarrow> nat \<Rightarrow> radix_key" where
  "key_slice k start stop =
     (let start = min start (key_len k); stop = min stop (key_len k)
      in if is_bigram k
         then k\<lparr>token_ids := (if stop > start then slice start (stop + 1) (token_ids k) else [])\<rparr>
         else k\<lparr>token_ids := slice start stop (token_ids k)\<rparr>)"

definition key_from :: "radix_key \<Rightarrow> nat \<Rightarrow> radix_key" where
  "key_from k n = key_slice k n (key_len k)"

definition key_upto :: "radix_key \<Rightarrow> nat \<Rightarrow> radix_key" where
  "key_upto k n = key_slice k 0 n"

definition key_item :: "radix_key \<Rightarrow> int \<Rightarrow> radix_key result" where
  "key_item k idx =
     (let idx = (if idx < 0 then idx + int (key_len k) else idx)
      in if idx < 0 \<or> int (key_len k) \<le> idx then Inl IndexError
         else Inr (key_slice k (nat idx) (nat idx + 1)))"

definition page_aligned :: "nat \<Rightarrow> radix_key \<Rightarrow> radix_key" where
  "page_aligned page_size k =
     (if page_size = 1 then k else key_upto k (key_len k div page_size * page_size))"

definition maybe_to_bigram_view :: "bool \<Rightarrow> radix_key \<Rightarrow> int list option \<Rightarrow> radix_key \<times> int list option" where
  "maybe_to_bigram_view is_eagle k val =
     (if is_eagle \<and> \<not> is_bigram k
      then let k' = k\<lparr>is_bigram := True\<rparr> in (k', map_option (take (key_len k')) val)
      else (k, val))"

definition check_compatible :: "radix_key \<Rightarrow> radix_key \<Rightarrow> unit result" where
  "check_compatible k k' = rassert (extra_key k = extra_key k') ValueError"

text \<open>The token-by-token loop, and the page-by-page loop of \<^verbatim>\<open>match\<close>.\<close>

fun common_len :: "'a list \<Rightarrow> 'a list \<Rightarrow> nat" where
  "common_len (a # as) (b # bs) = (if a \<noteq> b then 0 else Suc (common_len as bs))"
| "common_len _ _ = 0"

function page_loop :: "nat \<Rightarrow> nat \<Rightarrow> int list \<Rightarrow> int list \<Rightarrow> nat \<Rightarrow> nat" where
  "page_loop page_size min_len t0 t1 i =
     (if 0 < page_size \<and> i < min_len
      then if slice i (i + page_size) t0 \<noteq> slice i (i + page_size) t1 then i
           else page_loop page_size min_len t0 t1 (i + page_size)
      else i)"
  by pat_completeness auto

termination page_loop
  by (relation "measure (\<lambda>(page_size, min_len, t0, t1, i). min_len - i)") auto

declare page_loop.simps [simp del]

definition key_match :: "radix_key \<Rightarrow> radix_key \<Rightarrow> nat \<Rightarrow> nat result" where
  "key_match k other page_size =
     rbind (check_compatible k other) (\<lambda>_.
     if is_bigram k
     then let i = common_len (token_ids k) (token_ids other);
              matched = min (i - 1) (min (key_len k) (key_len other))
          in Inr (if page_size > 1 then matched div page_size * page_size else matched)
     else if page_size = 1 then Inr (common_len (token_ids k) (token_ids other))
     else Inr (page_loop page_size (min (key_len k) (key_len other)) (token_ids k) (token_ids other) 0))"

type_synonym child_key = "string option \<times> key_unit list"

definition get_child_key :: "radix_key \<Rightarrow> nat \<Rightarrow> child_key result" where
  "get_child_key k page_size =
     (let t = token_ids k
      in if is_bigram k
         then if length t \<le> page_size \<and> 0 < page_size then Inl IndexError
              else Inr (extra_key k, map (\<lambda>j. Bigram (t ! j) (t ! Suc j)) [0..<page_size])
         else if page_size = 1 \<and> t = [] then Inl IndexError
         else Inr (extra_key k, map Token (take page_size t)))"

section \<open>Keys as lists of units\<close>

definition path :: "radix_key \<Rightarrow> (string option \<times> key_unit) list" where
  "path k = map (Pair (extra_key k)) (key_units k)"

definition aligned :: "nat \<Rightarrow> radix_key \<Rightarrow> bool" where
  "aligned ps k \<longleftrightarrow> ps dvd key_len k"

lemma length_key_units [simp]: "length (key_units k) = key_len k"
  by (simp add: key_units_def key_len_def Let_def)

lemma length_path [simp]: "length (path k) = key_len k"
  by (simp add: path_def)

lemma key_units_slice: "key_units (key_slice k a b) = slice a (min b (key_len k)) (key_units k)"
proof (cases "is_bigram k")
  case False
  then show ?thesis
    by (auto simp: key_slice_def key_units_def key_len_def Let_def slice_def take_map drop_map min_def)
next
  case True
  then have n: "key_len k = length (token_ids k) - 1" by (auto simp: key_len_def Let_def)
  show ?thesis
  proof (cases "a < min b (key_len k)")
    case False
    with True n show ?thesis by (auto simp: key_slice_def key_units_def Let_def slice_def min_def)
  next
    case lt: True
    define c where "c = min b (key_len k)"
    have c: "a < c" "c < length (token_ids k)" using lt n by (auto simp: c_def)
    have "token_ids (key_slice k a b) = slice a (c + 1) (token_ids k)" "is_bigram (key_slice k a b)"
      using True lt by (auto simp: key_slice_def Let_def c_def min_def)
    with True n c show ?thesis
      unfolding c_def [symmetric] by (auto simp: key_units_def nth_slice intro!: nth_equalityI)
  qed
qed

lemma slice_keeps [simp]:
  "extra_key (key_slice k a b) = extra_key k" "is_bigram (key_slice k a b) = is_bigram k"
  by (simp_all add: key_slice_def Let_def)

lemma path_from [simp]: "path (key_from k n) = drop n (path k)"
  by (simp add: path_def key_from_def key_units_slice slice_def drop_map)

lemma path_upto [simp]: "path (key_upto k n) = take n (path k)"
  by (simp add: path_def key_upto_def key_units_slice slice_def take_map min_def)

lemma from_upto_keeps [simp]:
  "extra_key (key_from k n) = extra_key k" "is_bigram (key_from k n) = is_bigram k"
  "extra_key (key_upto k n) = extra_key k" "is_bigram (key_upto k n) = is_bigram k"
  by (simp_all add: key_from_def key_upto_def)

lemma key_len_from [simp]: "key_len (key_from k n) = key_len k - n"
  by (metis length_drop length_path path_from)

lemma key_len_upto [simp]: "key_len (key_upto k n) = min n (key_len k)"
  by (metis length_path length_take min.commute path_upto)

lemma page_aligned_len: "0 < ps \<Longrightarrow> key_len (page_aligned ps k) = key_len k div ps * ps"
  by (simp add: page_aligned_def)

lemma page_aligned_path: "0 < ps \<Longrightarrow> path (page_aligned ps k) = take (key_len k div ps * ps) (path k)"
  by (simp add: page_aligned_def)

lemma page_aligned_keeps [simp]:
  "extra_key (page_aligned ps k) = extra_key k" "is_bigram (page_aligned ps k) = is_bigram k"
  by (simp_all add: page_aligned_def)

subsection \<open>Matching\<close>

lemma common_len_le: "common_len xs ys \<le> length xs" "common_len xs ys \<le> length ys"
  by (induction xs ys rule: common_len.induct) auto

lemma common_len_take: "take (common_len xs ys) xs = take (common_len xs ys) ys"
  by (induction xs ys rule: common_len.induct) auto

lemma common_len_greatest: "n \<le> length xs \<Longrightarrow> n \<le> length ys \<Longrightarrow> take n xs = take n ys \<Longrightarrow> n \<le> common_len xs ys"
proof (induction xs ys arbitrary: n rule: common_len.induct)
  case (1 a as b bs)
  then show ?case by (cases n) auto
qed auto

lemma common_len_iff:
  "n \<le> common_len xs ys \<longleftrightarrow> n \<le> length xs \<and> n \<le> length ys \<and> take n xs = take n ys"
proof
  assume n: "n \<le> common_len xs ys"
  have "take n (take (common_len xs ys) xs) = take n (take (common_len xs ys) ys)" by (subst common_len_take) simp
  with n show "n \<le> length xs \<and> n \<le> length ys \<and> take n xs = take n ys"
    using common_len_le [of xs ys] by (auto simp: min_def)
qed (auto intro: common_len_greatest)

lemma common_len_eqI: "(\<And>n. n \<le> common_len xs ys \<longleftrightarrow> n \<le> m) \<Longrightarrow> common_len xs ys = m"
  by (meson le_antisym order_refl)

lemma common_len_map: "inj f \<Longrightarrow> common_len (map f xs) (map f ys) = common_len xs ys"
  by (induction xs ys rule: common_len.induct) (auto simp: inj_eq)

lemma common_len_path: "extra_key k = extra_key k' \<Longrightarrow> common_len (path k) (path k') = common_len (key_units k) (key_units k')"
  by (simp add: path_def common_len_map inj_def)

lemma take_bigrams:
  assumes "n < length s" "n < length t"
  shows "take n (map (\<lambda>i. Bigram (s ! i) (s ! Suc i)) [0..<length s - 1]) =
      take n (map (\<lambda>i. Bigram (t ! i) (t ! Suc i)) [0..<length t - 1]) \<longleftrightarrow>
    n = 0 \<or> take (Suc n) s = take (Suc n) t" (is "?L \<longleftrightarrow> ?R")
proof -
  have "?L \<longleftrightarrow> (\<forall>i < n. s ! i = t ! i \<and> s ! Suc i = t ! Suc i)"
    using assms by (auto simp: list_eq_iff_nth_eq)
  also have "\<dots> \<longleftrightarrow> n = 0 \<or> (\<forall>i < Suc n. s ! i = t ! i)"
    by (auto simp: less_Suc_eq_0_disj) (metis Suc_lessE less_Suc_eq old.nat.exhaust)+
  also have "\<dots> \<longleftrightarrow> ?R" using assms by (auto simp: list_eq_iff_nth_eq)
  finally show ?thesis .
qed

lemma common_len_bigrams:
  assumes "is_bigram k" "is_bigram k'"
  shows "common_len (key_units k) (key_units k') =
    min (common_len (token_ids k) (token_ids k') - 1) (min (key_len k) (key_len k'))"
proof (rule common_len_eqI)
  fix n
  let ?s = "token_ids k" and ?t = "token_ids k'"
  show "n \<le> common_len (key_units k) (key_units k') \<longleftrightarrow>
      n \<le> min (common_len ?s ?t - 1) (min (key_len k) (key_len k'))"
  proof (cases "0 < n \<and> n < length ?s \<and> n < length ?t")
    case True
    then have len: "n < length ?s" "n < length ?t" "0 < n" by auto
    then have "n \<le> common_len (key_units k) (key_units k') \<longleftrightarrow> take (Suc n) ?s = take (Suc n) ?t"
      using take_bigrams [OF len(1,2)] assms by (auto simp: common_len_iff key_units_def key_len_def Let_def)
    moreover have "n \<le> common_len ?s ?t - 1 \<longleftrightarrow> Suc n \<le> common_len ?s ?t" using len(3) by auto
    ultimately show ?thesis using len assms by (auto simp: common_len_iff [of "Suc n"] key_len_def Let_def)
  next
    case False
    then have "n = 0 \<or> \<not> n \<le> key_len k \<or> \<not> n \<le> key_len k'"
      using assms by (auto simp: key_len_def Let_def)
    then show ?thesis by (auto simp: common_len_iff)
  qed
qed

lemma take_page_iff:
  assumes "take i s = take i t" "i + n \<le> length s" "i + n \<le> length t"
  shows "slice i (i + n) s = slice i (i + n) t \<longleftrightarrow> take (i + n) s = take (i + n) t"
  using assms by (auto simp: slice_def take_add)

lemma page_loop_eq:
  assumes "0 < ps" "ps dvd length t0" "ps dvd length t1" "ps dvd i" "i \<le> common_len t0 t1"
  shows "page_loop ps (min (length t0) (length t1)) t0 t1 i = common_len t0 t1 div ps * ps"
  using assms(4,5)
proof (induction "common_len t0 t1 - i" arbitrary: i rule: less_induct)
  case less
  let ?m = "min (length t0) (length t1)" and ?c = "common_len t0 t1"
  have c: "?c \<le> ?m" using common_len_le [of t0 t1] by simp
  show ?case
  proof (cases "i < ?m")
    case False
    with c less.prems have "?c = i" by linarith
    with False less.prems show ?thesis by (subst page_loop.simps) auto
  next
    case True
    have "ps dvd ?m - i" using assms(2,3) less.prems(1) by (auto simp: min_def dvd_diff_nat)
    then have room: "i + ps \<le> length t0" "i + ps \<le> length t1"
      using True dvd_imp_le [of ps "?m - i"] by auto
    have "take i t0 = take i t1" using less.prems(2) common_len_iff [of i t0 t1] by simp
    note page = take_page_iff [OF this room]
    show ?thesis
    proof (cases "i + ps \<le> ?c")
      case ext: True
      then have "slice i (i + ps) t0 = slice i (i + ps) t1" using page common_len_iff [of "i + ps" t0 t1] by simp
      then have "page_loop ps ?m t0 t1 i = page_loop ps ?m t0 t1 (i + ps)"
        using True assms(1) by (subst page_loop.simps) simp
      moreover have "ps dvd i + ps" using less.prems(1) by simp
      ultimately show ?thesis using less.hyps [of "i + ps"] ext assms(1) True c by simp
    next
      case stop: False
      then have "slice i (i + ps) t0 \<noteq> slice i (i + ps) t1" using page common_len_iff [of "i + ps" t0 t1] room by simp
      then have "page_loop ps ?m t0 t1 i = i" using True assms(1) by (subst page_loop.simps) simp
      moreover obtain j where j: "i = ps * j" using less.prems(1) by (rule dvdE)
      moreover have "?c div ps = j" using stop less.prems(2) j assms(1)
        by (intro div_nat_eqI) (simp_all add: algebra_simps)
      ultimately show ?thesis by simp
    qed
  qed
qed

lemma key_match_eq:
  assumes "extra_key k = extra_key k'" "is_bigram k = is_bigram k'" "0 < ps" "ps dvd key_len k" "ps dvd key_len k'"
  shows "key_match k k' ps = Inr (common_len (path k) (path k') div ps * ps)"
proof (cases "is_bigram k")
  case True
  with assms show ?thesis
    by (simp add: key_match_def check_compatible_def common_len_path common_len_bigrams Let_def)
next
  case False
  then have tok: "key_units k = map Token (token_ids k)" "key_units k' = map Token (token_ids k')"
    "key_len k = length (token_ids k)" "key_len k' = length (token_ids k')"
    using assms(2) by (simp_all add: key_units_def key_len_def)
  have "inj Token" by (simp add: inj_def)
  with tok have "common_len (path k) (path k') = common_len (token_ids k) (token_ids k')"
    by (simp add: common_len_path [OF assms(1)] common_len_map)
  with False assms tok page_loop_eq [OF assms(3), of "token_ids k" "token_ids k'" 0] show ?thesis
    by (simp add: key_match_def check_compatible_def)
qed

lemma get_child_key_eq:
  assumes "0 < ps" "ps \<le> key_len k"
  shows "get_child_key k ps = Inr (extra_key k, take ps (key_units k))"
proof (cases "is_bigram k")
  case True
  with assms show ?thesis
    by (auto simp: get_child_key_def key_len_def key_units_def Let_def take_map split: if_splits)
next
  case False
  with assms show ?thesis
    by (auto simp: get_child_key_def key_len_def key_units_def Let_def take_map)
qed

lemma child_key_iff:
  assumes "0 < ps" "ps \<le> key_len k" "ps \<le> key_len k'"
  shows "(extra_key k, take ps (key_units k)) = (extra_key k', take ps (key_units k')) \<longleftrightarrow>
    take ps (path k) = take ps (path k')"
proof -
  have pair: "map (Pair e) xs = map (Pair e') ys \<longleftrightarrow> (e, xs) = (e', ys)" if "xs \<noteq> []" for e e' :: "string option" and xs ys :: "key_unit list"
    using that by (cases xs; cases ys) (auto simp: inj_map_eq_map inj_def)
  have "take ps (key_units k) \<noteq> []" using assms by (metis length_key_units length_take list.size(3) min.absorb2 not_gr_zero)
  from pair [OF this] show ?thesis by (simp add: path_def take_map)
qed

end
