(* ===== verification/Radix_Tree.thy ===== *)
theory Radix_Tree
  imports Radix_Key "HOL-Library.AList"
begin

text \<open>
  The tree of the prefix cache: class \<^verbatim>\<open>TreeNode\<close> of \<^verbatim>\<open>mem_cache/radix_cache.py\<close> and the helpers of
  \<^verbatim>\<open>RadixCache\<close> that walk it for matching and insertion.

  A node carries its data and its children, a dictionary in insertion order; \<^verbatim>\<open>parent\<close> is the position in
  the tree, and a reference to a node (\<^verbatim>\<open>last_node\<close>) is its \<^verbatim>\<open>id\<close>. Every value of \<^verbatim>\<open>time.monotonic()\<close> is
  an argument: \<open>access\<close> is the access time of an operation and \<open>created\<close> the time stamp of the nodes it
  makes. The host-side fields of a node (\<^verbatim>\<open>host_value\<close>, \<^verbatim>\<open>host_ref_counter\<close>, \<^verbatim>\<open>hash_value\<close>) belong to the
  hierarchical cache and to cache events and are left out; without them a node of the tree is never
  \<^verbatim>\<open>evicted\<close>. The loop of \<^verbatim>\<open>_insert_helper\<close> has fuel, one more than the length of the key, which the lemmas
  show to be enough for well-formed trees.
\<close>

section \<open>Definitions\<close>

subsection \<open>Nodes\<close>

record node_data =
  nid :: nat
  nkey :: radix_key
  nvalue :: "int list"
  lock_ref :: int
  last_access_time :: int
  creation_time :: int
  hit_count :: int
  priority :: int

datatype tree_node = TreeNode (ndata: node_data) (children: "(child_key \<times> tree_node) list")

definition new_data :: "nat \<Rightarrow> int \<Rightarrow> int \<Rightarrow> radix_key \<Rightarrow> int list \<Rightarrow> node_data" where
  "new_data i prio created key val =
     \<lparr>nid = i, nkey = key, nvalue = val, lock_ref = 0, last_access_time = created,
      creation_time = created, hit_count = 0, priority = prio\<rparr>"

fun node_count :: "tree_node \<Rightarrow> nat" where
  "node_count (TreeNode d cs) = Suc (sum_list (map (\<lambda>(ck, c). node_count c) cs))"

lemma node_count_child [termination_simp]: "(ck, c) \<in> set cs \<Longrightarrow> node_count c < node_count (TreeNode d cs)"
  using member_le_sum_list [of "node_count c" "map (\<lambda>(ck, c). node_count c) cs"] by force

lemma node_count_map_of: "map_of cs ck = Some c \<Longrightarrow> node_count c < node_count (TreeNode d cs)"
  by (drule map_of_SomeD) (rule node_count_child)

text \<open>\<^verbatim>\<open>_split_node\<close>: the new node with the first part of the key above the old node.\<close>

definition split_node :: "nat \<Rightarrow> int \<Rightarrow> nat \<Rightarrow> tree_node \<Rightarrow> nat \<Rightarrow> tree_node result" where
  "split_node page_size created nxt child split_len =
     (let d = ndata child
      in rbind (get_child_key (key_from (nkey d) split_len) page_size) (\<lambda>ck.
         Inr (TreeNode
           ((new_data nxt (priority d) created (key_upto (nkey d) split_len) (take split_len (nvalue d)))
              \<lparr>hit_count := hit_count d, lock_ref := lock_ref d\<rparr>)
           [(ck, TreeNode (d\<lparr>nkey := key_from (nkey d) split_len, nvalue := drop split_len (nvalue d)\<rparr>) (children child))])))"

text \<open>\<^verbatim>\<open>_match_prefix_helper\<close>: the values found, the last node, the tree and the next free node id.\<close>

function match_prefix_helper ::
  "nat \<Rightarrow> int \<Rightarrow> int \<Rightarrow> nat \<Rightarrow> tree_node \<Rightarrow> radix_key \<Rightarrow> (int list list \<times> nat \<times> tree_node \<times> nat) result" where
  "match_prefix_helper page_size access created nxt (TreeNode d0 cs) key =
     (let d = d0\<lparr>last_access_time := access\<rparr>
      in if key_len key > 0
         then rbind (get_child_key key page_size) (\<lambda>ck.
              case map_of cs ck of
                None \<Rightarrow> Inr ([], nid d, TreeNode d cs, nxt)
              | Some child \<Rightarrow>
                  let dc = (ndata child)\<lparr>last_access_time := access\<rparr>
                  in rbind (key_match (nkey dc) key page_size) (\<lambda>prefix_len.
                     if prefix_len < key_len (nkey dc)
                     then rbind (split_node page_size created nxt (TreeNode dc (children child)) prefix_len) (\<lambda>new_node.
                          rbind (get_child_key (nkey dc) page_size) (\<lambda>ck'.
                          Inr ([nvalue (ndata new_node)], nid (ndata new_node), TreeNode d (AList.update ck' new_node cs), Suc nxt)))
                     else rbind (match_prefix_helper page_size access created nxt child (key_from key prefix_len))
                            (\<lambda>(values, last, child', nxt').
                          Inr (nvalue dc # values, last, TreeNode d (AList.update ck child' cs), nxt'))))
         else Inr ([], nid d, TreeNode d cs, nxt))"
  by pat_completeness auto

termination match_prefix_helper
  by (relation "measure (\<lambda>(page_size, access, created, nxt, t, key). node_count t)") (simp_all add: node_count_map_of del: node_count.simps)

declare match_prefix_helper.simps [simp del]

text \<open>The priority and hit count of a node on the insertion path.\<close>

definition touch :: "int \<Rightarrow> bool \<Rightarrow> tree_node \<Rightarrow> tree_node" where
  "touch prio chunked t =
     (let d = ndata t
      in TreeNode (d\<lparr>priority := max (priority d) prio, hit_count := (if chunked then hit_count d else hit_count d + 1)\<rparr>)
           (children t))"

text \<open>
  The loop of \<^verbatim>\<open>_insert_helper\<close>: the matched length, the tree, the next id, and the parent's id with the new
  leaf, if one was made.
\<close>

fun insert_loop ::
  "nat \<Rightarrow> nat \<Rightarrow> int \<Rightarrow> int \<Rightarrow> int \<Rightarrow> bool \<Rightarrow> nat \<Rightarrow> radix_key \<Rightarrow> int list \<Rightarrow> tree_node
     \<Rightarrow> (nat \<times> tree_node \<times> nat \<times> (nat \<times> node_data) option) result" where
  "insert_loop 0 page_size access created prio chunked nxt key val t = Inl Nontermination"
| "insert_loop (Suc fuel) page_size access created prio chunked nxt key val (TreeNode d cs) =
     (if key_len key > 0
      then rbind (get_child_key key page_size) (\<lambda>ck.
           case map_of cs ck of
             None \<Rightarrow>
               let leaf = (new_data nxt prio created key val)\<lparr>hit_count := (if chunked then 0 else 1)\<rparr>
               in Inr (0, TreeNode d (AList.update ck (TreeNode leaf []) cs), Suc nxt, Some (nid d, leaf))
           | Some child \<Rightarrow>
               let dc = (ndata child)\<lparr>last_access_time := access\<rparr>
               in rbind (key_match (nkey dc) key page_size) (\<lambda>prefix_len.
                  rbind (if prefix_len < key_len (nkey dc)
                         then rbind (split_node page_size created nxt (TreeNode dc (children child)) prefix_len) (\<lambda>new_node.
                              rbind (get_child_key (nkey dc) page_size) (\<lambda>ck'.
                              Inr (ck', touch prio chunked new_node, Suc nxt)))
                         else Inr (ck, touch prio chunked (TreeNode dc (children child)), nxt)) (\<lambda>(ck', node, nxt').
                  rbind (insert_loop fuel page_size access created prio chunked nxt' (key_from key prefix_len)
                           (drop prefix_len val) node) (\<lambda>(rest, node', nxt'', leaf).
                  Inr (prefix_len + rest, TreeNode d (AList.update ck' node' cs), nxt'', leaf)))))
      else Inr (0, TreeNode d cs, nxt, None))"

definition insert_helper ::
  "nat \<Rightarrow> int \<Rightarrow> int \<Rightarrow> nat \<Rightarrow> tree_node \<Rightarrow> radix_key \<Rightarrow> int list \<Rightarrow> int option \<Rightarrow> bool
     \<Rightarrow> (nat \<times> tree_node \<times> nat \<times> (nat \<times> node_data) option) result" where
  "insert_helper page_size access created nxt t key val prio_opt chunked =
     (let prio = (case prio_opt of None \<Rightarrow> 0 | Some p \<Rightarrow> p);
          d = (ndata t)\<lparr>last_access_time := access, priority := max (priority (ndata t)) prio\<rparr>
      in if key_len key = 0 then Inr (0, TreeNode d (children t), nxt, None)
         else insert_loop (Suc (key_len key)) page_size access created prio chunked nxt key val (TreeNode d (children t)))"

section \<open>What a tree stores\<close>

text \<open>
  A node stores its key page by page: each page-aligned prefix of the key with the slots of its last
  page. \<open>stored\<close> lists these for a node and everything below it, with paths from the node's parent;
  \<open>below\<close> leaves the node's own key out.
\<close>

type_synonym tpath = "(string option \<times> key_unit) list"

definition node_pages :: "nat \<Rightarrow> node_data \<Rightarrow> (tpath \<times> int list) list" where
  "node_pages ps d =
     map (\<lambda>j. (take (Suc j * ps) (path (nkey d)), slice (j * ps) (Suc j * ps) (nvalue d))) [0..<key_len (nkey d) div ps]"

fun stored :: "nat \<Rightarrow> tree_node \<Rightarrow> (tpath \<times> int list) list" where
  "stored ps (TreeNode d cs) =
     node_pages ps d @ map (\<lambda>(p, v). (path (nkey d) @ p, v)) (concat (map (\<lambda>(ck, c). stored ps c) cs))"

definition below :: "nat \<Rightarrow> tree_node \<Rightarrow> (tpath \<times> int list) list" where
  "below ps t = concat (map (\<lambda>(ck, c). stored ps c) (children t))"

lemma stored_eq: "stored ps t = node_pages ps (ndata t) @ map (\<lambda>(p, v). (path (nkey (ndata t)) @ p, v)) (below ps t)"
  by (cases t) (simp add: below_def)

text \<open>Well-formed trees: keys and values of whole pages, filed under the first page of the child's key.\<close>

definition child_key_of :: "nat \<Rightarrow> radix_key \<Rightarrow> child_key" where
  "child_key_of ps k = (extra_key k, take ps (key_units k))"

definition child_ok :: "nat \<Rightarrow> bool \<Rightarrow> child_key \<Rightarrow> node_data \<Rightarrow> bool" where
  "child_ok ps e ck d \<longleftrightarrow> 0 < key_len (nkey d) \<and> ps dvd key_len (nkey d) \<and> length (nvalue d) = key_len (nkey d) \<and>
     is_bigram (nkey d) = e \<and> ck = child_key_of ps (nkey d)"

fun wf_tree :: "nat \<Rightarrow> bool \<Rightarrow> tree_node \<Rightarrow> bool" where
  "wf_tree ps e (TreeNode d cs) \<longleftrightarrow>
     distinct (map fst cs) \<and> (\<forall>(ck, c) \<in> set cs. child_ok ps e ck (ndata c) \<and> wf_tree ps e c)"

text \<open>Sums over the nodes of a tree.\<close>

fun tsum :: "(node_data \<Rightarrow> bool \<Rightarrow> 'a :: comm_monoid_add) \<Rightarrow> tree_node \<Rightarrow> 'a" where
  "tsum f (TreeNode d cs) = f d (cs = []) + sum_list (map (\<lambda>(ck, c). tsum f c) cs)"

definition ids :: "tree_node \<Rightarrow> nat multiset" where
  "ids = tsum (\<lambda>d leaf. {#nid d#})"

definition unlocked_size :: "tree_node \<Rightarrow> int" where
  "unlocked_size = tsum (\<lambda>d leaf. if lock_ref d = 0 then int (key_len (nkey d)) else 0)"

definition locked_size :: "tree_node \<Rightarrow> int" where
  "locked_size = tsum (\<lambda>d leaf. if lock_ref d = 0 then 0 else int (key_len (nkey d)))"

definition free_leaves :: "tree_node \<Rightarrow> nat multiset" where
  "free_leaves = tsum (\<lambda>d leaf. if lock_ref d = 0 \<and> leaf then {#nid d#} else {#})"

text \<open>\<open>L\<close> are the nodes that are locked, once for each lock held: every node counts the locks at or below it.\<close>

fun locks_ok :: "nat multiset \<Rightarrow> tree_node \<Rightarrow> bool" where
  "locks_ok L (TreeNode d cs) \<longleftrightarrow>
     (\<forall>(ck, c) \<in> set cs. lock_ref (ndata c) = int (size (filter_mset (\<lambda>i. i \<in># ids c) L)) \<and> locks_ok L c)"

text \<open>The path at which each node ends.\<close>

fun node_paths :: "tree_node \<Rightarrow> (nat \<times> tpath) list" where
  "node_paths (TreeNode d cs) =
     (nid d, []) # concat (map (\<lambda>(ck, c). map (\<lambda>(i, p). (i, path (nkey (ndata c)) @ p)) (node_paths c)) cs)"

section \<open>Updating a child\<close>

lemma update_mem:
  assumes "distinct (map fst cs)"
  shows "(k, x) \<in> set (AList.update ck c cs) \<longleftrightarrow> (if k = ck then x = c else (k, x) \<in> set cs)"
proof -
  have "distinct (map fst (AList.update ck c cs))" using assms by (rule distinct_update)
  then have "(k, x) \<in> set (AList.update ck c cs) \<longleftrightarrow> map_of (AList.update ck c cs) k = Some x" by simp
  then show ?thesis using assms by (auto simp: update_conv')
qed

lemma sum_update:
  fixes g :: "'b \<Rightarrow> 'a :: comm_monoid_add"
  assumes "map_of cs ck = Some c"
  shows "sum_list (map (\<lambda>(k, x). g x) (AList.update ck c' cs)) + g c = sum_list (map (\<lambda>(k, x). g x) cs) + g c'"
  using assms by (induction cs) (auto simp: ac_simps)

lemma sum_update_new:
  fixes g :: "'b \<Rightarrow> 'a :: comm_monoid_add"
  assumes "map_of cs ck = None"
  shows "sum_list (map (\<lambda>(k, x). g x) (AList.update ck c' cs)) = sum_list (map (\<lambda>(k, x). g x) cs) + g c'"
  using assms by (induction cs) (auto simp: ac_simps)

lemma update_not_Nil [simp]: "AList.update k v xs \<noteq> []"
  by (cases xs) auto

lemma tsum_update:
  assumes "map_of cs ck = Some c"
  shows "tsum f (TreeNode d (AList.update ck c' cs)) + tsum f c = f d False + sum_list (map (\<lambda>(k, x). tsum f x) cs) + tsum f c'"
  using sum_update [OF assms, of "tsum f" c'] by (simp add: add.assoc)

lemma wf_child: "wf_tree ps e (TreeNode d cs) \<Longrightarrow> map_of cs ck = Some c \<Longrightarrow> child_ok ps e ck (ndata c) \<and> wf_tree ps e c"
  by (drule map_of_SomeD) auto

lemma wf_update:
  assumes "wf_tree ps e (TreeNode d cs)" "child_ok ps e ck (ndata c)" "wf_tree ps e c"
  shows "wf_tree ps e (TreeNode d' (AList.update ck c cs))"
  using assms by (auto simp: update_mem distinct_update split: if_splits)

lemma ids_simps: "ids (TreeNode d cs) = {#nid d#} + sum_list (map (\<lambda>(k, x). ids x) cs)"
  by (simp add: ids_def)

lemma ids_root [simp]: "nid (ndata t) \<in># ids t"
  by (cases t) (simp add: ids_simps)

lemma child_ids: "(ck, c) \<in> set cs \<Longrightarrow> i \<in># ids c \<Longrightarrow> i \<in># ids (TreeNode d cs)"
  by (induction cs) (auto simp: ids_simps)

lemma sum_down:
  fixes g :: "'b \<Rightarrow> 'a :: cancel_comm_monoid_add"
  assumes "map_of cs ck = Some c" "g c' = g c + D"
  shows "sum_list (map (\<lambda>(k, x). g x) (AList.update ck c' cs)) = sum_list (map (\<lambda>(k, x). g x) cs) + D"
proof -
  have "sum_list (map (\<lambda>(k, x). g x) (AList.update ck c' cs)) + g c = (sum_list (map (\<lambda>(k, x). g x) cs) + D) + g c"
    using sum_update [OF assms(1), of g c'] assms(2) by (simp add: ac_simps)
  then show ?thesis by (rule add_right_imp_eq)
qed

lemma tsum_down:
  fixes f :: "node_data \<Rightarrow> bool \<Rightarrow> 'a :: cancel_comm_monoid_add"
  assumes "map_of cs ck = Some c" "f d' False = f d False" "tsum f c' = tsum f c + D"
  shows "tsum f (TreeNode d' (AList.update ck c' cs)) = tsum f (TreeNode d cs) + D"
proof -
  have "cs \<noteq> []" using assms(1) by auto
  then show ?thesis using sum_down [OF assms(1), of "tsum f", OF assms(3)] assms(2) by (simp add: add.assoc)
qed

lemma mset_below: "mset (below ps (TreeNode d cs)) = sum_list (map (\<lambda>(k, x). mset (stored ps x)) cs)"
  by (induction cs) (auto simp: below_def)

lemma below_Nil [simp]: "below ps (TreeNode d []) = []"
  by (simp add: below_def)

lemma stored_cons [simp]: "below ps (TreeNode d [(ck, c)]) = stored ps c"
  by (simp add: below_def)

lemma below_data: "below ps (TreeNode d cs) = below ps (TreeNode d' cs)"
  by (simp add: below_def)

lemma mset_stored:
  "mset (stored ps t) = mset (node_pages ps (ndata t)) + {#(path (nkey (ndata t)) @ p, v). (p, v) \<in># mset (below ps t)#}"
  by (simp add: stored_eq)

section \<open>How the operations change a tree\<close>

text \<open>
  \<open>evolves ps e n t n' t' A new\<close>: \<open>t'\<close> comes from \<open>t\<close> by updating bookkeeping, by cutting nodes at page
  boundaries and by adding at most one leaf. The ids from \<open>n\<close> up to \<open>n'\<close> are used, the pages \<open>A\<close> are added,
  and \<open>new\<close> is the leaf with the id of its parent.
\<close>

definition same_node :: "node_data \<Rightarrow> node_data \<Rightarrow> bool" where
  "same_node d d' \<longleftrightarrow> nid d' = nid d \<and> nkey d' = nkey d \<and> nvalue d' = nvalue d \<and> lock_ref d' = lock_ref d"

inductive evolves ::
  "nat \<Rightarrow> bool \<Rightarrow> nat \<Rightarrow> tree_node \<Rightarrow> nat \<Rightarrow> tree_node \<Rightarrow> (tpath \<times> int list) multiset \<Rightarrow> (nat \<times> node_data) option \<Rightarrow> bool"
  for ps e where
  same: "same_node d d' \<Longrightarrow> evolves ps e n (TreeNode d cs) n (TreeNode d' cs) {#} None"
| leaf: "same_node d d' \<Longrightarrow> map_of cs ck = None \<Longrightarrow> child_ok ps e ck l \<Longrightarrow> nid l = n \<Longrightarrow> lock_ref l = 0 \<Longrightarrow>
    evolves ps e n (TreeNode d cs) (Suc n) (TreeNode d' (AList.update ck (TreeNode l []) cs)) (mset (node_pages ps l)) (Some (nid d, l))"
| down: "same_node d d' \<Longrightarrow> map_of cs ck = Some c \<Longrightarrow> evolves ps e n c n' c' A new \<Longrightarrow>
    evolves ps e n (TreeNode d cs) n' (TreeNode d' (AList.update ck c' cs))
      {#(path (nkey (ndata c)) @ p, v). (p, v) \<in># A#} new"
| cut: "same_node d d' \<Longrightarrow> map_of cs ck = Some c \<Longrightarrow> 0 < m \<Longrightarrow> m < key_len (nkey (ndata c)) \<Longrightarrow> ps dvd m \<Longrightarrow>
    nid sd = n \<Longrightarrow> lock_ref sd = lock_ref (ndata c) \<Longrightarrow> nkey sd = key_upto (nkey (ndata c)) m \<Longrightarrow> nvalue sd = take m (nvalue (ndata c)) \<Longrightarrow>
    nid cd = nid (ndata c) \<Longrightarrow> lock_ref cd = lock_ref (ndata c) \<Longrightarrow> nkey cd = key_from (nkey (ndata c)) m \<Longrightarrow> nvalue cd = drop m (nvalue (ndata c)) \<Longrightarrow>
    evolves ps e (Suc n) (TreeNode sd [(child_key_of ps (nkey cd), TreeNode cd (children c))]) n' s' A new \<Longrightarrow>
    evolves ps e n (TreeNode d cs) n' (TreeNode d' (AList.update ck s' cs))
      {#(take m (path (nkey (ndata c))) @ p, v). (p, v) \<in># A#} new"

lemma evolves_root: "evolves ps e n t n' t' A new \<Longrightarrow> same_node (ndata t) (ndata t')"
  by (erule evolves.cases) auto

lemma child_ok_same: "same_node d d' \<Longrightarrow> child_ok ps e ck d' = child_ok ps e ck d"
  by (simp add: same_node_def child_ok_def)

lemma key_units_upto: "key_units (key_upto k m) = take m (key_units k)"
  by (simp add: key_upto_def key_units_slice slice_def min_def)

lemma page_le: "0 < (m::nat) \<Longrightarrow> ps dvd m \<Longrightarrow> ps \<le> m"
  by (rule dvd_imp_le)

lemma cut_wf:
  assumes "child_ok ps e ck (ndata c)" "wf_tree ps e c" "0 < m" "m < key_len (nkey (ndata c))" "ps dvd m"
    and "nkey sd = key_upto (nkey (ndata c)) m" "nvalue sd = take m (nvalue (ndata c))"
    and "nkey cd = key_from (nkey (ndata c)) m" "nvalue cd = drop m (nvalue (ndata c))"
  shows "child_ok ps e ck sd" "wf_tree ps e (TreeNode sd [(child_key_of ps (nkey cd), TreeNode cd (children c))])"
proof -
  have "ps \<le> m" using assms by (simp add: page_le)
  then show "child_ok ps e ck sd"
    using assms by (auto simp: child_ok_def child_key_of_def key_units_upto)
  have "child_ok ps e (child_key_of ps (nkey cd)) cd" using assms by (auto simp: child_ok_def intro: dvd_diff_nat)
  then show "wf_tree ps e (TreeNode sd [(child_key_of ps (nkey cd), TreeNode cd (children c))])"
    using assms(2) by (cases c) auto
qed

lemma evolves_wf: "evolves ps e n t n' t' A new \<Longrightarrow> wf_tree ps e t \<Longrightarrow> wf_tree ps e t'"
proof (induction rule: evolves.induct)
  case (leaf d d' cs ck l n)
  then show ?case by (intro wf_update [of _ _ d]) auto
next
  case (down d d' cs ck c n n' c' A new)
  have "child_ok ps e ck (ndata c)" "wf_tree ps e c" using wf_child [OF down.prems down.hyps(2)] by auto
  then show ?case
    using down.prems down.IH child_ok_same [OF evolves_root [OF down.hyps(3)]] by (intro wf_update [of _ _ d]) auto
next
  case (cut d d' cs ck c m sd n cd n' s' A new)
  have c: "child_ok ps e ck (ndata c)" "wf_tree ps e c" using wf_child [OF cut.prems cut.hyps(2)] by auto
  note s = cut_wf [OF c cut.hyps(3-5) cut.hyps(8,9,12,13)]
  show ?case
    using cut.prems s(1) cut.IH [OF s(2)] child_ok_same [OF evolves_root [OF cut.hyps(14)]] by (intro wf_update [of _ _ d]) auto
qed auto

lemma node_pages_same: "same_node d d' \<Longrightarrow> node_pages ps d' = node_pages ps d"
  by (simp add: same_node_def node_pages_def)

lemma mset_stored_add:
  assumes "same_node (ndata c) (ndata c')" "mset (below ps c') = mset (below ps c) + A"
  shows "mset (stored ps c') = mset (stored ps c) + {#(path (nkey (ndata c)) @ p, v). (p, v) \<in># A#}"
  using assms by (simp add: mset_stored node_pages_same) (simp add: same_node_def)

lemma node_pages_cut:
  assumes "0 < ps" "ps dvd m" "m \<le> key_len (nkey d)" "ps dvd key_len (nkey d)"
    and s: "nkey sd = key_upto (nkey d) m" "nvalue sd = take m (nvalue d)"
    and c: "nkey cd = key_from (nkey d) m" "nvalue cd = drop m (nvalue d)"
  shows "node_pages ps d = node_pages ps sd @ map (\<lambda>(p, v). (take m (path (nkey d)) @ p, v)) (node_pages ps cd)"
proof -
  obtain a where a: "m = ps * a" using assms(2) by (rule dvdE)
  obtain b where b: "key_len (nkey d) = ps * b" using assms(4) by (rule dvdE)
  have ab: "a \<le> b" using assms(1,3) a b by simp
  have div: "key_len (nkey sd) div ps = a" "key_len (nkey cd) div ps = b - a" "key_len (nkey d) div ps = b"
    using assms(1) a b ab s c by (simp_all add: min_def flip: diff_mult_distrib2)
  show ?thesis
  proof (rule nth_equalityI)
    show "length (node_pages ps d) = length (node_pages ps sd @ map (\<lambda>(p, v). (take m (path (nkey d)) @ p, v)) (node_pages ps cd))"
      using ab div by (simp add: node_pages_def)
  next
    fix j
    assume "j < length (node_pages ps d)"
    then have j: "j < b" using div by (simp add: node_pages_def)
    show "node_pages ps d ! j = (node_pages ps sd @ map (\<lambda>(p, v). (take m (path (nkey d)) @ p, v)) (node_pages ps cd)) ! j"
    proof (cases "j < a")
      case True
      then have "Suc j * ps \<le> m" using a by (metis Suc_leI mult.commute mult_le_mono2)
      with True j s div show ?thesis by (auto simp: node_pages_def nth_append slice_def drop_take min_def)
    next
      case False
      then obtain i where i: "j = a + i" by (metis le_iff_add not_less)
      with j have "i < b - a" by simp
      moreover have "Suc j * ps = m + Suc i * ps" "j * ps = m + i * ps" using a i by (simp_all add: algebra_simps)
      ultimately show ?thesis using False j c div i
        by (simp add: node_pages_def nth_append slice_def take_add del: mult_Suc) (simp add: add.commute)
    qed
  qed
qed

lemma cut_stored:
  assumes "0 < ps" "child_ok ps e ck (ndata c)" "m < key_len (nkey (ndata c))" "ps dvd m"
    and "nkey sd = key_upto (nkey (ndata c)) m" "nvalue sd = take m (nvalue (ndata c))"
    and "nkey cd = key_from (nkey (ndata c)) m" "nvalue cd = drop m (nvalue (ndata c))"
  shows "stored ps (TreeNode sd [(ck', TreeNode cd (children c))]) = stored ps c"
proof -
  have "node_pages ps (ndata c) = node_pages ps sd @ map (\<lambda>(p, v). (take m (path (nkey (ndata c))) @ p, v)) (node_pages ps cd)"
    using assms by (intro node_pages_cut) (auto simp: child_ok_def)
  then show ?thesis
    using assms unfolding stored_eq [of ps c] by (cases c) (simp add: below_def comp_def case_prod_beta flip: append_assoc)
qed

lemma evolves_below:
  "evolves ps e n t n' t' A new \<Longrightarrow> 0 < ps \<Longrightarrow> wf_tree ps e t \<Longrightarrow> mset (below ps t') = mset (below ps t) + A"
proof (induction rule: evolves.induct)
  case (same d d' n cs)
  then show ?case by (simp add: below_def)
next
  case (leaf d d' cs ck l n)
  then show ?case by (simp add: mset_below sum_update_new stored_eq)
next
  case (down d d' cs ck c n n' c' A new)
  have "wf_tree ps e c" using wf_child [OF down.prems(2) down.hyps(2)] by auto
  then have "mset (stored ps c') = mset (stored ps c) + {#(path (nkey (ndata c)) @ p, v). (p, v) \<in># A#}"
    using down by (intro mset_stored_add evolves_root [OF down.hyps(3)]) auto
  then show ?case unfolding mset_below using sum_down [OF down.hyps(2), of "\<lambda>x. mset (stored ps x)"] by simp
next
  case (cut d d' cs ck c m sd n cd n' s' A new)
  have c: "child_ok ps e ck (ndata c)" "wf_tree ps e c" using wf_child [OF cut.prems(2) cut.hyps(2)] by auto
  let ?s = "TreeNode sd [(child_key_of ps (nkey cd), TreeNode cd (children c))]"
  note s = cut_wf [OF c cut.hyps(3-5) cut.hyps(8,9,12,13)]
  have "mset (stored ps s') = mset (stored ps ?s) + {#(path (nkey (ndata ?s)) @ p, v). (p, v) \<in># A#}"
    using cut.IH [OF cut.prems(1) s(2)] by (intro mset_stored_add evolves_root [OF cut.hyps(14)])
  also have "stored ps ?s = stored ps c" using cut c by (intro cut_stored) auto
  finally have "mset (stored ps s') = mset (stored ps c) + {#(take m (path (nkey (ndata c))) @ p, v). (p, v) \<in># A#}"
    using cut.hyps(8) by simp
  then show ?case unfolding mset_below using sum_down [OF cut.hyps(2), of "\<lambda>x. mset (stored ps x)"] by simp
qed

subsection \<open>Ids, sizes and free leaves\<close>

definition new_size :: "(nat \<times> node_data) option \<Rightarrow> int" where
  "new_size new = (case new of None \<Rightarrow> 0 | Some (p, l) \<Rightarrow> int (key_len (nkey l)))"

definition new_ids :: "(nat \<times> node_data) option \<Rightarrow> nat multiset" where
  "new_ids new = (case new of None \<Rightarrow> {#} | Some (p, l) \<Rightarrow> {#nid l#})"

lemma evolves_counter: "evolves ps e n t n' t' A new \<Longrightarrow> n \<le> n'"
  by (induction rule: evolves.induct) auto

lemma evolves_ids: "evolves ps e n t n' t' A new \<Longrightarrow> ids t' = ids t + mset [n..<n']"
proof (induction rule: evolves.induct)
  case (leaf d d' cs ck l n)
  then show ?case by (simp add: ids_def sum_update_new same_node_def)
next
  case (down d d' cs ck c n n' c' A new)
  then show ?case unfolding ids_def by (intro tsum_down) (auto simp: same_node_def)
next
  case (cut d d' cs ck c m sd n cd n' s' A new)
  have "ids s' = ids c + mset [n..<n']"
    using cut.IH cut.hyps evolves_counter [OF cut.hyps(14)] by (cases c) (simp add: ids_def upt_conv_Cons)
  then show ?case using cut.hyps unfolding ids_def by (intro tsum_down) (auto simp: same_node_def)
qed (auto simp: ids_def same_node_def)

lemma evolves_unlocked: "evolves ps e n t n' t' A new \<Longrightarrow> unlocked_size t' = unlocked_size t + new_size new"
proof (induction rule: evolves.induct)
  case (leaf d d' cs ck l n)
  then show ?case by (simp add: unlocked_size_def sum_update_new same_node_def new_size_def)
next
  case (down d d' cs ck c n n' c' A new)
  then show ?case unfolding unlocked_size_def by (intro tsum_down) (auto simp: same_node_def)
next
  case (cut d d' cs ck c m sd n cd n' s' A new)
  have "unlocked_size s' = unlocked_size c + new_size new"
    using cut.IH cut.hyps by (cases c) (auto simp: unlocked_size_def)
  then show ?case using cut.hyps unfolding unlocked_size_def by (intro tsum_down) (auto simp: same_node_def)
qed (auto simp: unlocked_size_def same_node_def new_size_def)

lemma evolves_locked: "evolves ps e n t n' t' A new \<Longrightarrow> locked_size t' = locked_size t"
proof (induction rule: evolves.induct)
  case (leaf d d' cs ck l n)
  then show ?case by (simp add: locked_size_def sum_update_new same_node_def)
next
  case (down d d' cs ck c n n' c' A new)
  then have "locked_size (TreeNode d' (AList.update ck c' cs)) = locked_size (TreeNode d cs) + 0"
    unfolding locked_size_def by (intro tsum_down) (auto simp: same_node_def)
  then show ?case by simp
next
  case (cut d d' cs ck c m sd n cd n' s' A new)
  have "locked_size s' = locked_size c + 0"
    using cut.IH cut.hyps by (cases c) (auto simp: locked_size_def)
  then have "locked_size (TreeNode d' (AList.update ck s' cs)) = locked_size (TreeNode d cs) + 0"
    using cut.hyps unfolding locked_size_def by (intro tsum_down) (auto simp: same_node_def)
  then show ?case by simp
qed (auto simp: locked_size_def same_node_def)

fun nodes :: "tree_node \<Rightarrow> tree_node list" where
  "nodes (TreeNode d cs) = TreeNode d cs # concat (map (\<lambda>(ck, c). nodes c) cs)"

lemma tree_induct [case_names TreeNode]:
  assumes "\<And>d cs. (\<And>ck c. (ck, c) \<in> set cs \<Longrightarrow> P c) \<Longrightarrow> P (TreeNode d cs)"
  shows "P t"
proof (induction "node_count t" arbitrary: t rule: less_induct)
  case less
  then show ?case using assms node_count_child by (cases t) metis
qed

lemma tsum_nodes: "tsum f t = sum_list (map (\<lambda>x. f (ndata x) (children x = [])) (nodes t))"
proof (induction t rule: tree_induct)
  case (TreeNode d cs)
  then have eq: "map (\<lambda>(k, x). tsum f x) cs = map (\<lambda>(k, x). sum_list (map (\<lambda>x. f (ndata x) (children x = [])) (nodes x))) cs"
    by auto
  have "sum_list (map (\<lambda>(k, x). sum_list (map g (nodes x))) ks) = sum_list (map g (concat (map (\<lambda>(k, x). nodes x) ks)))"
    for g :: "tree_node \<Rightarrow> 'a" and ks :: "(child_key \<times> tree_node) list"
    by (induction ks) auto
  then have "sum_list (map (\<lambda>(k, x). tsum f x) cs) =
      sum_list (map (\<lambda>x. f (ndata x) (children x = [])) (concat (map (\<lambda>(k, x). nodes x) cs)))"
    unfolding eq .
  then show ?case by simp
qed

lemma ids_nodes: "ids t = mset (map (nid \<circ> ndata) (nodes t))"
proof -
  have "sum_list (map (\<lambda>x. {#f x#}) xs) = mset (map f xs)" for f :: "tree_node \<Rightarrow> nat" and xs
    by (induction xs) auto
  then show ?thesis by (simp add: ids_def tsum_nodes comp_def)
qed

lemma nodes_self [simp]: "t \<in> set (nodes t)"
  by (cases t) simp

lemma set_nodes: "set (nodes (TreeNode d cs)) = {TreeNode d cs} \<union> (\<Union>p \<in> set cs. set (nodes (snd p)))"
  by (simp add: case_prod_beta)

lemma set_nodes_child:
  assumes "map_of cs ck = Some c" "x \<in> set (nodes c)"
  shows "x \<in> set (nodes (TreeNode d cs))"
proof -
  have "(ck, c) \<in> set cs" using assms(1) by (rule map_of_SomeD)
  then have "x \<in> (\<Union>p \<in> set cs. set (nodes (snd p)))" by (rule UN_I) (simp add: assms(2))
  then show ?thesis unfolding set_nodes by (rule UnI2)
qed

lemma set_nodes_update: "x \<in> set (nodes c) \<Longrightarrow> x \<in> set (nodes (TreeNode d (AList.update ck c cs)))"
  by (rule set_nodes_child [of _ ck]) (simp add: update_conv')

lemma free_leaves_down:
  assumes "map_of cs ck = Some c" "same_node d d'" "free_leaves c' + B = free_leaves c + X"
  shows "free_leaves (TreeNode d' (AList.update ck c' cs)) + B = free_leaves (TreeNode d cs) + X"
proof -
  have "cs \<noteq> []" using assms(1) by auto
  then have "free_leaves (TreeNode d' (AList.update ck c' cs)) + free_leaves c = free_leaves (TreeNode d cs) + free_leaves c'"
    using sum_update [OF assms(1), of free_leaves c'] assms(2) by (auto simp: free_leaves_def same_node_def)
  then have "(free_leaves (TreeNode d' (AList.update ck c' cs)) + B) + free_leaves c = free_leaves (TreeNode d cs) + (free_leaves c' + B)"
    by (simp add: ac_simps)
  also have "\<dots> = (free_leaves (TreeNode d cs) + X) + free_leaves c" unfolding assms(3) by (simp add: ac_simps)
  finally show ?thesis by (rule add_right_imp_eq)
qed

text \<open>The leaf's parent is no longer a leaf, and no other free leaf changes.\<close>

definition leaves_step :: "tree_node \<Rightarrow> tree_node \<Rightarrow> (nat \<times> node_data) option \<Rightarrow> bool" where
  "leaves_step t t' new \<longleftrightarrow>
     (case new of None \<Rightarrow> free_leaves t' = free_leaves t
      | Some (p, l) \<Rightarrow>
          (\<exists>B. set_mset B \<subseteq> {p} \<and> free_leaves t' + B = free_leaves t + {#nid l#}) \<and>
          (\<exists>x \<in> set (nodes t'). nid (ndata x) = p \<and> children x \<noteq> []))"

lemma leaves_step_down:
  assumes "leaves_step c c' new" "map_of cs ck = Some c0" "free_leaves c0 = free_leaves c" "same_node d d'"
  shows "leaves_step (TreeNode d cs) (TreeNode d' (AList.update ck c' cs)) new"
proof (cases new)
  case None
  then show ?thesis using free_leaves_down [OF assms(2,4), of c' "{#}" "{#}"] assms by (simp add: leaves_step_def)
next
  case (Some pl)
  obtain p l where pl: "pl = (p, l)" by (cases pl)
  obtain B x where "set_mset B \<subseteq> {p}" "free_leaves c' + B = free_leaves c0 + {#nid l#}"
      "x \<in> set (nodes c')" "nid (ndata x) = p" "children x \<noteq> []"
    using assms(1,3) Some pl by (auto simp: leaves_step_def)
  then show ?thesis
    using free_leaves_down [OF assms(2,4)] set_nodes_update unfolding leaves_step_def Some pl option.case prod.case by blast
qed

lemma evolves_free_leaves: "evolves ps e n t n' t' A new \<Longrightarrow> leaves_step t t' new"
proof (induction rule: evolves.induct)
  case (same d d' n cs)
  then show ?case by (simp add: leaves_step_def free_leaves_def same_node_def)
next
  case (leaf d d' cs ck l n)
  define B where "B = (if lock_ref d = 0 \<and> cs = [] then {#nid d#} else {#})"
  let ?t = "TreeNode d' (AList.update ck (TreeNode l []) cs)"
  have "free_leaves ?t + B = free_leaves (TreeNode d cs) + {#nid l#}"
    using leaf.hyps by (simp add: free_leaves_def sum_update_new B_def)
  moreover have "set_mset B \<subseteq> {nid d}" by (simp add: B_def)
  moreover have "?t \<in> set (nodes ?t)" "nid (ndata ?t) = nid d" "children ?t \<noteq> []" using leaf.hyps(1) by (simp_all add: same_node_def)
  ultimately show ?case unfolding leaves_step_def option.case prod.case by blast
next
  case (down d d' cs ck c n n' c' A new)
  then show ?case by (intro leaves_step_down) auto
next
  case (cut d d' cs ck c m sd n cd n' s' A new)
  have eq: "free_leaves c = free_leaves (TreeNode sd [(child_key_of ps (nkey cd), TreeNode cd (children c))])"
    using cut.hyps by (cases c) (simp add: free_leaves_def)
  show ?case by (rule leaves_step_down [OF cut.IH cut.hyps(2) eq cut.hyps(1)])
qed

subsection \<open>Locks and paths\<close>

lemma locks_update:
  assumes "distinct (map fst cs)" "locks_ok L (TreeNode d cs)"
    and "lock_ref (ndata c) = int (size (filter_mset (\<lambda>i. i \<in># ids c) L))" "locks_ok L c"
  shows "locks_ok L (TreeNode d' (AList.update ck c cs))"
  using assms by (auto simp: update_mem split: if_splits)

lemma locks_child:
  "locks_ok L (TreeNode d cs) \<Longrightarrow> map_of cs ck = Some c \<Longrightarrow>
    lock_ref (ndata c) = int (size (filter_mset (\<lambda>i. i \<in># ids c) L)) \<and> locks_ok L c"
  by (drule map_of_SomeD) auto

lemma fresh_locks:
  assumes "\<forall>i \<in># L. i < n" "I' = I + mset [n..<n']"
  shows "filter_mset (\<lambda>i. i \<in># I') L = filter_mset (\<lambda>i. i \<in># I) L"
  using assms by (intro filter_mset_cong) auto

lemma evolves_locks:
  "evolves ps e n t n' t' A new \<Longrightarrow> wf_tree ps e t \<Longrightarrow> \<forall>i \<in># L. i < n \<Longrightarrow> locks_ok L t \<Longrightarrow> locks_ok L t'"
proof (induction rule: evolves.induct)
  case (leaf d d' cs ck l n)
  have "filter_mset (\<lambda>i. i \<in># ids (TreeNode l [])) L = {#}"
    using leaf.hyps(4) leaf.prems(2) by (auto simp: ids_simps filter_mset_eq_conv)
  with leaf show ?case by (intro locks_update [of _ _ d]) auto
next
  case (down d d' cs ck c n n' c' A new)
  have c: "wf_tree ps e c" "lock_ref (ndata c) = int (size (filter_mset (\<lambda>i. i \<in># ids c) L))" "locks_ok L c"
    using wf_child [OF down.prems(1) down.hyps(2)] locks_child [OF down.prems(3) down.hyps(2)] by auto
  have "lock_ref (ndata c') = int (size (filter_mset (\<lambda>i. i \<in># ids c') L))"
    using c(2) evolves_root [OF down.hyps(3)] fresh_locks [OF down.prems(2) evolves_ids [OF down.hyps(3)]] by (simp add: same_node_def)
  then show ?case
    using down.prems down.IH [OF c(1) down.prems(2) c(3)] by (intro locks_update [of _ _ d]) auto
next
  case (cut d d' cs ck c m sd n cd n' s' A new)
  let ?s = "TreeNode sd [(child_key_of ps (nkey cd), TreeNode cd (children c))]"
  have c: "child_ok ps e ck (ndata c)" "wf_tree ps e c" "lock_ref (ndata c) = int (size (filter_mset (\<lambda>i. i \<in># ids c) L))" "locks_ok L c"
    using wf_child [OF cut.prems(1) cut.hyps(2)] locks_child [OF cut.prems(3) cut.hyps(2)] by auto
  have ids: "ids (TreeNode cd (children c)) = ids c" "ids ?s = ids c + mset [n..<Suc n]"
    using cut.hyps by (cases c; simp add: ids_simps)+
  have lt: "\<forall>i \<in># L. i < Suc n" using cut.prems(2) by auto
  have "locks_ok L ?s" using c(3,4) cut.hyps ids(1) by (cases c) simp
  from cut.IH [OF cut_wf(2) [OF c(1,2) cut.hyps(3-5) cut.hyps(8,9,12,13)] lt this]
  have "locks_ok L s'" .
  moreover have "lock_ref (ndata s') = int (size (filter_mset (\<lambda>i. i \<in># ids s') L))"
    using c(3) cut.hyps(7) evolves_root [OF cut.hyps(14)] fresh_locks [OF lt evolves_ids [OF cut.hyps(14)]]
      fresh_locks [OF cut.prems(2) ids(2)] by (simp add: same_node_def)
  ultimately show ?case using cut.prems by (intro locks_update [of _ _ d]) auto
qed auto

lemma node_paths_root: "(nid d, []) \<in> set (node_paths (TreeNode d cs))"
  by simp

lemma set_node_paths:
  "set (node_paths (TreeNode d cs)) =
     {(nid d, [])} \<union> (\<Union>q \<in> set cs. (\<lambda>r. (fst r, path (nkey (ndata (snd q))) @ snd r)) ` set (node_paths (snd q)))"
  by (simp add: case_prod_beta)

lemma node_paths_childI:
  assumes "(ck, c) \<in> set cs" "(i, p) \<in> set (node_paths c)"
  shows "(i, path (nkey (ndata c)) @ p) \<in> set (node_paths (TreeNode d cs))"
proof -
  have "(i, path (nkey (ndata c)) @ p) \<in> (\<lambda>r. (fst r, path (nkey (ndata (snd (ck, c)))) @ snd r)) ` set (node_paths (snd (ck, c)))"
    using assms(2) by (simp add: rev_image_eqI)
  with assms(1) show ?thesis unfolding set_node_paths by blast
qed

lemma node_pathsE:
  assumes "(i, q) \<in> set (node_paths (TreeNode d cs))"
  obtains "i = nid d" "q = []"
    | ck c p where "(ck, c) \<in> set cs" "(i, p) \<in> set (node_paths c)" "q = path (nkey (ndata c)) @ p"
proof -
  consider "(i, q) = (nid d, [])"
    | x r where "x \<in> set cs" "r \<in> set (node_paths (snd x))" "(i, q) = (fst r, path (nkey (ndata (snd x))) @ snd r)"
    using assms unfolding set_node_paths by blast
  then show thesis
  proof cases
    case 1
    then show thesis using that(1) by simp
  next
    case (2 x r)
    then show thesis using that(2) [of "fst x" "snd x" "snd r"] by simp
  qed
qed

lemma set_update_same: "distinct (map fst cs) \<Longrightarrow> (ck, c) \<in> set (AList.update ck c cs)"
  by (simp add: update_mem)

lemma set_update_other: "distinct (map fst cs) \<Longrightarrow> (k, y) \<in> set cs \<Longrightarrow> k \<noteq> ck \<Longrightarrow> (k, y) \<in> set (AList.update ck c cs)"
  by (simp add: update_mem)

lemma node_paths_update:
  assumes "distinct (map fst cs)" "map_of cs ck = Some c" "nid d' = nid d"
    and "\<And>i p. (i, p) \<in> set (node_paths c) \<Longrightarrow>
      \<exists>p'. (i, p') \<in> set (node_paths c') \<and> path (nkey (ndata c)) @ p = path (nkey (ndata c')) @ p'"
  shows "set (node_paths (TreeNode d cs)) \<subseteq> set (node_paths (TreeNode d' (AList.update ck c' cs)))"
proof
  fix x
  assume x: "x \<in> set (node_paths (TreeNode d cs))"
  obtain i q where iq: "x = (i, q)" by (cases x)
  show "x \<in> set (node_paths (TreeNode d' (AList.update ck c' cs)))"
    using x [unfolded iq]
  proof (cases rule: node_pathsE)
    case 1
    then show ?thesis using assms(3) by (simp add: iq)
  next
    case (2 k y p)
    show ?thesis
    proof (cases "k = ck")
      case True
      then have "y = c" using 2(1) assms(1,2) by simp
      with assms(4) 2 obtain p' where "(i, p') \<in> set (node_paths c')" "q = path (nkey (ndata c')) @ p'" by metis
      then show ?thesis using node_paths_childI [OF set_update_same [OF assms(1)]] by (simp only: iq)
    next
      case False
      then show ?thesis using node_paths_childI [OF set_update_other [OF assms(1) 2(1)] 2(2)] 2(3) by (simp only: iq)
    qed
  qed
qed

lemma evolves_paths:
  "evolves ps e n t n' t' A new \<Longrightarrow> wf_tree ps e t \<Longrightarrow> set (node_paths t) \<subseteq> set (node_paths t')"
proof (induction rule: evolves.induct)
  case (same d d' n cs)
  then show ?case by (simp add: same_node_def)
next
  case (leaf d d' cs ck l n)
  have old: "(k, y) \<in> set (AList.update ck (TreeNode l []) cs)" if "(k, y) \<in> set cs" for k y
    using that leaf.hyps(2) leaf.prems by (intro set_update_other) (auto dest: weak_map_of_SomeI)
  show ?case
  proof
    fix x
    assume x: "x \<in> set (node_paths (TreeNode d cs))"
    obtain i q where iq: "x = (i, q)" by (cases x)
    show "x \<in> set (node_paths (TreeNode d' (AList.update ck (TreeNode l []) cs)))"
      using x [unfolded iq]
    proof (cases rule: node_pathsE)
      case 1
      then show ?thesis using leaf.hyps(1) by (simp add: iq same_node_def)
    next
      case (2 k y p)
      then show ?thesis using node_paths_childI [OF old] by (simp only: iq)
    qed
  qed
next
  case (down d d' cs ck c n n' c' A new)
  have "wf_tree ps e c" using wf_child [OF down.prems down.hyps(2)] by simp
  with down.IH have "set (node_paths c) \<subseteq> set (node_paths c')" .
  with down evolves_root [OF down.hyps(3)] show ?case by (intro node_paths_update) (auto simp: same_node_def)
next
  case (cut d d' cs ck c m sd n cd n' s' A new)
  let ?s = "TreeNode sd [(child_key_of ps (nkey cd), TreeNode cd (children c))]"
  have c: "child_ok ps e ck (ndata c)" "wf_tree ps e c" using wf_child [OF cut.prems cut.hyps(2)] by auto
  have "set (node_paths ?s) \<subseteq> set (node_paths s')"
    by (rule cut.IH [OF cut_wf(2) [OF c cut.hyps(3-5) cut.hyps(8,9,12,13)]])
  moreover have "(i, drop m (path (nkey (ndata c))) @ p) \<in> set (node_paths ?s)" if "(i, p) \<in> set (node_paths c)" for i p
  proof -
    have "(i, p) \<in> set (node_paths (TreeNode cd (children c)))" using that cut.hyps(10) by (cases c) simp
    from node_paths_childI [of "child_key_of ps (nkey cd)" _ "children ?s", OF _ this] show ?thesis
      using cut.hyps(12) by (simp del: node_paths.simps)
  qed
  moreover have "path (nkey (ndata s')) = take m (path (nkey (ndata c)))"
    using evolves_root [OF cut.hyps(14)] cut.hyps(8) by (simp add: same_node_def)
  ultimately have ex: "\<exists>p'. (i, p') \<in> set (node_paths s') \<and> path (nkey (ndata c)) @ p = path (nkey (ndata s')) @ p'"
    if "(i, p) \<in> set (node_paths c)" for i p
    using that by (intro exI [of _ "drop m (path (nkey (ndata c))) @ p"] conjI) (blast, simp flip: append_assoc)
  have "distinct (map fst cs)" "nid d' = nid d" using cut.prems cut.hyps(1) by (simp_all add: same_node_def)
  from node_paths_update [OF this(1) cut.hyps(2) this(2) ex] show ?case .
qed

section \<open>Matching and insertion\<close>

subsection \<open>Pages of a path\<close>

definition page_of :: "nat \<Rightarrow> tpath \<Rightarrow> int list \<Rightarrow> nat \<Rightarrow> tpath \<times> int list" where
  "page_of ps P v j = (take (Suc j * ps) P, slice (j * ps) (Suc j * ps) v)"

text \<open>\<open>v\<close> holds the slots of the longest prefix of \<open>P\<close>, in whole pages, that \<open>S\<close> stores.\<close>

definition matched :: "nat \<Rightarrow> (tpath \<times> int list) set \<Rightarrow> tpath \<Rightarrow> int list \<Rightarrow> bool" where
  "matched ps S P v \<longleftrightarrow>
     (\<exists>N. length v = N * ps \<and> N * ps \<le> length P \<and> (\<forall>j < N. page_of ps P v j \<in> S) \<and>
          (N * ps < length P \<longrightarrow> take (Suc N * ps) P \<notin> fst ` S))"

lemma node_pages_eq: "node_pages ps d = map (page_of ps (path (nkey d)) (nvalue d)) [0..<key_len (nkey d) div ps]"
  by (simp add: node_pages_def page_of_def)

lemma page_of_shift:
  assumes "m = a * ps" "m \<le> length P" "length u = m"
  shows "page_of ps P (u @ v) (a + i) = (case page_of ps (drop m P) v i of (p, w) \<Rightarrow> (take m P @ p, w))"
proof -
  have "Suc (a + i) * ps = m + Suc i * ps" "(a + i) * ps = m + i * ps" using assms(1) by (simp_all add: algebra_simps)
  then show ?thesis using assms(2,3) by (simp add: page_of_def slice_def take_add del: mult_Suc)
qed

lemma page_of_prefix:
  assumes "m = a * ps" "i < a" "length u = m"
  shows "page_of ps P (u @ v) i = page_of ps (take m P) u i"
proof -
  have "Suc i * ps \<le> m" using assms(1,2) by (metis Suc_leI mult_le_mono1)
  then show ?thesis using assms(3) by (simp add: page_of_def slice_def min_absorb1 del: mult_Suc)
qed

lemma set_stored:
  "set (stored ps c) = set (node_pages ps (ndata c)) \<union> (\<lambda>(p, v). (path (nkey (ndata c)) @ p, v)) ` set (below ps c)"
  by (simp add: stored_eq)

lemma fst_stored:
  "fst ` set (stored ps c) = fst ` set (node_pages ps (ndata c)) \<union> (\<lambda>p. path (nkey (ndata c)) @ p) ` fst ` set (below ps c)"
  by (simp add: set_stored image_Un image_image case_prod_beta)

lemma matched_step:
  assumes "child_ok ps e ck (ndata c)" "0 < ps" "m = key_len (nkey (ndata c))" "take m P = path (nkey (ndata c))"
    and "matched ps (set (below ps c)) (drop m P) v"
  shows "matched ps (set (stored ps c)) P (nvalue (ndata c) @ v)"
proof -
  obtain a where a: "m = a * ps" using assms(1,3) by (auto simp: child_ok_def elim!: dvdE)
  have np: "set (node_pages ps (ndata c)) = page_of ps (take m P) (nvalue (ndata c)) ` {0..<a}"
    unfolding node_pages_eq assms(4) assms(3) [symmetric] using assms(2) a by simp
  have m: "m \<le> length P" "length (nvalue (ndata c)) = m"
    using assms(1,3) arg_cong [OF assms(4), of length] by (simp_all add: child_ok_def)
  obtain N where N: "length v = N * ps" "N * ps \<le> length (drop m P)"
      "\<And>j. j < N \<Longrightarrow> page_of ps (drop m P) v j \<in> set (below ps c)"
      "N * ps < length (drop m P) \<Longrightarrow> take (Suc N * ps) (drop m P) \<notin> fst ` set (below ps c)"
    using assms(5) by (auto simp: matched_def)
  have pages: "page_of ps P (nvalue (ndata c) @ v) j \<in> set (stored ps c)" if "j < a + N" for j
  proof (cases "j < a")
    case True
    then have "page_of ps P (nvalue (ndata c) @ v) j \<in> set (node_pages ps (ndata c))"
      unfolding np page_of_prefix [OF a True m(2)] by simp
    then show ?thesis by (simp add: set_stored)
  next
    case False
    then obtain i where i: "j = a + i" by (metis le_iff_add not_less)
    with that have "page_of ps (drop m P) v i \<in> set (below ps c)" by (intro N(3)) simp
    moreover have "page_of ps P (nvalue (ndata c) @ v) j = (\<lambda>(p, w). (path (nkey (ndata c)) @ p, w)) (page_of ps (drop m P) v i)"
      unfolding i page_of_shift [OF a m] assms(4) by simp
    ultimately show ?thesis unfolding set_stored by blast
  qed
  have stop: "take (Suc (a + N) * ps) P \<notin> fst ` set (stored ps c)" if "(a + N) * ps < length P"
  proof
    assume "take (Suc (a + N) * ps) P \<in> fst ` set (stored ps c)"
    then consider j where "j < a" "take (Suc (a + N) * ps) P = take (Suc j * ps) (take m P)"
      | q where "q \<in> fst ` set (below ps c)" "take (Suc (a + N) * ps) P = take m P @ q"
      unfolding fst_stored np by (auto simp: page_of_def simp flip: assms(4))
    then show False
    proof cases
      case 1
      have "length (take (Suc (a + N) * ps) P) \<le> m" unfolding 1 by simp
      moreover have "m < Suc (a + N) * ps" using a assms(2) by (simp add: algebra_simps)
      moreover have "m < length P" using that a by (simp add: algebra_simps)
      ultimately show False by simp
    next
      case (2 q)
      have "Suc (a + N) * ps = m + Suc N * ps" using a by (simp add: algebra_simps)
      with 2(2) have "q = take (Suc N * ps) (drop m P)" by (simp add: take_add del: mult_Suc)
      moreover have "N * ps < length (drop m P)" using that a by (simp add: algebra_simps less_diff_conv)
      ultimately show False using N(4) 2(1) by blast
    qed
  qed
  show ?thesis
    unfolding matched_def using pages stop N(1,2) m a by (intro exI [of _ "a + N"]) (auto simp: algebra_simps)
qed

lemma stored_first:
  assumes "child_ok ps e ck (ndata c)" "0 < ps" "(q, u) \<in> set (stored ps c)"
  shows "take ps q = take ps (path (nkey (ndata c)))"
proof -
  have "ps \<le> key_len (nkey (ndata c))" using assms(1) by (simp add: child_ok_def page_le)
  with assms(3) show ?thesis unfolding set_stored by (auto simp: node_pages_def min_def)
qed

lemma child_key_of_iff:
  "0 < ps \<Longrightarrow> ps \<le> key_len k \<Longrightarrow> ps \<le> key_len k' \<Longrightarrow>
    child_key_of ps k = child_key_of ps k' \<longleftrightarrow> take ps (path k) = take ps (path k')"
  unfolding child_key_of_def by (rule child_key_iff)

lemma below_entry:
  assumes "wf_tree ps e (TreeNode d cs)" "0 < ps" "ps \<le> key_len k" "(q, u) \<in> set (below ps (TreeNode d cs))" "take ps q = take ps (path k)"
  obtains c where "map_of cs (child_key_of ps k) = Some c" "(q, u) \<in> set (stored ps c)"
proof -
  obtain x where x: "x \<in> set cs" "(q, u) \<in> set (stored ps (snd x))"
    using assms(4) by (auto simp: below_def case_prod_beta)
  obtain ck c where xc: "x = (ck, c)" by (cases x)
  then have c: "child_ok ps e ck (ndata c)" using x(1) assms(1) by auto
  then have "ps \<le> key_len (nkey (ndata c))" by (simp add: child_ok_def page_le)
  moreover have "take ps (path (nkey (ndata c))) = take ps (path k)"
    using stored_first [OF c assms(2)] x(2) xc assms(5) by simp
  ultimately have "ck = child_key_of ps k" using c child_key_of_iff assms(2,3) by (simp add: child_ok_def)
  then have "map_of cs (child_key_of ps k) = Some c" using x(1) xc assms(1) by simp
  then show thesis using that x(2) xc by simp
qed

lemma take_first_page: "take ps (take (Suc j * ps) P) = take ps P"
  by (simp add: min_def)

lemma matched_child:
  assumes "wf_tree ps e (TreeNode d cs)" "0 < ps" "ps \<le> key_len k" "map_of cs (child_key_of ps k) = Some c"
    and "matched ps (set (stored ps c)) (path k) v"
  shows "matched ps (set (below ps (TreeNode d cs))) (path k) v"
proof -
  have "set (stored ps c) \<subseteq> set (below ps (TreeNode d cs))"
    using map_of_SomeD [OF assms(4)] by (auto simp: below_def case_prod_beta intro!: bexI [of _ "(child_key_of ps k, c)"])
  moreover have "take (Suc j * ps) (path k) \<in> fst ` set (below ps (TreeNode d cs)) \<Longrightarrow>
      take (Suc j * ps) (path k) \<in> fst ` set (stored ps c)" for j
  proof -
    assume "take (Suc j * ps) (path k) \<in> fst ` set (below ps (TreeNode d cs))"
    then obtain u where "(take (Suc j * ps) (path k), u) \<in> set (below ps (TreeNode d cs))" by auto
    from below_entry [OF assms(1-3) this take_first_page] show ?thesis using assms(4) by (metis fst_conv imageI option.inject)
  qed
  ultimately show ?thesis using assms(5) unfolding matched_def by (meson subsetD)
qed

lemma matched_none:
  assumes "wf_tree ps e (TreeNode d cs)" "0 < ps" "ps \<le> key_len k" "map_of cs (child_key_of ps k) = None"
  shows "matched ps (set (below ps (TreeNode d cs))) (path k) []"
proof -
  have "take (Suc 0 * ps) (path k) \<notin> fst ` set (below ps (TreeNode d cs))"
  proof
    assume "take (Suc 0 * ps) (path k) \<in> fst ` set (below ps (TreeNode d cs))"
    then obtain u where "(take (Suc 0 * ps) (path k), u) \<in> set (below ps (TreeNode d cs))" by auto
    from below_entry [OF assms(1-3) this take_first_page] show False using assms(4) by (metis option.distinct(1))
  qed
  then show ?thesis unfolding matched_def by (intro exI [of _ 0]) simp
qed

lemma matched_nil [simp]: "matched ps S [] []"
  by (auto simp: matched_def)

subsection \<open>One step down the tree\<close>

definition split_upper :: "int \<Rightarrow> nat \<Rightarrow> node_data \<Rightarrow> nat \<Rightarrow> node_data" where
  "split_upper created n d m =
     (new_data n (priority d) created (key_upto (nkey d) m) (take m (nvalue d)))\<lparr>hit_count := hit_count d, lock_ref := lock_ref d\<rparr>"

definition split_lower :: "node_data \<Rightarrow> nat \<Rightarrow> node_data" where
  "split_lower d m = d\<lparr>nkey := key_from (nkey d) m, nvalue := drop m (nvalue d)\<rparr>"

definition split_tree :: "nat \<Rightarrow> int \<Rightarrow> nat \<Rightarrow> node_data \<Rightarrow> (child_key \<times> tree_node) list \<Rightarrow> nat \<Rightarrow> tree_node" where
  "split_tree ps created n d cs m =
     TreeNode (split_upper created n d m) [(child_key_of ps (nkey (split_lower d m)), TreeNode (split_lower d m) cs)]"

lemma split_fields [simp]:
  "nid (split_upper created n d m) = n" "lock_ref (split_upper created n d m) = lock_ref d"
  "nkey (split_upper created n d m) = key_upto (nkey d) m" "nvalue (split_upper created n d m) = take m (nvalue d)"
  "nid (split_lower d m) = nid d" "lock_ref (split_lower d m) = lock_ref d"
  "nkey (split_lower d m) = key_from (nkey d) m" "nvalue (split_lower d m) = drop m (nvalue d)"
  by (simp_all add: split_upper_def split_lower_def new_data_def)

lemma child_key_of_get: "0 < ps \<Longrightarrow> ps \<le> key_len k \<Longrightarrow> get_child_key k ps = Inr (child_key_of ps k)"
  by (simp add: get_child_key_eq child_key_of_def)

lemma split_node_eq:
  assumes "0 < ps" "ps dvd key_len (nkey d)" "ps dvd m" "m < key_len (nkey d)"
  shows "split_node ps created n (TreeNode d cs) m = Inr (split_tree ps created n d cs m)"
proof -
  have "ps \<le> key_len (nkey d) - m" using assms by (intro page_le) auto
  then have "get_child_key (key_from (nkey d) m) ps = Inr (child_key_of ps (key_from (nkey d) m))"
    using assms(1) by (intro child_key_of_get) simp_all
  then show ?thesis by (simp add: split_node_def split_tree_def split_upper_def split_lower_def)
qed

lemma descend:
  assumes "wf_tree ps e (TreeNode d cs)" "0 < ps" "ps dvd key_len key" "is_bigram key = e" "0 < key_len key"
    and "map_of cs (child_key_of ps key) = Some c" "m = common_len (path (nkey (ndata c))) (path key) div ps * ps"
  shows "key_match (nkey (ndata c)) key ps = Inr m"
    and "0 < m" "m \<le> key_len (nkey (ndata c))" "m \<le> key_len key" "ps dvd m"
    and "take m (path key) = take m (path (nkey (ndata c)))"
    and "m < key_len (nkey (ndata c)) \<Longrightarrow> m < key_len key \<Longrightarrow>
      child_key_of ps (key_from key m) \<noteq> child_key_of ps (key_from (nkey (ndata c)) m)"
    and "child_key_of ps (nkey (ndata c)) = child_key_of ps key"
proof -
  let ?k = "nkey (ndata c)" and ?l = "common_len (path (nkey (ndata c))) (path key)"
  have c: "child_ok ps e (child_key_of ps key) (ndata c)" using wf_child [OF assms(1,6)] by simp
  then have k: "ps dvd key_len ?k" "is_bigram ?k = e" "child_key_of ps key = child_key_of ps ?k" "ps \<le> key_len ?k"
    by (simp_all add: child_ok_def page_le)
  have key: "ps \<le> key_len key" using assms(3,5) by (simp add: page_le)
  show "child_key_of ps ?k = child_key_of ps key" using k(3) by simp
  have "extra_key ?k = extra_key key" using k(3) by (simp add: child_key_of_def)
  then show "key_match ?k key ps = Inr m" unfolding assms(7) using k assms by (intro key_match_eq) simp_all
  have "ps \<le> ?l"
    using k(3,4) key child_key_of_iff [OF assms(2) key k(4)] by (intro common_len_greatest) simp_all
  then have "0 < ?l div ps" using assms(2) by (simp add: div_greater_zero_iff)
  then show "0 < m" using assms(2,7) by simp
  show dvd: "ps dvd m" using assms(7) by simp
  have m: "m \<le> ?l" using assms(7) by simp
  then show le: "m \<le> key_len ?k" "m \<le> key_len key" using common_len_le [of "path ?k" "path key"] by auto
  show eq: "take m (path key) = take m (path ?k)" using m common_len_iff [of m "path ?k" "path key"] by simp
  assume lt: "m < key_len ?k" "m < key_len key"
  have room: "ps \<le> key_len ?k - m" "ps \<le> key_len key - m" using lt dvd k(1) assms(3) by (auto intro!: page_le)
  show "child_key_of ps (key_from key m) \<noteq> child_key_of ps (key_from ?k m)"
  proof
    assume "child_key_of ps (key_from key m) = child_key_of ps (key_from ?k m)"
    then have "take ps (drop m (path key)) = take ps (drop m (path ?k))" using room assms(2) by (simp add: child_key_of_iff)
    then have "m + ps \<le> ?l" using eq room lt by (intro common_len_greatest) (simp_all add: take_add)
    moreover have "?l < m + ps" using assms(2,7) by (metis div_mult_mod_eq mod_less_divisor add.commute nat_add_left_cancel_less)
    ultimately show False by simp
  qed
qed

lemma cut_matched:
  assumes "child_ok ps e ck d" "wf_tree ps e (TreeNode d cs)" "0 < ps" "0 < m" "m < key_len (nkey d)" "ps dvd m"
  shows "child_ok ps e ck (split_upper created n d m)" "wf_tree ps e (split_tree ps created n d cs m)"
    "stored ps (split_tree ps created n d cs m) = stored ps (TreeNode d cs)"
  using cut_wf [of ps e ck "TreeNode d cs" m "split_upper created n d m" "split_lower d m"]
    cut_stored [of ps e ck "TreeNode d cs" m "split_upper created n d m" "split_lower d m"] assms
  by (simp_all add: split_tree_def)

lemma evolves_cut:
  assumes "same_node d d'" "map_of cs ck = Some c" "same_node (ndata c) dc" "0 < m" "m < key_len (nkey (ndata c))" "ps dvd m"
    and "evolves ps e (Suc n) (split_tree ps created n dc (children c) m) n' s' A new"
  shows "evolves ps e n (TreeNode d cs) n' (TreeNode d' (AList.update ck s' cs))
      {#(take m (path (nkey (ndata c))) @ p, v). (p, v) \<in># A#} new"
  using assms by (intro evolves.cut [where sd = "split_upper created n dc m" and cd = "split_lower dc m"])
    (simp_all add: same_node_def split_tree_def)

lemma stored_data: "same_node d d' \<Longrightarrow> stored ps (TreeNode d' cs) = stored ps (TreeNode d cs)"
  by (simp add: same_node_def node_pages_def)

lemma wf_data: "wf_tree ps e (TreeNode d' cs) = wf_tree ps e (TreeNode d cs)"
  by simp

lemma same_node_access [simp]: "same_node d (d\<lparr>last_access_time := a\<rparr>)" "same_node d d"
  by (simp_all add: same_node_def)

subsection \<open>Correctness of the helpers\<close>

definition match_ok ::
  "nat \<Rightarrow> bool \<Rightarrow> nat \<Rightarrow> tree_node \<Rightarrow> radix_key \<Rightarrow> int list \<Rightarrow> nat \<Rightarrow> tree_node \<Rightarrow> nat \<Rightarrow> bool" where
  "match_ok ps e n t key v i t' n' \<longleftrightarrow>
     evolves ps e n t n' t' {#} None \<and> matched ps (set (below ps t)) (path key) v \<and>
     (i, take (length v) (path key)) \<in> set (node_paths t')"

lemma match_cut:
  assumes wf: "wf_tree ps e (TreeNode d cs)" and ps: "0 < ps" and dvd: "ps dvd key_len key" and e: "is_bigram key = e"
    and key: "0 < key_len key" and c: "map_of cs (child_key_of ps key) = Some c"
    and m: "m = common_len (path (nkey (ndata c))) (path key) div ps * ps" "m < key_len (nkey (ndata c))"
    and d': "same_node d d'" and dc: "same_node (ndata c) dc"
    and s: "s = split_tree ps created n dc (children c) m"
  shows "match_ok ps e n (TreeNode d cs) key (take m (nvalue (ndata c))) n (TreeNode d' (AList.update (child_key_of ps key) s cs)) (Suc n)"
proof -
  let ?ck = "child_key_of ps key"
  note step = descend [OF wf ps dvd e key c m(1)]
  have key': "ps \<le> key_len key" using dvd key by (simp add: page_le)
  have ok: "child_ok ps e ?ck (ndata c)" "wf_tree ps e c" using wf_child [OF wf c] by auto
  have s': "child_ok ps e ?ck (ndata s)" "wf_tree ps e s" "stored ps s = stored ps c"
    using cut_matched [of ps e ?ck dc "children c" m created n] ok ps step(2,5) m(2) dc stored_data [OF dc, of ps "children c"] child_ok_same [OF dc]
    by (cases c; simp add: s split_tree_def same_node_def)+
  have fields: "nid (ndata s) = n" "nkey (ndata s) = key_upto (nkey (ndata c)) m" "nvalue (ndata s) = take m (nvalue (ndata c))"
    using dc by (simp_all add: s split_tree_def same_node_def)
  have "evolves ps e (Suc n) s (Suc n) s {#} None" unfolding s split_tree_def by (rule evolves.same) simp
  then have ev: "evolves ps e n (TreeNode d cs) (Suc n) (TreeNode d' (AList.update ?ck s cs)) {#} None"
    using evolves_cut [OF d' c dc step(2) m(2) step(5), of e n created "Suc n" s "{#}" None] s by simp
  have "matched ps (set (below ps s)) (path (key_from key m)) []"
  proof (cases "m < key_len key")
    case True
    have "ps \<le> key_len (key_from key m)" using True step(5) dvd by (auto intro!: page_le)
    moreover have "child_key_of ps (key_from key m) \<noteq> child_key_of ps (key_from (nkey (ndata c)) m)" using step(7) True m(2) by simp
    ultimately show ?thesis
      using s'(2) ps dc unfolding s split_tree_def by (intro matched_none) (auto simp: same_node_def)
  qed simp
  from matched_step [OF s'(1) ps _ _ this [unfolded path_from]]
  have "matched ps (set (stored ps c)) (path key) (take m (nvalue (ndata c)))"
    using step(3,6) s'(3) fields by (simp add: min_absorb1)
  then have found: "matched ps (set (below ps (TreeNode d cs))) (path key) (take m (nvalue (ndata c)))"
    by (rule matched_child [OF wf ps key' c])
  have at: "(n, []) \<in> set (node_paths s)" using fields(1) by (cases s) simp
  have "(n, take m (path key)) \<in> set (node_paths (TreeNode d' (AList.update ?ck s cs)))"
    using node_paths_childI [where ck = ?ck and d = d', OF set_update_same at] wf step(6) fields by (simp del: node_paths.simps)
  then show ?thesis using ev found ok(1) m(2) by (simp add: match_ok_def child_ok_def min_absorb1 del: node_paths.simps)
qed

lemma match_down:
  assumes wf: "wf_tree ps e (TreeNode d cs)" and ps: "0 < ps" and key: "ps \<le> key_len key"
    and c: "map_of cs (child_key_of ps key) = Some c" and d': "same_node d d'"
    and m: "m = key_len (nkey (ndata c))" "take m (path key) = path (nkey (ndata c))"
    and rec: "match_ok ps e n c (key_from key m) v i c' n'"
  shows "match_ok ps e n (TreeNode d cs) key (nvalue (ndata c) @ v) i (TreeNode d' (AList.update (child_key_of ps key) c' cs)) n'"
proof -
  let ?ck = "child_key_of ps key"
  have ok: "child_ok ps e ?ck (ndata c)" using wf_child [OF wf c] by auto
  have rec: "evolves ps e n c n' c' {#} None" "matched ps (set (below ps c)) (drop m (path key)) v"
      "(i, take (length v) (drop m (path key))) \<in> set (node_paths c')"
    using rec by (simp_all add: match_ok_def)
  have "evolves ps e n (TreeNode d cs) n' (TreeNode d' (AList.update ?ck c' cs)) {#} None"
    using evolves.down [OF d' c rec(1)] by simp
  moreover have "matched ps (set (below ps (TreeNode d cs))) (path key) (nvalue (ndata c) @ v)"
    by (rule matched_child [OF wf ps key c matched_step [OF ok ps m rec(2)]])
  moreover have "(i, take (m + length v) (path key)) \<in> set (node_paths (TreeNode d' (AList.update ?ck c' cs)))"
    using node_paths_childI [where ck = ?ck and d = d', OF set_update_same rec(3)] wf evolves_root [OF rec(1)] m
    by (simp add: same_node_def take_add del: node_paths.simps)
  ultimately show ?thesis using ok m(1) by (simp add: match_ok_def child_ok_def del: node_paths.simps)
qed

lemma match_prefix_helper_correct:
  assumes ps: "0 < ps"
  shows "wf_tree ps e t \<Longrightarrow> ps dvd key_len key \<Longrightarrow> is_bigram key = e \<Longrightarrow>
    \<exists>vals i t' n'. match_prefix_helper ps access created n t key = Inr (vals, i, t', n') \<and> match_ok ps e n t key (concat vals) i t' n'"
proof (induction t arbitrary: key n rule: tree_induct)
  case (TreeNode d cs)
  let ?d = "d\<lparr>last_access_time := access\<rparr>" and ?ck = "child_key_of ps key"
  consider "key_len key = 0" | "0 < key_len key" "map_of cs ?ck = None" | c where "0 < key_len key" "map_of cs ?ck = Some c"
    by fastforce
  then show ?case
  proof cases
    case 1
    then have "path key = []" by (metis length_0_conv length_path)
    with 1 show ?thesis by (subst match_prefix_helper.simps) (auto simp: evolves.same match_ok_def)
  next
    case 2
    then have key: "ps \<le> key_len key" using TreeNode.prems(2) by (simp add: page_le)
    with 2 child_key_of_get [OF ps key] matched_none [OF TreeNode.prems(1) ps key] show ?thesis
      by (subst match_prefix_helper.simps) (auto simp: evolves.same match_ok_def)
  next
    case (3 c)
    then have key: "ps \<le> key_len key" using TreeNode.prems(2) by (simp add: page_le)
    let ?k = "nkey (ndata c)" and ?dc = "(ndata c)\<lparr>last_access_time := access\<rparr>"
    define m where "m = common_len (path ?k) (path key) div ps * ps"
    note step = descend [OF TreeNode.prems(1) ps TreeNode.prems(2,3) 3 m_def]
    note eval = 3 child_key_of_get [OF ps key] step(1,3,5,8)
    have c: "child_ok ps e ?ck (ndata c)" "wf_tree ps e c" using wf_child [OF TreeNode.prems(1) 3(2)] by auto
    show ?thesis
    proof (cases "m < key_len ?k")
      case True
      let ?s = "split_tree ps created n ?dc (children c) m"
      have "get_child_key ?k ps = Inr ?ck" using c(1) step(8) child_key_of_get [OF ps, of ?k] by (simp add: child_ok_def page_le)
      moreover have "split_node ps created n (TreeNode ?dc (children c)) m = Inr ?s"
        using c(1) True step(5) ps by (intro split_node_eq) (simp_all add: child_ok_def)
      moreover have "nid (ndata ?s) = n" "nvalue (ndata ?s) = take m (nvalue (ndata c))" by (simp_all add: split_tree_def)
      ultimately have "match_prefix_helper ps access created n (TreeNode d cs) key =
          Inr ([take m (nvalue (ndata c))], n, TreeNode ?d (AList.update ?ck ?s cs), Suc n)"
        using eval True by (subst match_prefix_helper.simps) (simp add: Let_def)
      then show ?thesis
        using match_cut [OF TreeNode.prems(1) ps TreeNode.prems(2,3) 3 m_def True, of ?d ?dc ?s created n] by simp
    next
      case False
      then have m: "m = key_len ?k" using step(3) by simp
      obtain vals i c' n' where rec: "match_prefix_helper ps access created n c (key_from key m) = Inr (vals, i, c', n')"
          "match_ok ps e n c (key_from key m) (concat vals) i c' n'"
        using TreeNode.IH [OF map_of_SomeD [OF 3(2)] c(2), of "key_from key m" n] step(5) TreeNode.prems(2,3) by auto
      have "match_prefix_helper ps access created n (TreeNode d cs) key =
          Inr (nvalue (ndata c) # vals, i, TreeNode ?d (AList.update ?ck c' cs), n')"
        using eval False rec(1) by (subst match_prefix_helper.simps) (simp add: Let_def)
      then show ?thesis
        using match_down [OF TreeNode.prems(1) ps key 3(2) _ m _ rec(2), of ?d] step(6) m by simp
    qed
  qed
qed

text \<open>Insertion adds the pages of the key from the first one that is not cached.\<close>

definition pages_from :: "nat \<Rightarrow> nat \<Rightarrow> tpath \<Rightarrow> int list \<Rightarrow> (tpath \<times> int list) multiset" where
  "pages_from ps N P v = mset (map (page_of ps P v) [N..<length P div ps])"

lemma pages_from_shift:
  assumes "0 < ps" "ps dvd m" "m \<le> length P" "length v = length P"
  shows "{#(take m P @ p, w). (p, w) \<in># pages_from ps (r div ps) (drop m P) (drop m v)#} = pages_from ps ((m + r) div ps) P v"
proof -
  obtain a where a: "m = a * ps" using assms(2) by (metis dvdE mult.commute)
  have upt: "[a + r div ps..<length P div ps] = map (\<lambda>i. a + i) [r div ps..<length P div ps - a]"
    by (rule nth_equalityI) auto
  have "length P = length (drop m P) + a * ps" using a assms(3) by simp
  then have "length P div ps = a + length (drop m P) div ps" using assms(1) by (metis div_mult_self1 less_not_refl2)
  then have len: "length (drop m P) div ps = length P div ps - a" by simp
  have "page_of ps P v (a + i) = (case page_of ps (drop m P) (drop m v) i of (p, w) \<Rightarrow> (take m P @ p, w))" for i
    using page_of_shift [OF a assms(3), of "take m v" "drop m v" i] assms(3,4) by simp
  then show ?thesis using a assms(1) unfolding pages_from_def len by (simp add: upt comp_def case_prod_beta flip: mset_map)
qed

definition insert_ok ::
  "nat \<Rightarrow> bool \<Rightarrow> nat \<Rightarrow> tree_node \<Rightarrow> radix_key \<Rightarrow> int list \<Rightarrow> nat \<Rightarrow> tree_node \<Rightarrow> nat \<Rightarrow> (nat \<times> node_data) option \<Rightarrow> bool" where
  "insert_ok ps e n t key val m t' n' new \<longleftrightarrow>
     evolves ps e n t n' t' (pages_from ps (m div ps) (path key) val) new \<and>
     (\<exists>v. matched ps (set (below ps t)) (path key) v \<and> length v = m) \<and>
     new_size new = int (key_len key - m) \<and> m \<le> key_len key"

lemma evolves_data:
  assumes "same_node d d0" "evolves ps e n (TreeNode d0 cs) n' t' A new"
  shows "evolves ps e n (TreeNode d cs) n' t' A new"
proof -
  have trans: "same_node d d'" if "same_node d0 d'" for d' using that assms(1) by (simp add: same_node_def)
  have "nid d0 = nid d" using assms(1) by (simp add: same_node_def)
  from assms(2) show ?thesis
    by (cases rule: evolves.cases) (auto simp: \<open>nid d0 = nid d\<close> intro: evolves.same evolves.leaf [where d = d, simplified] evolves.down evolves.cut dest: trans)
qed

lemma insert_down:
  assumes wf: "wf_tree ps e (TreeNode d cs)" and ps: "0 < ps" and key: "ps \<le> key_len key" "length val = key_len key"
    and c: "map_of cs (child_key_of ps key) = Some c0" and ok: "child_ok ps e (child_key_of ps key) (ndata c)"
    and st: "stored ps c = stored ps c0"
    and m: "m = key_len (nkey (ndata c))" "take m (path key) = path (nkey (ndata c))"
    and rec: "insert_ok ps e n c (key_from key m) (drop m val) r c' n' new"
    and ev: "\<And>A. evolves ps e n c n' c' A new \<Longrightarrow> evolves ps e n0 (TreeNode d cs) n' t' {#(take m (path key) @ p, v). (p, v) \<in># A#} new"
  shows "insert_ok ps e n0 (TreeNode d cs) key val (m + r) t' n' new"
proof -
  have m': "m \<le> key_len key" "ps dvd m" using arg_cong [OF m(2), of length] ok m(1) by (simp_all add: child_ok_def)
  obtain v where v: "matched ps (set (below ps c)) (drop m (path key)) v" "length v = r"
    using rec by (auto simp: insert_ok_def)
  have "evolves ps e n0 (TreeNode d cs) n' t' (pages_from ps ((m + r) div ps) (path key) val) new"
    using ev [of "pages_from ps (r div ps) (drop m (path key)) (drop m val)"] rec m' key(2)
    by (simp add: insert_ok_def pages_from_shift [OF ps])
  moreover have "matched ps (set (below ps (TreeNode d cs))) (path key) (nvalue (ndata c) @ v)"
    by (rule matched_child [OF wf ps key(1) c]) (use matched_step [OF ok ps m v(1)] st in simp)
  moreover have "length (nvalue (ndata c) @ v) = m + r" using ok m(1) v(2) by (simp add: child_ok_def)
  ultimately show ?thesis using rec m' by (auto simp: insert_ok_def)
qed

text \<open>The node the loop goes on with: the child, or the upper part of the child cut in two.\<close>

definition next_node :: "nat \<Rightarrow> int \<Rightarrow> int \<Rightarrow> bool \<Rightarrow> nat \<Rightarrow> node_data \<Rightarrow> (child_key \<times> tree_node) list \<Rightarrow> nat \<Rightarrow> tree_node" where
  "next_node ps created prio chunked n d cs m =
     touch prio chunked (if m < key_len (nkey d) then split_tree ps created n d cs m else TreeNode d cs)"

lemma touch_TreeNode: "\<exists>d'. touch prio chunked (TreeNode d cs) = TreeNode d' cs \<and> same_node d d'"
  by (auto simp: touch_def same_node_def Let_def)

lemma next_node_ok:
  assumes "child_ok ps e ck (ndata c)" "wf_tree ps e c" "0 < ps" "same_node (ndata c) dc" "0 < m" "m \<le> key_len (nkey (ndata c))" "ps dvd m"
    and node: "node = next_node ps created prio chunked n dc (children c) m"
  shows "child_ok ps e ck (ndata node)" "wf_tree ps e node" "stored ps node = stored ps c"
    "m = key_len (nkey (ndata node))" "path (nkey (ndata node)) = take m (path (nkey (ndata c)))"
proof -
  define b where "b = (if m < key_len (nkey dc) then split_tree ps created n dc (children c) m else TreeNode dc (children c))"
  have dc: "child_ok ps e ck dc" "wf_tree ps e (TreeNode dc (children c))" "stored ps (TreeNode dc (children c)) = stored ps c"
    using assms(1,2) child_ok_same [OF assms(4)] stored_data [OF assms(4), of ps "children c"] by (cases c; simp)+
  have k: "nkey dc = nkey (ndata c)" using assms(4) by (simp add: same_node_def)
  have b: "child_ok ps e ck (ndata b)" "wf_tree ps e b" "stored ps b = stored ps c"
      "m = key_len (nkey (ndata b))" "path (nkey (ndata b)) = take m (path (nkey (ndata c)))"
    using cut_matched [OF dc(1,2) assms(3,5) _ assms(7)] dc assms(6) k by (auto simp: b_def split_tree_def min_def)
  obtain d cs where bt: "b = TreeNode d cs" by (cases b)
  obtain d' where d': "node = TreeNode d' cs" "same_node d d'"
    using touch_TreeNode [of prio chunked d cs] node bt unfolding next_node_def b_def by metis
  show "child_ok ps e ck (ndata node)" "wf_tree ps e node" "stored ps node = stored ps c"
    "m = key_len (nkey (ndata node))" "path (nkey (ndata node)) = take m (path (nkey (ndata c)))"
    using b child_ok_same [OF d'(2)] stored_data [OF d'(2), of ps cs] d' bt by (simp_all add: same_node_def)
qed

lemma next_node_evolves:
  assumes c: "map_of cs ck = Some c" "same_node (ndata c) dc" and m: "0 < m" "m \<le> key_len (nkey (ndata c))" "ps dvd m"
    and ev: "evolves ps e (if m < key_len (nkey dc) then Suc n else n) (next_node ps created prio chunked n dc (children c) m) n' s' A new"
  shows "evolves ps e n (TreeNode d cs) n' (TreeNode d (AList.update ck s' cs)) {#(take m (path (nkey (ndata c))) @ p, v). (p, v) \<in># A#} new"
proof (cases "m < key_len (nkey dc)")
  case True
  let ?s = "split_tree ps created n dc (children c) m"
  obtain d' where "next_node ps created prio chunked n dc (children c) m = TreeNode d' (children ?s)" "same_node (ndata ?s) d'"
    using touch_TreeNode [of prio chunked "ndata ?s" "children ?s"] True by (auto simp: next_node_def)
  with ev True evolves_data [of "ndata ?s" d' ps e "Suc n" "children ?s"] have "evolves ps e (Suc n) ?s n' s' A new" by simp
  then show ?thesis using True c m by (intro evolves_cut [OF _ c m(1) _ m(3)]) (simp_all add: same_node_def)
next
  case False
  obtain d' where "next_node ps created prio chunked n dc (children c) m = TreeNode d' (children c)" "same_node dc d'"
    using touch_TreeNode [of prio chunked dc "children c"] False by (auto simp: next_node_def)
  then have "same_node (ndata c) d'" "evolves ps e n (TreeNode d' (children c)) n' s' A new"
    using ev False c(2) by (simp_all add: same_node_def)
  then have "evolves ps e n (TreeNode (ndata c) (children c)) n' s' A new" by (rule evolves_data)
  moreover have "take m (path (nkey (ndata c))) = path (nkey (ndata c))" using False c(2) m(2) by (simp add: same_node_def)
  ultimately show ?thesis using evolves.down [of d d, OF same_node_access(2) c(1)] by simp
qed

lemma insert_loop_correct:
  assumes ps: "0 < ps"
  shows "wf_tree ps e t \<Longrightarrow> ps dvd key_len key \<Longrightarrow> is_bigram key = e \<Longrightarrow> length val = key_len key \<Longrightarrow> key_len key < fuel \<Longrightarrow>
    \<exists>m t' n' new. insert_loop fuel ps access created prio chunked n key val t = Inr (m, t', n', new) \<and>
      insert_ok ps e n t key val m t' n' new"
proof (induction fuel arbitrary: t key val n)
  case 0
  then show ?case by simp
next
  case (Suc fuel)
  obtain d cs where t: "t = TreeNode d cs" by (cases t)
  note wf = Suc.prems(1) [unfolded t]
  let ?ck = "child_key_of ps key"
  consider "key_len key = 0" | "0 < key_len key" "map_of cs ?ck = None" | c where "0 < key_len key" "map_of cs ?ck = Some c"
    by fastforce
  then show ?case
  proof cases
    case 1
    then have "path key = []" by (metis length_0_conv length_path)
    with 1 show ?thesis by (auto simp: t insert_ok_def pages_from_def evolves.same new_size_def)
  next
    case 2
    then have key: "ps \<le> key_len key" using Suc.prems(2) by (simp add: page_le)
    define l where "l = (new_data n prio created key val)\<lparr>hit_count := (if chunked then 0 else 1)\<rparr>"
    have l: "child_ok ps e ?ck l" "nid l = n" "lock_ref l = 0" "nkey l = key" "nvalue l = val"
      using Suc.prems 2 by (auto simp: l_def new_data_def child_ok_def)
    have "insert_loop (Suc fuel) ps access created prio chunked n key val t =
        Inr (0, TreeNode d (AList.update ?ck (TreeNode l []) cs), Suc n, Some (nid d, l))"
      using 2 child_key_of_get [OF ps key] by (simp add: t l_def Let_def)
    moreover have "mset (node_pages ps l) = pages_from ps 0 (path key) val"
      unfolding node_pages_eq pages_from_def l by simp
    ultimately show ?thesis
      using evolves.leaf [OF _ 2(2) l(1-3), of d d] matched_none [OF wf ps key 2(2)] l(4)
      by (auto simp: t insert_ok_def new_size_def)
  next
    case (3 c)
    then have key: "ps \<le> key_len key" using Suc.prems(2) by (simp add: page_le)
    let ?k = "nkey (ndata c)" and ?dc = "(ndata c)\<lparr>last_access_time := access\<rparr>"
    define m where "m = common_len (path ?k) (path key) div ps * ps"
    note step = descend [OF wf ps Suc.prems(2,3) 3 m_def]
    note eval = 3 child_key_of_get [OF ps key] step(1,3,5,8)
    have c: "child_ok ps e ?ck (ndata c)" "wf_tree ps e c" using wf_child [OF wf 3(2)] by auto
    define node where "node = next_node ps created prio chunked n ?dc (children c) m"
    define n1 where "n1 = (if m < key_len ?k then Suc n else n)"
    note node = next_node_ok [OF c ps same_node_access(1) step(2,3,5) node_def]
    have gck: "get_child_key ?k ps = Inr ?ck" using c(1) step(8) child_key_of_get [OF ps, of ?k] by (simp add: child_ok_def page_le)
    have split: "m < key_len ?k \<Longrightarrow> split_node ps created n (TreeNode ?dc (children c)) m = Inr (split_tree ps created n ?dc (children c) m)"
      using c(1) step(5) ps by (intro split_node_eq) (simp_all add: child_ok_def)
    have fuel: "key_len key - m < fuel" using Suc.prems(5) step(2) 3(1) by linarith
    obtain r node' n' new where rec: "insert_loop fuel ps access created prio chunked n1 (key_from key m) (drop m val) node = Inr (r, node', n', new)"
        "insert_ok ps e n1 node (key_from key m) (drop m val) r node' n' new"
      using Suc.IH [OF node(2), of "key_from key m" "drop m val" n1] Suc.prems(2-4) fuel step(5) by auto
    have "insert_loop (Suc fuel) ps access created prio chunked n key val t =
        Inr (m + r, TreeNode d (AList.update ?ck node' cs), n', new)"
      using eval split gck rec(1) by (simp add: t Let_def node_def n1_def next_node_def split: if_splits)
    moreover have "insert_ok ps e n t key val (m + r) (TreeNode d (AList.update ?ck node' cs)) n' new"
      unfolding t
    proof (rule insert_down [OF wf ps key Suc.prems(4) 3(2) node(1,3,4) _ rec(2)])
      show "take m (path key) = path (nkey (ndata node))" using node(5) step(6) by simp
      show "evolves ps e n (TreeNode d cs) n' (TreeNode d (AList.update ?ck node' cs)) {#(take m (path key) @ p, v). (p, v) \<in># A#} new"
        if "evolves ps e n1 node n' node' A new" for A
        using next_node_evolves [OF 3(2) same_node_access(1) step(2,3,5)] that step(6) by (simp add: node_def n1_def)
    qed
    ultimately show ?thesis by blast
  qed
qed

lemma insert_helper_correct:
  assumes "0 < ps" "wf_tree ps e t" "ps dvd key_len key" "is_bigram key = e" "length val = key_len key"
  shows "\<exists>m t' n' new. insert_helper ps access created n t key val prio chunked = Inr (m, t', n', new) \<and>
    insert_ok ps e n t key val m t' n' new"
proof -
  obtain d cs where t: "t = TreeNode d cs" by (cases t)
  define p where "p = (case prio of None \<Rightarrow> 0 | Some p \<Rightarrow> p)"
  define d' where "d' = d\<lparr>last_access_time := access, priority := max (priority d) p\<rparr>"
  have same: "same_node d d'" by (simp add: d'_def same_node_def)
  show ?thesis
  proof (cases "key_len key = 0")
    case True
    then have "path key = []" by (metis length_0_conv length_path)
    with True same show ?thesis
      by (auto simp: t insert_helper_def Let_def insert_ok_def pages_from_def new_size_def evolves.same simp flip: p_def d'_def)
  next
    case False
    obtain m t' n' new where "insert_loop (Suc (key_len key)) ps access created p chunked n key val (TreeNode d' cs) = Inr (m, t', n', new)"
        "insert_ok ps e n (TreeNode d' cs) key val m t' n' new"
      using insert_loop_correct [OF assms(1), of e "TreeNode d' cs" key val "Suc (key_len key)" access created p chunked n] assms t by (auto simp del: insert_loop.simps)
    then show ?thesis
      using False evolves_data [OF same] by (auto simp: t insert_helper_def Let_def insert_ok_def below_def simp flip: p_def d'_def simp del: insert_loop.simps)
  qed
qed

subsection \<open>Every page is stored once\<close>

lemma stored_length:
  assumes "child_ok ps e ck (ndata c)" "0 < ps" "q \<in> fst ` set (stored ps c)"
  shows "q \<noteq> []"
proof -
  obtain u where "(q, u) \<in> set (stored ps c)" using assms(3) by auto
  from stored_first [OF assms(1,2) this] have "take ps q = take ps (path (nkey (ndata c)))" .
  moreover have "ps \<le> key_len (nkey (ndata c))" using assms(1) by (simp add: child_ok_def page_le)
  then have "length (take ps (path (nkey (ndata c)))) = ps" by simp
  ultimately have "length (take ps q) = ps" by simp
  then show ?thesis using assms(2) by auto
qed

lemma below_nonempty: "wf_tree ps e t \<Longrightarrow> 0 < ps \<Longrightarrow> q \<in> fst ` set (below ps t) \<Longrightarrow> q \<noteq> []"
  using stored_length by (cases t) (fastforce simp: below_def)

lemma node_pages_distinct:
  assumes "0 < ps"
  shows "distinct (map fst (node_pages ps d))" "q \<in> fst ` set (node_pages ps d) \<Longrightarrow> length q \<le> key_len (nkey d)"
proof -
  have len: "Suc j * ps \<le> key_len (nkey d)" if "j < key_len (nkey d) div ps" for j
    using that assms by (metis Suc_leI less_eq_div_iff_mult_less_eq)
  have "inj_on (\<lambda>j. take (Suc j * ps) (path (nkey d))) {0..<key_len (nkey d) div ps}"
  proof (rule inj_onI)
    fix i j
    assume ij: "i \<in> {0..<key_len (nkey d) div ps}" "j \<in> {0..<key_len (nkey d) div ps}"
      and eq: "take (Suc i * ps) (path (nkey d)) = take (Suc j * ps) (path (nkey d))"
    from arg_cong [OF eq, of length] have "Suc i * ps = Suc j * ps" using ij len [of i] len [of j] by (simp del: mult_Suc)
    then show "i = j" using assms by (simp del: mult_Suc)
  qed
  then show "distinct (map fst (node_pages ps d))" by (simp add: node_pages_def comp_def distinct_map)
  show "q \<in> fst ` set (node_pages ps d) \<Longrightarrow> length q \<le> key_len (nkey d)" by (auto simp: node_pages_def)
qed

lemma stored_distinct:
  assumes "0 < ps" "child_ok ps e ck (ndata c)" "wf_tree ps e c" "distinct (map fst (below ps c))"
  shows "distinct (map fst (stored ps c))"
proof -
  have shift: "map fst (map (\<lambda>(p, v). (path (nkey (ndata c)) @ p, v)) xs) = map ((@) (path (nkey (ndata c)))) (map fst xs)"
    for xs :: "(tpath \<times> int list) list" by (induction xs) auto
  have "key_len (nkey (ndata c)) < length (path (nkey (ndata c)) @ q)" if "q \<in> fst ` set (below ps c)" for q
    using below_nonempty [OF assms(3,1) that] by simp
  then have "fst ` set (node_pages ps (ndata c)) \<inter> (@) (path (nkey (ndata c))) ` fst ` set (below ps c) = {}"
    using node_pages_distinct(2) [OF assms(1)] by fastforce
  moreover have "distinct (map ((@) (path (nkey (ndata c)))) (map fst (below ps c)))"
    unfolding distinct_map [of "(@) (path (nkey (ndata c)))"] using assms(4) by (simp add: inj_on_def)
  ultimately show ?thesis
    unfolding stored_eq map_append shift distinct_append using node_pages_distinct(1) [OF assms(1)] by (simp add: image_image)
qed

lemma below_distinct: "0 < ps \<Longrightarrow> wf_tree ps e t \<Longrightarrow> distinct (map fst (below ps t))"
proof (induction t rule: tree_induct)
  case (TreeNode d cs)
  have ok: "child_ok ps e (fst y) (ndata (snd y))" "distinct (map fst (stored ps (snd y)))" if "y \<in> set cs" for y
    using that TreeNode.prems TreeNode.IH [of "fst y" "snd y"] stored_distinct [of ps e "fst y" "snd y"] by (auto simp: case_prod_beta)
  have "distinct (map fst (concat (map (\<lambda>(k, x). stored ps x) zs)))" if "set zs \<subseteq> set cs" "distinct (map fst zs)" for zs
    using that
  proof (induction zs)
    case (Cons y zs)
    have "fst ` set (stored ps (snd y)) \<inter> fst ` set (stored ps (snd z)) = {}" if z: "z \<in> set zs" for z
    proof (rule ccontr)
      assume "fst ` set (stored ps (snd y)) \<inter> fst ` set (stored ps (snd z)) \<noteq> {}"
      then obtain q u v where q: "(q, u) \<in> set (stored ps (snd y))" "(q, v) \<in> set (stored ps (snd z))" by auto
      have yz: "child_ok ps e (fst y) (ndata (snd y))" "child_ok ps e (fst z) (ndata (snd z))" 
        using ok(1) [of y] ok(1) [of z] Cons.prems(1) z by auto
      then have "take ps (path (nkey (ndata (snd y)))) = take ps (path (nkey (ndata (snd z))))"
        using stored_first [OF _ TreeNode.prems(1)] q by metis
      then have "fst y = fst z" using yz child_key_of_iff [OF TreeNode.prems(1)] by (simp add: child_ok_def page_le)
      then show False using Cons.prems(2) z by (metis distinct.simps(2) image_eqI list.map(2) list.set_map)
    qed
    then have "fst ` set (stored ps (snd y)) \<inter> (\<Union>z \<in> set zs. fst ` set (stored ps (snd z))) = {}" by blast
    then show ?case using Cons ok(2) [of y] by (simp add: case_prod_beta image_UN)
  qed simp
  from this [of cs] TreeNode.prems(2) show ?case by (simp add: below_def)
qed

text \<open>So the slots of a matched prefix are determined.\<close>

lemma matched_unique:
  assumes "0 < ps" "distinct (map fst xs)" "matched ps (set xs) P v" "matched ps (set xs) P w"
  shows "v = w"
proof -
  obtain N where N: "length v = N * ps" "N * ps \<le> length P" "\<And>j. j < N \<Longrightarrow> page_of ps P v j \<in> set xs"
      "N * ps < length P \<Longrightarrow> take (Suc N * ps) P \<notin> fst ` set xs" using assms(3) by (auto simp: matched_def)
  obtain M where M: "length w = M * ps" "M * ps \<le> length P" "\<And>j. j < M \<Longrightarrow> page_of ps P w j \<in> set xs"
      "M * ps < length P \<Longrightarrow> take (Suc M * ps) P \<notin> fst ` set xs" using assms(4) by (auto simp: matched_def)
  have less: "A * ps < length P" if "A < B" "B * ps \<le> length P" for A B
    using that assms(1) by (meson less_le_trans mult_less_cancel2)
  have fst: "take (Suc j * ps) P \<in> fst ` set xs" if "page_of ps P u j \<in> set xs" for u j
    using imageI [OF that, of fst] by (simp add: page_of_def)
  have "N = M"
    using N M less fst by (metis linorder_cases)
  have page: "slice (j * ps) (Suc j * ps) v = slice (j * ps) (Suc j * ps) w" if "j < N" for j
    using N(3) [OF that] M(3) [of j] that \<open>N = M\<close> assms(2) unfolding page_of_def by (metis eq_key_imp_eq_value)
  show ?thesis
  proof (rule nth_equalityI)
    show "length v = length w" using N(1) M(1) \<open>N = M\<close> by simp
    fix i
    assume i: "i < length v"
    define j where "j = i div ps"
    have j: "j < N" "i = j * ps + i mod ps" "i mod ps < ps" using i N(1) assms(1) by (simp_all add: j_def less_mult_imp_div_less)
    have "slice (j * ps) (Suc j * ps) u ! (i mod ps) = u ! i" if "i < length u" for u :: "int list"
      using that j(2,3) by (subst nth_slice) auto
    then show "v ! i = w ! i" using page [OF j(1)] i N(1) M(1) \<open>N = M\<close> by metis
  qed
qed

lemma matched_after_insert:
  assumes "0 < ps" "ps dvd length P" "length val = length P" "matched ps (set_mset S) P v"
  shows "matched ps (set_mset (S + pages_from ps (length v div ps) P val)) P (v @ drop (length v) val)"
proof -
  obtain N where N: "length v = N * ps" "N * ps \<le> length P" "\<And>j. j < N \<Longrightarrow> page_of ps P v j \<in># S"
    using assms(4) by (auto simp: matched_def)
  obtain M where M: "length P = M * ps" using assms(2) by (metis dvdE mult.commute)
  let ?w = "v @ drop (N * ps) val"
  have "page_of ps P ?w j \<in># S + pages_from ps N P val" if "j < M" for j
  proof (cases "j < N")
    case True
    then show ?thesis
      using N(3) [OF True] page_of_prefix [OF refl True N(1), of P "[]"] page_of_prefix [OF refl True N(1), of P "drop (N * ps) val"] by simp
  next
    case False
    then obtain i where i: "j = N + i" by (metis le_iff_add not_less)
    have "page_of ps P ?w j = page_of ps P val j"
      using page_of_shift [OF refl N(2) N(1), of "drop (N * ps) val" i] page_of_shift [OF refl N(2), of "take (N * ps) val" "drop (N * ps) val" i]
        N(2) assms(3) i by simp
    then show ?thesis using that False M assms(1) by (auto simp: pages_from_def)
  qed
  moreover have "length ?w = M * ps" using N M assms(3) by simp
  ultimately have "matched ps (set_mset (S + pages_from ps N P val)) P ?w"
    unfolding matched_def using M by (intro exI [of _ M]) simp
  then show ?thesis using N(1) assms(1) by simp
qed

text \<open>The pages on the path to a node are stored.\<close>

lemma node_paths_stored:
  assumes "0 < ps"
  shows "wf_tree ps e t \<Longrightarrow> (i, q) \<in> set (node_paths t) \<Longrightarrow>
    ps dvd length q \<and> (\<forall>j. Suc j * ps \<le> length q \<longrightarrow> take (Suc j * ps) q \<in> fst ` set (below ps t))"
proof (induction t arbitrary: q rule: tree_induct)
  case (TreeNode d cs)
  from TreeNode.prems(2) show ?case
  proof (cases rule: node_pathsE)
    case 1
    then show ?thesis using assms by simp
  next
    case (2 ck c p)
    have c: "child_ok ps e ck (ndata c)" "wf_tree ps e c" using TreeNode.prems(1) 2(1) by auto
    then obtain a where a: "key_len (nkey (ndata c)) = a * ps" by (auto simp: child_ok_def elim!: dvdE)
    note IH = TreeNode.IH [OF 2(1) c(2) 2(2)]
    have "take (Suc j * ps) q \<in> fst ` set (stored ps c)" if j: "Suc j * ps \<le> length q" for j
    proof (cases "j < a")
      case True
      then have "Suc j * ps \<le> a * ps" by (metis Suc_leI mult_le_mono1)
      then have "take (Suc j * ps) q = take (Suc j * ps) (path (nkey (ndata c)))" unfolding 2(3) using a by (simp del: mult_Suc)
      then show ?thesis unfolding fst_stored using True a assms by (force simp: node_pages_def)
    next
      case False
      then obtain i where i: "Suc j * ps = a * ps + Suc i * ps" by (metis add_Suc_right le_iff_add not_less add_mult_distrib)
      then have "take (Suc j * ps) q = path (nkey (ndata c)) @ take (Suc i * ps) p" "Suc i * ps \<le> length p"
        unfolding 2(3) using a j 2(3) by (simp_all del: mult_Suc)
      then show ?thesis unfolding fst_stored using IH by blast
    qed
    moreover have "set (stored ps c) \<subseteq> set (below ps (TreeNode d cs))"
      using 2(1) by (auto simp: below_def case_prod_beta intro!: bexI [of _ "(ck, c)"])
    ultimately have "\<forall>j. Suc j * ps \<le> length q \<longrightarrow> take (Suc j * ps) q \<in> fst ` set (below ps (TreeNode d cs))" by blast
    then show ?thesis using IH a 2(3) by simp
  qed
qed

lemma matched_at_least:
  assumes "0 < ps" "wf_tree ps e t" "(i, q) \<in> set (node_paths t)" "take (length q) P = q" "matched ps (set (below ps t)) P v"
  shows "length q \<le> length v"
proof (rule ccontr)
  assume lt: "\<not> length q \<le> length v"
  note q = node_paths_stored [OF assms(1-3)]
  obtain N where N: "length v = N * ps" "N * ps < length P \<Longrightarrow> take (Suc N * ps) P \<notin> fst ` set (below ps t)"
    using assms(5) by (auto simp: matched_def)
  obtain b where b: "length q = b * ps" using q by (metis dvdE mult.commute)
  have "N < b" using lt N(1) b by simp
  then have le: "Suc N * ps \<le> length q" using b by (metis Suc_leI mult_le_mono1)
  have "length q \<le> length P" using assms(4) by (metis length_take min.cobounded2 min.commute)
  moreover have "take (Suc N * ps) P = take (Suc N * ps) q" using le assms(4) by (metis min.absorb1 take_take)
  ultimately show False using N(2) q le assms(1) by simp
qed

end
