(* ===== verification/Radix_Cache.thy ===== *)
theory Radix_Cache
  imports Radix_Tree "HOL-Library.Product_Lexorder"
begin

text \<open>
  The prefix cache, class \<^verbatim>\<open>RadixCache\<close> of \<^verbatim>\<open>mem_cache/radix_cache.py\<close>, with the eviction strategies of
  \<^verbatim>\<open>mem_cache/evict_policy.py\<close>: matching, insertion, locking along the path to the root, and eviction of
  unlocked leaves.
\<close>

section \<open>Definitions\<close>

subsection \<open>The cache\<close>

datatype eviction_policy = LRU | LFU | FIFO | MRU | FILO | Priority | SLRU nat

text \<open>\<^verbatim>\<open>get_priority\<close> of each strategy; a single number has the second component 0.\<close>

fun get_priority :: "eviction_policy \<Rightarrow> node_data \<Rightarrow> int \<times> int" where
  "get_priority LRU d = (last_access_time d, 0)"
| "get_priority LFU d = (hit_count d, last_access_time d)"
| "get_priority FIFO d = (creation_time d, 0)"
| "get_priority MRU d = (- last_access_time d, 0)"
| "get_priority FILO d = (- creation_time d, 0)"
| "get_priority Priority d = (priority d, last_access_time d)"
| "get_priority (SLRU threshold) d = (if hit_count d \<ge> int threshold then 1 else 0, last_access_time d)"

text \<open>\<^verbatim>\<open>str.lower\<close> on ASCII; a name with other characters is unknown either way.\<close>

definition str_lower :: "string \<Rightarrow> string" where
  "str_lower = map (\<lambda>ch. let n = (of_char ch :: nat) in if 65 \<le> n \<and> n \<le> 90 then char_of (n + 32) else ch)"

definition policy_of_name :: "string \<Rightarrow> eviction_policy result" where
  "policy_of_name name =
     (if name = ''lru'' then Inr LRU else if name = ''lfu'' then Inr LFU else if name = ''fifo'' then Inr FIFO
      else if name = ''mru'' then Inr MRU else if name = ''filo'' then Inr FILO
      else if name = ''priority'' then Inr Priority else if name = ''slru'' then Inr (SLRU 2)
      else Inl ValueError)"

record radix_cache =
  disable :: bool
  rc_page_size :: nat
  is_eagle :: bool
  eviction_strategy :: eviction_policy
  root_node :: tree_node
  counter :: nat
  evictable_size :: int
  protected_size :: int
  evictable_leaves :: "nat list"

definition reset :: "int \<Rightarrow> radix_cache \<Rightarrow> radix_cache" where
  "reset created c = c
     \<lparr>root_node := TreeNode
        ((new_data (counter c) (- (2 ^ 63 - 1)) created \<lparr>token_ids = [], extra_key = None, is_bigram = False\<rparr> [])
          \<lparr>lock_ref := 1\<rparr>) [],
      counter := Suc (counter c), evictable_size := 0, protected_size := 0, evictable_leaves := []\<rparr>"

definition radix_cache_init :: "int \<Rightarrow> bool \<Rightarrow> nat \<Rightarrow> bool \<Rightarrow> string \<Rightarrow> nat \<Rightarrow> radix_cache result" where
  "radix_cache_init created dis ps eagle policy_name next_id =
     rbind (policy_of_name (str_lower policy_name)) (\<lambda>policy.
     Inr (reset created
       \<lparr>disable = dis, rc_page_size = ps, is_eagle = eagle, eviction_strategy = policy,
        root_node = TreeNode (new_data 0 0 0 \<lparr>token_ids = [], extra_key = None, is_bigram = False\<rparr> []) [],
        counter = next_id, evictable_size = 0, protected_size = 0, evictable_leaves = []\<rparr>))"

definition match_prefix :: "int \<Rightarrow> int \<Rightarrow> radix_cache \<Rightarrow> radix_key \<Rightarrow> (int list \<times> nat \<times> radix_cache) result" where
  "match_prefix access created c key =
     (let key = fst (maybe_to_bigram_view (is_eagle c) key None);
          nothing = ([], nid (ndata (root_node c)), c)
      in if disable c \<or> key_len key = 0 then Inr nothing
         else
           let key = page_aligned (rc_page_size c) key
           in if key_len key = 0 then Inr nothing
              else rbind (match_prefix_helper (rc_page_size c) access created (counter c) (root_node c) key)
                     (\<lambda>(values, last, t, nxt). Inr (concat values, last, c\<lparr>root_node := t, counter := nxt\<rparr>)))"

text \<open>\<^verbatim>\<open>_update_leaf_status\<close> on the set of evictable leaves.\<close>

definition update_leaf_status :: "nat list \<Rightarrow> tree_node \<Rightarrow> nat list" where
  "update_leaf_status leaves node =
     (let i = nid (ndata node)
      in if lock_ref (ndata node) > 0 \<or> children node \<noteq> [] then removeAll i leaves
         else if i \<in> set leaves then leaves else leaves @ [i])"

fun find_node :: "nat \<Rightarrow> tree_node \<Rightarrow> tree_node option" where
  "find_node i (TreeNode d cs) =
     (if nid d = i then Some (TreeNode d cs)
      else foldl (\<lambda>r (ck, c). case r of Some t \<Rightarrow> Some t | None \<Rightarrow> find_node i c) None cs)"

definition rc_insert :: "int \<Rightarrow> int \<Rightarrow> radix_cache \<Rightarrow> radix_key \<Rightarrow> int list option \<Rightarrow> int option \<Rightarrow> bool \<Rightarrow> (nat \<times> radix_cache) result" where
  "rc_insert access created c key0 val0 prio chunked =
     (if disable c then Inr (0, c)
      else
        let (key1, val1) = maybe_to_bigram_view (is_eagle c) key0 val0;
            key = page_aligned (rc_page_size c) key1;
            val = (case val1 of Some v \<Rightarrow> take (key_len key) v | None \<Rightarrow> take (key_len key) (token_ids key))
        in rbind (insert_helper (rc_page_size c) access created (counter c) (root_node c) key val prio chunked)
             (\<lambda>(prefix_len, t, nxt, leaf).
           let c = c\<lparr>root_node := t, counter := nxt\<rparr>
           in case leaf of
                None \<Rightarrow> Inr (prefix_len, c)
              | Some (parent, d) \<Rightarrow>
                  let leaves = (case find_node parent t of None \<Rightarrow> evictable_leaves c
                                | Some p \<Rightarrow> update_leaf_status (evictable_leaves c) p)
                  in Inr (prefix_len, c\<lparr>evictable_size := evictable_size c + int (key_len (nkey d)),
                                       evictable_leaves := update_leaf_status leaves (TreeNode d [])\<rparr>)))"

text \<open>The nodes from a child of the root down to node \<open>i\<close>: the nodes \<^verbatim>\<open>inc_lock_ref\<close> visits, in reverse.\<close>

fun path_to :: "nat \<Rightarrow> tree_node \<Rightarrow> tree_node list option" where
  "path_to i (TreeNode d cs) =
     (if nid d = i then Some []
      else foldl (\<lambda>r (ck, c). case r of Some p \<Rightarrow> Some p | None \<Rightarrow> map_option ((#) c) (path_to i c)) None cs)"

fun add_lock :: "int \<Rightarrow> nat list \<Rightarrow> tree_node \<Rightarrow> tree_node" where
  "add_lock delta js (TreeNode d cs) =
     TreeNode (if nid d \<in> set js then d\<lparr>lock_ref := lock_ref d + delta\<rparr> else d)
       (map (\<lambda>(ck, c). (ck, add_lock delta js c)) cs)"

definition inc_step :: "int \<times> int \<times> int \<times> nat list \<Rightarrow> tree_node \<Rightarrow> int \<times> int \<times> int \<times> nat list" where
  "inc_step = (\<lambda>(ev, pr, delta, leaves) node.
     let n = int (key_len (nkey (ndata node)));
         (ev, pr, delta) = (if lock_ref (ndata node) = 0 then (ev - n, pr + n, delta - n) else (ev, pr, delta))
     in (ev, pr, delta,
         update_leaf_status leaves (TreeNode ((ndata node)\<lparr>lock_ref := lock_ref (ndata node) + 1\<rparr>) (children node))))"

definition dec_step :: "int \<times> int \<times> int \<times> nat list \<Rightarrow> tree_node \<Rightarrow> int \<times> int \<times> int \<times> nat list" where
  "dec_step = (\<lambda>(ev, pr, delta, leaves) node.
     let n = int (key_len (nkey (ndata node)));
         (ev, pr, delta) = (if lock_ref (ndata node) = 1 then (ev + n, pr - n, delta + n) else (ev, pr, delta))
     in (ev, pr, delta,
         update_leaf_status leaves (TreeNode ((ndata node)\<lparr>lock_ref := lock_ref (ndata node) - 1\<rparr>) (children node))))"

text \<open>
  The walk to the root. From a node of another tree it runs past the root: \<^verbatim>\<open>inc_lock_ref\<close> then reads a
  field of \<^verbatim>\<open>None\<close>, and \<^verbatim>\<open>dec_lock_ref\<close> has an assertion for it.
\<close>

definition lock_walk ::
  "py_error \<Rightarrow> (int \<times> int \<times> int \<times> nat list \<Rightarrow> tree_node \<Rightarrow> int \<times> int \<times> int \<times> nat list) \<Rightarrow> int \<Rightarrow> radix_cache \<Rightarrow> nat \<Rightarrow> (int \<times> radix_cache) result" where
  "lock_walk foreign step amount c node =
     (if disable c then Inr (0, c)
      else case path_to node (root_node c) of
             None \<Rightarrow> Inl foreign
           | Some p \<Rightarrow>
               let (ev, pr, delta, leaves) = foldl step (evictable_size c, protected_size c, 0, evictable_leaves c) (rev p)
               in Inr (delta, c\<lparr>root_node := add_lock amount (map (\<lambda>n. nid (ndata n)) p) (root_node c),
                              evictable_size := ev, protected_size := pr, evictable_leaves := leaves\<rparr>))"

definition inc_lock_ref :: "radix_cache \<Rightarrow> nat \<Rightarrow> (int \<times> radix_cache) result" where
  "inc_lock_ref c node = lock_walk AttributeError inc_step 1 c node"

definition dec_lock_ref :: "radix_cache \<Rightarrow> nat \<Rightarrow> (int \<times> radix_cache) result" where
  "dec_lock_ref c node = lock_walk AssertionError dec_step (- 1) c node"

subsection \<open>Eviction\<close>

fun parent_of :: "nat \<Rightarrow> tree_node \<Rightarrow> tree_node option" where
  "parent_of i (TreeNode d cs) =
     (if \<exists>(ck, c) \<in> set cs. nid (ndata c) = i then Some (TreeNode d cs)
      else foldl (\<lambda>r (ck, c). case r of Some t \<Rightarrow> Some t | None \<Rightarrow> parent_of i c) None cs)"

fun remove_child :: "nat \<Rightarrow> child_key \<Rightarrow> tree_node \<Rightarrow> tree_node" where
  "remove_child parent ck (TreeNode d cs) =
     (let cs' = map (\<lambda>(k, c). (k, remove_child parent ck c)) cs
      in TreeNode d (if nid d = parent then AList.delete ck cs' else cs'))"

definition delete_leaf :: "radix_cache \<Rightarrow> tree_node \<Rightarrow> (tree_node \<times> radix_cache) result" where
  "delete_leaf c node =
     rbind (get_child_key (nkey (ndata node)) (rc_page_size c)) (\<lambda>ck.
     case parent_of (nid (ndata node)) (root_node c) of
       None \<Rightarrow> Inl AssertionError
     | Some p \<Rightarrow>
         (case map_of (children p) ck of
            None \<Rightarrow> Inl AssertionError
          | Some v \<Rightarrow>
              if nid (ndata v) \<noteq> nid (ndata node) then Inl AssertionError
              else
                let p' = TreeNode (ndata p) (AList.delete ck (children p));
                    leaves = removeAll (nid (ndata node)) (evictable_leaves c)
                in Inr (p', c\<lparr>root_node := remove_child (nid (ndata p)) ck (root_node c),
                             evictable_size := evictable_size c - int (key_len (nkey (ndata node))),
                             evictable_leaves := update_leaf_status leaves p'\<rparr>)))"

text \<open>
  Heap entries: the priority with the access time that breaks ties (\<^verbatim>\<open>TreeNode.__lt__\<close>), and the node.
  Among entries that are equal in both, the model takes the first.
\<close>

type_synonym heap_entry = "((int \<times> int) \<times> int) \<times> nat"

definition heap_entry :: "eviction_policy \<Rightarrow> node_data \<Rightarrow> heap_entry" where
  "heap_entry policy d = ((get_priority policy d, last_access_time d), nid d)"

definition heap_pop :: "heap_entry list \<Rightarrow> heap_entry \<times> heap_entry list" where
  "heap_pop heap =
     (let least = foldl (\<lambda>m e. if fst e < fst m then e else m) (hd heap) (tl heap)
      in (least, remove1 least heap))"

fun evict_loop ::
  "nat \<Rightarrow> int \<Rightarrow> heap_entry list \<Rightarrow> int \<Rightarrow> int list list \<Rightarrow> radix_cache \<Rightarrow> (int \<times> int list list \<times> radix_cache) result" where
  "evict_loop 0 num_tokens heap num_evicted freed c = Inl Nontermination"
| "evict_loop (Suc fuel) num_tokens heap num_evicted freed c =
     (if num_evicted < num_tokens \<and> heap \<noteq> []
      then
        let (least, heap) = heap_pop heap
        in case find_node (snd least) (root_node c) of
             None \<Rightarrow> Inl AssertionError
           | Some x \<Rightarrow>
               rbind (delete_leaf c x) (\<lambda>(p, c).
               let heap = (if children p = [] \<and> lock_ref (ndata p) = 0
                           then heap @ [heap_entry (eviction_strategy c) (ndata p)] else heap)
               in evict_loop fuel num_tokens heap (num_evicted + int (length (nvalue (ndata x))))
                    (freed @ [nvalue (ndata x)]) c)
      else Inr (num_evicted, freed, c))"

text \<open>\<^verbatim>\<open>evict\<close>: the number of tokens evicted, the arguments of the calls of \<^verbatim>\<open>free\<close>, and the cache.\<close>

definition evict :: "radix_cache \<Rightarrow> int \<Rightarrow> (int \<times> int list list \<times> radix_cache) result" where
  "evict c num_tokens =
     (if disable c then Inr (0, [], c)
      else
        let leaves = List.map_filter (\<lambda>i. find_node i (root_node c)) (evictable_leaves c);
            heap = map (\<lambda>n. heap_entry (eviction_strategy c) (ndata n)) leaves
        in evict_loop (Suc (node_count (root_node c))) num_tokens heap 0 [] c)"

fun values_below :: "tree_node \<Rightarrow> int list" where
  "values_below (TreeNode d cs) = concat (map (\<lambda>(ck, c). nvalue (ndata c) @ values_below c) cs)"

definition all_values_flatten :: "radix_cache \<Rightarrow> int list" where
  "all_values_flatten c = values_below (root_node c)"

fun tokens_stored :: "tree_node \<Rightarrow> nat" where
  "tokens_stored (TreeNode d cs) = length (nvalue d) + sum_list (map (\<lambda>(ck, c). tokens_stored c) cs)"

definition total_size :: "radix_cache \<Rightarrow> nat" where
  "total_size c = tokens_stored (root_node c)"

section \<open>Finding a node\<close>

definition uniq :: "tree_node \<Rightarrow> bool" where
  "uniq t \<longleftrightarrow> (\<forall>i. count (ids t) i \<le> 1)"

lemma ids_append: "ids (TreeNode d (xs @ ys)) = ids (TreeNode d xs) + sum_list (map (\<lambda>(k, x). ids x) ys)"
  by (simp add: ids_simps)

lemma in_sum_ids: "i \<in># sum_list (map (\<lambda>(k, x). ids x) cs) \<longleftrightarrow> (\<exists>y \<in> set cs. i \<in># ids (snd y))"
  by (induction cs) auto

text \<open>The subtree that holds node \<open>i\<close>; its ids occur nowhere else.\<close>

lemma focus:
  assumes "uniq (TreeNode d cs)" "i \<in># ids (TreeNode d cs)" "nid d \<noteq> i"
  obtains xs k c ys where "cs = xs @ (k, c) # ys" "i \<in># ids c" "uniq c" "nid d \<notin># ids c"
    "\<And>y j. y \<in> set xs \<union> set ys \<Longrightarrow> j \<in># ids c \<Longrightarrow> j \<notin># ids (snd y)"
proof -
  obtain y where "y \<in> set cs" "i \<in># ids (snd y)" using assms(2,3) by (auto simp: ids_simps in_sum_ids)
  then obtain xs k c ys where cs: "cs = xs @ (k, c) # ys" "i \<in># ids c" by (metis prod.collapse split_list)
  have cnt: "count {#nid d#} j + count (sum_list (map (\<lambda>(k, x). ids x) xs)) j + count (ids c) j +
      count (sum_list (map (\<lambda>(k, x). ids x) ys)) j \<le> 1" for j
    using assms(1) [unfolded uniq_def cs(1) ids_simps, rule_format, of j]
    by (simp only: map_append sum_list.append list.map sum_list.Cons prod.case count_union add.assoc)
  have "uniq c" unfolding uniq_def using cnt by (metis add_leD1 add_leD2)
  moreover have "nid d \<notin># ids c" using cnt [of "nid d"] by (simp add: count_eq_zero_iff)
  moreover have "j \<notin># ids (snd y)" if "y \<in> set xs \<union> set ys" "j \<in># ids c" for y j
  proof -
    have "0 < count (ids c) j" using that(2) by simp
    with cnt [of j] have "j \<notin># sum_list (map (\<lambda>(k, x). ids x) xs)" "j \<notin># sum_list (map (\<lambda>(k, x). ids x) ys)"
      unfolding count_eq_zero_iff [symmetric] by linarith+
    then show ?thesis using that(1) unfolding in_sum_ids by blast
  qed
  ultimately show thesis using that cs by blast
qed

definition first_some :: "(tree_node \<Rightarrow> 'a option) \<Rightarrow> (child_key \<times> tree_node) list \<Rightarrow> 'a option" where
  "first_some f cs = foldl (\<lambda>r (ck, c). case r of Some t \<Rightarrow> Some t | None \<Rightarrow> f c) None cs"

lemma first_Some: "foldl (\<lambda>r (ck, c). case r of Some t \<Rightarrow> Some t | None \<Rightarrow> f c) (Some y) cs = Some y"
  by (induction cs) auto

lemma first_some_none: "(\<And>y. y \<in> set cs \<Longrightarrow> f (snd y) = None) \<Longrightarrow> first_some f cs = None"
  unfolding first_some_def by (induction cs rule: rev_induct) (auto simp: case_prod_beta)

lemma first_some_mid:
  assumes "\<And>y. y \<in> set xs \<Longrightarrow> f (snd y) = None" "f c = Some r"
  shows "first_some f (xs @ (k, c) # ys) = Some r"
  using first_some_none [of xs f, OF assms(1)] assms(2) by (simp add: first_some_def first_Some)

lemma absent_child: "i \<notin># ids (TreeNode d cs) \<Longrightarrow> nid d \<noteq> i \<and> (\<forall>y \<in> set cs. i \<notin># ids (snd y) \<and> nid (ndata (snd y)) \<noteq> i)"
  using ids_root by (fastforce simp: ids_simps in_sum_ids)

lemma find_node_absent: "i \<notin># ids t \<Longrightarrow> find_node i t = None"
proof (induction t rule: tree_induct)
  case (TreeNode d cs)
  note sub = absent_child [OF TreeNode.prems]
  have "first_some (find_node i) cs = None"
    by (rule first_some_none) (metis TreeNode.IH sub prod.collapse)
  then show ?case using sub by (simp add: first_some_def)
qed

lemma path_to_absent: "i \<notin># ids t \<Longrightarrow> path_to i t = None"
proof (induction t rule: tree_induct)
  case (TreeNode d cs)
  note sub = absent_child [OF TreeNode.prems]
  have "first_some (\<lambda>c. map_option ((#) c) (path_to i c)) cs = None"
    by (rule first_some_none) (metis TreeNode.IH sub prod.collapse option.map_disc_iff)
  then show ?case using sub by (simp add: first_some_def)
qed

lemma parent_of_absent: "i \<notin># ids t \<Longrightarrow> parent_of i t = None"
proof (induction t rule: tree_induct)
  case (TreeNode d cs)
  note sub = absent_child [OF TreeNode.prems]
  have "first_some (parent_of i) cs = None"
    by (rule first_some_none) (metis TreeNode.IH sub prod.collapse)
  then show ?case using sub by (auto simp: first_some_def)
qed

lemma remove_child_absent: "i \<notin># ids t \<Longrightarrow> remove_child i ck t = t"
proof (induction t rule: tree_induct)
  case (TreeNode d cs)
  note sub = absent_child [OF TreeNode.prems]
  have "map (\<lambda>(k, c). (k, remove_child i ck c)) cs = cs"
    by (rule map_idI) (metis (no_types, lifting) TreeNode.IH sub case_prod_beta prod.collapse)
  then show ?case using sub by simp
qed

lemma add_lock_absent: "(\<And>j. j \<in> set js \<Longrightarrow> j \<notin># ids t) \<Longrightarrow> add_lock a js t = t"
proof (induction t rule: tree_induct)
  case (TreeNode d cs)
  have "map (\<lambda>(k, c). (k, add_lock a js c)) cs = cs"
    by (rule map_idI) (metis (no_types, lifting) TreeNode.IH TreeNode.prems absent_child case_prod_beta prod.collapse)
  moreover have "nid d \<notin> set js" using TreeNode.prems [of "nid d"] by (auto simp: ids_simps)
  ultimately show ?case by simp
qed

lemma uniq_nid:
  assumes "uniq t" "x \<in> set (nodes t)" "y \<in> set (nodes t)" "nid (ndata x) = nid (ndata y)"
  shows "x = y"
proof -
  have "distinct (map (nid \<circ> ndata) (nodes t))"
    using assms(1) unfolding uniq_def ids_nodes by (metis count_mset_0_iff distinct_count_atmost_1 le_antisym less_one not_less set_mset_mset count_mset_gt_0 One_nat_def Suc_leI count_greater_zero_iff)
  then show ?thesis using assms(2-4) by (metis comp_apply distinct_map inj_onD)
qed

lemma find_node_nodes: "uniq t \<Longrightarrow> x \<in> set (nodes t) \<Longrightarrow> find_node (nid (ndata x)) t = Some x"
proof (induction t rule: tree_induct)
  case (TreeNode d cs)
  let ?i = "nid (ndata x)"
  show ?case
  proof (cases "nid d = ?i")
    case True
    then have "x = TreeNode d cs" using uniq_nid [OF TreeNode.prems(1), of x "TreeNode d cs"] TreeNode.prems(2) by simp
    with True show ?thesis by simp
  next
    case False
    have "?i \<in># ids (TreeNode d cs)" unfolding ids_nodes using TreeNode.prems(2) by (metis comp_apply image_eqI set_map set_mset_mset)
    from focus [OF TreeNode.prems(1) this False] obtain xs k c ys where f: "cs = xs @ (k, c) # ys" "?i \<in># ids c" "uniq c"
        "\<And>y j. y \<in> set xs \<union> set ys \<Longrightarrow> j \<in># ids c \<Longrightarrow> j \<notin># ids (snd y)" by metis
    obtain x' where x': "x' \<in> set (nodes c)" "nid (ndata x') = ?i" using f(2) unfolding ids_nodes by auto
    then have "x' \<in> set (nodes (TreeNode d cs))" using f(1) by auto
    then have "x' = x" using uniq_nid [OF TreeNode.prems(1)] TreeNode.prems(2) x'(2) by metis
    then have "find_node ?i c = Some x" using TreeNode.IH [of k c, OF _ f(3)] f(1) x'(1) by simp
    then have "first_some (find_node ?i) cs = Some x"
      unfolding f(1) using f(2,4) find_node_absent by (intro first_some_mid) auto
    then show ?thesis using False by (simp add: first_some_def)
  qed
qed

section \<open>Locking\<close>

definition bump :: "int \<Rightarrow> node_data \<Rightarrow> node_data" where
  "bump a d = d\<lparr>lock_ref := lock_ref d + a\<rparr>"

lemma bump_fields [simp]: "nid (bump a d) = nid d" "nkey (bump a d) = nkey d" "nvalue (bump a d) = nvalue d" "lock_ref (bump a d) = lock_ref d + a"
  by (simp_all add: bump_def)

text \<open>\<open>locked a i t p t'\<close>: the locks of the nodes \<open>p\<close> from below the root of \<open>t\<close> down to node \<open>i\<close> change by \<open>a\<close>.\<close>

inductive locked :: "int \<Rightarrow> nat \<Rightarrow> tree_node \<Rightarrow> tree_node list \<Rightarrow> tree_node \<Rightarrow> bool" for a i where
  here: "nid d = i \<Longrightarrow> (\<And>y. y \<in> set cs \<Longrightarrow> i \<notin># ids (snd y)) \<Longrightarrow> locked a i (TreeNode d cs) [] (TreeNode d cs)"
| down: "nid d \<noteq> i \<Longrightarrow> locked a i (TreeNode dc ccs) p (TreeNode dc ccs') \<Longrightarrow>
    (\<And>y. y \<in> set xs \<union> set ys \<Longrightarrow> i \<notin># ids (snd y)) \<Longrightarrow>
    locked a i (TreeNode d (xs @ (k, TreeNode dc ccs) # ys)) (TreeNode dc ccs # p) (TreeNode d (xs @ (k, TreeNode (bump a dc) ccs') # ys))"

lemma locked_data: "locked a i t p t' \<Longrightarrow> ndata t' = ndata t \<and> (children t' = [] \<longleftrightarrow> children t = [])"
  by (erule locked.cases) auto

lemma locked_ids: "locked a i t p t' \<Longrightarrow> ids t' = ids t \<and> i \<in># ids t"
  by (induction rule: locked.induct) (auto simp: ids_simps)

lemma locked_below: "locked a i t p t' \<Longrightarrow> below ps t' = below ps t"
proof (induction rule: locked.induct)
  case (down d dc ccs p ccs' xs ys k)
  then show ?case by (simp add: below_def node_pages_def)
qed simp

lemma locked_wf: "locked a i t p t' \<Longrightarrow> wf_tree ps e t \<Longrightarrow> wf_tree ps e t'"
proof (induction rule: locked.induct)
  case (down d dc ccs p ccs' xs ys k)
  then show ?case by (auto simp: child_ok_def)
qed

lemma locked_paths: "locked a i t p t' \<Longrightarrow> node_paths t' = node_paths t"
  by (induction rule: locked.induct) auto

lemma locked_sum:
  "locked a i t p t' \<Longrightarrow>
   tsum f t' + sum_list (map (\<lambda>x. f (ndata x) (children x = [])) p) =
   tsum f t + sum_list (map (\<lambda>x. f (bump a (ndata x)) (children x = [])) p)"
proof (induction rule: locked.induct)
  case (down d dc ccs p ccs' xs ys k)
  have leaf: "(ccs' = []) = (ccs = [])" using locked_data [OF down.hyps(2)] by simp
  let ?s = "sum_list (map (\<lambda>(k, x). tsum f x) ccs)" and ?s' = "sum_list (map (\<lambda>(k, x). tsum f x) ccs')"
  let ?b = "f (bump a dc) (ccs = [])" and ?o = "f dc (ccs = [])"
  let ?p = "sum_list (map (\<lambda>x. f (ndata x) (children x = [])) p)" and ?q = "sum_list (map (\<lambda>x. f (bump a (ndata x)) (children x = [])) p)"
  have "?o + ?s' + ?p = ?o + ?s + ?q" using down.IH leaf by simp
  then have "?b + (?o + ?s' + ?p) = ?b + (?o + ?s + ?q)" by simp
  then have "(?b + ?s') + (?o + ?p) = (?o + ?s) + (?b + ?q)" by (simp add: ac_simps)
  then have "f d False + sum_list (map (\<lambda>(k, x). tsum f x) xs) + sum_list (map (\<lambda>(k, x). tsum f x) ys) + ((?b + ?s') + (?o + ?p)) =
      f d False + sum_list (map (\<lambda>(k, x). tsum f x) xs) + sum_list (map (\<lambda>(k, x). tsum f x) ys) + ((?o + ?s) + (?b + ?q))" by simp
  then show ?case using leaf by (simp add: ac_simps)
qed simp

definition shifts :: "int \<Rightarrow> nat \<Rightarrow> nat multiset \<Rightarrow> nat multiset \<Rightarrow> bool" where
  "shifts a i L L' \<longleftrightarrow>
     (\<forall>I :: nat multiset. int (size (filter_mset (\<lambda>j. j \<in># I) L')) = int (size (filter_mset (\<lambda>j. j \<in># I) L)) + (if i \<in># I then a else 0))"

lemma shifts_inc: "shifts 1 i L (add_mset i L)"
  by (simp add: shifts_def)

lemma shifts_dec: "i \<in># L \<Longrightarrow> shifts (- 1) i L (L - {#i#})"
  by (auto simp: shifts_def dest!: multi_member_split)

lemma locks_other: "shifts a i L L' \<Longrightarrow> i \<notin># ids t \<Longrightarrow> locks_ok L t \<Longrightarrow> locks_ok L' t"
proof (induction t rule: tree_induct)
  case (TreeNode d cs)
  then show ?case using absent_child [OF TreeNode.prems(2)] by (fastforce simp: shifts_def)
qed

lemma locks_simps:
  "locks_ok L (TreeNode d cs) \<longleftrightarrow>
     (\<forall>y \<in> set cs. lock_ref (ndata (snd y)) = int (size (filter_mset (\<lambda>i. i \<in># ids (snd y)) L)) \<and> locks_ok L (snd y))"
  by (simp add: case_prod_beta)

lemma locked_locks: "locked a i t p t' \<Longrightarrow> shifts a i L L' \<Longrightarrow> locks_ok L t \<Longrightarrow> locks_ok L' t'"
proof (induction rule: locked.induct)
  case (here d cs)
  have "lock_ref (ndata (snd y)) = int (size (filter_mset (\<lambda>j. j \<in># ids (snd y)) L')) \<and> locks_ok L' (snd y)"
    if "y \<in> set cs" for y
    using here.prems here.hyps(2) [OF that] that locks_other [OF here.prems(1)] by (auto simp: shifts_def)
  then show ?case by (auto simp: case_prod_beta)
next
  case (down d dc ccs p ccs' xs ys k)
  have ids: "ids (TreeNode (bump a dc) ccs') = ids (TreeNode dc ccs)" "i \<in># ids (TreeNode dc ccs)"
    using locked_ids [OF down.hyps(2)] by (simp_all add: ids_simps)
  have "locks_ok L' (TreeNode (bump a dc) ccs')" using down by simp
  moreover have "lock_ref (bump a dc) = int (size (filter_mset (\<lambda>j. j \<in># ids (TreeNode (bump a dc) ccs')) L'))"
    using down.prems ids by (simp add: shifts_def)
  moreover have "lock_ref (ndata (snd y)) = int (size (filter_mset (\<lambda>j. j \<in># ids (snd y)) L')) \<and> locks_ok L' (snd y)"
    if "y \<in> set xs \<union> set ys" for y
    using down.prems [unfolded locks_simps shifts_def] down.hyps(3) [OF that] that locks_other [OF down.prems(1)] by auto
  ultimately show ?case by (auto simp: case_prod_beta)
qed

lemma locked_subset: "locked a i t p t' \<Longrightarrow> x \<in> set p \<Longrightarrow> x \<in> set (nodes t) \<and> i \<in># ids x"
proof (induction rule: locked.induct)
  case (down d dc ccs p ccs' xs ys k)
  then show ?case using locked_ids [OF down.hyps(2)] by auto
qed simp

lemma uniq_root:
  assumes "uniq (TreeNode d cs)" "y \<in> set cs"
  shows "nid d \<notin># ids (snd y)"
proof
  assume "nid d \<in># ids (snd y)"
  then have "0 < count (sum_list (map (\<lambda>(k, x). ids x) cs)) (nid d)" using assms(2) in_sum_ids [of "nid d" cs] by auto
  moreover have "count (ids (TreeNode d cs)) (nid d) = 1 + count (sum_list (map (\<lambda>(k, x). ids x) cs)) (nid d)"
    unfolding ids_simps count_union by simp
  moreover have "count (ids (TreeNode d cs)) (nid d) \<le> 1" using assms(1) by (simp add: uniq_def)
  ultimately show False by linarith
qed

lemma add_lock_skip: "j \<notin># ids t \<Longrightarrow> add_lock a (j # js) t = add_lock a js t"
proof (induction t rule: tree_induct)
  case (TreeNode d cs)
  have "map (\<lambda>(k, c). (k, add_lock a (j # js) c)) cs = map (\<lambda>(k, c). (k, add_lock a js c)) cs"
    by (rule map_cong [OF refl]) (metis (no_types, lifting) TreeNode.IH TreeNode.prems absent_child case_prod_beta prod.collapse)
  then show ?case using absent_child [OF TreeNode.prems] by simp
qed

lemma add_lock_root:
  assumes "uniq (TreeNode d cs)" "nid d \<notin> set js"
  shows "add_lock a (nid d # js) (TreeNode d cs) = TreeNode (bump a d) (children (add_lock a js (TreeNode d cs)))"
proof -
  have "map (\<lambda>(k, c). (k, add_lock a (nid d # js) c)) cs = map (\<lambda>(k, c). (k, add_lock a js c)) cs"
    by (rule map_cong [OF refl]) (use uniq_root [OF assms(1)] add_lock_skip in \<open>fastforce simp: case_prod_beta\<close>)
  then show ?thesis using assms(2) by (simp add: bump_def)
qed

lemma map_snd_id: "(\<And>y. y \<in> set xs \<Longrightarrow> f (snd y) = snd y) \<Longrightarrow> map (\<lambda>(k, c). (k, f c)) xs = xs"
  by (rule map_idI) (simp add: case_prod_beta)

lemma locked_exists: "uniq t \<Longrightarrow> i \<in># ids t \<Longrightarrow>
  \<exists>p. path_to i t = Some p \<and> locked a i t p (add_lock a (map (\<lambda>n. nid (ndata n)) p) t) \<and>
    distinct (map (\<lambda>n. nid (ndata n)) p) \<and> (\<forall>x \<in> set p. nid (ndata x) \<in># ids t \<and> nid (ndata x) \<noteq> nid (ndata t))"
proof (induction t rule: tree_induct)
  case (TreeNode d cs)
  show ?case
  proof (cases "nid d = i")
    case True
    moreover have "add_lock a [] (TreeNode d cs) = TreeNode d cs" by (rule add_lock_absent) simp
    moreover have "locked a i (TreeNode d cs) [] (TreeNode d cs)" using True uniq_root [OF TreeNode.prems(1)] by (intro locked.here) auto
    ultimately show ?thesis by (auto simp del: add_lock.simps)
  next
    case False
    from focus [OF TreeNode.prems False] obtain xs k c ys where f: "cs = xs @ (k, c) # ys" "i \<in># ids c" "uniq c" "nid d \<notin># ids c"
        "\<And>y j. y \<in> set xs \<union> set ys \<Longrightarrow> j \<in># ids c \<Longrightarrow> j \<notin># ids (snd y)" by metis
    obtain dc ccs where c: "c = TreeNode dc ccs" by (cases c)
    obtain p where IH: "path_to i c = Some p" "locked a i c p (add_lock a (map (\<lambda>n. nid (ndata n)) p) c)"
        "distinct (map (\<lambda>n. nid (ndata n)) p)" "\<forall>x \<in> set p. nid (ndata x) \<in># ids c \<and> nid (ndata x) \<noteq> nid (ndata c)"
      using TreeNode.IH [of k c] f by auto
    let ?js = "map (\<lambda>n. nid (ndata n)) p" and ?ids = "map (\<lambda>n. nid (ndata n)) (c # p)"
    have js: "j \<in># ids c" if "j \<in> set ?ids" for j using that IH(4) by auto
    have "first_some (\<lambda>c. map_option ((#) c) (path_to i c)) cs = Some (c # p)"
      unfolding f(1) using f(2,5) IH(1) path_to_absent by (intro first_some_mid) auto
    then have path: "path_to i (TreeNode d cs) = Some (c # p)" using False by (simp add: first_some_def)
    have same: "add_lock a ?ids (snd y) = snd y" if "y \<in> set xs \<union> set ys" for y
      using f(5) [OF that] js by (intro add_lock_absent) auto
    have others: "map (\<lambda>(k, c). (k, add_lock a ?ids c)) xs = xs" "map (\<lambda>(k, c). (k, add_lock a ?ids c)) ys = ys"
      by (rule map_snd_id; use same in blast)+
    have notin: "nid dc \<notin> set ?js" "nid d \<notin> set ?ids" using IH(4) js f(4) by (auto simp: c)
    obtain ccs' where ccs': "add_lock a ?js c = TreeNode dc ccs'" using notin(1) by (simp add: c)
    have "add_lock a ?ids c = TreeNode (bump a dc) ccs'" using add_lock_root [of dc ccs ?js a] f(3) notin(1) ccs' by (simp add: c del: add_lock.simps)
    then have "add_lock a ?ids (TreeNode d cs) = TreeNode d (xs @ (k, TreeNode (bump a dc) ccs') # ys)"
      using others notin(2) unfolding f(1) by simp
    moreover have "locked a i (TreeNode d cs) (c # p) (TreeNode d (xs @ (k, TreeNode (bump a dc) ccs') # ys))"
      unfolding f(1) c using IH(2) f(2,5) False ccs' by (intro locked.down) (auto simp: c simp del: add_lock.simps)
    moreover have "distinct ?ids" using IH(3) notin(1) by (simp add: c)
    moreover have "nid (ndata x) \<in># ids (TreeNode d cs) \<and> nid (ndata x) \<noteq> nid d" if "x \<in> set (c # p)" for x
    proof -
      have "nid (ndata x) \<in># ids c" using that IH(4) by auto
      then show ?thesis using f(1,4) child_ids [of k c cs] by auto
    qed
    ultimately show ?thesis using path by (auto simp del: add_lock.simps)
  qed
qed

subsection \<open>Free leaves\<close>

definition free_node :: "node_data \<Rightarrow> bool \<Rightarrow> bool" where
  "free_node d leaf \<longleftrightarrow> lock_ref d = 0 \<and> leaf"

lemma in_free_leaves: "j \<in># free_leaves t \<longleftrightarrow> (\<exists>x \<in> set (nodes t). nid (ndata x) = j \<and> free_node (ndata x) (children x = []))"
proof -
  have "j \<in># sum_list (map (\<lambda>x. if lock_ref (ndata x) = 0 \<and> children x = [] then {#nid (ndata x)#} else {#}) xs) \<longleftrightarrow>
      (\<exists>x \<in> set xs. nid (ndata x) = j \<and> free_node (ndata x) (children x = []))" for xs
    by (induction xs) (auto simp: free_node_def)
  then show ?thesis by (simp add: free_leaves_def tsum_nodes)
qed

lemma free_leaves_node: "uniq t \<Longrightarrow> x \<in> set (nodes t) \<Longrightarrow> nid (ndata x) \<in># free_leaves t \<longleftrightarrow> free_node (ndata x) (children x = [])"
  using uniq_nid in_free_leaves by metis

lemma free_leaves_le: "count (free_leaves t) j \<le> count (ids t) j"
proof -
  have "count (sum_list (map (\<lambda>x. if lock_ref (ndata x) = 0 \<and> children x = [] then {#nid (ndata x)#} else {#}) xs)) j \<le>
      count (mset (map (nid \<circ> ndata) xs)) j" for xs
    by (induction xs) auto
  then show ?thesis by (simp add: free_leaves_def tsum_nodes ids_nodes)
qed

lemma count_distinct_sum:
  assumes "distinct (map h p)"
  shows "count (sum_list (map (\<lambda>x. if B x then {#h x#} else {#}) p)) j = (if \<exists>x \<in> set p. h x = j \<and> B x then 1 else 0)"
  using assms
proof (induction p)
  case (Cons y p)
  then have "h y \<notin> h ` set p" "distinct (map h p)" by simp_all
  then have none: "\<not> (\<exists>x \<in> set p. h x = h y \<and> B x)" by (metis imageI)
  note IH = Cons.IH [OF \<open>distinct (map h p)\<close>]
  show ?case
  proof (cases "h y = j")
    case True
    then have "count (sum_list (map (\<lambda>x. if B x then {#h x#} else {#}) p)) j = 0" unfolding IH using none by simp
    with True none show ?thesis by auto
  next
    case False
    with IH show ?thesis by simp
  qed
qed simp

lemma locked_free_leaves:
  assumes "locked a i t p t'" "uniq t" "distinct (map (\<lambda>n. nid (ndata n)) p)"
  shows "set_mset (free_leaves t') = (set_mset (free_leaves t) - (\<lambda>n. nid (ndata n)) ` set p) \<union>
    {nid (ndata x) | x. x \<in> set p \<and> free_node (bump a (ndata x)) (children x = [])}"
proof -
  let ?P = "sum_list (map (\<lambda>x. if free_node (ndata x) (children x = []) then {#nid (ndata x)#} else {#}) p)"
  let ?Q = "sum_list (map (\<lambda>x. if free_node (bump a (ndata x)) (children x = []) then {#nid (ndata x)#} else {#}) p)"
  have "free_leaves t' + ?P = free_leaves t + ?Q"
    using locked_sum [OF assms(1), of "\<lambda>d leaf. if free_node d leaf then {#nid d#} else {#}"]
    by (simp add: free_leaves_def free_node_def cong: if_cong)
  then have eq: "count (free_leaves t') j + count ?P j = count (free_leaves t) j + count ?Q j" for j
    by (metis count_union)
  note cnt = count_distinct_sum [OF assms(3)]
  have "j \<in># free_leaves t' \<longleftrightarrow> j \<in> (set_mset (free_leaves t) - (\<lambda>n. nid (ndata n)) ` set p) \<union>
      {nid (ndata x) | x. x \<in> set p \<and> free_node (bump a (ndata x)) (children x = [])}" for j
  proof (cases "j \<in> (\<lambda>n. nid (ndata n)) ` set p")
    case False
    then have none: "\<not> (\<exists>x \<in> set p. nid (ndata x) = j \<and> B x)" for B by (metis imageI)
    have "count ?P j = 0" "count ?Q j = 0" unfolding cnt by (rule if_not_P [OF none])+
    then have "count (free_leaves t') j = count (free_leaves t) j" using eq [of j] by simp
    with False show ?thesis by (auto simp flip: count_greater_zero_iff)
  next
    case True
    then obtain x where x: "x \<in> set p" "j = nid (ndata x)" by auto
    have only: "y = x" if "y \<in> set p" "nid (ndata y) = j" for y
      using that x assms(3) by (auto simp: distinct_map dest: inj_onD)
    have "count (free_leaves t) j \<le> 1" using free_leaves_le [of t j] assms(2) by (metis uniq_def le_trans)
    moreover have "j \<in># free_leaves t \<longleftrightarrow> free_node (ndata x) (children x = [])"
      using free_leaves_node [OF assms(2)] locked_subset [OF assms(1) x(1)] x(2) by simp
    ultimately have "count (free_leaves t) j = (if free_node (ndata x) (children x = []) then 1 else 0)"
      by (auto simp: count_eq_zero_iff le_Suc_eq)
    moreover have "(\<exists>y \<in> set p. nid (ndata y) = j \<and> B y) \<longleftrightarrow> B x" for B using x only by blast
    ultimately have "count (free_leaves t') j = (if free_node (bump a (ndata x)) (children x = []) then 1 else 0)"
      using eq [of j] unfolding cnt by simp
    then have "j \<in># free_leaves t' \<longleftrightarrow> free_node (bump a (ndata x)) (children x = [])"
      by (auto simp flip: count_greater_zero_iff split: if_splits)
    then show ?thesis using True x only by blast
  qed
  then show ?thesis by blast
qed

lemma update_leaf_set:
  assumes "0 \<le> lock_ref (ndata x)"
  shows "set (update_leaf_status lv x) = (set lv - {nid (ndata x)}) \<union> (if free_node (ndata x) (children x = []) then {nid (ndata x)} else {})"
  using assms by (auto simp: update_leaf_status_def Let_def free_node_def)

lemma update_leaf_distinct: "distinct lv \<Longrightarrow> distinct (update_leaf_status lv x)"
  by (auto simp: update_leaf_status_def Let_def distinct_removeAll)

definition leaf_walk :: "int \<Rightarrow> nat list \<Rightarrow> tree_node list \<Rightarrow> nat list" where
  "leaf_walk a lv xs = foldl (\<lambda>l x. update_leaf_status l (TreeNode (bump a (ndata x)) (children x))) lv xs"

lemma leaf_walk_distinct: "distinct lv \<Longrightarrow> distinct (leaf_walk a lv xs)"
  unfolding leaf_walk_def by (induction xs arbitrary: lv) (auto simp: update_leaf_distinct)

lemma leaf_walk_set:
  assumes "distinct (map (\<lambda>n. nid (ndata n)) xs)" "\<And>x. x \<in> set xs \<Longrightarrow> 0 \<le> lock_ref (ndata x) + a"
  shows "set (leaf_walk a lv xs) = (set lv - (\<lambda>n. nid (ndata n)) ` set xs) \<union>
    {nid (ndata x) | x. x \<in> set xs \<and> free_node (bump a (ndata x)) (children x = [])}"
  using assms
proof (induction xs rule: rev_induct)
  case (snoc y xs)
  have "set (leaf_walk a lv (xs @ [y])) = (set (leaf_walk a lv xs) - {nid (ndata y)}) \<union>
      (if free_node (bump a (ndata y)) (children y = []) then {nid (ndata y)} else {})"
    using snoc.prems(2) [of y] unfolding leaf_walk_def by (simp add: update_leaf_set)
  with snoc show ?case by auto
qed (simp add: leaf_walk_def)

subsection \<open>The walks\<close>

definition size_at :: "int \<Rightarrow> tree_node list \<Rightarrow> int" where
  "size_at r xs = sum_list (map (\<lambda>x. if lock_ref (ndata x) = r then int (key_len (nkey (ndata x))) else 0) xs)"

lemma size_at_rev [simp]: "size_at r (rev xs) = size_at r xs"
  unfolding size_at_def rev_map [symmetric] by simp

lemma size_at_Cons: "size_at r (x # xs) = (if lock_ref (ndata x) = r then int (key_len (nkey (ndata x))) else 0) + size_at r xs"
  by (simp add: size_at_def)

lemma size_at_Nil [simp]: "size_at r [] = 0"
  by (simp add: size_at_def)

lemma inc_walk: "foldl inc_step (ev, pr, dl, lv) xs = (ev - size_at 0 xs, pr + size_at 0 xs, dl - size_at 0 xs, leaf_walk 1 lv xs)"
proof (induction xs arbitrary: ev pr dl lv)
  case (Cons x xs)
  let ?n = "if lock_ref (ndata x) = 0 then int (key_len (nkey (ndata x))) else 0"
  have "inc_step (ev, pr, dl, lv) x = (ev - ?n, pr + ?n, dl - ?n, update_leaf_status lv (TreeNode (bump 1 (ndata x)) (children x)))"
    by (simp add: inc_step_def bump_def Let_def)
  then show ?case by (simp only: foldl_Cons Cons.IH) (simp add: size_at_Cons leaf_walk_def)
qed (simp add: leaf_walk_def)

lemma dec_walk: "foldl dec_step (ev, pr, dl, lv) xs = (ev + size_at 1 xs, pr - size_at 1 xs, dl + size_at 1 xs, leaf_walk (- 1) lv xs)"
proof (induction xs arbitrary: ev pr dl lv)
  case (Cons x xs)
  let ?n = "if lock_ref (ndata x) = 1 then int (key_len (nkey (ndata x))) else 0"
  have "dec_step (ev, pr, dl, lv) x = (ev + ?n, pr - ?n, dl + ?n, update_leaf_status lv (TreeNode (bump (- 1) (ndata x)) (children x)))"
    by (simp add: dec_step_def bump_def Let_def)
  then show ?case by (simp only: foldl_Cons Cons.IH) (simp add: size_at_Cons leaf_walk_def)
qed (simp add: leaf_walk_def)

lemma locked_inc_sizes:
  assumes "locked 1 i t p t'" "\<forall>x \<in> set p. 0 \<le> lock_ref (ndata x)"
  shows "unlocked_size t' = unlocked_size t - size_at 0 p" "locked_size t' = locked_size t + size_at 0 p"
proof -
  have "sum_list (map (\<lambda>x. if lock_ref (ndata x) + 1 = 0 then int (key_len (nkey (ndata x))) else 0) p) = 0"
    using assms(2) by (induction p) auto
  with locked_sum [OF assms(1), of "\<lambda>d leaf. if lock_ref d = 0 then int (key_len (nkey d)) else 0"]
  show "unlocked_size t' = unlocked_size t - size_at 0 p" by (simp add: unlocked_size_def size_at_def cong: if_cong)
  have "sum_list (map (\<lambda>x. if lock_ref (ndata x) + 1 = 0 then 0 else int (key_len (nkey (ndata x)))) p) =
      size_at 0 p + sum_list (map (\<lambda>x. if lock_ref (ndata x) = 0 then 0 else int (key_len (nkey (ndata x)))) p)"
    using assms(2) by (induction p) (auto simp: size_at_Cons)
  with locked_sum [OF assms(1), of "\<lambda>d leaf. if lock_ref d = 0 then 0 else int (key_len (nkey d))"]
  show "locked_size t' = locked_size t + size_at 0 p" by (simp add: locked_size_def cong: if_cong)
qed

lemma locked_dec_sizes:
  assumes "locked (- 1) i t p t'" "\<forall>x \<in> set p. 1 \<le> lock_ref (ndata x)"
  shows "unlocked_size t' = unlocked_size t + size_at 1 p" "locked_size t' = locked_size t - size_at 1 p"
proof -
  have "sum_list (map (\<lambda>x. if lock_ref (ndata x) = 0 then int (key_len (nkey (ndata x))) else 0) p) = 0"
    using assms(2) by (induction p) auto
  with locked_sum [OF assms(1), of "\<lambda>d leaf. if lock_ref d = 0 then int (key_len (nkey d)) else 0"]
  show "unlocked_size t' = unlocked_size t + size_at 1 p" by (simp add: unlocked_size_def size_at_def cong: if_cong)
  have "sum_list (map (\<lambda>x. if lock_ref (ndata x) = 0 then 0 else int (key_len (nkey (ndata x)))) p) =
      size_at 1 p + sum_list (map (\<lambda>x. if lock_ref (ndata x) - 1 = 0 then 0 else int (key_len (nkey (ndata x)))) p)"
    using assms(2) by (induction p) (auto simp: size_at_Cons)
  with locked_sum [OF assms(1), of "\<lambda>d leaf. if lock_ref d = 0 then 0 else int (key_len (nkey d))"]
  show "locked_size t' = locked_size t - size_at 1 p" by (simp add: locked_size_def cong: if_cong)
qed

section \<open>The invariant of the cache\<close>

text \<open>\<open>L\<close> holds one entry for each lock that is held.\<close>

definition cache_inv :: "radix_cache \<Rightarrow> nat multiset \<Rightarrow> bool" where
  "cache_inv c L \<longleftrightarrow>
     0 < rc_page_size c \<and> wf_tree (rc_page_size c) (is_eagle c) (root_node c) \<and>
     uniq (root_node c) \<and> (\<forall>i \<in># ids (root_node c). i < counter c) \<and>
     lock_ref (ndata (root_node c)) = 1 \<and> key_len (nkey (ndata (root_node c))) = 0 \<and> nvalue (ndata (root_node c)) = [] \<and>
     set_mset L \<subseteq> set_mset (ids (root_node c)) \<and> locks_ok L (root_node c) \<and>
     evictable_size c = unlocked_size (root_node c) \<and> protected_size c = locked_size (root_node c) \<and>
     set (evictable_leaves c) = set_mset (free_leaves (root_node c)) \<and> distinct (evictable_leaves c)"

definition same_config :: "radix_cache \<Rightarrow> radix_cache \<Rightarrow> bool" where
  "same_config c c' \<longleftrightarrow> disable c' = disable c \<and> rc_page_size c' = rc_page_size c \<and> is_eagle c' = is_eagle c \<and>
     eviction_strategy c' = eviction_strategy c"

abbreviation contents :: "radix_cache \<Rightarrow> (tpath \<times> int list) list" where
  "contents c \<equiv> below (rc_page_size c) (root_node c)"

lemma lock_ref_counts:
  "locks_ok L t \<Longrightarrow> x \<in> set (nodes t) \<Longrightarrow> x \<noteq> t \<Longrightarrow> lock_ref (ndata x) = int (size (filter_mset (\<lambda>i. i \<in># ids x) L))"
proof (induction t rule: tree_induct)
  case (TreeNode d cs)
  then obtain y where y: "y \<in> set cs" "x \<in> set (nodes (snd y))" by (auto simp: case_prod_beta)
  then have "lock_ref (ndata (snd y)) = int (size (filter_mset (\<lambda>i. i \<in># ids (snd y)) L))" "locks_ok L (snd y)"
    using TreeNode.prems(1) unfolding locks_simps by auto
  then show ?case using TreeNode.IH [of "fst y" "snd y"] y by (cases "x = snd y") auto
qed

lemma reset_inv: "0 < rc_page_size c \<Longrightarrow> cache_inv (reset created c) {#} \<and> contents (reset created c) = []"
  by (auto simp: cache_inv_def reset_def new_data_def uniq_def ids_simps unlocked_size_def locked_size_def free_leaves_def key_len_def)

subsection \<open>Locks\<close>

lemma lock_path:
  assumes "cache_inv c L" "locked a i (root_node c) p t'" "\<forall>x \<in> set p. nid (ndata x) \<noteq> nid (ndata (root_node c))"
  shows "\<forall>x \<in> set p. lock_ref (ndata x) = int (size (filter_mset (\<lambda>j. j \<in># ids x) L)) \<and> i \<in># ids x"
proof
  fix x
  assume x: "x \<in> set p"
  then have "x \<noteq> root_node c" using assms(3) by auto
  with lock_ref_counts [of L "root_node c" x] locked_subset [OF assms(2) x] assms(1)
  show "lock_ref (ndata x) = int (size (filter_mset (\<lambda>j. j \<in># ids x) L)) \<and> i \<in># ids x" by (simp add: cache_inv_def)
qed

lemma lock_step_inv:
  assumes inv: "cache_inv c L" and lk: "locked a i (root_node c) p t'" and dist: "distinct (map (\<lambda>n. nid (ndata n)) p)"
    and L': "shifts a i L L'" "set_mset L' \<subseteq> insert i (set_mset L)"
    and refs: "\<forall>x \<in> set p. 0 \<le> lock_ref (ndata x) + a"
    and ev: "unlocked_size t' = unlocked_size (root_node c) + D" "locked_size t' = locked_size (root_node c) - D"
    and c': "c' = c\<lparr>root_node := t', evictable_size := evictable_size c + D, protected_size := protected_size c - D,
      evictable_leaves := leaf_walk a (evictable_leaves c) (rev p)\<rparr>"
  shows "cache_inv c' L'" "same_config c c'" "contents c' = contents c" "node_paths (root_node c') = node_paths (root_node c)"
proof -
  have data: "ndata t' = ndata (root_node c)" using locked_data [OF lk] by simp
  have leaves: "set (leaf_walk a (evictable_leaves c) (rev p)) = set_mset (free_leaves t')"
  proof -
    have "distinct (map (\<lambda>n. nid (ndata n)) (rev p))" using dist by (simp add: rev_map [symmetric])
    then show ?thesis
      using leaf_walk_set [of "rev p" a "evictable_leaves c"] refs locked_free_leaves [OF lk _ dist] inv by (simp add: cache_inv_def)
  qed
  have ids: "ids t' = ids (root_node c)" "i \<in># ids (root_node c)" using locked_ids [OF lk] by auto
  have "uniq t'" using inv ids by (simp add: cache_inv_def uniq_def)
  then show "cache_inv c' L'"
    using inv ev leaves data ids L'(2) locked_wf [OF lk] locked_locks [OF lk L'(1)] leaf_walk_distinct
    unfolding cache_inv_def c' by auto
  show "same_config c c'" "contents c' = contents c" "node_paths (root_node c') = node_paths (root_node c)"
    using locked_below [OF lk] locked_paths [OF lk] by (simp_all add: c' same_config_def)
qed

lemma inc_lock_ref_ok:
  assumes inv: "cache_inv c L" and i: "i \<in># ids (root_node c)" and on: "\<not> disable c"
  shows "\<exists>c'. inc_lock_ref c i = Inr (evictable_size c' - evictable_size c, c') \<and> cache_inv c' (add_mset i L) \<and>
    same_config c c' \<and> contents c' = contents c \<and> node_paths (root_node c') = node_paths (root_node c)"
proof -
  have "uniq (root_node c)" using inv by (simp add: cache_inv_def)
  from locked_exists [OF this i, of 1] obtain p where p: "path_to i (root_node c) = Some p"
      "locked 1 i (root_node c) p (add_lock 1 (map (\<lambda>n. nid (ndata n)) p) (root_node c))"
      "distinct (map (\<lambda>n. nid (ndata n)) p)" "\<forall>x \<in> set p. nid (ndata x) \<noteq> nid (ndata (root_node c))" by blast
  have refs: "\<forall>x \<in> set p. 0 \<le> lock_ref (ndata x)" using lock_path [OF inv p(2,4)] by simp
  define c' where "c' = c\<lparr>root_node := add_lock 1 (map (\<lambda>n. nid (ndata n)) p) (root_node c),
    evictable_size := evictable_size c + - size_at 0 p, protected_size := protected_size c - - size_at 0 p,
    evictable_leaves := leaf_walk 1 (evictable_leaves c) (rev p)\<rparr>"
  have "inc_lock_ref c i = Inr (evictable_size c' - evictable_size c, c')"
    using on p(1) by (simp add: inc_lock_ref_def lock_walk_def inc_walk c'_def)
  moreover have "cache_inv c' (add_mset i L)" "same_config c c'" "contents c' = contents c" "node_paths (root_node c') = node_paths (root_node c)"
    using lock_step_inv [OF inv p(2,3) shifts_inc _ _ _ _ c'_def] locked_inc_sizes [OF p(2) refs] refs by auto
  ultimately show ?thesis by blast
qed

lemma dec_lock_ref_ok:
  assumes inv: "cache_inv c L" and i: "i \<in># L" and on: "\<not> disable c"
  shows "\<exists>c'. dec_lock_ref c i = Inr (evictable_size c' - evictable_size c, c') \<and> cache_inv c' (L - {#i#}) \<and>
    same_config c c' \<and> contents c' = contents c \<and> node_paths (root_node c') = node_paths (root_node c)"
proof -
  have "uniq (root_node c)" "i \<in># ids (root_node c)" using inv i by (auto simp: cache_inv_def)
  from locked_exists [OF this, of "- 1"] obtain p where p: "path_to i (root_node c) = Some p"
      "locked (- 1) i (root_node c) p (add_lock (- 1) (map (\<lambda>n. nid (ndata n)) p) (root_node c))"
      "distinct (map (\<lambda>n. nid (ndata n)) p)" "\<forall>x \<in> set p. nid (ndata x) \<noteq> nid (ndata (root_node c))" by blast
  have refs: "\<forall>x \<in> set p. 1 \<le> lock_ref (ndata x)"
  proof
    fix x
    assume "x \<in> set p"
    then have "lock_ref (ndata x) = int (size (filter_mset (\<lambda>j. j \<in># ids x) L))" "i \<in># filter_mset (\<lambda>j. j \<in># ids x) L"
      using lock_path [OF inv p(2,4)] i by auto
    then show "1 \<le> lock_ref (ndata x)" by (metis One_nat_def Suc_leI nonempty_has_size of_nat_1 of_nat_le_iff set_mset_empty empty_iff)
  qed
  then have refs': "\<forall>x \<in> set p. 0 \<le> lock_ref (ndata x) + - 1" by auto
  have sub: "set_mset (L - {#i#}) \<subseteq> insert i (set_mset L)" by (auto dest: in_diffD)
  define c' where "c' = c\<lparr>root_node := add_lock (- 1) (map (\<lambda>n. nid (ndata n)) p) (root_node c),
    evictable_size := evictable_size c + size_at 1 p, protected_size := protected_size c - size_at 1 p,
    evictable_leaves := leaf_walk (- 1) (evictable_leaves c) (rev p)\<rparr>"
  have "dec_lock_ref c i = Inr (evictable_size c' - evictable_size c, c')"
    using on p(1) by (simp add: dec_lock_ref_def lock_walk_def dec_walk c'_def)
  moreover have "cache_inv c' (L - {#i#})" "same_config c c'" "contents c' = contents c" "node_paths (root_node c') = node_paths (root_node c)"
    by (rule lock_step_inv [OF inv p(2,3) shifts_dec [OF i] sub refs' locked_dec_sizes [OF p(2) refs] c'_def])+
  ultimately show ?thesis by blast
qed

subsection \<open>Matching and insertion\<close>

definition view :: "radix_cache \<Rightarrow> radix_key \<Rightarrow> radix_key" where
  "view c key = page_aligned (rc_page_size c) (fst (maybe_to_bigram_view (is_eagle c) key None))"

definition key_fits :: "radix_cache \<Rightarrow> radix_key \<Rightarrow> bool" where
  "key_fits c key \<longleftrightarrow> (is_bigram key \<longrightarrow> is_eagle c)"

lemma view_ok:
  assumes "0 < rc_page_size c" "key_fits c key"
  shows "rc_page_size c dvd key_len (view c key)" "is_bigram (view c key) = is_eagle c"
  using assms by (auto simp: view_def page_aligned_len key_fits_def maybe_to_bigram_view_def Let_def)

lemma evolves_new: "evolves ps e n t n' t' A new \<Longrightarrow> new = Some (p, l) \<Longrightarrow> lock_ref l = 0 \<and> 0 < key_len (nkey l)"
  by (induction rule: evolves.induct) (auto simp: child_ok_def)

lemma evolves_uniq:
  assumes "evolves ps e n t n' t' A new" "uniq t" "\<forall>i \<in># ids t. i < n"
  shows "uniq t'" "\<forall>i \<in># ids t'. i < n'"
proof -
  note ids = evolves_ids [OF assms(1)] evolves_counter [OF assms(1)]
  have "count (mset [n..<n']) i = (if n \<le> i \<and> i < n' then 1 else 0)" for i by (simp add: count_mset_0_iff distinct_count_atmost_1)
  then show "uniq t'" using assms(2,3) ids unfolding uniq_def by (auto simp: count_eq_zero_iff)
  show "\<forall>i \<in># ids t'. i < n'" using assms(3) ids by (auto intro: less_le_trans)
qed

lemma evolves_new_parent: "evolves ps e n t n' t' A new \<Longrightarrow> new = Some (p, l) \<Longrightarrow> \<forall>i \<in># ids t. i < n \<Longrightarrow> p \<noteq> nid l"
proof (induction rule: evolves.induct)
  case (leaf d d' cs ck l' n)
  then show ?case by (auto simp: ids_simps)
next
  case (down d d' cs ck c n n' c' A new)
  then show ?case using child_ids [OF map_of_SomeD [OF down.hyps(2)], of _ d] by auto
next
  case (cut d d' cs ck c m sd n cd n' s' A new)
  have "i < n" if "i \<in># ids c" for i using that cut.prems(2) child_ids [OF map_of_SomeD [OF cut.hyps(2)], of i d] by auto
  then have "\<forall>i \<in># ids (TreeNode sd [(child_key_of ps (nkey cd), TreeNode cd (children c))]). i < Suc n"
    using cut.hyps by (cases c) (auto simp: ids_simps less_Suc_eq)
  then show ?case using cut by auto
qed auto

definition leaves_after :: "nat set \<Rightarrow> (nat \<times> node_data) option \<Rightarrow> nat set" where
  "leaves_after S new = (case new of None \<Rightarrow> S | Some (p, l) \<Rightarrow> (S - {p}) \<union> {nid l})"

lemma evolves_leaf_set:
  assumes "evolves ps e n t n' t' A new" "uniq t" "\<forall>i \<in># ids t. i < n"
  shows "set_mset (free_leaves t') = leaves_after (set_mset (free_leaves t)) new"
proof (cases new)
  case None
  then show ?thesis using evolves_free_leaves [OF assms(1)] by (simp add: leaves_step_def leaves_after_def)
next
  case (Some pl)
  obtain p l where pl: "pl = (p, l)" by (cases pl)
  obtain B x where B: "set_mset B \<subseteq> {p}" "free_leaves t' + B = free_leaves t + {#nid l#}"
      and x: "x \<in> set (nodes t')" "nid (ndata x) = p" "children x \<noteq> []"
    using evolves_free_leaves [OF assms(1)] Some pl by (auto simp: leaves_step_def)
  have p: "p \<notin># free_leaves t'" using free_leaves_node [OF evolves_uniq(1) [OF assms] x(1)] x(2,3) by (simp add: free_node_def)
  have "j \<in># free_leaves t' \<longleftrightarrow> j \<in> (set_mset (free_leaves t) - {p}) \<union> {nid l}" for j
  proof (cases "j = p")
    case True
    then show ?thesis using p evolves_new_parent [OF assms(1) _ assms(3)] Some pl by auto
  next
    case False
    then have "j \<in># free_leaves t' + B \<longleftrightarrow> j \<in># free_leaves t'" using B(1) by auto
    with False show ?thesis unfolding B(2) by auto
  qed
  then show ?thesis by (auto simp: leaves_after_def Some pl)
qed

lemma evolve_inv:
  assumes inv: "cache_inv c L" and ev: "evolves (rc_page_size c) (is_eagle c) (counter c) (root_node c) n' t' A new"
    and c': "c' = c\<lparr>root_node := t', counter := n', evictable_size := evictable_size c + new_size new, evictable_leaves := lv\<rparr>"
    and lv: "set lv = leaves_after (set (evictable_leaves c)) new" "distinct lv"
  shows "cache_inv c' L" "same_config c c'" "mset (contents c') = mset (contents c) + A"
    "set (node_paths (root_node c)) \<subseteq> set (node_paths (root_node c'))"
proof -
  have i: "0 < rc_page_size c" "wf_tree (rc_page_size c) (is_eagle c) (root_node c)" "uniq (root_node c)"
      "\<forall>i \<in># ids (root_node c). i < counter c" "set_mset L \<subseteq> set_mset (ids (root_node c))"
    using inv by (simp_all add: cache_inv_def)
  have L: "\<forall>i \<in># L. i < counter c" using i(4,5) by auto
  note ev' = evolves_wf [OF ev i(2)] evolves_uniq [OF ev i(3,4)] evolves_ids [OF ev] evolves_unlocked [OF ev] evolves_locked [OF ev]
    evolves_leaf_set [OF ev i(3,4)] evolves_locks [OF ev i(2) L]
  have "nid (ndata t') = nid (ndata (root_node c))" "nkey (ndata t') = nkey (ndata (root_node c))"
      "nvalue (ndata t') = nvalue (ndata (root_node c))" "lock_ref (ndata t') = lock_ref (ndata (root_node c))"
    using evolves_root [OF ev] by (simp_all add: same_node_def)
  then show "cache_inv c' L" using inv lv ev' unfolding cache_inv_def c' by auto
  show "same_config c c'" "mset (contents c') = mset (contents c) + A" "set (node_paths (root_node c)) \<subseteq> set (node_paths (root_node c'))"
    using evolves_below [OF ev i(1,2)] evolves_paths [OF ev i(2)] by (simp_all add: c' same_config_def)
qed

lemma match_prefix_ok:
  assumes inv: "cache_inv c L" and key: "key_fits c key" and on: "\<not> disable c"
  shows "\<exists>v i c'. match_prefix access created c key = Inr (v, i, c') \<and> cache_inv c' L \<and> same_config c c' \<and>
    mset (contents c') = mset (contents c) \<and> matched (rc_page_size c) (set (contents c)) (path (view c key)) v \<and>
    (i, take (length v) (path (view c key))) \<in> set (node_paths (root_node c')) \<and>
    set (node_paths (root_node c)) \<subseteq> set (node_paths (root_node c'))"
proof (cases "key_len (view c key) = 0")
  case True
  then have "path (view c key) = []" by (metis length_0_conv length_path)
  moreover have "match_prefix access created c key = Inr ([], nid (ndata (root_node c)), c)"
    using True on inv by (auto simp: match_prefix_def view_def Let_def)
  moreover have "(nid (ndata (root_node c)), []) \<in> set (node_paths (root_node c))" by (cases "root_node c") simp
  ultimately show ?thesis using inv by (simp add: same_config_def)
next
  case False
  have i: "0 < rc_page_size c" "wf_tree (rc_page_size c) (is_eagle c) (root_node c)" using inv by (simp_all add: cache_inv_def)
  obtain vals i t' n' where m: "match_prefix_helper (rc_page_size c) access created (counter c) (root_node c) (view c key) = Inr (vals, i, t', n')"
      "match_ok (rc_page_size c) (is_eagle c) (counter c) (root_node c) (view c key) (concat vals) i t' n'"
    using match_prefix_helper_correct [OF i view_ok [OF i(1) key]] by blast
  define c' where "c' = c\<lparr>root_node := t', counter := n'\<rparr>"
  have "key_len (fst (maybe_to_bigram_view (is_eagle c) key None)) \<noteq> 0"
    using False i(1) by (metis div_0 mult_0 page_aligned_len view_def)
  then have "match_prefix access created c key = Inr (concat vals, i, c')"
    using False on m(1) by (simp add: match_prefix_def Let_def c'_def flip: view_def)
  moreover have ev: "evolves (rc_page_size c) (is_eagle c) (counter c) (root_node c) n' t' {#} None" using m(2) by (simp add: match_ok_def)
  have "c' = c\<lparr>root_node := t', counter := n', evictable_size := evictable_size c + new_size None, evictable_leaves := evictable_leaves c\<rparr>"
    by (simp add: c'_def new_size_def)
  note evolve_inv [OF inv ev this]
  ultimately show ?thesis
    using m(2) inv by (auto simp: leaves_after_def cache_inv_def match_ok_def c'_def)
qed

text \<open>The slots that \<^verbatim>\<open>insert\<close> files under the key.\<close>

definition insert_value :: "radix_cache \<Rightarrow> radix_key \<Rightarrow> int list option \<Rightarrow> int list" where
  "insert_value c key val = take (key_len (view c key)) (case val of Some v \<Rightarrow> v | None \<Rightarrow> token_ids (view c key))"

lemma key_len_token_ids: "key_len k \<le> length (token_ids k)"
  by (auto simp: key_len_def Let_def)

lemma view_le:
  assumes "0 < rc_page_size c"
  shows "key_len (view c key) \<le> key_len (fst (maybe_to_bigram_view (is_eagle c) key None))"
  using assms by (simp add: view_def page_aligned_len)

lemma insert_view:
  assumes "0 < rc_page_size c"
  shows "maybe_to_bigram_view (is_eagle c) key val = (k1, v1) \<Longrightarrow> page_aligned (rc_page_size c) k1 = view c key \<and>
    (case v1 of Some v \<Rightarrow> take (key_len (view c key)) v | None \<Rightarrow> take (key_len (view c key)) (token_ids (view c key))) = insert_value c key val"
  using view_le [OF assms, of key]
  by (cases val) (auto simp: maybe_to_bigram_view_def view_def insert_value_def Let_def min_absorb1 split: if_splits)

definition value_fits :: "radix_cache \<Rightarrow> radix_key \<Rightarrow> int list option \<Rightarrow> bool" where
  "value_fits c key val \<longleftrightarrow> (case val of Some v \<Rightarrow> key_len (view c key) \<le> length v | None \<Rightarrow> True)"

lemma length_insert_value: "value_fits c key val \<Longrightarrow> length (insert_value c key val) = key_len (view c key)"
  using key_len_token_ids [of "view c key"] by (auto simp: insert_value_def value_fits_def split: option.splits)

lemma rc_insert_ok:
  assumes inv: "cache_inv c L" and key: "key_fits c key" and val: "value_fits c key val" and on: "\<not> disable c"
  shows "\<exists>m c'. rc_insert access created c key val prio chunked = Inr (m, c') \<and> cache_inv c' L \<and> same_config c c' \<and>
    mset (contents c') = mset (contents c) + pages_from (rc_page_size c) (m div rc_page_size c) (path (view c key)) (insert_value c key val) \<and>
    (\<exists>v. matched (rc_page_size c) (set (contents c)) (path (view c key)) v \<and> length v = m) \<and>
    evictable_size c' = evictable_size c + int (key_len (view c key) - m) \<and> m \<le> key_len (view c key) \<and>
    set (node_paths (root_node c)) \<subseteq> set (node_paths (root_node c'))"
proof -
  have i: "0 < rc_page_size c" "wf_tree (rc_page_size c) (is_eagle c) (root_node c)" "uniq (root_node c)"
      "\<forall>i \<in># ids (root_node c). i < counter c" using inv by (simp_all add: cache_inv_def)
  obtain m t' n' new where h: "insert_helper (rc_page_size c) access created (counter c) (root_node c) (view c key) (insert_value c key val) prio chunked =
        Inr (m, t', n', new)"
      "insert_ok (rc_page_size c) (is_eagle c) (counter c) (root_node c) (view c key) (insert_value c key val) m t' n' new"
    using insert_helper_correct [OF i(1,2) view_ok [OF i(1) key] length_insert_value [OF val]] by blast
  have ev: "evolves (rc_page_size c) (is_eagle c) (counter c) (root_node c) n' t'
      (pages_from (rc_page_size c) (m div rc_page_size c) (path (view c key)) (insert_value c key val)) new"
    using h(2) by (simp add: insert_ok_def)
  define lv where "lv = (case new of None \<Rightarrow> evictable_leaves c | Some (p, l) \<Rightarrow>
    update_leaf_status (case find_node p t' of None \<Rightarrow> evictable_leaves c | Some x \<Rightarrow> update_leaf_status (evictable_leaves c) x) (TreeNode l []))"
  define c' where "c' = c\<lparr>root_node := t', counter := n', evictable_size := evictable_size c + new_size new, evictable_leaves := lv\<rparr>"
  obtain k1 v1 where kv: "maybe_to_bigram_view (is_eagle c) key val = (k1, v1)" by fastforce
  have "rc_insert access created c key val prio chunked = Inr (m, c')"
    using on h(1) insert_view [OF i(1) kv] by (cases new) (auto simp: rc_insert_def kv Let_def c'_def lv_def new_size_def split: option.splits)
  moreover have lv_ok: "set lv = leaves_after (set (evictable_leaves c)) new \<and> distinct lv"
  proof (cases new)
    case None
    then show ?thesis
      using inv by (simp_all add: lv_def leaves_after_def cache_inv_def)
  next
    case (Some pl)
    obtain p l where pl: "pl = (p, l)" by (cases pl)
    obtain x where x: "x \<in> set (nodes t')" "nid (ndata x) = p" "children x \<noteq> []"
      using evolves_free_leaves [OF ev] Some pl by (auto simp: leaves_step_def)
    then have "find_node p t' = Some x" using find_node_nodes [OF evolves_uniq(1) [OF ev i(3,4)]] by blast
    then have lv: "lv = update_leaf_status (removeAll p (evictable_leaves c)) (TreeNode l [])"
      using x(2,3) Some pl by (simp add: lv_def update_leaf_status_def Let_def)
    have "lock_ref l = 0" using evolves_new [OF ev] Some pl by simp
    then show ?thesis
      using inv Some pl by (auto simp: lv update_leaf_set free_node_def leaves_after_def cache_inv_def intro!: update_leaf_distinct distinct_removeAll)
  qed
  note evolve_inv [OF inv ev c'_def conjunct1 [OF lv_ok] conjunct2 [OF lv_ok]]
  ultimately show ?thesis using h(2) by (auto simp: insert_ok_def c'_def)
qed

end
