(* ===== verification/Radix_Evict.thy ===== *)
theory Radix_Evict
  imports Radix_Cache
begin

text \<open>
  Eviction from the prefix cache: \<^verbatim>\<open>evict\<close> and \<^verbatim>\<open>_delete_leaf\<close> of \<^verbatim>\<open>RadixCache\<close> keep the invariant of the cache,
  free exactly the slots they remove, never remove a locked node, and stop only when enough tokens are
  evicted or nothing unlocked is left. The properties of the whole cache follow: matching, insertion and
  eviction against the contents of the tree, and the exactness of the bookkeeping in every reachable state.
\<close>

section \<open>Removing a leaf\<close>

text \<open>\<open>removed t x p t'\<close>: \<open>t'\<close> is \<open>t\<close> without its node \<open>x\<close>, and \<open>p\<close> is the parent of \<open>x\<close> in \<open>t'\<close>.\<close>

inductive removed :: "tree_node \<Rightarrow> tree_node \<Rightarrow> tree_node \<Rightarrow> tree_node \<Rightarrow> bool" where
  here: "removed (TreeNode d (xs @ (k, x) # ys)) x (TreeNode d (xs @ ys)) (TreeNode d (xs @ ys))"
| down: "removed c x p c' \<Longrightarrow> removed (TreeNode d (xs @ (k, c) # ys)) x p (TreeNode d (xs @ (k, c') # ys))"

lemma removed_data: "removed t x p t' \<Longrightarrow> ndata t' = ndata t"
  by (erule removed.cases) auto

lemma removed_wf: "removed t x p t' \<Longrightarrow> wf_tree ps e t \<Longrightarrow> wf_tree ps e t'"
proof (induction rule: removed.induct)
  case (down c x p c' d xs k ys)
  then show ?case using removed_data [OF down.hyps] by auto
qed auto

lemma removed_sum:
  "removed t x p t' \<Longrightarrow> tsum f t' + tsum f x + f (ndata p) False = tsum f t + f (ndata p) (children p = [])"
proof (induction rule: removed.induct)
  case (here d xs k x ys)
  then show ?case by (simp add: ac_simps)
next
  case (down c x p c' d xs k ys)
  let ?xs = "sum_list (map (\<lambda>(k, x). tsum f x) xs)" and ?ys = "sum_list (map (\<lambda>(k, x). tsum f x) ys)"
  have "f d False + ?xs + ?ys + (tsum f c' + tsum f x + f (ndata p) False) =
      f d False + ?xs + ?ys + (tsum f c + f (ndata p) (children p = []))" unfolding down.IH ..
  then show ?case by (simp add: ac_simps)
qed

lemma removed_ids: "removed t x p t' \<Longrightarrow> ids t = ids t' + ids x"
proof -
  assume "removed t x p t'"
  from removed_sum [OF this, of "\<lambda>d leaf. {#nid d#}"] show ?thesis by (simp add: ids_def)
qed

lemma removed_nodes: "removed t x p t' \<Longrightarrow> p \<in> set (nodes t') \<and> x \<in> set (nodes t)"
  by (induction rule: removed.induct) auto

lemma removed_contents: "removed t x p t' \<Longrightarrow> mset (below ps t') \<subseteq># mset (below ps t)"
proof (induction rule: removed.induct)
  case (down c x p c' d xs k ys)
  have "mset (stored ps c') \<subseteq># mset (stored ps c)"
    using down.IH removed_data [OF down.hyps] by (simp add: mset_stored image_mset_subseteq_mono)
  then show ?case by (simp add: below_def)
qed (simp add: below_def)

lemma removed_locks: "removed t x p t' \<Longrightarrow> \<forall>i \<in># ids x. i \<notin># L \<Longrightarrow> locks_ok L t \<Longrightarrow> locks_ok L t'"
proof (induction rule: removed.induct)
  case (down c x p c' d xs k ys)
  have "filter_mset (\<lambda>i. i \<in># ids c) L = filter_mset (\<lambda>i. i \<in># ids c') L"
    using removed_ids [OF down.hyps] down.prems(1) by (intro filter_mset_cong) auto
  then show ?case using down removed_data [OF down.hyps] by auto
qed auto

lemma node_paths_ids: "(i, q) \<in> set (node_paths t) \<Longrightarrow> i \<in># ids t"
proof (induction t arbitrary: q rule: tree_induct)
  case (TreeNode d cs)
  from TreeNode.prems show ?case
  proof (cases rule: node_pathsE)
    case 1
    then show ?thesis by (simp add: ids_simps)
  next
    case (2 ck c p)
    then show ?thesis using TreeNode.IH child_ids by blast
  qed
qed

lemma removed_paths:
  "removed t x p t' \<Longrightarrow> (i, q) \<in> set (node_paths t) \<Longrightarrow> i \<notin># ids x \<Longrightarrow> (i, q) \<in> set (node_paths t')"
proof (induction arbitrary: q rule: removed.induct)
  case (here d xs k x ys)
  from here.prems(1) show ?case
  proof (cases rule: node_pathsE)
    case 1
    then show ?thesis by (simp add: node_paths_root)
  next
    case (2 ck c p)
    then have "(ck, c) \<in> set (xs @ ys)" using here.prems(2) node_paths_ids by auto
    then show ?thesis using node_paths_childI 2(2,3) by blast
  qed
next
  case (down c x p c' d xs k ys)
  from down.prems(1) show ?case
  proof (cases rule: node_pathsE)
    case 1
    then show ?thesis by (simp add: node_paths_root)
  next
    case (2 ck b r)
    show ?thesis
    proof (cases "(ck, b) \<in> set (xs @ ys)")
      case True
      then have "(ck, b) \<in> set (xs @ (k, c') # ys)" by auto
      then show ?thesis using node_paths_childI 2(2,3) by blast
    next
      case False
      then have "b = c" using 2(1) by auto
      then have "(i, r) \<in> set (node_paths c')" using down.IH 2(2) down.prems(2) by blast
      from node_paths_childI [OF _ this, of k "xs @ (k, c') # ys" d] show ?thesis
        using 2(3) \<open>b = c\<close> removed_data [OF down.hyps] by (simp del: node_paths.simps)
    qed
  qed
qed

lemma size_ids: "size (ids t) = node_count t"
proof (induction t rule: tree_induct)
  case (TreeNode d cs)
  then have "\<forall>y \<in> set cs. size (ids (snd y)) = node_count (snd y)" by (metis prod.collapse)
  then have "size (sum_list (map (\<lambda>(k, x). ids x) cs)) = sum_list (map (\<lambda>(k, x). node_count x) cs)"
    by (induction cs) auto
  then show ?case by (simp add: ids_simps)
qed

lemma delete_mid: "distinct (map fst (xs @ (k, c) # ys)) \<Longrightarrow> AList.delete k (xs @ (k, c) # ys) = xs @ ys"
  by (induction xs) (auto simp: delete_idem)

lemma removed_exists:
  assumes ps: "0 < ps"
  shows "uniq t \<Longrightarrow> wf_tree ps e t \<Longrightarrow> x \<in> set (nodes t) \<Longrightarrow> x \<noteq> t \<Longrightarrow> ck = child_key_of ps (nkey (ndata x)) \<Longrightarrow>
    \<exists>p. parent_of (nid (ndata x)) t = Some p \<and> map_of (children p) ck = Some x \<and> child_ok ps e ck (ndata x) \<and> nid (ndata p) \<in># ids t \<and>
      removed t x (TreeNode (ndata p) (AList.delete ck (children p))) (remove_child (nid (ndata p)) ck t)"
proof (induction t rule: tree_induct)
  case (TreeNode d cs)
  let ?i = "nid (ndata x)"
  have nd: "nid d \<noteq> ?i" using uniq_nid [OF TreeNode.prems(1,3), of "TreeNode d cs"] TreeNode.prems(4) by auto
  have "?i \<in># ids (TreeNode d cs)" unfolding ids_nodes using TreeNode.prems(3) by force
  from focus [OF TreeNode.prems(1) this nd] obtain xs k c ys where f: "cs = xs @ (k, c) # ys" "?i \<in># ids c" "uniq c" "nid d \<notin># ids c"
      "\<And>y j. y \<in> set xs \<union> set ys \<Longrightarrow> j \<in># ids c \<Longrightarrow> j \<notin># ids (snd y)" by metis
  obtain x' where x': "x' \<in> set (nodes c)" "nid (ndata x') = ?i" using f(2) unfolding ids_nodes by auto
  have "x' \<in> set (nodes (TreeNode d cs))" using x'(1) f(1) by auto
  then have "x' = x" using uniq_nid [OF TreeNode.prems(1)] TreeNode.prems(3) x'(2) by metis
  then have x: "x \<in> set (nodes c)" using x'(1) by simp
  have c: "child_ok ps e k (ndata c)" "wf_tree ps e c" "distinct (map fst cs)" using TreeNode.prems(2) f(1) by auto
  have absent: "?i \<notin># ids (snd y)" if "y \<in> set xs \<union> set ys" for y using f(2,5) that by blast
  show ?case
  proof (cases "x = c")
    case True
    have ck: "ck = k" using c(1) True TreeNode.prems(5) by (simp add: child_ok_def)
    have "parent_of ?i (TreeNode d cs) = Some (TreeNode d cs)" using True f(1) by auto
    moreover have "map_of cs ck = Some x" by (rule map_of_is_SomeI [OF c(3)]) (simp add: f(1) True ck)
    moreover have "AList.delete ck cs = xs @ ys" using delete_mid [OF c(3) [unfolded f(1)]] by (simp add: f(1) ck)
    moreover have "map (\<lambda>(k', c). (k', remove_child (nid d) ck c)) cs = cs"
      by (rule map_snd_id) (use uniq_root [OF TreeNode.prems(1)] remove_child_absent in blast)
    ultimately show ?thesis
      using True removed.here [of d xs k x ys] c(1) ck f(1) by (auto simp: ids_simps)
  next
    case False
    obtain p where p: "parent_of ?i c = Some p" "map_of (children p) ck = Some x" "child_ok ps e ck (ndata x)" "nid (ndata p) \<in># ids c"
        "removed c x (TreeNode (ndata p) (AList.delete ck (children p))) (remove_child (nid (ndata p)) ck c)"
      using TreeNode.IH [of k c] f(1,3) c(2) x False TreeNode.prems(5) by auto
    have "\<not> (\<exists>(k', b) \<in> set cs. nid (ndata b) = ?i)"
    proof
      assume "\<exists>(k', b) \<in> set cs. nid (ndata b) = ?i"
      then obtain y where y: "y \<in> set cs" "nid (ndata (snd y)) = ?i" by auto
      then have "snd y \<in> set (nodes (TreeNode d cs))" unfolding set_nodes using nodes_self by blast
      then have "snd y = x" using uniq_nid [OF TreeNode.prems(1) _ TreeNode.prems(3)] y(2) by blast
      then show False using absent [of y] y f(1) False ids_root [of "snd y"] by auto
    qed
    moreover have "first_some (parent_of ?i) cs = Some p"
      unfolding f(1) using absent p(1) parent_of_absent by (intro first_some_mid) auto
    ultimately have parent: "parent_of ?i (TreeNode d cs) = Some p" by (simp add: first_some_def)
    have "map (\<lambda>(k', b). (k', remove_child (nid (ndata p)) ck b)) xs = xs" "map (\<lambda>(k', b). (k', remove_child (nid (ndata p)) ck b)) ys = ys"
      by (rule map_snd_id; use f(5) p(4) remove_child_absent in blast)+
    moreover have "nid d \<noteq> nid (ndata p)" using f(4) p(4) by auto
    ultimately have "remove_child (nid (ndata p)) ck (TreeNode d cs) = TreeNode d (xs @ (k, remove_child (nid (ndata p)) ck c) # ys)"
      by (simp add: f(1))
    moreover have "nid (ndata p) \<in># ids (TreeNode d cs)" using p(4) child_ids [of k c cs] f(1) by auto
    ultimately show ?thesis using parent p(2,3) removed.down [OF p(5), of d xs k ys] f(1) by auto
  qed
qed

section \<open>Deleting a leaf of the cache\<close>

definition tree_slots :: "radix_cache \<Rightarrow> int multiset" where
  "tree_slots c = mset (all_values_flatten c)"

lemma values_sum: "mset (nvalue (ndata t)) + mset (values_below t) = tsum (\<lambda>d leaf. mset (nvalue d)) t"
proof (induction t rule: tree_induct)
  case (TreeNode d cs)
  then have "\<forall>y \<in> set cs. mset (nvalue (ndata (snd y))) + mset (values_below (snd y)) = tsum (\<lambda>d leaf. mset (nvalue d)) (snd y)"
    by (metis prod.collapse)
  then have "mset (concat (map (\<lambda>(ck, c). nvalue (ndata c) @ values_below c) cs)) = sum_list (map (\<lambda>(k, x). tsum (\<lambda>d leaf. mset (nvalue d)) x) cs)"
    by (induction cs) auto
  then show ?case by simp
qed

lemma tree_slots_sum: "cache_inv c L \<Longrightarrow> tree_slots c = tsum (\<lambda>d leaf. mset (nvalue d)) (root_node c)"
  using values_sum [of "root_node c"] by (simp add: tree_slots_def all_values_flatten_def cache_inv_def)

text \<open>The pages in the tree, as lists of slots; a value of whole pages is cut into \<open>chunks\<close>.\<close>

definition chunks :: "nat \<Rightarrow> 'a list \<Rightarrow> 'a list list" where
  "chunks ps v = map (\<lambda>j. slice (j * ps) (Suc j * ps) v) [0..<length v div ps]"

definition page_lists :: "radix_cache \<Rightarrow> int list multiset" where
  "page_lists c = mset (map snd (contents c))"

lemma node_pages_chunks: "length (nvalue d) = key_len (nkey d) \<Longrightarrow> map snd (node_pages ps d) = chunks ps (nvalue d)"
  by (simp add: node_pages_def chunks_def)

lemma stored_lists: "mset (map snd (stored ps t)) = tsum (\<lambda>d leaf. mset (map snd (node_pages ps d))) t"
proof (induction t rule: tree_induct)
  case (TreeNode d cs)
  then have "\<forall>y \<in> set cs. mset (map snd (stored ps (snd y))) = tsum (\<lambda>d leaf. mset (map snd (node_pages ps d))) (snd y)"
    by (metis prod.collapse)
  then have "mset (map snd (concat (map (\<lambda>(ck, c). stored ps c) cs))) =
      sum_list (map (\<lambda>(ck, c). tsum (\<lambda>d leaf. mset (map snd (node_pages ps d))) c) cs)"
    by (induction cs) (auto simp: case_prod_beta)
  moreover have "map snd (map (\<lambda>(p, v). (path (nkey d) @ p, v)) xs) = map snd xs" for xs :: "(tpath \<times> int list) list"
    by (induction xs) auto
  ultimately show ?case by (simp del: map_map)
qed

lemma page_lists_sum:
  assumes "cache_inv c L"
  shows "page_lists c = tsum (\<lambda>d leaf. mset (map snd (node_pages (rc_page_size c) d))) (root_node c)"
proof -
  have "node_pages (rc_page_size c) (ndata (root_node c)) = []" "path (nkey (ndata (root_node c))) = []"
    using assms length_path [of "nkey (ndata (root_node c))"] by (simp_all add: cache_inv_def node_pages_def del: length_path)
  then have "map snd (stored (rc_page_size c) (root_node c)) = map snd (contents c)"
    by (simp add: stored_eq case_prod_beta)
  then show ?thesis by (metis page_lists_def stored_lists)
qed

lemma nodes_ids: "x \<in> set (nodes t) \<Longrightarrow> nid (ndata x) \<in># ids t"
  unfolding ids_nodes by (simp add: rev_image_eqI)

lemma removed_uniq:
  assumes "removed t x p t'" "uniq t" "children x = []"
  shows "ids t = add_mset (nid (ndata x)) (ids t')" "uniq t'" "nid (ndata x) \<notin># ids t'"
proof -
  show ids: "ids t = add_mset (nid (ndata x)) (ids t')" using removed_ids [OF assms(1)] assms(3) by (cases x) (simp add: ids_simps)
  have le: "count (ids t) i \<le> 1" for i using assms(2) by (simp add: uniq_def)
  have "count (ids t') i \<le> count (ids t) i" for i unfolding ids by simp
  then show "uniq t'" using le by (metis uniq_def le_trans)
  show "nid (ndata x) \<notin># ids t'" using le [of "nid (ndata x)"] unfolding ids by (simp add: count_eq_zero_iff)
qed

lemma removed_free_leaves:
  assumes "removed t x p t'" "uniq t" "children x = []" "lock_ref (ndata x) = 0"
  shows "nid (ndata p) \<notin># free_leaves t"
    "set_mset (free_leaves t') = (set_mset (free_leaves t) - {nid (ndata x)}) \<union>
      (if free_node (ndata p) (children p = []) then {nid (ndata p)} else {})"
proof -
  note u = removed_uniq [OF assms(1-3)]
  have "free_leaves x = {#nid (ndata x)#}" using assms(3,4) by (cases x) (simp add: free_leaves_def)
  then have eq: "free_leaves t' + {#nid (ndata x)#} = free_leaves t + (if free_node (ndata p) (children p = []) then {#nid (ndata p)#} else {#})"
    using removed_sum [OF assms(1), of "\<lambda>d leaf. if lock_ref d = 0 \<and> leaf then {#nid d#} else {#}"]
    by (simp add: free_leaves_def free_node_def)
  have p: "p \<in> set (nodes t')" using removed_nodes [OF assms(1)] by simp
  have x: "nid (ndata x) \<notin># free_leaves t'" using u(3) free_leaves_le [of t' "nid (ndata x)"] by (auto simp flip: count_greater_zero_iff)
  have px: "nid (ndata p) \<noteq> nid (ndata x)" using nodes_ids [OF p] u(3) by auto
  have pf: "nid (ndata p) \<in># free_leaves t' \<longleftrightarrow> free_node (ndata p) (children p = [])" by (rule free_leaves_node [OF u(2) p])
  have "count (free_leaves t') (nid (ndata p)) \<le> 1" using u(2) free_leaves_le by (metis uniq_def le_trans)
  then show "nid (ndata p) \<notin># free_leaves t"
    using arg_cong [OF eq, of "\<lambda>M. count M (nid (ndata p))"] px pf
    by (auto simp flip: count_greater_zero_iff split: if_splits)
  have other: "j \<in># free_leaves t' \<longleftrightarrow> j \<in># free_leaves t" if "j \<noteq> nid (ndata x)" "j \<noteq> nid (ndata p)" for j
    using arg_cong [OF eq, of "\<lambda>M. count M j"] that by (auto simp flip: count_greater_zero_iff split: if_splits)
  have "j \<in># free_leaves t' \<longleftrightarrow> j \<in> (set_mset (free_leaves t) - {nid (ndata x)}) \<union>
      (if free_node (ndata p) (children p = []) then {nid (ndata p)} else {})" for j
    using x px pf \<open>nid (ndata p) \<notin># free_leaves t\<close> other [of j] by (cases "j = nid (ndata x)"; cases "j = nid (ndata p)") auto
  then show "set_mset (free_leaves t') = (set_mset (free_leaves t) - {nid (ndata x)}) \<union>
      (if free_node (ndata p) (children p = []) then {nid (ndata p)} else {})" by blast
qed

definition kept_paths :: "nat multiset \<Rightarrow> radix_cache \<Rightarrow> radix_cache \<Rightarrow> bool" where
  "kept_paths L c c' \<longleftrightarrow> (\<forall>i \<in># L. \<forall>q. (i, q) \<in> set (node_paths (root_node c)) \<longrightarrow> (i, q) \<in> set (node_paths (root_node c')))"

text \<open>One eviction of \<open>x\<close> from \<open>c\<close> to \<open>c'\<close>, where \<open>p\<close> is the parent that is left.\<close>

definition evicts :: "nat multiset \<Rightarrow> radix_cache \<Rightarrow> tree_node \<Rightarrow> tree_node \<Rightarrow> radix_cache \<Rightarrow> bool" where
  "evicts L c x p c' \<longleftrightarrow>
     cache_inv c' L \<and> same_config c c' \<and> kept_paths L c c' \<and> mset (contents c') \<subseteq># mset (contents c) \<and>
     tree_slots c = tree_slots c' + mset (nvalue (ndata x)) \<and>
     page_lists c = page_lists c' + mset (chunks (rc_page_size c) (nvalue (ndata x))) \<and> rc_page_size c dvd length (nvalue (ndata x)) \<and>
     evictable_size c' = evictable_size c - int (length (nvalue (ndata x))) \<and>
     node_count (root_node c') < node_count (root_node c) \<and> p \<in> set (nodes (root_node c')) \<and>
     nid (ndata p) \<notin> set (evictable_leaves c) \<and>
     set (evictable_leaves c') = (set (evictable_leaves c) - {nid (ndata x)}) \<union>
       (if free_node (ndata p) (children p = []) then {nid (ndata p)} else {})"

lemma removed_evicts:
  assumes inv: "cache_inv c L" and x: "x \<in> set (nodes (root_node c))" "lock_ref (ndata x) = 0" "children x = []" "x \<noteq> root_node c"
    and rm: "removed (root_node c) x p t'" and ok: "length (nvalue (ndata x)) = key_len (nkey (ndata x))"
      "rc_page_size c dvd key_len (nkey (ndata x))"
    and c': "c' = c\<lparr>root_node := t', evictable_size := evictable_size c - int (key_len (nkey (ndata x))),
      evictable_leaves := update_leaf_status (removeAll (nid (ndata x)) (evictable_leaves c)) p\<rparr>"
  shows "evicts L c x p c'"
proof -
  let ?t = "root_node c"
  have i: "wf_tree (rc_page_size c) (is_eagle c) ?t" "uniq ?t" "locks_ok L ?t" "set_mset L \<subseteq> set_mset (ids ?t)"
      "set (evictable_leaves c) = set_mset (free_leaves ?t)" "distinct (evictable_leaves c)" "lock_ref (ndata ?t) = 1"
    using inv by (simp_all add: cache_inv_def)
  note u = removed_uniq [OF rm i(2) x(3)] and fl = removed_free_leaves [OF rm i(2) x(3,2)]
  have idx: "ids x = {#nid (ndata x)#}" using x(3) by (cases x) (simp add: ids_simps)
  have "size (filter_mset (\<lambda>j. j \<in># ids x) L) = 0" using lock_ref_counts [OF i(3) x(1,4)] x(2) by simp
  then have xL: "nid (ndata x) \<notin># L" by (auto simp: idx filter_mset_eq_conv)
  have locks: "locks_ok L t'" using removed_locks [OF rm _ i(3)] xL idx by auto
  have p: "p \<in> set (nodes t')" using removed_nodes [OF rm] by simp
  have p0: "0 \<le> lock_ref (ndata p)"
    using lock_ref_counts [OF locks p] removed_data [OF rm] i(7) by (cases "p = t'") auto
  have leaves: "set (evictable_leaves c') = set_mset (free_leaves t')"
    unfolding c' using fl i(5) by (auto simp: update_leaf_set [OF p0])
  have sizes: "unlocked_size t' + int (key_len (nkey (ndata x))) = unlocked_size ?t" "locked_size t' = locked_size ?t"
    using removed_sum [OF rm, of "\<lambda>d leaf. if lock_ref d = 0 then int (key_len (nkey d)) else 0"]
      removed_sum [OF rm, of "\<lambda>d leaf. if lock_ref d = 0 then 0 else int (key_len (nkey d))"] x(2,3)
    by (cases x; simp add: unlocked_size_def locked_size_def)+
  have "set_mset L \<subseteq> set_mset (ids t')" using i(4) u(1) xL by auto
  then have inv': "cache_inv c' L"
    using inv leaves sizes locks u removed_wf [OF rm i(1)] removed_data [OF rm] i(6)
    unfolding cache_inv_def c' by (auto intro!: update_leaf_distinct distinct_removeAll)
  have "tree_slots c = tree_slots c' + mset (nvalue (ndata x))"
    using removed_sum [OF rm, of "\<lambda>d leaf. mset (nvalue d)"] tree_slots_sum [OF inv] tree_slots_sum [OF inv'] x(3)
    by (cases x) (simp add: c')
  moreover have "page_lists c = page_lists c' + mset (chunks (rc_page_size c) (nvalue (ndata x)))"
    using removed_sum [OF rm, of "\<lambda>d leaf. mset (map snd (node_pages (rc_page_size c) d))"] page_lists_sum [OF inv] page_lists_sum [OF inv'] x(3)
      node_pages_chunks [OF ok(1), of "rc_page_size c"] by (cases x) (simp add: c' del: mset_map)
  moreover have "kept_paths L c c'" using removed_paths [OF rm] xL idx by (auto simp: kept_paths_def c')
  moreover have "node_count (root_node c') < node_count (root_node c)"
    unfolding size_ids [symmetric] by (simp add: c' u(1))
  ultimately show ?thesis
    using inv' p fl i(5) leaves ok removed_contents [OF rm] by (auto simp: evicts_def c' same_config_def)
qed

lemma delete_leaf_ok:
  assumes inv: "cache_inv c L" and x: "x \<in> set (nodes (root_node c))" "lock_ref (ndata x) = 0" "children x = []"
  shows "\<exists>p c'. delete_leaf c x = Inr (p, c') \<and> evicts L c x p c'"
proof -
  let ?t = "root_node c" and ?ps = "rc_page_size c"
  have i: "0 < ?ps" "wf_tree ?ps (is_eagle c) ?t" "uniq ?t" "lock_ref (ndata ?t) = 1" using inv by (simp_all add: cache_inv_def)
  have xt: "x \<noteq> ?t" using x(2) i(4) by auto
  define ck where "ck = child_key_of ?ps (nkey (ndata x))"
  obtain p0 where p0: "parent_of (nid (ndata x)) ?t = Some p0" "map_of (children p0) ck = Some x" "child_ok ?ps (is_eagle c) ck (ndata x)"
      "removed ?t x (TreeNode (ndata p0) (AList.delete ck (children p0))) (remove_child (nid (ndata p0)) ck ?t)"
    using removed_exists [OF i(1,3,2) x(1) xt ck_def] by blast
  define p where "p = TreeNode (ndata p0) (AList.delete ck (children p0))"
  define c' where "c' = c\<lparr>root_node := remove_child (nid (ndata p0)) ck ?t,
    evictable_size := evictable_size c - int (key_len (nkey (ndata x))),
    evictable_leaves := update_leaf_status (removeAll (nid (ndata x)) (evictable_leaves c)) p\<rparr>"
  have "get_child_key (nkey (ndata x)) ?ps = Inr ck"
    using p0(3) child_key_of_get [OF i(1)] by (simp add: child_ok_def page_le ck_def)
  then have "delete_leaf c x = Inr (p, c')" using p0 by (simp add: delete_leaf_def p_def c'_def Let_def)
  moreover have "evicts L c x p c'"
    using removed_evicts [OF inv x xt p0(4) _ _ c'_def [unfolded p_def]] p0(3) by (simp add: child_ok_def p_def)
  ultimately show ?thesis by blast
qed

section \<open>The eviction loop\<close>

lemma heap_pop_least:
  assumes "heap \<noteq> []"
  shows "\<exists>l. heap_pop heap = (l, remove1 l heap) \<and> l \<in> set heap \<and> (\<forall>e \<in> set heap. fst l \<le> fst e)"
proof -
  let ?least = "\<lambda>m (es :: heap_entry list). foldl (\<lambda>m e. if fst e < fst m then e else m) m es"
  have "?least m es \<in> set (m # es) \<and> (\<forall>e \<in> set (m # es). fst (?least m es) \<le> fst e)" for m es
  proof (induction es arbitrary: m)
    case (Cons e es)
    from Cons.IH [of "if fst e < fst m then e else m"] show ?case by (auto simp: not_less split: if_splits)
  qed simp
  then show ?thesis using assms unfolding heap_pop_def by (cases heap) (auto simp: Let_def)
qed

definition heap_ok :: "radix_cache \<Rightarrow> heap_entry list \<Rightarrow> bool" where
  "heap_ok c heap \<longleftrightarrow> distinct (map snd heap) \<and> snd ` set heap = set (evictable_leaves c)"

text \<open>Evicting the nodes with the values \<open>fr\<close>, in this order, takes \<open>c\<close> to \<open>c'\<close>.\<close>

definition evicted :: "nat multiset \<Rightarrow> radix_cache \<Rightarrow> int list list \<Rightarrow> radix_cache \<Rightarrow> bool" where
  "evicted L c fr c' \<longleftrightarrow>
     cache_inv c' L \<and> same_config c c' \<and> kept_paths L c c' \<and> mset (contents c') \<subseteq># mset (contents c) \<and>
     tree_slots c = tree_slots c' + mset (concat fr) \<and>
     page_lists c = page_lists c' + mset (concat (map (chunks (rc_page_size c)) fr)) \<and> (\<forall>v \<in> set fr. rc_page_size c dvd length v) \<and>
     evictable_size c' = evictable_size c - int (length (concat fr))"

lemma evicted_nil: "cache_inv c L \<Longrightarrow> evicted L c [] c"
  by (simp add: evicted_def same_config_def kept_paths_def)

lemma evicted_cons: "evicts L c x p c1 \<Longrightarrow> evicted L c1 fr c' \<Longrightarrow> evicted L c (nvalue (ndata x) # fr) c'"
  by (auto simp: evicted_def evicts_def same_config_def kept_paths_def)

lemma leaf_in_tree:
  assumes "cache_inv c L" "i \<in> set (evictable_leaves c)"
  obtains x where "x \<in> set (nodes (root_node c))" "nid (ndata x) = i" "lock_ref (ndata x) = 0" "children x = []"
    "find_node i (root_node c) = Some x"
proof -
  have "i \<in># free_leaves (root_node c)" "uniq (root_node c)" using assms by (simp_all add: cache_inv_def)
  then show thesis using that find_node_nodes unfolding in_free_leaves free_node_def by blast
qed

definition evict_result :: "int \<Rightarrow> int \<Rightarrow> int \<Rightarrow> int list list \<Rightarrow> radix_cache \<Rightarrow> bool" where
  "evict_result num n n' fr c' \<longleftrightarrow>
     n' = n + int (length (concat fr)) \<and> (num \<le> n' \<or> evictable_leaves c' = []) \<and>
     (fr \<noteq> [] \<longrightarrow> n' - int (length (last fr)) < num)"

lemma heap_step:
  assumes "heap_ok c heap" "l \<in> set heap" "nid (ndata x) = snd l" "evicts L c x p c1"
  shows "heap_ok c1 (if children p = [] \<and> lock_ref (ndata p) = 0 then remove1 l heap @ [heap_entry q (ndata p)] else remove1 l heap)"
proof -
  have heap: "distinct (map snd heap)" "snd ` set heap = set (evictable_leaves c)" using assms(1) by (simp_all add: heap_ok_def)
  have inj: "inj_on snd (set heap)" "distinct heap" using heap(1) by (simp_all add: distinct_map)
  then have rem: "snd ` set (remove1 l heap) = set (evictable_leaves c) - {nid (ndata x)}" "distinct (map snd (remove1 l heap))"
    using heap(2) assms(2,3) by (simp_all add: distinct_map inj_on_image_set_diff [OF inj(1)] inj_on_diff)
  have "nid (ndata p) \<notin> set (evictable_leaves c)"
    "set (evictable_leaves c1) = (set (evictable_leaves c) - {nid (ndata x)}) \<union> (if free_node (ndata p) (children p = []) then {nid (ndata p)} else {})"
    using assms(4) by (simp_all add: evicts_def)
  moreover have "snd (heap_entry q (ndata p)) = nid (ndata p)" by (simp add: heap_entry_def)
  ultimately show ?thesis using rem unfolding heap_ok_def free_node_def by (cases "children p = [] \<and> lock_ref (ndata p) = 0") auto
qed

lemma evict_loop_ok:
  "cache_inv c L \<Longrightarrow> heap_ok c heap \<Longrightarrow> node_count (root_node c) < fuel \<Longrightarrow>
    \<exists>n' fr c'. evict_loop fuel num heap n freed c = Inr (n', freed @ fr, c') \<and> evicted L c fr c' \<and> evict_result num n n' fr c'"
proof (induction fuel arbitrary: c heap n freed)
  case (Suc fuel)
  show ?case
  proof (cases "n < num \<and> heap \<noteq> []")
    case False
    then have "num \<le> n \<or> evictable_leaves c = []" using Suc.prems(2) by (auto simp: heap_ok_def)
    with False evicted_nil [OF Suc.prems(1)] show ?thesis by (auto simp: evict_result_def)
  next
    case True
    then obtain l where l: "heap_pop heap = (l, remove1 l heap)" "l \<in> set heap" using heap_pop_least by blast
    then have "snd l \<in> set (evictable_leaves c)" using Suc.prems(2) by (auto simp: heap_ok_def)
    from leaf_in_tree [OF Suc.prems(1) this] obtain x where x: "x \<in> set (nodes (root_node c))" "nid (ndata x) = snd l"
        "lock_ref (ndata x) = 0" "children x = []" "find_node (snd l) (root_node c) = Some x" by blast
    obtain p c1 where del: "delete_leaf c x = Inr (p, c1)" "evicts L c x p c1" using delete_leaf_ok [OF Suc.prems(1) x(1,3,4)] by blast
    define heap1 where "heap1 = (if children p = [] \<and> lock_ref (ndata p) = 0
      then remove1 l heap @ [heap_entry (eviction_strategy c1) (ndata p)] else remove1 l heap)"
    have "heap_ok c1 heap1" unfolding heap1_def by (rule heap_step [OF Suc.prems(2) l(2) x(2) del(2)])
    moreover have "cache_inv c1 L" "node_count (root_node c1) < fuel" using del(2) Suc.prems(3) by (simp_all add: evicts_def)
    ultimately obtain n' fr c' where IH: "evict_loop fuel num heap1 (n + int (length (nvalue (ndata x)))) (freed @ [nvalue (ndata x)]) c1 =
          Inr (n', (freed @ [nvalue (ndata x)]) @ fr, c')"
        "evicted L c1 fr c'" "evict_result num (n + int (length (nvalue (ndata x)))) n' fr c'"
      using Suc.IH by blast
    have "evict_loop (Suc fuel) num heap n freed c = Inr (n', freed @ (nvalue (ndata x) # fr), c')"
      using True l(1) x(5) del(1) IH(1) by (simp add: Let_def heap1_def)
    moreover have "evict_result num n n' (nvalue (ndata x) # fr) c'" using IH(3) True by (auto simp: evict_result_def)
    ultimately show ?thesis using evicted_cons [OF del(2) IH(2)] by blast
  qed
qed simp

subsection \<open>Nothing unlocked is left without a free leaf\<close>

lemma unlocked_leaf:
  "locks_ok L t \<Longrightarrow> filter_mset (\<lambda>i. i \<in># ids t) L = {#} \<Longrightarrow> lock_ref (ndata t) = 0 \<Longrightarrow> free_leaves t \<noteq> {#}"
proof (induction t rule: tree_induct)
  case (TreeNode d cs)
  show ?case
  proof (cases cs)
    case Nil
    then show ?thesis using TreeNode.prems(3) by (simp add: free_leaves_def)
  next
    case (Cons y ys)
    obtain k c where y: "y = (k, c)" by (cases y)
    have "filter_mset (\<lambda>i. i \<in># ids c) L = {#}"
      using TreeNode.prems(2) child_ids [of k c cs _ d] Cons y by (auto simp: filter_mset_eq_conv)
    moreover have "locks_ok L c" "lock_ref (ndata c) = int (size (filter_mset (\<lambda>i. i \<in># ids c) L))"
      using TreeNode.prems(1) Cons y by auto
    ultimately have "free_leaves c \<noteq> {#}" using TreeNode.IH [of k c] Cons y by auto
    then show ?thesis using Cons y by (simp add: free_leaves_def)
  qed
qed

lemma all_locked: "locks_ok L t \<Longrightarrow> lock_ref (ndata t) \<noteq> 0 \<Longrightarrow> free_leaves t = {#} \<Longrightarrow> unlocked_size t = 0"
proof (induction t rule: tree_induct)
  case (TreeNode d cs)
  have "unlocked_size (snd y) = 0" if y: "y \<in> set cs" for y
  proof -
    have "free_leaves (snd y) \<subseteq># sum_list (map (\<lambda>(k, x). free_leaves x) cs)"
      using y by (induction cs) (auto intro: subset_mset.add_increasing2 subset_mset.add_increasing)
    then have fl: "free_leaves (snd y) = {#}" using TreeNode.prems(3) by (simp add: free_leaves_def)
    have lk: "locks_ok L (snd y)" "lock_ref (ndata (snd y)) = int (size (filter_mset (\<lambda>i. i \<in># ids (snd y)) L))"
      using TreeNode.prems(1) y unfolding locks_simps by auto
    then have "lock_ref (ndata (snd y)) \<noteq> 0" using unlocked_leaf [OF lk(1)] fl by auto
    then show ?thesis using TreeNode.IH [of "fst y" "snd y"] y lk(1) fl by simp
  qed
  then have "\<forall>y \<in> set cs. unlocked_size (snd y) = 0" by blast
  then have "sum_list (map (\<lambda>(k, x). unlocked_size x) cs) = 0" by (induction cs) auto
  then show ?case using TreeNode.prems(2) by (simp add: unlocked_size_def)
qed

definition start_heap :: "radix_cache \<Rightarrow> heap_entry list" where
  "start_heap c = map (\<lambda>n. heap_entry (eviction_strategy c) (ndata n)) (List.map_filter (\<lambda>i. find_node i (root_node c)) (evictable_leaves c))"

lemma start_heap_ok:
  assumes "cache_inv c L"
  shows "heap_ok c (start_heap c)" and "\<And>e. e \<in> set (start_heap c) \<Longrightarrow>
    \<exists>x \<in> set (nodes (root_node c)). e = heap_entry (eviction_strategy c) (ndata x) \<and> find_node (snd e) (root_node c) = Some x"
proof -
  have leaf: "\<exists>x. find_node i (root_node c) = Some x \<and> nid (ndata x) = i \<and> x \<in> set (nodes (root_node c))" if "i \<in> set (evictable_leaves c)" for i
    using leaf_in_tree [OF assms that] by metis
  have "map (\<lambda>n. nid (ndata n)) (List.map_filter (\<lambda>i. find_node i (root_node c)) is) = is" if "set is \<subseteq> set (evictable_leaves c)" for "is"
    using that
  proof (induction "is")
    case (Cons i "is")
    then show ?case using leaf [of i] by (auto simp: List.map_filter_simps)
  qed (simp add: List.map_filter_simps)
  then have "map snd (start_heap c) = evictable_leaves c" by (simp add: start_heap_def heap_entry_def comp_def)
  then show "heap_ok c (start_heap c)" using assms by (metis heap_ok_def cache_inv_def set_map)
  fix e
  assume "e \<in> set (start_heap c)"
  then obtain i x where "i \<in> set (evictable_leaves c)" "find_node i (root_node c) = Some x" "e = heap_entry (eviction_strategy c) (ndata x)"
    by (auto simp: start_heap_def List.map_filter_def)
  with leaf [of i] show "\<exists>x \<in> set (nodes (root_node c)). e = heap_entry (eviction_strategy c) (ndata x) \<and> find_node (snd e) (root_node c) = Some x"
    by (auto simp: heap_entry_def)
qed

lemma evict_ok:
  assumes "cache_inv c L" "\<not> disable c"
  shows "\<exists>fr c'. evict c num = Inr (int (length (concat fr)), fr, c') \<and> evicted L c fr c' \<and>
    (num \<le> int (length (concat fr)) \<or> evictable_size c' = 0) \<and>
    (fr \<noteq> [] \<longrightarrow> int (length (concat fr)) - int (length (last fr)) < num)"
proof -
  from evict_loop_ok [OF assms(1) start_heap_ok(1) [OF assms(1)] lessI, of num 0 "[]"] obtain n' fr c' where
    e: "evict_loop (Suc (node_count (root_node c))) num (start_heap c) 0 [] c = Inr (n', fr, c')" "evicted L c fr c'" "evict_result num 0 n' fr c'" by auto
  have inv': "cache_inv c' L" using e(2) by (simp add: evicted_def)
  have "evictable_leaves c' = [] \<Longrightarrow> evictable_size c' = 0"
    using inv' all_locked [of L "root_node c'"] by (auto simp: cache_inv_def)
  moreover have "evict c num = Inr (n', fr, c')" using assms(2) e(1) by (simp add: evict_def Let_def start_heap_def)
  ultimately show ?thesis using e(2,3) by (auto simp: evict_result_def)
qed

lemma lex_fst: "(a, b) \<le> (a', b') \<Longrightarrow> a \<le> a'" for a a' :: "int \<times> int" and b b' :: int
  unfolding less_eq_prod_simp by (meson less_imp_le)

text \<open>The first victim has the least priority among the unlocked leaves.\<close>

lemma first_victim_least:
  assumes inv: "cache_inv c L" and on: "\<not> disable c" and num: "0 < num" and lv: "evictable_leaves c \<noteq> []"
  shows "\<exists>x fr n c'. x \<in> set (nodes (root_node c)) \<and> nid (ndata x) \<in> set (evictable_leaves c) \<and>
    evict c num = Inr (n, nvalue (ndata x) # fr, c') \<and>
    (\<forall>y \<in> set (nodes (root_node c)). nid (ndata y) \<in> set (evictable_leaves c) \<longrightarrow>
       get_priority (eviction_strategy c) (ndata x) \<le> get_priority (eviction_strategy c) (ndata y))"
proof -
  note heap = start_heap_ok [OF inv]
  have ids: "snd ` set (start_heap c) = set (evictable_leaves c)" using heap(1) by (simp add: heap_ok_def)
  then have ne: "start_heap c \<noteq> []" using lv by auto
  obtain l where l: "heap_pop (start_heap c) = (l, remove1 l (start_heap c))" "l \<in> set (start_heap c)" "\<forall>e \<in> set (start_heap c). fst l \<le> fst e"
    using heap_pop_least [OF ne] by blast
  obtain x where x: "x \<in> set (nodes (root_node c))" "l = heap_entry (eviction_strategy c) (ndata x)" "find_node (snd l) (root_node c) = Some x"
    using heap(2) [OF l(2)] by blast
  have xl: "nid (ndata x) = snd l" using x(2) by (simp add: heap_entry_def)
  then have leaf: "nid (ndata x) \<in> set (evictable_leaves c)" using l(2) ids by auto
  have "get_priority (eviction_strategy c) (ndata x) \<le> get_priority (eviction_strategy c) (ndata y)"
    if y: "y \<in> set (nodes (root_node c))" "nid (ndata y) \<in> set (evictable_leaves c)" for y
  proof -
    obtain e where e: "e \<in> set (start_heap c)" "snd e = nid (ndata y)" using y(2) ids by (metis imageE)
    obtain y' where y': "y' \<in> set (nodes (root_node c))" "e = heap_entry (eviction_strategy c) (ndata y')" using heap(2) [OF e(1)] by blast
    then have "y' = y" using uniq_nid [of "root_node c" y' y] y(1) e(2) inv by (simp add: cache_inv_def heap_entry_def)
    moreover have "fst l \<le> fst e" using l(3) e(1) by blast
    ultimately show ?thesis using x(2) y'(2) lex_fst by (simp add: heap_entry_def) blast
  qed
  moreover have "\<exists>n fr c'. evict c num = Inr (n, nvalue (ndata x) # fr, c')"
  proof -
    have "free_node (ndata x) (children x = [])" using free_leaves_node [OF _ x(1)] leaf inv by (simp add: cache_inv_def)
    then obtain p c1 where del: "delete_leaf c x = Inr (p, c1)" "evicts L c x p c1"
      using delete_leaf_ok [OF inv x(1)] by (auto simp: free_node_def)
    have inv1: "cache_inv c1 L" "node_count (root_node c1) < node_count (root_node c)" using del(2) by (simp_all add: evicts_def)
    from evict_loop_ok [OF inv1(1) heap_step [OF heap(1) l(2) xl del(2), of "eviction_strategy c1"] inv1(2),
        of num "int (length (nvalue (ndata x)))" "[nvalue (ndata x)]"]
    show ?thesis using on num ne l(1) x(3) del(1) by (auto simp: evict_def Let_def start_heap_def)
  qed
  ultimately show ?thesis using x(1) leaf by blast
qed

section \<open>The cache as a whole\<close>

lemma tokens_stored_sum: "int (tokens_stored t) = tsum (\<lambda>d leaf. int (length (nvalue d))) t"
proof (induction t rule: tree_induct)
  case (TreeNode d cs)
  then have "\<forall>y \<in> set cs. int (tokens_stored (snd y)) = tsum (\<lambda>d leaf. int (length (nvalue d))) (snd y)" by (metis prod.collapse)
  then have "int (sum_list (map (\<lambda>(k, x). tokens_stored x) cs)) = sum_list (map (\<lambda>(k, x). tsum (\<lambda>d leaf. int (length (nvalue d))) x) cs)"
    by (induction cs) auto
  then show ?case by simp
qed

lemma sizes_add:
  "wf_tree ps e t \<Longrightarrow> length (nvalue (ndata t)) = key_len (nkey (ndata t)) \<Longrightarrow>
    tsum (\<lambda>d leaf. int (length (nvalue d))) t = unlocked_size t + locked_size t"
proof (induction t rule: tree_induct)
  case (TreeNode d cs)
  have "tsum (\<lambda>d leaf. int (length (nvalue d))) (snd y) = unlocked_size (snd y) + locked_size (snd y)" if "y \<in> set cs" for y
  proof -
    have "length (nvalue (ndata (snd y))) = key_len (nkey (ndata (snd y)))" "wf_tree ps e (snd y)"
      using that TreeNode.prems(1) by (auto simp: case_prod_beta child_ok_def)
    then show ?thesis using TreeNode.IH [of "fst y" "snd y"] that by simp
  qed
  then have "\<forall>y \<in> set cs. tsum (\<lambda>d leaf. int (length (nvalue d))) (snd y) = unlocked_size (snd y) + locked_size (snd y)" by blast
  then have "sum_list (map (\<lambda>(k, x). tsum (\<lambda>d leaf. int (length (nvalue d))) x) cs) =
      sum_list (map (\<lambda>(k, x). unlocked_size x) cs) + sum_list (map (\<lambda>(k, x). locked_size x) cs)"
    by (induction cs) auto
  then show ?case using TreeNode.prems(2) by (simp add: unlocked_size_def locked_size_def)
qed

lemma total_size_split: "cache_inv c L \<Longrightarrow> int (total_size c) = evictable_size c + protected_size c"
  using sizes_add [of "rc_page_size c" "is_eagle c" "root_node c"] by (simp add: cache_inv_def total_size_def tokens_stored_sum)

text \<open>What the cache reports as evictable and protected is exactly what its pages hold.\<close>

lemma page_sizes:
  "0 < ps \<Longrightarrow> wf_tree ps e t \<Longrightarrow> length (nvalue (ndata t)) = key_len (nkey (ndata t)) \<Longrightarrow> ps dvd key_len (nkey (ndata t)) \<Longrightarrow>
    int (size (tsum (\<lambda>d leaf. mset (map snd (node_pages ps d))) t) * ps) = tsum (\<lambda>d leaf. int (length (nvalue d))) t"
proof (induction t rule: tree_induct)
  case (TreeNode d cs)
  let ?pages = "tsum (\<lambda>d leaf. mset (map snd (node_pages ps d)))" and ?slots = "tsum (\<lambda>d leaf. int (length (nvalue d)))"
  have "int (size (?pages (snd y)) * ps) = ?slots (snd y)" if "y \<in> set cs" for y
  proof -
    have "length (nvalue (ndata (snd y))) = key_len (nkey (ndata (snd y)))" "wf_tree ps e (snd y)" "ps dvd key_len (nkey (ndata (snd y)))"
      using that TreeNode.prems(2) by (auto simp: case_prod_beta child_ok_def)
    then show ?thesis using TreeNode.IH [of "fst y" "snd y"] TreeNode.prems(1) that by simp
  qed
  then have "\<forall>y \<in> set cs. int (size (?pages (snd y)) * ps) = ?slots (snd y)" by blast
  then have "int (size (sum_list (map (\<lambda>(k, x). ?pages x) cs)) * ps) = sum_list (map (\<lambda>(k, x). ?slots x) cs)"
    by (induction cs) (auto simp: algebra_simps)
  moreover have "length (node_pages ps d) * ps = length (nvalue d)" using TreeNode.prems(3,4) by (simp add: node_pages_def)
  ultimately show ?case by (simp add: algebra_simps flip: of_nat_mult)
qed

lemma page_count:
  assumes inv: "cache_inv c L"
  shows "int (size (page_lists c) * rc_page_size c) = evictable_size c + protected_size c"
proof -
  have "int (size (page_lists c) * rc_page_size c) = tsum (\<lambda>d leaf. int (length (nvalue d))) (root_node c)"
    unfolding page_lists_sum [OF inv] by (rule page_sizes [of _ "is_eagle c"]) (use inv in \<open>simp_all add: cache_inv_def\<close>)
  then show ?thesis using total_size_split [OF inv] by (simp add: total_size_def tokens_stored_sum)
qed

text \<open>The states the operations lead to, with the locks that are held.\<close>

inductive rc_reach :: "radix_cache \<Rightarrow> nat multiset \<Rightarrow> bool" where
  rinit: "0 < ps \<Longrightarrow> radix_cache_init created False ps eagle policy nxt = Inr c \<Longrightarrow> rc_reach c {#}"
| rreset: "rc_reach c L \<Longrightarrow> rc_reach (reset created c) {#}"
| rmatch: "rc_reach c L \<Longrightarrow> key_fits c key \<Longrightarrow> match_prefix access created c key = Inr (v, i, c') \<Longrightarrow> rc_reach c' L"
| rinsert: "rc_reach c L \<Longrightarrow> key_fits c key \<Longrightarrow> value_fits c key val \<Longrightarrow>
    rc_insert access created c key val prio chunked = Inr (m, c') \<Longrightarrow> rc_reach c' L"
| rinc: "rc_reach c L \<Longrightarrow> i \<in># ids (root_node c) \<Longrightarrow> inc_lock_ref c i = Inr (delta, c') \<Longrightarrow> rc_reach c' (add_mset i L)"
| rdec: "rc_reach c L \<Longrightarrow> i \<in># L \<Longrightarrow> dec_lock_ref c i = Inr (delta, c') \<Longrightarrow> rc_reach c' (L - {#i#})"
| revict: "rc_reach c L \<Longrightarrow> evict c num = Inr (n, fr, c') \<Longrightarrow> rc_reach c' L"

lemma radix_init_ok:
  assumes "0 < ps" "radix_cache_init created dis ps eagle policy nxt = Inr c"
  shows "cache_inv c {#}" "contents c = []" "disable c = dis" "rc_page_size c = ps" "is_eagle c = eagle"
proof -
  obtain p where c: "c = reset created \<lparr>disable = dis, rc_page_size = ps, is_eagle = eagle, eviction_strategy = p,
      root_node = TreeNode (new_data 0 0 0 \<lparr>token_ids = [], extra_key = None, is_bigram = False\<rparr> []) [],
      counter = nxt, evictable_size = 0, protected_size = 0, evictable_leaves = []\<rparr>"
    using assms(2) by (auto simp: radix_cache_init_def rbind_eq_Inr_iff)
  show "cache_inv c {#}" "contents c = []" using reset_inv assms(1) unfolding c by simp_all
  show "disable c = dis" "rc_page_size c = ps" "is_eagle c = eagle" by (simp_all add: c reset_def)
qed

lemma reach_inv: "rc_reach c L \<Longrightarrow> cache_inv c L \<and> \<not> disable c"
proof (induction rule: rc_reach.induct)
  case (rinit ps created eagle policy nxt c)
  show ?case using radix_init_ok(1,3) [OF rinit] by simp
next
  case (rreset c L created)
  then show ?case using reset_inv [of c created] by (auto simp: cache_inv_def reset_def)
next
  case (rmatch c L key access created v i c')
  then show ?case using match_prefix_ok [of c L key access created] by (auto simp: same_config_def)
next
  case (rinsert c L key val access created prio chunked m c')
  then show ?case using rc_insert_ok [of c L key val access created prio chunked] by (auto simp: same_config_def)
next
  case (rinc c L i delta c')
  then show ?case using inc_lock_ref_ok [of c L i] by (auto simp: same_config_def)
next
  case (rdec c L i delta c')
  then show ?case using dec_lock_ref_ok [of c L i] by (auto simp: same_config_def)
next
  case (revict c L num n fr c')
  then show ?case using evict_ok [of c L num] by (auto simp: evicted_def same_config_def)
qed

text \<open>The cache after one insertion, for the examples.\<close>

definition demo_key :: "int list \<Rightarrow> radix_key" where
  "demo_key ts = \<lparr>token_ids = ts, extra_key = Some ''lora'', is_bigram = False\<rparr>"

definition empty_cache :: radix_cache where
  "empty_cache = reset 0
     \<lparr>disable = False, rc_page_size = 2, is_eagle = False, eviction_strategy = LRU,
      root_node = TreeNode (new_data 0 0 0 (demo_key []) []) [], counter = 1, evictable_size = 0, protected_size = 0, evictable_leaves = []\<rparr>"

definition demo_cache :: radix_cache where
  "demo_cache =
     (case rc_insert 1 2 empty_cache (demo_key [1, 2, 3, 4]) (Some [10, 11, 12, 13]) None False of
        Inr (m, c) \<Rightarrow> c
      | Inl _ \<Rightarrow> empty_cache)"

lemma empty_cache_inv: "cache_inv empty_cache {#}"
  unfolding empty_cache_def by (rule conjunct1 [OF reset_inv]) simp

lemma demo_cache_inv: "cache_inv demo_cache {#} \<and> \<not> disable demo_cache \<and> rc_page_size demo_cache = 2 \<and> \<not> is_eagle demo_cache"
proof -
  have fields: "\<not> disable empty_cache" "rc_page_size empty_cache = 2" "\<not> is_eagle empty_cache" by (simp_all add: empty_cache_def reset_def)
  have "key_len (view empty_cache (demo_key [1, 2, 3, 4])) = 4"
    by code_simp
  then have "value_fits empty_cache (demo_key [1, 2, 3, 4]) (Some [10, 11, 12, 13])" by (simp add: value_fits_def)
  from rc_insert_ok [OF empty_cache_inv _ this fields(1), of 1 2 None False] show ?thesis
    using fields by (auto simp: demo_cache_def key_fits_def demo_key_def same_config_def)
qed

lemma demo_contents: "evictable_leaves demo_cache = [2] \<and> contents demo_cache \<noteq> [] \<and> evictable_size demo_cache = 4"
  by code_simp

section \<open>Properties\<close>

text \<open>
  C30. \<^verbatim>\<open>match_prefix\<close> returns the slots of the longest prefix of the key, in whole pages, that the tree stores,
  with the node that ends there; nodes may be cut for it, but the stored pages, the bookkeeping and the
  position of every other node stay as they are.
\<close>

theorem match_prefix_longest:
  assumes "cache_inv c L" "key_fits c key" "\<not> disable c"
  shows "\<exists>v i c'. match_prefix access created c key = Inr (v, i, c') \<and>
    matched (rc_page_size c) (set (contents c)) (path (view c key)) v \<and>
    (i, take (length v) (path (view c key))) \<in> set (node_paths (root_node c')) \<and>
    mset (contents c') = mset (contents c) \<and> cache_inv c' L \<and>
    set (node_paths (root_node c)) \<subseteq> set (node_paths (root_node c'))"
  using match_prefix_ok [OF assms, of access created] by blast

theorem match_prefix_longest_witness:
  "cache_inv demo_cache {#} \<and> contents demo_cache \<noteq> [] \<and>
   (\<exists>v i c'. match_prefix 3 4 demo_cache (demo_key [1, 2, 5]) = Inr (v, i, c') \<and> cache_inv c' {#} \<and>
     matched 2 (set (contents demo_cache)) (path (view demo_cache (demo_key [1, 2, 5]))) v)"
  using match_prefix_longest [of demo_cache "{#}" "demo_key [1, 2, 5]" 3 4] demo_cache_inv demo_contents
  by (auto simp: key_fits_def demo_key_def)

text \<open>
  C31. \<^verbatim>\<open>insert\<close> returns the length of the longest stored prefix of the key and adds exactly the remaining
  pages of the key with the slots given for them; the new tokens count as evictable.
\<close>

theorem insert_adds_missing_pages:
  assumes "cache_inv c L" "key_fits c key" "value_fits c key val" "\<not> disable c"
  shows "\<exists>m c'. rc_insert access created c key val prio chunked = Inr (m, c') \<and>
    (\<exists>v. matched (rc_page_size c) (set (contents c)) (path (view c key)) v \<and> length v = m) \<and>
    mset (contents c') = mset (contents c) + pages_from (rc_page_size c) (m div rc_page_size c) (path (view c key)) (insert_value c key val) \<and>
    evictable_size c' = evictable_size c + int (key_len (view c key) - m) \<and> cache_inv c' L"
  using rc_insert_ok [OF assms, of access created prio chunked] by blast

theorem insert_adds_missing_pages_witness:
  "cache_inv demo_cache {#} \<and>
   (\<exists>m c'. rc_insert 3 4 demo_cache (demo_key [1, 2, 5, 6]) (Some [20, 21, 22, 23]) None False = Inr (m, c') \<and>
     cache_inv c' {#} \<and> evictable_size c' = 4 + int (4 - m))"
proof -
  have len: "key_len (view demo_cache (demo_key [1, 2, 5, 6])) = 4" by code_simp
  then show ?thesis
    using insert_adds_missing_pages [of demo_cache "{#}" "demo_key [1, 2, 5, 6]" "Some [20, 21, 22, 23]" 3 4 None False]
      demo_cache_inv demo_contents
    by (auto simp: key_fits_def value_fits_def demo_key_def)
qed

lemma match_after_insert:
  assumes "cache_inv c L" "key_fits c key" "value_fits c key val" "\<not> disable c"
    and "rc_insert access created c key val prio chunked = Inr (m, c')"
    and "match_prefix access' created' c' key = Inr (v, i, c'')"
  shows "\<exists>old. matched (rc_page_size c) (set (contents c)) (path (view c key)) old \<and> length old = m \<and>
    v = old @ drop m (insert_value c key val) \<and> length v = key_len (view c key)"
proof -
  let ?ps = "rc_page_size c" and ?P = "path (view c key)"
  obtain old where old: "matched ?ps (set (contents c)) ?P old" "length old = m" "m \<le> key_len (view c key)" and c': "cache_inv c' L" "same_config c c'"
      "mset (contents c') = mset (contents c) + pages_from ?ps (m div ?ps) ?P (insert_value c key val)"
    using rc_insert_ok [OF assms(1-4), of access created prio chunked] assms(5) by auto
  have i: "0 < ?ps" "wf_tree ?ps (is_eagle c') (root_node c')" using assms(1) c'(1,2) by (simp_all add: cache_inv_def same_config_def)
  have same: "view c' key = view c key" "rc_page_size c' = ?ps" using c'(2) by (simp_all add: view_def same_config_def)
  have "matched ?ps (set (contents c')) ?P v"
    using match_prefix_ok [OF c'(1), of key access' created'] assms(2,4,6) c'(2) same by (auto simp: key_fits_def same_config_def)
  moreover have "matched ?ps (set (contents c')) ?P (old @ drop m (insert_value c key val))"
    using matched_after_insert [OF i(1), of ?P "insert_value c key val" "mset (contents c)" old] old view_ok(1) [OF i(1) assms(2)]
      length_insert_value [OF assms(3)] c'(3) by (metis length_path set_mset_mset)
  moreover have "distinct (map fst (contents c'))" using below_distinct [OF i] same by simp
  ultimately have "v = old @ drop m (insert_value c key val)" using matched_unique [OF i(1)] by blast
  then show ?thesis using old length_insert_value [OF assms(3)] by auto
qed

text \<open>
  C32. A key that has been inserted is matched in full: the slots found are those that were stored before,
  followed by the given slots for the new pages.
\<close>

theorem insert_then_match:
  assumes "cache_inv c L" "key_fits c key" "value_fits c key val" "\<not> disable c"
    and "rc_insert access created c key val prio chunked = Inr (m, c')"
    and "match_prefix access' created' c' key = Inr (v, i, c'')"
  shows "\<exists>old. matched (rc_page_size c) (set (contents c)) (path (view c key)) old \<and> length old = m \<and>
    v = old @ drop m (insert_value c key val) \<and> length v = key_len (view c key)"
  using assms by (rule match_after_insert)

theorem insert_then_match_witness:
  "\<exists>m c' v i c''. rc_insert 3 4 demo_cache (demo_key [1, 2, 5, 6]) (Some [20, 21, 22, 23]) None False = Inr (m, c') \<and>
     match_prefix 5 6 c' (demo_key [1, 2, 5, 6]) = Inr (v, i, c'') \<and> length v = 4 \<and> drop m v = drop m [20, 21, 22, 23]"
proof -
  have len: "key_len (view demo_cache (demo_key [1, 2, 5, 6])) = 4" by code_simp
  have val: "insert_value demo_cache (demo_key [1, 2, 5, 6]) (Some [20, 21, 22, 23]) = [20, 21, 22, 23]" by (simp add: insert_value_def len)
  have pre: "cache_inv demo_cache {#}" "key_fits demo_cache (demo_key [1, 2, 5, 6])"
      "value_fits demo_cache (demo_key [1, 2, 5, 6]) (Some [20, 21, 22, 23])" "\<not> disable demo_cache"
    using demo_cache_inv by (simp_all add: key_fits_def value_fits_def len) (simp add: demo_key_def)
  obtain m c' where ins: "rc_insert 3 4 demo_cache (demo_key [1, 2, 5, 6]) (Some [20, 21, 22, 23]) None False = Inr (m, c')"
      and c': "cache_inv c' {#}" "same_config demo_cache c'"
    using rc_insert_ok [OF pre, of 3 4 None False] by blast
  obtain v i c'' where mat: "match_prefix 5 6 c' (demo_key [1, 2, 5, 6]) = Inr (v, i, c'')"
    using match_prefix_ok [OF c'(1), of "demo_key [1, 2, 5, 6]" 5 6] c'(2) pre(2,4) by (auto simp: key_fits_def same_config_def)
  from insert_then_match [OF pre ins mat] show ?thesis using ins mat len val by auto
qed

text \<open>
  C33. \<^verbatim>\<open>evict\<close> always returns. It evicts at least the requested number of tokens, unless every unlocked token
  of the tree is evicted, and it stops as soon as the request is met: without the last victim it would
  not be.
\<close>

theorem evict_makes_room:
  assumes "cache_inv c L" "\<not> disable c"
  shows "\<exists>n fr c'. evict c num = Inr (n, fr, c') \<and> n = int (length (concat fr)) \<and>
    min num (evictable_size c) \<le> n \<and> (fr \<noteq> [] \<longrightarrow> n - int (length (last fr)) < num) \<and> evictable_size c' = evictable_size c - n"
proof -
  obtain fr c' where "evict c num = Inr (int (length (concat fr)), fr, c')" "evicted L c fr c'"
      "num \<le> int (length (concat fr)) \<or> evictable_size c' = 0" "fr \<noteq> [] \<longrightarrow> int (length (concat fr)) - int (length (last fr)) < num"
    using evict_ok [OF assms, of num] by blast
  then show ?thesis by (auto simp: evicted_def)
qed

theorem evict_makes_room_witness:
  "\<exists>n fr c'. evict demo_cache 3 = Inr (n, fr, c') \<and> 3 \<le> n \<and> evictable_size c' = 4 - n"
  using evict_makes_room [of demo_cache "{#}" 3] demo_cache_inv demo_contents by auto

text \<open>
  C34. \<^verbatim>\<open>evict\<close> frees exactly the slots it takes out of the tree, and never takes out a node that is locked or
  lies above a locked node: every locked node keeps its place, and the remaining pages were there before.
\<close>

theorem evict_frees_unlocked:
  assumes "cache_inv c L" "\<not> disable c" "evict c num = Inr (n, fr, c')"
  shows "tree_slots c = tree_slots c' + mset (concat fr) \<and> mset (contents c') \<subseteq># mset (contents c) \<and> cache_inv c' L \<and>
    (\<forall>i \<in># L. \<forall>q. (i, q) \<in> set (node_paths (root_node c)) \<longrightarrow> (i, q) \<in> set (node_paths (root_node c')))"
  using evict_ok [OF assms(1,2), of num] assms(3) by (auto simp: evicted_def kept_paths_def)

theorem evict_frees_unlocked_witness:
  "\<exists>n fr c'. evict demo_cache 3 = Inr (n, fr, c') \<and> tree_slots demo_cache = tree_slots c' + mset (concat fr)"
proof -
  obtain n fr c' where "evict demo_cache 3 = Inr (n, fr, c')" using evict_ok [of demo_cache "{#}" 3] demo_cache_inv by blast
  then show ?thesis using evict_frees_unlocked [of demo_cache "{#}" 3 n fr c'] demo_cache_inv by blast
qed

text \<open>
  C35. The first node that \<^verbatim>\<open>evict\<close> takes has the least priority of all unlocked leaves under the configured
  strategy.
\<close>

theorem evict_follows_policy:
  assumes "cache_inv c L" "\<not> disable c" "0 < num" "evictable_leaves c \<noteq> []"
  shows "\<exists>x fr n c'. x \<in> set (nodes (root_node c)) \<and> nid (ndata x) \<in> set (evictable_leaves c) \<and>
    evict c num = Inr (n, nvalue (ndata x) # fr, c') \<and>
    (\<forall>y \<in> set (nodes (root_node c)). nid (ndata y) \<in> set (evictable_leaves c) \<longrightarrow>
       get_priority (eviction_strategy c) (ndata x) \<le> get_priority (eviction_strategy c) (ndata y))"
  using first_victim_least [OF assms] .

theorem evict_follows_policy_witness:
  "\<exists>x fr n c'. nid (ndata x) \<in> set (evictable_leaves demo_cache) \<and> evict demo_cache 1 = Inr (n, nvalue (ndata x) # fr, c')"
  using evict_follows_policy [of demo_cache "{#}" 1] demo_cache_inv demo_contents by auto

text \<open>
  C36. In every reachable state the bookkeeping is exact: the evictable and the protected size are the
  lengths of the unlocked and of the locked nodes and add up to the size of the tree, the set of evictable
  leaves holds the unlocked leaves, and each node counts the locks held at or below it.
\<close>

theorem bookkeeping_exact:
  assumes "rc_reach c L"
  shows "evictable_size c = unlocked_size (root_node c) \<and> protected_size c = locked_size (root_node c) \<and>
    int (total_size c) = evictable_size c + protected_size c \<and>
    set (evictable_leaves c) = set_mset (free_leaves (root_node c)) \<and>
    (\<forall>x \<in> set (nodes (root_node c)). x = root_node c \<or> lock_ref (ndata x) = int (size (filter_mset (\<lambda>i. i \<in># ids x) L)))"
proof -
  have inv: "cache_inv c L" using reach_inv [OF assms] by simp
  then have "locks_ok L (root_node c)" by (simp add: cache_inv_def)
  from lock_ref_counts [OF this] show ?thesis using inv total_size_split [OF inv] by (auto simp: cache_inv_def)
qed

theorem bookkeeping_exact_witness:
  "\<exists>c. radix_cache_init 0 False 2 False ''LRU'' 1 = Inr c \<and> rc_reach c {#} \<and> int (total_size c) = evictable_size c + protected_size c"
proof -
  have "str_lower ''LRU'' = ''lru''" by code_simp
  then obtain c where c: "radix_cache_init 0 False 2 False ''LRU'' 1 = Inr c" by (simp add: radix_cache_init_def policy_of_name_def)
  then have "rc_reach c {#}" by (rule rc_reach.rinit [rotated]) simp
  with bookkeeping_exact [OF this] c show ?thesis by blast
qed

end
