(* ===== verification/Kv_Kernels.thy ===== *)
theory Kv_Kernels
  imports RK_Prelude
begin

text \<open>
  The index computation of the paged KV allocator, \<^verbatim>\<open>mem_cache/allocator.py\<close>: the Triton kernels
  \<^verbatim>\<open>alloc_extend_kernel\<close> and \<^verbatim>\<open>alloc_decode_kernel\<close>, and the sequential \<^verbatim>\<open>alloc_extend_naive\<close>.

  Device memory is a partial map from addresses to values. A kernel launch runs one program per
  request; \<open>launch\<close> runs them in a given order, and the lemmas hold for every order. The lanes that a
  masked load leaves out hold the value \<open>other\<close>, which is arbitrary. \<open>free_page_ptr\<close> is the device memory
  behind \<^verbatim>\<open>free_pages\<close>, total because the kernel reads it before the allocator checks its length.
\<close>

section \<open>Definitions\<close>

type_synonym mem = "int \<rightharpoonup> int"

definition icdiv :: "int \<Rightarrow> int \<Rightarrow> int" where
  "icdiv n p = (n + p - 1) div p"

definition lane :: "int list \<Rightarrow> int \<Rightarrow> nat \<Rightarrow> nat \<Rightarrow> int" where
  "lane xs other pid l = (if l \<le> pid then xs ! l else other)"

definition masked_store :: "nat \<Rightarrow> (nat \<Rightarrow> int) \<Rightarrow> (nat \<Rightarrow> int) \<Rightarrow> (nat \<Rightarrow> bool) \<Rightarrow> mem \<Rightarrow> mem" where
  "masked_store lanes addr val msk m =
     foldl (\<lambda>m l. if msk l then m(addr l \<mapsto> val l) else m) m [0..<lanes]"

definition BLOCK_EXTEND :: nat where
  "BLOCK_EXTEND = 4096"

definition alloc_extend_kernel ::
  "int \<Rightarrow> nat \<Rightarrow> int \<Rightarrow> int list \<Rightarrow> int list \<Rightarrow> int list \<Rightarrow> (int \<Rightarrow> int) \<Rightarrow> nat \<Rightarrow> mem \<Rightarrow> mem" where
  "alloc_extend_kernel other bs_upper page_size pre_lens_ptr seq_lens_ptr last_loc_ptr free_page_ptr pid out =
    (let seq_lens = map (lane seq_lens_ptr other pid) [0..<bs_upper];
         pre_lens = map (lane pre_lens_ptr other pid) [0..<bs_upper];
         extend_lens = map2 (-) seq_lens pre_lens;
         seq_len = seq_lens_ptr ! pid;
         pre_len = pre_lens_ptr ! pid;
         extend_len = seq_len - pre_len;
         sum_extend_lens = sum_list extend_lens;
         output_start_loc = sum_extend_lens - extend_len;
         num_pages_after = map (\<lambda>n. icdiv n page_size) seq_lens;
         num_pages_before = map (\<lambda>n. icdiv n page_size) pre_lens;
         num_new_pages = map2 (-) num_pages_after num_pages_before;
         num_page_start_loc_self = icdiv seq_len page_size - icdiv pre_len page_size;
         sum_num_new_pages = sum_list num_new_pages;
         new_page_start_loc = sum_num_new_pages - num_page_start_loc_self;
         last_loc = last_loc_ptr ! pid;
         num_part1 = min seq_len (icdiv pre_len page_size * page_size) - pre_len;
         out = masked_store (nat page_size) (\<lambda>l. output_start_loc + int l) (\<lambda>l. last_loc + 1 + int l)
                 (\<lambda>l. int l < num_part1) out
     in if pre_len + num_part1 = seq_len then out
        else
          let num_part2 = seq_len div page_size * page_size - icdiv pre_len page_size * page_size;
              num_blocks = icdiv num_part2 (int BLOCK_EXTEND);
              out = foldl (\<lambda>out block_id. masked_store BLOCK_EXTEND
                  (\<lambda>l. output_start_loc + num_part1 + (int block_id * int BLOCK_EXTEND + int l))
                  (\<lambda>l. let offs = int block_id * int BLOCK_EXTEND + int l
                       in free_page_ptr (new_page_start_loc + offs div page_size) * page_size + offs mod page_size)
                  (\<lambda>l. int block_id * int BLOCK_EXTEND + int l < num_part2) out) out [0..<nat num_blocks]
          in if pre_len + num_part1 + num_part2 = seq_len then out
             else
               let num_part3 = seq_len - seq_len div page_size * page_size;
                   start_loc = free_page_ptr (new_page_start_loc + num_page_start_loc_self - 1)
               in masked_store (nat page_size) (\<lambda>l. output_start_loc + num_part1 + num_part2 + int l)
                    (\<lambda>l. start_loc * page_size + int l) (\<lambda>l. int l < num_part3) out)"

definition alloc_decode_kernel ::
  "int \<Rightarrow> nat \<Rightarrow> int \<Rightarrow> int list \<Rightarrow> int list \<Rightarrow> (int \<Rightarrow> int) \<Rightarrow> nat \<Rightarrow> mem \<Rightarrow> mem" where
  "alloc_decode_kernel other bs_upper page_size seq_lens_ptr last_loc_ptr free_page_ptr pid out =
    (let seq_lens = map (lane seq_lens_ptr other pid) [0..<bs_upper];
         pre_lens = map2 (\<lambda>l s. if l \<le> pid then s - 1 else s) [0..<bs_upper] seq_lens;
         seq_len = seq_lens_ptr ! pid;
         pre_len = seq_len - 1;
         num_pages_after = map (\<lambda>n. icdiv n page_size) seq_lens;
         num_pages_before = map (\<lambda>n. icdiv n page_size) pre_lens;
         num_new_pages = map2 (-) num_pages_after num_pages_before;
         num_page_start_loc_self = icdiv seq_len page_size - icdiv pre_len page_size;
         sum_num_new_pages = sum_list num_new_pages;
         new_page_start_loc = sum_num_new_pages - num_page_start_loc_self
     in if num_page_start_loc_self = 0 then out(int pid \<mapsto> last_loc_ptr ! pid + 1)
        else out(int pid \<mapsto> free_page_ptr new_page_start_loc * page_size))"

text \<open>A launch over a grid: the programs run one after the other, in the given order.\<close>

definition launch :: "nat list \<Rightarrow> (nat \<Rightarrow> mem \<Rightarrow> mem) \<Rightarrow> mem \<Rightarrow> mem" where
  "launch order prog m = foldl (\<lambda>m pid. prog pid m) m order"

text \<open>
  Assignment to a slice of a one-dimensional tensor: the bounds are clipped, and the source has the
  length of the slice or length one (broadcast).
\<close>

definition clip :: "nat \<Rightarrow> int \<Rightarrow> nat" where
  "clip n i = (if i < 0 then nat (max 0 (int n + i)) else min (nat i) n)"

definition slice_assign :: "'a list \<Rightarrow> int \<Rightarrow> int \<Rightarrow> 'a list \<Rightarrow> 'a list result" where
  "slice_assign xs a b src =
     (let lo = clip (length xs) a; hi = clip (length xs) b; n = hi - lo
      in if length src = n then Inr (take lo xs @ src @ drop (lo + n) xs)
         else if length src = 1 then Inr (take lo xs @ replicate n (src ! 0) @ drop (lo + n) xs)
         else Inl RuntimeError)"

definition tensor_slice :: "'a list \<Rightarrow> int \<Rightarrow> int \<Rightarrow> 'a list" where
  "tensor_slice xs a b = slice (clip (length xs) a) (clip (length xs) b) xs"

definition naive_request ::
  "int list \<Rightarrow> int list \<Rightarrow> int list \<Rightarrow> int list \<Rightarrow> int \<Rightarrow> int option list \<Rightarrow> nat \<Rightarrow> int option list result" where
  "naive_request prefix_lens seq_lens last_loc free_pages page_size out_indices i =
    (let extend_lens = map2 (-) seq_lens prefix_lens;
         end_pos = map (\<lambda>k. sum_list (take (Suc k) extend_lens)) [0..<length extend_lens];
         start_pos = map2 (-) end_pos extend_lens;
         num_new_pages = map2 (\<lambda>s p. icdiv s page_size - icdiv p page_size) seq_lens prefix_lens;
         num_full_new_pages = map2 (\<lambda>s p. s div page_size - icdiv p page_size) seq_lens prefix_lens;
         need_page = map2 (-) num_new_pages num_full_new_pages;
         end_new_pages = map (\<lambda>k. sum_list (take (Suc k) num_new_pages)) [0..<length num_new_pages];
         start_new_pages = map2 (-) end_new_pages num_new_pages;
         pos_in_page = [0..page_size - 1];
         num1 = min (seq_lens ! i) (icdiv (prefix_lens ! i) page_size * page_size) - prefix_lens ! i
     in rbind (if num1 \<noteq> 0
               then slice_assign out_indices (start_pos ! i) (start_pos ! i + num1)
                      (map (\<lambda>q. Some (last_loc ! i + 1 + q)) (tensor_slice pos_in_page 0 num1))
               else Inr out_indices) (\<lambda>out_indices.
        if prefix_lens ! i + num1 = seq_lens ! i then Inr out_indices
        else
          let num2 = (seq_lens ! i div page_size - icdiv (prefix_lens ! i) page_size) * page_size
          in rbind (if num2 \<noteq> 0
                    then slice_assign out_indices (start_pos ! i + num1) (start_pos ! i + num1 + num2)
                           (concat (map (\<lambda>pg. map (\<lambda>q. Some (pg * page_size + q)) pos_in_page)
                              (tensor_slice free_pages (start_new_pages ! i) (end_new_pages ! i - need_page ! i))))
                    else Inr out_indices) (\<lambda>out_indices.
             if prefix_lens ! i + num1 + num2 = seq_lens ! i then Inr out_indices
             else
               let num3 = seq_lens ! i - seq_lens ! i div page_size * page_size
               in if num3 \<noteq> 0
                  then rbind (py_get free_pages (end_new_pages ! i - 1)) (\<lambda>pg.
                       slice_assign out_indices (end_pos ! i - num3) (end_pos ! i)
                         (map (\<lambda>q. Some (pg * page_size + q)) (tensor_slice pos_in_page 0 num3)))
                  else Inr out_indices)))"

definition alloc_extend_naive ::
  "int list \<Rightarrow> int list \<Rightarrow> int list \<Rightarrow> int list \<Rightarrow> int option list \<Rightarrow> int \<Rightarrow> int option list result" where
  "alloc_extend_naive prefix_lens seq_lens last_loc free_pages out_indices page_size =
     foldM (naive_request prefix_lens seq_lens last_loc free_pages page_size) out_indices [0..<length prefix_lens]"

section \<open>Specification\<close>

text \<open>
  Where request \<open>i\<close> starts in the output and in the free list, and the slot of its token at position
  \<open>pos\<close>: the rest of the last page after \<^verbatim>\<open>last_loc\<close>, then the request's own new pages.
\<close>

definition lens_ok :: "int \<Rightarrow> int list \<Rightarrow> int list \<Rightarrow> bool" where
  "lens_ok ps pre seq \<longleftrightarrow> 0 < ps \<and> length pre = length seq \<and>
     (\<forall>i < length seq. 0 \<le> pre ! i \<and> pre ! i \<le> seq ! i)"

definition out_start :: "int list \<Rightarrow> int list \<Rightarrow> nat \<Rightarrow> int" where
  "out_start pre seq i = (\<Sum>j<i. seq ! j - pre ! j)"

definition page_start :: "int \<Rightarrow> int list \<Rightarrow> int list \<Rightarrow> nat \<Rightarrow> int" where
  "page_start ps pre seq i = (\<Sum>j<i. icdiv (seq ! j) ps - icdiv (pre ! j) ps)"

definition slot :: "int \<Rightarrow> int list \<Rightarrow> int list \<Rightarrow> int list \<Rightarrow> (int \<Rightarrow> int) \<Rightarrow> nat \<Rightarrow> int \<Rightarrow> int" where
  "slot ps pre seq locs fp i pos =
     (if pos < icdiv (pre ! i) ps * ps then locs ! i + 1 + (pos - pre ! i)
      else fp (page_start ps pre seq i + (pos div ps - icdiv (pre ! i) ps)) * ps + pos mod ps)"

definition request_slots :: "int \<Rightarrow> int list \<Rightarrow> int list \<Rightarrow> int list \<Rightarrow> (int \<Rightarrow> int) \<Rightarrow> nat \<Rightarrow> int list" where
  "request_slots ps pre seq locs fp i = map (slot ps pre seq locs fp i) [pre ! i..seq ! i - 1]"

section \<open>The kernels\<close>

lemma masked_store_contiguous:
  "masked_store n (\<lambda>l. base + int l) val msk m =
     (\<lambda>x. if base \<le> x \<and> x < base + int n \<and> msk (nat (x - base)) then Some (val (nat (x - base))) else m x)"
proof (induction n)
  case 0
  show ?case by (auto simp: masked_store_def fun_eq_iff)
next
  case (Suc n)
  have "masked_store (Suc n) (\<lambda>l. base + int l) val msk m =
      (if msk n then (masked_store n (\<lambda>l. base + int l) val msk m)(base + int n \<mapsto> val n)
       else masked_store n (\<lambda>l. base + int l) val msk m)"
    by (simp add: masked_store_def)
  moreover have "nat (x - base) = n \<longleftrightarrow> x = base + int n" if "base \<le> x" for x
    using that by auto
  ultimately show ?case unfolding Suc.IH by (fastforce simp: fun_eq_iff)
qed

lemma masked_blocks:
  assumes "0 < b"
  shows "foldl (\<lambda>m k. masked_store b (\<lambda>l. base + (int k * int b + int l)) (\<lambda>l. v (int k * int b + int l))
             (\<lambda>l. int k * int b + int l < n) m) m [0..<K] =
     (\<lambda>x. if base \<le> x \<and> x < base + int K * int b \<and> x - base < n then Some (v (x - base)) else m x)"
proof (induction K)
  case (Suc K)
  define kb where "kb = int K * int b"
  then have kb: "int K * int b = kb" "int (Suc K) * int b = kb + int b" "0 \<le> kb"
    by (simp_all add: algebra_simps)
  have "masked_store b (\<lambda>l. base + (kb + int l)) (\<lambda>l. v (kb + int l)) (\<lambda>l. kb + int l < n) m' =
    (\<lambda>x. if base + kb \<le> x \<and> x < base + kb + int b \<and> x - base < n then Some (v (x - base)) else m' x)" for m'
    using masked_store_contiguous [of b "base + kb"] by (auto simp: fun_eq_iff add.assoc)
  moreover have "[0..<Suc K] = [0..<K] @ [K]" by simp
  ultimately show ?case using Suc kb(3) unfolding kb(2)
    by (simp only: foldl_append foldl_Cons foldl_Nil kb(1)) (auto simp: fun_eq_iff)
qed (auto simp: fun_eq_iff)

lemma lane_sum:
  fixes f :: "int \<Rightarrow> int"
  assumes "pid < n"
  shows "sum_list (map2 (-) (map (\<lambda>x. f (lane xs other pid x)) [0..<n]) (map (\<lambda>x. f (lane ys other pid x)) [0..<n]))
      - (f (xs ! pid) - f (ys ! pid)) = (\<Sum>j<pid. f (xs ! j) - f (ys ! j))"
proof -
  have "map2 (-) (map (\<lambda>x. f (lane xs other pid x)) [0..<n]) (map (\<lambda>x. f (lane ys other pid x)) [0..<n])
      = map (\<lambda>l. if l \<le> pid then f (xs ! l) - f (ys ! l) else 0) [0..<n]"
    by (auto simp: lane_def intro!: nth_equalityI)
  then have "sum_list (map2 (-) (map (\<lambda>x. f (lane xs other pid x)) [0..<n]) (map (\<lambda>x. f (lane ys other pid x)) [0..<n]))
      = (\<Sum>l<n. if l \<le> pid then f (xs ! l) - f (ys ! l) else 0)"
    by (simp add: interv_sum_list_conv_sum_set_nat lessThan_atLeast0)
  also have "\<dots> = (\<Sum>l \<in> {..pid}. f (xs ! l) - f (ys ! l))"
    using assms by (simp add: sum.inter_filter [symmetric]) (rule sum.cong, auto)
  also have "\<dots> = (\<Sum>j<pid. f (xs ! j) - f (ys ! j)) + (f (xs ! pid) - f (ys ! pid))"
    by (simp add: lessThan_Suc_atMost [symmetric])
  finally show ?thesis by simp
qed

lemma icdiv_bounds:
  assumes "0 < p"
  shows "n \<le> icdiv n p * p" "icdiv n p * p < n + p"
proof -
  have "icdiv n p * p + (n + p - 1) mod p = n + p - 1" by (simp add: icdiv_def div_mult_mod_eq)
  moreover have "0 \<le> (n + p - 1) mod p" "(n + p - 1) mod p < p" using assms by simp_all
  ultimately show "n \<le> icdiv n p * p" "icdiv n p * p < n + p" by linarith+
qed

lemma icdiv_eq: "0 < p \<Longrightarrow> icdiv n p = n div p + (if n mod p = 0 then 0 else 1)"
proof -
  assume p: "0 < p"
  have n: "n = n div p * p + n mod p" by simp
  have "icdiv n p = (p * (n div p) + (n mod p + p - 1)) div p"
    unfolding icdiv_def using n by (simp add: algebra_simps)
  also have "\<dots> = n div p + (n mod p + p - 1) div p" using p by simp
  also have "(n mod p + p - 1) div p = (if n mod p = 0 then 0 else 1)"
  proof (cases "n mod p = 0")
    case False
    with pos_mod_sign [OF p, of n] pos_mod_bound [OF p, of n]
    have "n mod p + p - 1 = (n mod p - 1) + 1 * p" "0 \<le> n mod p - 1" "n mod p - 1 < p" by linarith+
    then show ?thesis using False p by (simp only: div_mult_self1) simp
  qed (use p in simp)
  finally show ?thesis .
qed

lemma icdiv_floor: "0 < p \<Longrightarrow> icdiv n p = n div p + (if n div p * p = n then 0 else 1)"
  using icdiv_eq [of p n] minus_div_mult_eq_mod [of n p] by auto

lemma floor_bounds: "0 < p \<Longrightarrow> n div p * p \<le> n \<and> n < n div p * p + p" for p n :: int
  using div_mult_mod_eq [of n p] pos_mod_sign [of p n] pos_mod_bound [of p n] by linarith

lemma page_arith:
  fixes p :: int
  assumes "0 < p" "x = k * p + q"
  shows "x div p = k + q div p" "x mod p = q mod p"
  using assms by simp_all

lemma out_start_Suc: "out_start pre seq (Suc i) = out_start pre seq i + (seq ! i - pre ! i)"
  by (simp add: out_start_def)

lemma alloc_extend_kernel_eq:
  assumes "0 < ps" "pre ! pid \<le> seq ! pid" "pid < n"
  shows "alloc_extend_kernel other n ps pre seq locs fp pid m =
    (\<lambda>x. if out_start pre seq pid \<le> x \<and> x < out_start pre seq (Suc pid)
         then Some (slot ps pre seq locs fp pid (pre ! pid + (x - out_start pre seq pid))) else m x)"
proof -
  define P S c d C E st pg where "P = pre ! pid" and "S = seq ! pid" and "c = icdiv P ps" and "d = S div ps"
    and "C = c * ps" and "E = d * ps" and "st = out_start pre seq pid" and "pg = page_start ps pre seq pid"
  note defs = P_def [symmetric] S_def [symmetric] c_def [symmetric] d_def [symmetric] C_def [symmetric]
    E_def [symmetric] st_def [symmetric] pg_def [symmetric]
  have start: "sum_list (map2 (-) (map (lane seq other pid) [0..<n]) (map (lane pre other pid) [0..<n])) - (S - P) = st"
    using lane_sum [OF assms(3), of "\<lambda>x. x"] by (simp add: S_def P_def st_def out_start_def)
  have page: "sum_list (map2 (-) (map (\<lambda>n. icdiv n ps) (map (lane seq other pid) [0..<n]))
      (map (\<lambda>n. icdiv n ps) (map (lane pre other pid) [0..<n]))) - (icdiv S ps - c) = pg"
    using lane_sum [OF assms(3), of "\<lambda>x. icdiv x ps"]
    by (simp add: S_def P_def c_def pg_def page_start_def comp_def)
  have c: "P \<le> C" "C < P + ps" using icdiv_bounds [OF assms(1)] by (simp_all add: C_def c_def)
  have d: "E \<le> S" "S < E + ps" using floor_bounds [OF assms(1), of S] by (simp_all add: E_def d_def)
  have PS: "P \<le> S" using assms(2) by (simp add: P_def S_def)
  let ?slot = "\<lambda>x. slot ps pre seq locs fp pid (P + (x - st))"
  have old: "?slot x = locs ! pid + 1 + (x - st)" if "P + (x - st) < C" for x
    using that unfolding slot_def defs by simp
  have new: "?slot x = fp (pg + (x - (st + (C - P))) div ps) * ps + (x - (st + (C - P))) mod ps"
    if "C \<le> P + (x - st)" for x
  proof -
    have "P + (x - st) = c * ps + (x - (st + (C - P)))" by (simp add: C_def)
    from that page_arith [OF assms(1) this] show ?thesis unfolding slot_def defs by simp
  qed
  have St: "out_start pre seq (Suc pid) = st + (S - P)" by (simp add: out_start_Suc defs)
  let ?m1 = "\<lambda>n1. masked_store (nat ps) (\<lambda>l. st + int l) (\<lambda>l. locs ! pid + 1 + int l) (\<lambda>l. int l < n1) m"
  have m1: "?m1 n1 = (\<lambda>x. if st \<le> x \<and> x < st + n1 then Some (locs ! pid + 1 + (x - st)) else m x)"
    if "n1 \<le> ps" for n1
    using that assms(1) by (auto simp: masked_store_contiguous fun_eq_iff)
  show ?thesis
  proof (cases "S \<le> C")
    case True
    have "S - P \<le> ps" using True c by linarith
    then show ?thesis
      using True c old m1 [of "S - P"]
      unfolding alloc_extend_kernel_def Let_def defs start page St by (auto simp: fun_eq_iff)
  next
    case False
    have CE: "C \<le> E"
    proof (rule ccontr)
      assume "\<not> C \<le> E"
      then have "d < c" using assms(1) by (simp add: C_def E_def)
      then have "(d + 1) * ps \<le> C" unfolding C_def using assms(1) by (intro mult_right_mono) auto
      with False d show False by (simp add: E_def algebra_simps)
    qed
    define K where "K = nat (icdiv (E - C) (int BLOCK_EXTEND))"
    let ?v = "\<lambda>offs. fp (pg + offs div ps) * ps + offs mod ps"
    have B: "0 < BLOCK_EXTEND" by (simp add: BLOCK_EXTEND_def)
    have "0 \<le> icdiv (E - C) (int BLOCK_EXTEND)"
      using CE B by (simp add: icdiv_def pos_imp_zdiv_nonneg_iff)
    then have K: "E - C \<le> int K * int BLOCK_EXTEND"
      using icdiv_bounds(1) [of "int BLOCK_EXTEND" "E - C"] B by (simp add: K_def)
    have m2: "foldl (\<lambda>m k. masked_store BLOCK_EXTEND (\<lambda>l. st + (C - P) + (int k * int BLOCK_EXTEND + int l))
        (\<lambda>l. ?v (int k * int BLOCK_EXTEND + int l))
        (\<lambda>l. int k * int BLOCK_EXTEND + int l < E - C) m) (?m1 (C - P)) [0..<K] =
      (\<lambda>x. if st \<le> x \<and> x < st + (E - P) then Some (?slot x) else m x)"
      unfolding masked_blocks [OF B, where v = ?v] using K c CE m1 [of "C - P"]
      by (auto simp: old new fun_eq_iff)
    show ?thesis
    proof (cases "E = S")
      case True
      then show ?thesis using False m2
        unfolding alloc_extend_kernel_def Let_def defs start page St K_def by simp
    next
      case dS: False
      have "icdiv S ps = d + 1"
        using icdiv_floor [OF assms(1), of S] dS by (simp add: d_def E_def)
      then have pgs: "pg + (icdiv S ps - c) - 1 = pg + (d - c)" by simp
      have last: "?slot x = fp (pg + (d - c)) * ps + (x - (st + (C - P) + (E - C)))"
        if "st + (E - P) \<le> x" "x < st + (S - P)" for x
      proof -
        have eq: "x - (st + (C - P)) = (d - c) * ps + (x - (st + (C - P) + (E - C)))"
          by (simp add: C_def E_def algebra_simps)
        have r: "0 \<le> x - (st + (C - P) + (E - C))" "x - (st + (C - P) + (E - C)) < ps"
          using that d by linarith+
        from page_arith [OF assms(1) eq] have
          "(x - (st + (C - P))) div ps = d - c" "(x - (st + (C - P))) mod ps = x - (st + (C - P) + (E - C))"
          unfolding div_pos_pos_trivial [OF r] mod_pos_pos_trivial [OF r] by simp_all
        moreover have "C \<le> P + (x - st)" using that CE by linarith
        ultimately show ?thesis using new [of x] by simp
      qed
      show ?thesis
        using False dS d CE c m2 last
        unfolding alloc_extend_kernel_def Let_def defs start page St pgs K_def
        by (auto simp: masked_store_contiguous fun_eq_iff)
    qed
  qed
qed

text \<open>Programs that fill disjoint regions give the same memory in every order.\<close>

lemma launch_regions:
  fixes lo :: "nat \<Rightarrow> int"
  assumes prog: "\<And>i m. i \<in> set order \<Longrightarrow>
      prog i m = (\<lambda>x. if lo i \<le> x \<and> x < lo (Suc i) then Some (f i x) else m x)"
    and mono: "\<And>i j. i \<le> j \<Longrightarrow> j \<le> bs \<Longrightarrow> lo i \<le> lo j" and sub: "set order \<subseteq> {..<bs}"
    and i: "i \<in> set order" "lo i \<le> x" "x < lo (Suc i)"
  shows "launch order prog m x = Some (f i x)"
  using prog sub i(1)
proof (induction order rule: rev_induct)
  case (snoc j order)
  have step: "launch (order @ [j]) prog m = prog j (launch order prog m)" by (simp add: launch_def)
  have pj: "prog j m' = (\<lambda>x. if lo j \<le> x \<and> x < lo (Suc j) then Some (f j x) else m' x)" for m'
    by (rule snoc.prems(1)) simp
  show ?case
  proof (cases "lo j \<le> x \<and> x < lo (Suc j)")
    case True
    have "\<not> i < j" "\<not> j < i"
      using mono [of "Suc i" j] mono [of "Suc j" i] True i snoc.prems(2,3) by auto
    then have "i = j" by simp
    with True step pj show ?thesis by simp
  next
    case False
    then have "i \<noteq> j" using i by auto
    then show ?thesis using False step pj snoc.IH [OF snoc.prems(1)] snoc.prems(2,3) by auto
  qed
qed simp

lemma out_start_mono:
  assumes "lens_ok ps pre seq" "i \<le> j" "j \<le> length seq"
  shows "out_start pre seq i \<le> out_start pre seq j"
  unfolding out_start_def by (rule sum_mono2) (use assms in \<open>auto simp: lens_ok_def\<close>)

lemma icdiv_mono: "0 < p \<Longrightarrow> m \<le> n \<Longrightarrow> icdiv m p \<le> icdiv n p"
  by (simp add: icdiv_def zdiv_mono1)

lemma page_start_mono:
  assumes "lens_ok ps pre seq" "i \<le> j" "j \<le> length seq"
  shows "page_start ps pre seq i \<le> page_start ps pre seq j"
  unfolding page_start_def by (rule sum_mono2) (use assms icdiv_mono in \<open>auto simp: lens_ok_def\<close>)

lemma launch_extend:
  assumes ok: "lens_ok ps pre seq" and order: "set order = {..<length seq}" and n: "length seq \<le> n"
    and k: "k \<le> length seq"
  shows "map (launch order (alloc_extend_kernel other n ps pre seq locs fp) m) [0..out_start pre seq k - 1] =
    map Some (concat (map (request_slots ps pre seq locs fp) [0..<k]))"
  using k
proof (induction k)
  case 0
  show ?case by (simp add: out_start_def)
next
  case (Suc k)
  let ?m = "launch order (alloc_extend_kernel other n ps pre seq locs fp) m"
  let ?a = "out_start pre seq k" and ?b = "out_start pre seq (Suc k)"
  have le: "0 \<le> ?a" "?a \<le> ?b" "pre ! k \<le> seq ! k"
    using out_start_mono [OF ok, of 0 k] out_start_mono [OF ok, of k "Suc k"] Suc.prems ok
    by (simp_all add: out_start_def lens_ok_def)
  have "?m x = Some (slot ps pre seq locs fp k (pre ! k + (x - ?a)))" if "x \<in> set [?a..?b - 1]" for x
    by (rule launch_regions [where lo = "out_start pre seq" and bs = "length seq"])
       (use alloc_extend_kernel_eq ok order n Suc.prems that out_start_mono [OF ok] in \<open>auto simp: lens_ok_def\<close>)
  then have "map ?m [?a..?b - 1] = map (\<lambda>x. Some (slot ps pre seq locs fp k (pre ! k + (x - ?a)))) [?a..?b - 1]"
    by (rule map_cong [OF refl])
  also have "\<dots> = map Some (request_slots ps pre seq locs fp k)"
    unfolding request_slots_def out_start_Suc using le by (auto intro!: nth_equalityI)
  finally have "map ?m [?a..?b - 1] = map Some (request_slots ps pre seq locs fp k)" .
  moreover have "[0..?b - 1] = [0..?a - 1] @ [?a..?b - 1]"
    by (rule upto_append [OF le(1,2)])
  ultimately show ?case using Suc by simp
qed

lemma decode_is_extend:
  assumes "0 < ps" "pid < length seq" "pid < n"
  shows "alloc_decode_kernel other n ps seq locs fp pid m =
    alloc_extend_kernel other n ps (map (\<lambda>s. s - 1) seq) seq locs fp pid m"
proof -
  let ?pre = "map (\<lambda>s. s - 1) seq"
  define P c where "P = seq ! pid - 1" and "c = icdiv P ps"
  have start: "out_start ?pre seq pid = int pid" "out_start ?pre seq (Suc pid) = int pid + 1"
    using assms(2) by (simp_all add: out_start_def)
  have pre: "map2 (\<lambda>l s. if l \<le> pid then s - 1 else s) [0..<n] (map (lane seq other pid) [0..<n])
      = map (lane ?pre other pid) [0..<n]"
    using assms(2) by (auto simp: lane_def intro!: nth_equalityI)
  have page: "sum_list (map2 (-) (map (\<lambda>n. icdiv n ps) (map (lane seq other pid) [0..<n]))
      (map (\<lambda>n. icdiv n ps) (map (lane ?pre other pid) [0..<n]))) - (icdiv (seq ! pid) ps - c) =
      page_start ps ?pre seq pid"
    using lane_sum [OF assms(3), of "\<lambda>x. icdiv x ps" seq other ?pre] assms(2)
    by (simp add: P_def c_def page_start_def comp_def)
  define k r where "k = P div ps" and "r = P mod ps"
  have P: "P = k * ps + r" "0 \<le> r" "r < ps" "c = k + (if r = 0 then 0 else 1)"
    using assms(1) icdiv_eq [OF assms(1), of P] by (simp_all add: k_def r_def c_def)
  then have c: "P < c * ps \<longleftrightarrow> r \<noteq> 0" by (auto simp: algebra_simps)
  have "seq ! pid + ps - 1 = P + 1 * ps" by (simp add: P_def)
  then have "icdiv (seq ! pid) ps = k + 1" using assms(1) by (simp only: icdiv_def k_def div_mult_self1)
  with P(4) c have self: "icdiv (seq ! pid) ps = c \<longleftrightarrow> P < c * ps" by auto
  have new: "P div ps = c \<and> P mod ps = 0" if "\<not> P < c * ps"
    using that P(4) c by (simp add: k_def r_def)
  have "alloc_extend_kernel other n ps ?pre seq locs fp pid m = m(int pid \<mapsto> slot ps ?pre seq locs fp pid P)"
    using alloc_extend_kernel_eq [OF assms(1) _ assms(3), of ?pre seq] assms(2)
    unfolding start by (auto simp: P_def fun_eq_iff)
  moreover have "slot ps ?pre seq locs fp pid P =
      (if P < c * ps then locs ! pid + 1 else fp (page_start ps ?pre seq pid) * ps)"
    using assms(2) new by (auto simp: slot_def P_def [symmetric] c_def [symmetric])
  ultimately show ?thesis
    unfolding alloc_decode_kernel_def Let_def pre page P_def [symmetric] c_def [symmetric]
    using self by auto
qed

section \<open>The sequential reference\<close>

lemma slice_assign_middle:
  assumes "a = int (length A)" "b = a + int (length M)" "length src = length M"
  shows "slice_assign (A @ M @ B) a b src = Inr (A @ src @ B)"
  using assms by (simp add: slice_assign_def clip_def nat_add_distrib)

lemma tensor_slice_upto: "0 \<le> n \<Longrightarrow> n \<le> p \<Longrightarrow> tensor_slice [0..p - 1] 0 n = [0..n - 1]"
  by (auto simp: tensor_slice_def slice_def clip_def intro!: nth_equalityI)

lemma tensor_slice_nth:
  assumes "0 \<le> a" "a \<le> b" "b \<le> int (length xs)"
  shows "tensor_slice xs a b = map (\<lambda>k. xs ! nat k) [a..b - 1]"
  using assms by (auto simp: tensor_slice_def slice_def clip_def nat_add_distrib intro!: nth_equalityI)

lemma map_pages:
  fixes ps :: int
  assumes "0 < ps" "c \<le> d"
  shows "concat (map (\<lambda>j. map (\<lambda>q. g (j * ps + q)) [0..ps - 1]) [c..d - 1]) = map g [c * ps..d * ps - 1]"
  using assms(2)
proof (induction d rule: int_ge_induct)
  case (step d)
  have "[c..d + 1 - 1] = [c..d - 1] @ [d]" using step(1) by (simp add: upto_rec2)
  moreover have "[c * ps..(d + 1) * ps - 1] = [c * ps..d * ps - 1] @ [d * ps..d * ps + ps - 1]"
    using upto_append [of "c * ps" "d * ps" "d * ps + ps"] step(1) assms(1) by (simp add: algebra_simps)
  moreover have "map (\<lambda>q. g (d * ps + q)) [0..ps - 1] = map g [d * ps..d * ps + ps - 1]"
    by (auto intro!: nth_equalityI)
  ultimately show ?case using step(2) by simp
qed simp

lemma cumsum_start:
  fixes xs ys :: "int list" and h :: "int \<Rightarrow> int \<Rightarrow> int"
  assumes "length xs = length ys" "i < length xs"
  shows "map (\<lambda>k. sum_list (take (Suc k) (map2 h xs ys))) [0..<length (map2 h xs ys)] ! i
      = (\<Sum>j<Suc i. h (xs ! j) (ys ! j))"
    "map2 (-) (map (\<lambda>k. sum_list (take (Suc k) (map2 h xs ys))) [0..<length (map2 h xs ys)]) (map2 h xs ys) ! i
      = (\<Sum>j<i. h (xs ! j) (ys ! j))"
proof -
  have "sum_list (take k (map2 h xs ys)) = (\<Sum>j<k. h (xs ! j) (ys ! j))" if "k \<le> length xs" for k
    using that assms(1) by (simp add: sum_list_sum_nth lessThan_atLeast0)
  from this [of "Suc i"] show
    "map (\<lambda>k. sum_list (take (Suc k) (map2 h xs ys))) [0..<length (map2 h xs ys)] ! i
      = (\<Sum>j<Suc i. h (xs ! j) (ys ! j))"
    "map2 (-) (map (\<lambda>k. sum_list (take (Suc k) (map2 h xs ys))) [0..<length (map2 h xs ys)]) (map2 h xs ys) ! i
      = (\<Sum>j<i. h (xs ! j) (ys ! j))"
    using assms by simp_all
qed

lemma slice_assign_if:
  assumes "a = int (length A)" "n = int (length M)" "length src = length M"
  shows "(if n \<noteq> 0 then slice_assign (A @ M @ B) a (a + n) src else Inr (A @ M @ B)) = Inr (A @ src @ B)"
  using slice_assign_middle [OF assms(1) refl assms(3)] assms(2,3) by auto

lemma split3:
  assumes "length M = n1 + n2 + n3"
  obtains M1 M2 M3 where "M = M1 @ M2 @ M3" "length M1 = n1" "length M2 = n2" "length M3 = n3"
proof -
  have "M = take n1 M @ take n2 (drop n1 M) @ drop n2 (drop n1 M)" by (simp only: append_take_drop_id)
  then show thesis using assms that [of "take n1 M" "take n2 (drop n1 M)" "drop n2 (drop n1 M)"] by simp
qed

lemma slot_old: "pos < icdiv (pre ! i) ps * ps \<Longrightarrow> slot ps pre seq locs fp i pos = locs ! i + 1 + (pos - pre ! i)"
  by (simp add: slot_def)

lemma slot_new:
  assumes "0 < ps" "icdiv (pre ! i) ps \<le> j" "0 \<le> q" "q < ps"
  shows "slot ps pre seq locs fp i (j * ps + q) =
    fp (page_start ps pre seq i + (j - icdiv (pre ! i) ps)) * ps + q"
proof -
  have "icdiv (pre ! i) ps * ps \<le> j * ps" using assms by simp
  then have "\<not> j * ps + q < icdiv (pre ! i) ps * ps" using assms(3) by linarith
  then show ?thesis using assms by (simp add: slot_def)
qed

lemma request_slots_split:
  assumes "0 < ps" "icdiv (pre ! i) ps * ps \<le> seq ! i"
  shows "request_slots ps pre seq locs fp i =
    map (\<lambda>q. locs ! i + 1 + q) [0..icdiv (pre ! i) ps * ps - pre ! i - 1] @
    concat (map (\<lambda>pg. map (\<lambda>q. pg * ps + q) [0..ps - 1])
      (map fp [page_start ps pre seq i..page_start ps pre seq i + (seq ! i div ps - icdiv (pre ! i) ps) - 1])) @
    map (\<lambda>q. fp (page_start ps pre seq i + (seq ! i div ps - icdiv (pre ! i) ps)) * ps + q)
      [0..seq ! i - seq ! i div ps * ps - 1]"
proof -
  define P S c d C E pg where "P = pre ! i" and "S = seq ! i" and "c = icdiv P ps" and "d = S div ps"
    and "C = c * ps" and "E = d * ps" and "pg = page_start ps pre seq i"
  note defs = P_def [symmetric] S_def [symmetric] c_def [symmetric] d_def [symmetric] C_def [symmetric]
    E_def [symmetric] pg_def [symmetric]
  let ?slot = "slot ps pre seq locs fp i"
  have PC: "P \<le> C" using icdiv_bounds [OF assms(1)] by (simp add: c_def C_def)
  have E: "E \<le> S" "S < E + ps" using floor_bounds [OF assms(1), of S] by (simp_all add: d_def E_def)
  have "C \<le> S" using assms(2) by (simp add: defs)
  then have cd: "c \<le> d" unfolding d_def C_def using assms(1) zdiv_mono1 [of "c * ps" S ps] by simp
  then have CE: "C \<le> E" using assms(1) by (simp add: C_def E_def)
  have new: "?slot (j * ps + q) = fp (pg + (j - c)) * ps + q" if "c \<le> j" "0 \<le> q" "q < ps" for j q
    using slot_new [OF assms(1), of pre i j q seq locs fp] that unfolding defs by simp
  have split: "[P..S - 1] = [P..C - 1] @ [C..E - 1] @ [E..S - 1]"
    using upto_append [OF PC \<open>C \<le> S\<close>] upto_append [OF CE E(1)] by (simp only:)
  have one: "map ?slot [P..C - 1] = map (\<lambda>q. locs ! i + 1 + q) [0..C - P - 1]"
    using slot_old [of _ pre i ps seq locs fp] unfolding defs by (auto intro!: nth_equalityI)
  have two: "map ?slot [C..E - 1] = concat (map (\<lambda>pg. map (\<lambda>q. pg * ps + q) [0..ps - 1]) (map fp [pg..pg + (d - c) - 1]))"
  proof -
    have "[pg..pg + (d - c) - 1] = map (\<lambda>j. pg + (j - c)) [c..d - 1]" by (auto intro!: nth_equalityI)
    then have "map (\<lambda>pg. map (\<lambda>q. pg * ps + q) [0..ps - 1]) (map fp [pg..pg + (d - c) - 1])
        = map (\<lambda>j. map (\<lambda>q. ?slot (j * ps + q)) [0..ps - 1]) [c..d - 1]"
      using new by auto
    with map_pages [OF assms(1) cd, of ?slot] show ?thesis by (simp add: C_def E_def)
  qed
  have three: "map ?slot [E..S - 1] = map (\<lambda>q. fp (pg + (d - c)) * ps + q) [0..S - E - 1]"
    using new [OF cd] E unfolding defs by (auto intro!: nth_equalityI)
  show ?thesis using one two three unfolding request_slots_def defs split by simp
qed

lemma naive_request_ok:
  assumes ok: "lens_ok ps pre seq" and i: "i < length seq"
    and free: "page_start ps pre seq (Suc i) \<le> int (length free)"
    and A: "int (length A) = out_start pre seq i" and M: "int (length M) = seq ! i - pre ! i"
  shows "naive_request pre seq locs free ps (A @ M @ B) i =
    Inr (A @ map Some (request_slots ps pre seq locs (\<lambda>k. free ! nat k) i) @ B)"
proof -
  define P S c d st pg where "P = pre ! i" and "S = seq ! i" and "c = icdiv P ps" and "d = S div ps"
    and "st = out_start pre seq i" and "pg = page_start ps pre seq i"
  note defs = P_def [symmetric] S_def [symmetric] c_def [symmetric] d_def [symmetric] st_def [symmetric] pg_def [symmetric]
  have ps: "0 < ps" and len: "length seq = length pre" and PS: "P \<le> S"
    using ok i by (auto simp: lens_ok_def P_def S_def)
  have starts: "map (\<lambda>k. sum_list (take (Suc k) (map2 (-) seq pre))) [0..<length (map2 (-) seq pre)] ! i = st + (S - P)"
    "map2 (-) (map (\<lambda>k. sum_list (take (Suc k) (map2 (-) seq pre))) [0..<length (map2 (-) seq pre)]) (map2 (-) seq pre) ! i = st"
    using cumsum_start [OF len i, of "(-)"] by (simp_all add: st_def out_start_def S_def P_def)
  let ?np = "map2 (\<lambda>s p. icdiv s ps - icdiv p ps) seq pre"
  have pages: "map (\<lambda>k. sum_list (take (Suc k) ?np)) [0..<length ?np] ! i = pg + (icdiv S ps - c)"
    "map2 (-) (map (\<lambda>k. sum_list (take (Suc k) ?np)) [0..<length ?np]) ?np ! i = pg"
    "map2 (-) ?np (map2 (\<lambda>s p. s div ps - icdiv p ps) seq pre) ! i = icdiv S ps - d"
    using cumsum_start [OF len i, of "\<lambda>s p. icdiv s ps - icdiv p ps"] len i
    by (simp_all add: pg_def page_start_def S_def P_def c_def d_def)
  have n: "map2 (\<lambda>s p. icdiv s ps - icdiv p ps) seq pre = ?np" by simp
  note unfold = naive_request_def Let_def starts pages defs
  show ?thesis
  proof (cases "S \<le> c * ps")
    case True
    have "S - P \<le> ps" using True icdiv_bounds [OF ps, of P] unfolding c_def by linarith
    have slots: "request_slots ps pre seq locs (\<lambda>k. free ! nat k) i = map (\<lambda>q. locs ! i + 1 + q) [0..S - P - 1]"
      using True slot_old [of _ pre i ps seq locs] unfolding request_slots_def defs by (auto intro!: nth_equalityI)
    have "(if S - P \<noteq> 0 then slice_assign (A @ M @ B) st (st + (S - P))
        (map (\<lambda>q. Some (locs ! i + 1 + q)) (tensor_slice [0..ps - 1] 0 (S - P))) else Inr (A @ M @ B)) =
        Inr (A @ map (\<lambda>q. Some (locs ! i + 1 + q)) [0..S - P - 1] @ B)"
      unfolding tensor_slice_upto [OF diff_ge_0_iff_ge [THEN iffD2, OF PS] \<open>S - P \<le> ps\<close>]
      by (rule slice_assign_if) (use A M PS in \<open>auto simp: defs\<close>)
    then show ?thesis using True PS unfolding unfold slots by (auto simp: comp_def min_def split: if_splits)
  next
    case False
    define C E where "C = c * ps" and "E = d * ps"
    have C: "P \<le> C" "C - P \<le> ps" "C < S"
      using icdiv_bounds [OF ps, of P] False by (simp_all add: C_def c_def)
    have E: "E \<le> S" "S - E \<le> ps" using floor_bounds [OF ps, of S] by (simp_all add: E_def d_def)
    have cd: "c \<le> d" unfolding d_def using C(3) ps zdiv_mono1 [of "c * ps" S ps] by (simp add: C_def)
    then have CE: "C \<le> E" "(d - c) * ps = E - C" using ps by (simp_all add: C_def E_def algebra_simps)
    have icd: "icdiv S ps = d + (if E = S then 0 else 1)"
      using icdiv_floor [OF ps, of S] by (simp add: d_def E_def)
    have fr: "0 \<le> pg" "pg + (icdiv S ps - c) \<le> int (length free)"
      using page_start_mono [OF ok, of 0 i] i free by (simp_all add: pg_def page_start_def S_def P_def c_def)
    obtain M1 M2 M3 where M': "M = M1 @ M2 @ M3"
      "length M1 = nat (C - P)" "length M2 = nat (E - C)" "length M3 = nat (S - E)"
      by (rule split3 [of M "nat (C - P)" "nat (E - C)" "nat (S - E)"]) (use M C E CE in \<open>auto simp: defs\<close>)
    let ?s1 = "map (\<lambda>q. Some (locs ! i + 1 + q)) [0..C - P - 1]"
    let ?pages = "tensor_slice free pg (pg + (icdiv S ps - c) - (icdiv S ps - d))"
    let ?s2 = "concat (map (\<lambda>pg. map (\<lambda>q. Some (pg * ps + q)) [0..ps - 1]) ?pages)"
    let ?s3 = "map (\<lambda>q. Some (free ! nat (pg + (d - c)) * ps + q)) [0..S - E - 1]"
    have pgs: "?pages = map (\<lambda>k. free ! nat k) [pg..pg + (d - c) - 1]"
      using tensor_slice_nth [OF fr(1), of "pg + (d - c)" free] fr(2) cd icd by (simp split: if_splits)
    have slots: "map Some (request_slots ps pre seq locs (\<lambda>k. free ! nat k) i) = ?s1 @ ?s2 @ ?s3"
      using request_slots_split [OF ps, of pre i seq locs "\<lambda>k. free ! nat k"] C(3) pgs
      unfolding defs C_def E_def by (simp add: map_concat comp_def)
    have "length ?s2 = nat (d - c) * nat ps"
      using pgs by (simp add: length_concat comp_def sum_list_triv)
    also have "\<dots> = nat (E - C)" unfolding CE(2) [symmetric] using cd ps by (simp add: nat_mult_distrib)
    finally have l2: "length ?s2 = nat (E - C)" .
    have r1: "(if C - P \<noteq> 0 then slice_assign (A @ M @ B) st (st + (C - P))
        (map (\<lambda>q. Some (locs ! i + 1 + q)) (tensor_slice [0..ps - 1] 0 (C - P))) else Inr (A @ M @ B)) =
        Inr ((A @ ?s1) @ M2 @ M3 @ B)"
      using slice_assign_if [of st A "C - P" M1 ?s1 "M2 @ M3 @ B"] tensor_slice_upto [of "C - P" ps] A C M'
      by (auto simp: defs split: if_splits)
    have r2: "(if E - C \<noteq> 0 then slice_assign ((A @ ?s1) @ M2 @ M3 @ B) (st + (C - P)) (st + (C - P) + (E - C)) ?s2
        else Inr ((A @ ?s1) @ M2 @ M3 @ B)) = Inr ((A @ ?s1 @ ?s2) @ M3 @ B)"
      using slice_assign_if [of "st + (C - P)" "A @ ?s1" "E - C" M2 ?s2 "M3 @ B"] l2 A C CE M'
      by (auto simp: defs split: if_splits)
    have r3: "slice_assign ((A @ ?s1 @ ?s2) @ M3 @ B) (st + (S - P) - (S - E)) (st + (S - P))
        (map (\<lambda>q. Some (free ! nat (pg + (d - c)) * ps + q)) (tensor_slice [0..ps - 1] 0 (S - E))) =
        Inr ((A @ ?s1 @ ?s2) @ ?s3 @ B)"
      using slice_assign_middle [of "st + (S - P) - (S - E)" "A @ ?s1 @ ?s2" "st + (S - P)" M3 ?s3 B]
        tensor_slice_upto [of "S - E" ps] l2 A C CE E M' by (simp add: defs)
    have n1: "min S (c * ps) - P = C - P" "P + (C - P) \<noteq> S" "P + (C - P) + (E - C) = S \<longleftrightarrow> E = S"
      using C by (auto simp: C_def)
    show ?thesis
    proof (cases "E = S")
      case True
      then have "M3 = []" using M' by simp
      then show ?thesis using True
        unfolding unfold n1 slots r1 rbind_Inr CE(2) if_not_P [OF n1(2)] r2 by simp
    next
      case False
      have g: "py_get free (pg + (icdiv S ps - c) - 1) = Inr (free ! nat (pg + (d - c)))"
        using icd False fr cd by (subst py_get_nonneg) auto
      show ?thesis using False
        unfolding unfold n1 slots r1 rbind_Inr CE(2) if_not_P [OF n1(2)] r2 E_def [symmetric] g r3 by simp
    qed
  qed
qed

lemma page_index_bound:
  assumes "0 < ps" "pre ! i \<le> pos" "pos < seq ! i" "\<not> pos < icdiv (pre ! i) ps * ps"
  shows "0 \<le> pos div ps - icdiv (pre ! i) ps" "pos div ps - icdiv (pre ! i) ps < icdiv (seq ! i) ps - icdiv (pre ! i) ps"
proof -
  have "icdiv (pre ! i) ps * ps \<le> pos" using assms by simp
  from zdiv_mono1 [OF this assms(1)] assms(1) show "0 \<le> pos div ps - icdiv (pre ! i) ps" by simp
  have "pos div ps * ps \<le> pos" using floor_bounds [OF assms(1)] by simp
  then have "pos div ps * ps < icdiv (seq ! i) ps * ps"
    using icdiv_bounds(1) [OF assms(1), of "seq ! i"] assms(3) by linarith
  then show "pos div ps - icdiv (pre ! i) ps < icdiv (seq ! i) ps - icdiv (pre ! i) ps"
    using assms(1) by simp
qed

lemma page_start_Suc:
  "page_start ps pre seq (Suc i) = page_start ps pre seq i + (icdiv (seq ! i) ps - icdiv (pre ! i) ps)"
  by (simp add: page_start_def)

text \<open>A request reads only its own entries of the free list.\<close>

lemma page_index_range:
  assumes ok: "lens_ok ps pre seq" and i: "i < length seq" and pos: "pre ! i \<le> pos" "pos < seq ! i" "\<not> pos < icdiv (pre ! i) ps * ps"
    and free: "page_start ps pre seq (length seq) \<le> n"
  shows "page_start ps pre seq i \<le> page_start ps pre seq i + (pos div ps - icdiv (pre ! i) ps)"
    "page_start ps pre seq i + (pos div ps - icdiv (pre ! i) ps) < page_start ps pre seq (Suc i)"
    "0 \<le> page_start ps pre seq i" "page_start ps pre seq (Suc i) \<le> n"
proof -
  have "0 < ps" using ok by (simp add: lens_ok_def)
  note b = page_index_bound [OF this pos]
  show "page_start ps pre seq i \<le> page_start ps pre seq i + (pos div ps - icdiv (pre ! i) ps)" using b by simp
  show "page_start ps pre seq i + (pos div ps - icdiv (pre ! i) ps) < page_start ps pre seq (Suc i)"
    unfolding page_start_Suc using b by simp
  show "0 \<le> page_start ps pre seq i"
    using page_start_mono [OF ok, of 0 i] i by (simp add: page_start_def)
  show "page_start ps pre seq (Suc i) \<le> n"
    using page_start_mono [OF ok, of "Suc i" "length seq"] i free by simp
qed

lemma request_slots_cong:
  assumes "lens_ok ps pre seq" "i < length seq" "page_start ps pre seq (length seq) \<le> int (length free)"
    and "\<forall>k < length free. fp (int k) = free ! k"
  shows "request_slots ps pre seq locs fp i = request_slots ps pre seq locs (\<lambda>k. free ! nat k) i"
proof -
  have "slot ps pre seq locs fp i pos = slot ps pre seq locs (\<lambda>k. free ! nat k) i pos"
    if "pre ! i \<le> pos" "pos < seq ! i" for pos
  proof (cases "pos < icdiv (pre ! i) ps * ps")
    case False
    let ?k = "page_start ps pre seq i + (pos div ps - icdiv (pre ! i) ps)"
    from page_index_range [OF assms(1,2) that False assms(3)]
    have k: "0 \<le> ?k" "?k < int (length free)" by linarith+
    then have "nat ?k < length free" "int (nat ?k) = ?k" by linarith+
    then have "fp ?k = free ! nat ?k" using assms(4) by metis
    then show ?thesis using False by (simp add: slot_def)
  qed (simp add: slot_def)
  then show ?thesis by (simp add: request_slots_def)
qed

lemma length_slots:
  assumes "lens_ok ps pre seq" "k \<le> length seq"
  shows "int (length (concat (map (request_slots ps pre seq locs fp) [0..<k]))) = out_start pre seq k"
  using assms(2)
proof (induction k)
  case (Suc k)
  with assms(1) show ?case by (simp add: lens_ok_def request_slots_def out_start_Suc)
qed (simp add: out_start_def)

lemma naive_prefix:
  assumes ok: "lens_ok ps pre seq" and free: "page_start ps pre seq (length seq) \<le> int (length free)"
    and out: "int (length out) = out_start pre seq (length seq)" and k: "k \<le> length seq"
  shows "foldM (naive_request pre seq locs free ps) out [0..<k] =
    Inr (map Some (concat (map (request_slots ps pre seq locs (\<lambda>k. free ! nat k)) [0..<k])) @
         drop (nat (out_start pre seq k)) out)"
  using k
proof (induction k)
  case (Suc k)
  let ?rs = "request_slots ps pre seq locs (\<lambda>k. free ! nat k)"
  let ?A = "map Some (concat (map ?rs [0..<k]))"
  define a b where "a = out_start pre seq k" and "b = out_start pre seq (Suc k)"
  have le: "0 \<le> a" "a \<le> b" "b \<le> int (length out)" "b = a + (seq ! k - pre ! k)"
    using out_start_mono [OF ok, of 0 k] out_start_mono [OF ok, of k "Suc k"] Suc.prems
      out_start_mono [OF ok, of "Suc k" "length seq"] out
    by (simp_all add: a_def b_def out_start_def)
  let ?M = "take (nat (b - a)) (drop (nat a) out)"
  have split: "drop (nat a) out = ?M @ drop (nat b) out"
  proof -
    have "nat b = nat (b - a) + nat a" using le(1,2) by linarith
    then show ?thesis using append_take_drop_id [of "nat (b - a)" "drop (nat a) out"] by simp
  qed
  have "int (length ?A) = out_start pre seq k" using length_slots [OF ok, of k] Suc.prems by simp
  moreover have "int (length ?M) = seq ! k - pre ! k" using le by simp
  moreover have "page_start ps pre seq (Suc k) \<le> int (length free)"
    using page_start_mono [OF ok, of "Suc k" "length seq"] Suc.prems free by simp
  ultimately have "naive_request pre seq locs free ps (?A @ ?M @ drop (nat b) out) k =
      Inr (?A @ map Some (?rs k) @ drop (nat b) out)"
    using naive_request_ok [OF ok] Suc.prems by simp
  then show ?case using Suc split by (simp add: foldM_append a_def b_def)
qed (simp add: out_start_def)

section \<open>Properties\<close>



section \<open>Witnesses\<close>



end
