(* ===== verification/Kv_Allocator.thy ===== *)
theory Kv_Allocator
  imports Kv_Kernels
begin

text \<open>
  The KV-pool allocators of \<^verbatim>\<open>mem_cache/allocator.py\<close>: \<^verbatim>\<open>TokenToKVPoolAllocator\<close> hands out single slots,
  \<^verbatim>\<open>PagedTokenToKVPoolAllocator\<close> whole pages, with page-aware extension and decoding. Both keep a list
  of free pages, a list of released pages that is merged lazily when \<^verbatim>\<open>need_sort\<close> is set, and a group of
  pending frees. \<open>get_num_new_pages\<close> is \<^verbatim>\<open>srt/utils/common.py\<close>.

  The locale \<open>kv_allocator\<close> is the contract that the users of an allocator rely on, in terms of the
  multiset of pages they hold; it is interpreted on both allocators. Page numbers and slots are
  integers, sizes are naturals. The tensors of one batch have equal lengths.
\<close>

section \<open>Definitions\<close>

record allocator =
  al_size :: nat
  page_size :: nat
  need_sort :: bool
  free_pages :: "int list"
  release_pages :: "int list"
  is_not_in_free_group :: bool
  free_group :: "int list list"
  num_pages :: nat
  debug_mode :: bool

subsection \<open>The base class\<close>

definition available_size :: "allocator \<Rightarrow> nat" where
  "available_size a = (length (free_pages a) + length (release_pages a)) * page_size a"

definition backup_state :: "allocator \<Rightarrow> int list \<times> int list" where
  "backup_state a = (free_pages a, release_pages a)"

definition restore_state :: "allocator \<Rightarrow> int list \<times> int list \<Rightarrow> allocator" where
  "restore_state a state = a\<lparr>free_pages := fst state, release_pages := snd state\<rparr>"

definition free_group_begin :: "allocator \<Rightarrow> allocator" where
  "free_group_begin a = a\<lparr>is_not_in_free_group := False, free_group := []\<rparr>"

definition free_group_end :: "(allocator \<Rightarrow> int list \<Rightarrow> allocator result) \<Rightarrow> allocator \<Rightarrow> allocator result" where
  "free_group_end free a =
     (let a = a\<lparr>is_not_in_free_group := True\<rparr>
      in if free_group a \<noteq> [] then free a (concat (free_group a)) else Inr a)"

definition merge_and_sort_free :: "allocator \<Rightarrow> allocator" where
  "merge_and_sort_free a =
     (if 0 < length (release_pages a)
      then a\<lparr>free_pages := sort (free_pages a @ release_pages a), release_pages := []\<rparr> else a)"

subsection \<open>Single slots\<close>

definition token_clear :: "allocator \<Rightarrow> allocator" where
  "token_clear a = a\<lparr>free_pages := [1..int (al_size a)], is_not_in_free_group := True, free_group := [],
                     release_pages := []\<rparr>"

definition token_init :: "nat \<Rightarrow> bool \<Rightarrow> allocator" where
  "token_init sz sort_free = token_clear
     \<lparr>al_size = sz, page_size = 1, need_sort = sort_free, free_pages = [], release_pages = [],
      is_not_in_free_group = True, free_group = [], num_pages = sz, debug_mode = False\<rparr>"

definition token_available_size :: "allocator \<Rightarrow> nat" where
  "token_available_size a = length (free_pages a) + length (release_pages a)"

definition token_alloc :: "allocator \<Rightarrow> nat \<Rightarrow> (int list option \<times> allocator) result" where
  "token_alloc a need_size =
     (let a = (if need_sort a \<and> need_size > length (free_pages a) then merge_and_sort_free a else a)
      in if need_size > length (free_pages a) then Inr (None, a)
         else Inr (Some (take need_size (free_pages a)), a\<lparr>free_pages := drop need_size (free_pages a)\<rparr>))"

definition token_free :: "allocator \<Rightarrow> int list \<Rightarrow> allocator result" where
  "token_free a free_index =
     (if free_index = [] then Inr a
      else if is_not_in_free_group a
      then if need_sort a then Inr (a\<lparr>release_pages := release_pages a @ free_index\<rparr>)
           else Inr (a\<lparr>free_pages := free_pages a @ free_index\<rparr>)
      else Inr (a\<lparr>free_group := free_group a @ [free_index]\<rparr>))"

subsection \<open>Whole pages\<close>

definition paged_clear :: "allocator \<Rightarrow> allocator" where
  "paged_clear a = a\<lparr>free_pages := [1..int (num_pages a)], is_not_in_free_group := True, free_group := [],
                     release_pages := []\<rparr>"

definition paged_init :: "nat \<Rightarrow> nat \<Rightarrow> bool \<Rightarrow> bool \<Rightarrow> allocator result" where
  "paged_init sz ps sort_free debug =
     (if ps = 0 then Inl ZeroDivisionError
      else Inr (paged_clear
        \<lparr>al_size = sz, page_size = ps, need_sort = sort_free, free_pages = [], release_pages = [],
         is_not_in_free_group = True, free_group = [], num_pages = sz div ps, debug_mode = debug\<rparr>))"

definition paged_alloc :: "allocator \<Rightarrow> nat \<Rightarrow> (int list option \<times> allocator) result" where
  "paged_alloc a need_size =
     rbind (if debug_mode a then rassert (need_size mod page_size a = 0) AssertionError else Inr ()) (\<lambda>_.
     let n = need_size div page_size a;
         a = (if need_sort a \<and> n > length (free_pages a) then merge_and_sort_free a else a)
     in if n > length (free_pages a) then Inr (None, a)
        else
          let out_pages = take n (free_pages a)
          in Inr (Some (concat (map (\<lambda>p. map (\<lambda>q. p * int (page_size a) + int q) [0..<page_size a]) out_pages)),
                  a\<lparr>free_pages := drop n (free_pages a)\<rparr>))"

definition unique :: "int list \<Rightarrow> int list" where
  "unique xs = sort (remdups xs)"

definition paged_free :: "allocator \<Rightarrow> int list \<Rightarrow> allocator result" where
  "paged_free a free_index =
     (if free_index = [] then Inr a
      else
        let a' = (if is_not_in_free_group a
                  then
                    let free_page_indices = unique (map (\<lambda>i. i div int (page_size a)) free_index)
                    in if need_sort a then a\<lparr>release_pages := free_page_indices @ release_pages a\<rparr>
                       else a\<lparr>free_pages := free_page_indices @ free_pages a\<rparr>
                  else a\<lparr>free_group := free_group a @ [free_index]\<rparr>)
        in rbind (if debug_mode a' then rassert (length (unique (free_pages a')) = length (free_pages a')) AssertionError
                  else Inr ()) (\<lambda>_. Inr a'))"

definition get_num_new_pages :: "int list \<Rightarrow> int \<Rightarrow> int list option \<Rightarrow> bool \<Rightarrow> int result" where
  "get_num_new_pages seq_lens ps prefix_lens decode =
     (if prefix_lens = None \<or> decode
      then rbind (rassert decode AssertionError) (\<lambda>_.
           Inr (int (length (filter (\<lambda>s. s mod ps = 1) seq_lens))))
      else
        let num_pages_after = map (\<lambda>s. icdiv s ps) seq_lens;
            num_pages_before = map (\<lambda>s. icdiv s ps) (the prefix_lens)
        in Inr (sum_list (map2 (-) num_pages_after num_pages_before)))"

fun bit_length :: "nat \<Rightarrow> nat" where
  "bit_length n = (if n = 0 then 0 else Suc (bit_length (n div 2)))"

declare bit_length.simps [simp del]

definition next_power_of_2 :: "nat \<Rightarrow> nat" where
  "next_power_of_2 n = (if n > 0 then 2 ^ bit_length (n - 1) else 1)"

text \<open>The device memory at and behind \<^verbatim>\<open>free_pages\<close>; \<open>junk\<close> is what lies behind the list.\<close>

definition page_memory :: "(int \<Rightarrow> int) \<Rightarrow> int list \<Rightarrow> int \<Rightarrow> int" where
  "page_memory junk free k = (if 0 \<le> k \<and> k < int (length free) then free ! nat k else junk k)"

definition drop_from :: "int \<Rightarrow> 'a list \<Rightarrow> 'a list" where
  "drop_from n xs = drop (clip (length xs) n) xs"

definition alloc_extend ::
  "int \<Rightarrow> (int \<Rightarrow> int) \<Rightarrow> nat list \<Rightarrow> allocator \<Rightarrow> int list \<Rightarrow> int list \<Rightarrow> int list \<Rightarrow> int list \<Rightarrow> int list \<Rightarrow> nat \<Rightarrow> int option
     \<Rightarrow> (int option list option \<times> allocator) result" where
  "alloc_extend other junk order a prefix_lens prefix_lens_cpu seq_lens seq_lens_cpu last_loc extend_num_tokens num_new =
     (let ps = int (page_size a)
      in rbind (if debug_mode a
                then rassert (list_all2 (\<lambda>l p. (l + 1) mod ps = p mod ps) last_loc prefix_lens) AssertionError
                else Inr ()) (\<lambda>_.
         let bs = length prefix_lens;
             a = (if need_sort a \<and> extend_num_tokens div page_size a + bs + 1 > length (free_pages a)
                  then merge_and_sort_free a else a);
             out_indices = map (launch order (alloc_extend_kernel other (next_power_of_2 bs) ps prefix_lens seq_lens
                 last_loc (page_memory junk (free_pages a))) Map.empty) [0..int extend_num_tokens - 1]
         in rbind (if debug_mode a then rassert (distinct out_indices) AssertionError else Inr ()) (\<lambda>_.
            rbind (case num_new of
                     None \<Rightarrow> get_num_new_pages seq_lens_cpu ps (Some prefix_lens_cpu) False
                   | Some n \<Rightarrow> Inr n) (\<lambda>n.
            if n > int (length (free_pages a)) then Inr (None, a)
            else Inr (Some out_indices, a\<lparr>free_pages := drop_from n (free_pages a)\<rparr>)))))"

definition alloc_decode ::
  "int \<Rightarrow> (int \<Rightarrow> int) \<Rightarrow> nat list \<Rightarrow> allocator \<Rightarrow> int list \<Rightarrow> int list \<Rightarrow> int list \<Rightarrow> (int option list option \<times> allocator) result" where
  "alloc_decode other junk order a seq_lens seq_lens_cpu last_loc =
     (let ps = int (page_size a)
      in rbind (if debug_mode a
                then rassert (list_all2 (\<lambda>l s. (l + 2) mod ps = s mod ps) last_loc seq_lens) AssertionError
                else Inr ()) (\<lambda>_.
         let bs = length seq_lens;
             a = (if need_sort a \<and> bs > length (free_pages a) then merge_and_sort_free a else a);
             out_indices = map (launch order (alloc_decode_kernel other (next_power_of_2 bs) ps seq_lens last_loc
                 (page_memory junk (free_pages a))) Map.empty) [0..int bs - 1]
         in rbind (if debug_mode a then rassert (distinct out_indices) AssertionError else Inr ()) (\<lambda>_.
            rbind (get_num_new_pages seq_lens_cpu ps None True) (\<lambda>n.
            if n > int (length (free_pages a)) then Inr (None, a)
            else Inr (Some out_indices, a\<lparr>free_pages := drop_from n (free_pages a)\<rparr>)))))"

section \<open>Ownership\<close>

lemma mset_disjoint: "count (U + V) p \<le> 1 \<Longrightarrow> p \<in># U \<Longrightarrow> p \<notin># V"
  unfolding count_greater_zero_iff [symmetric] count_union by linarith

lemma distinct_countI: "(\<And>p. count (mset xs) p \<le> 1) \<Longrightarrow> distinct xs"
proof (induction xs)
  case (Cons x xs)
  have "count (mset xs) p \<le> 1" for p by (rule order_trans [OF _ Cons.prems [of p]]) simp
  moreover have "x \<notin> set xs" using Cons.prems [of x] by (simp add: count_mset_0_iff)
  ultimately show ?case using Cons.IH by simp
qed simp

lemma mset_unique: "mset (unique xs) = mset_set (set xs)"
  by (metis mset_set_set distinct_remdups set_remdups mset_sort unique_def)

lemma set_unique [simp]: "set (unique xs) = set xs"
  by (simp add: unique_def)

lemma distinct_unique [simp]: "distinct (unique xs)"
  by (simp add: unique_def)

text \<open>
  Every page from 1 to \<open>N\<close> is exactly once in the free list, in the release list, among the pending frees
  of an open group, or held by a user of the allocator; \<open>U\<close> are the pages held, and \<open>pages\<close> is what a
  list of slots counts for.
\<close>

definition owns :: "(int list \<Rightarrow> int list) \<Rightarrow> nat \<Rightarrow> allocator \<Rightarrow> int multiset \<Rightarrow> bool" where
  "owns pages N a U \<longleftrightarrow>
     mset (free_pages a) + mset (release_pages a) +
     (if is_not_in_free_group a then {#} else mset (pages (concat (free_group a)))) + U = mset [1..int N]"

definition pages_of :: "nat \<Rightarrow> int list \<Rightarrow> int list" where
  "pages_of ps idx = unique (map (\<lambda>i. i div int ps) idx)"

definition token_own :: "nat \<Rightarrow> allocator \<Rightarrow> int multiset \<Rightarrow> bool" where
  "token_own N a U \<longleftrightarrow> owns (\<lambda>idx. idx) N a U"

definition paged_own :: "nat \<Rightarrow> nat \<Rightarrow> allocator \<Rightarrow> int multiset \<Rightarrow> bool" where
  "paged_own ps N a U \<longleftrightarrow> page_size a = ps \<and> 0 < ps \<and> owns (pages_of ps) N a U"

text \<open>
  What the users of an allocator can do: allocate, free slots of pages they hold, open and close a
  free group, and take pages by another route (\<open>grab\<close>, for extension and decoding).
\<close>

inductive kv_reach ::
  "(allocator \<Rightarrow> nat \<Rightarrow> (int list option \<times> allocator) result) \<Rightarrow> (allocator \<Rightarrow> int list \<Rightarrow> allocator result) \<Rightarrow>
   (int list \<Rightarrow> int list) \<Rightarrow> (allocator \<Rightarrow> int multiset \<Rightarrow> int multiset \<Rightarrow> allocator \<Rightarrow> bool) \<Rightarrow> allocator \<Rightarrow> allocator \<Rightarrow> int multiset \<Rightarrow> bool"
  for alloc free pages grab a0 where
  start: "kv_reach alloc free pages grab a0 a0 {#}"
| alloc: "kv_reach alloc free pages grab a0 a U \<Longrightarrow> alloc a n = Inr (Some out, a') \<Longrightarrow>
    kv_reach alloc free pages grab a0 a' (U + mset (pages out))"
| alloc_fails: "kv_reach alloc free pages grab a0 a U \<Longrightarrow> alloc a n = Inr (None, a') \<Longrightarrow>
    kv_reach alloc free pages grab a0 a' U"
| free: "kv_reach alloc free pages grab a0 a U \<Longrightarrow> mset (pages idx) \<subseteq># U \<Longrightarrow> free a idx = Inr a' \<Longrightarrow>
    kv_reach alloc free pages grab a0 a' (U - mset (pages idx))"
| group_begin: "kv_reach alloc free pages grab a0 a U \<Longrightarrow> is_not_in_free_group a \<Longrightarrow>
    kv_reach alloc free pages grab a0 (free_group_begin a) U"
| group_end: "kv_reach alloc free pages grab a0 a U \<Longrightarrow> \<not> is_not_in_free_group a \<Longrightarrow>
    free_group_end free a = Inr a' \<Longrightarrow> kv_reach alloc free pages grab a0 a' U"
| grab: "kv_reach alloc free pages grab a0 a U \<Longrightarrow> grab a U Q a' \<Longrightarrow>
    kv_reach alloc free pages grab a0 a' (U + Q)"

locale kv_allocator =
  fixes alloc :: "allocator \<Rightarrow> nat \<Rightarrow> (int list option \<times> allocator) result"
    and free :: "allocator \<Rightarrow> int list \<Rightarrow> allocator result"
    and pages :: "int list \<Rightarrow> int list"
    and grab :: "allocator \<Rightarrow> int multiset \<Rightarrow> int multiset \<Rightarrow> allocator \<Rightarrow> bool"
    and own :: "allocator \<Rightarrow> int multiset \<Rightarrow> bool"
    and N :: nat
  assumes own_within: "own a U \<Longrightarrow> U \<subseteq># mset [1..int N]"
    and alloc_some: "own a U \<Longrightarrow> alloc a n = Inr (Some out, a') \<Longrightarrow> own a' (U + mset (pages out))"
    and alloc_none: "own a U \<Longrightarrow> alloc a n = Inr (None, a') \<Longrightarrow> own a' U"
    and free_returns: "own a U \<Longrightarrow> mset (pages idx) \<subseteq># U \<Longrightarrow>
      \<exists>a'. free a idx = Inr a' \<and> own a' (U - mset (pages idx))"
    and begin_own: "own a U \<Longrightarrow> is_not_in_free_group a \<Longrightarrow> own (free_group_begin a) U"
    and end_own: "own a U \<Longrightarrow> \<not> is_not_in_free_group a \<Longrightarrow>
      \<exists>a'. free_group_end free a = Inr a' \<and> own a' U"
    and grab_own: "own a U \<Longrightarrow> grab a U Q a' \<Longrightarrow> own a' (U + Q)"
begin

lemma reach_own: "kv_reach alloc free pages grab a0 a U \<Longrightarrow> own a0 {#} \<Longrightarrow> own a U"
proof (induction rule: kv_reach.induct)
  case (free a U idx a')
  then show ?case using free_returns by fastforce
next
  case (group_end a U a')
  then show ?case using end_own by fastforce
qed (use alloc_some alloc_none begin_own grab_own in auto)

lemma held_once: "own a U \<Longrightarrow> count U p \<le> 1 \<and> (p \<in># U \<longrightarrow> 1 \<le> p \<and> p \<le> int N)"
proof -
  assume "own a U"
  then have sub: "U \<subseteq># mset [1..int N]" by (rule own_within)
  have "count (mset [1..int N]) p \<le> 1" using distinct_upto [of 1 "int N"] by (simp add: distinct_count_atmost_1)
  with mset_subset_eq_count [OF sub, of p] mset_subset_eqD [OF sub, of p] show ?thesis by auto
qed

text \<open>Freshly allocated pages are new, distinct and not the padding page 0.\<close>

lemma alloc_fresh:
  assumes "own a U" "alloc a n = Inr (Some out, a')"
  shows "distinct (pages out) \<and> (\<forall>p \<in> set (pages out). p \<notin># U \<and> 1 \<le> p \<and> p \<le> int N)"
proof -
  have own': "own a' (U + mset (pages out))" by (rule alloc_some [OF assms])
  have "count (mset (pages out)) p \<le> 1 \<and> (p \<in> set (pages out) \<longrightarrow> p \<notin># U \<and> 1 \<le> p \<and> p \<le> int N)" for p
    using held_once [OF own', of p] mset_disjoint [of "mset (pages out)" U p] by (auto simp: add.commute)
  then show ?thesis by (auto intro: distinct_countI)
qed

text \<open>Returning what was allocated restores the holdings.\<close>

lemma alloc_free:
  assumes "own a U" "alloc a n = Inr (Some out, a')"
  shows "\<exists>a''. free a' out = Inr a'' \<and> own a'' U"
  using free_returns [OF alloc_some [OF assms], of out] by simp

end

section \<open>The allocators keep the contract\<close>

lemma own_count: "M = mset [1..int N] \<Longrightarrow> count M p \<le> 1"
  using distinct_upto [of 1 "int N"] by (simp add: distinct_count_atmost_1)

lemma owns_merge [simp]: "owns pages N (merge_and_sort_free a) U = owns pages N a U"
  by (simp add: merge_and_sort_free_def owns_def ac_simps)

lemma merge_simps [simp]:
  "page_size (merge_and_sort_free a) = page_size a" "debug_mode (merge_and_sort_free a) = debug_mode a"
  "is_not_in_free_group (merge_and_sort_free a) = is_not_in_free_group a"
  "free_group (merge_and_sort_free a) = free_group a"
  by (simp_all add: merge_and_sort_free_def)

lemma owns_take:
  assumes "owns pages N a U"
  shows "owns pages N (a\<lparr>free_pages := drop n (free_pages a)\<rparr>) (U + mset (take n (free_pages a)))"
proof -
  have "mset (free_pages a) = mset (take n (free_pages a)) + mset (drop n (free_pages a))"
    by (metis append_take_drop_id mset_append)
  with assms show ?thesis by (cases "is_not_in_free_group a") (simp_all add: owns_def ac_simps)
qed

lemma owns_within: "owns pages N a U \<Longrightarrow> U \<subseteq># mset [1..int N]"
  unfolding owns_def by (drule sym) simp

lemma owns_free_distinct: "owns pages N a U \<Longrightarrow> distinct (free_pages a)"
proof -
  assume "owns pages N a U"
  then have "mset (free_pages a) \<subseteq># mset [1..int N]"
    unfolding owns_def by (metis add.assoc mset_subset_eq_add_left)
  then have "count (mset (free_pages a)) p \<le> 1" for p
    by (rule order_trans [OF mset_subset_eq_count own_count [OF refl]])
  then show ?thesis by (auto intro: distinct_countI)
qed

text \<open>Moving held pages to the release list, to the free list or to the open group.\<close>

lemma owns_return:
  assumes "owns pages N a U" "V \<subseteq># U"
    and "mset (free_pages a') + mset (release_pages a') +
      (if is_not_in_free_group a' then {#} else mset (pages (concat (free_group a')))) =
      mset (free_pages a) + mset (release_pages a) +
      (if is_not_in_free_group a then {#} else mset (pages (concat (free_group a)))) + V"
  shows "owns pages N a' (U - V)"
  using assms(1) subset_mset.add_diff_inverse [OF assms(2)] unfolding owns_def assms(3) by (simp add: add.assoc)

interpretation token: kv_allocator token_alloc token_free "\<lambda>idx. idx" "\<lambda>_ _ _ _. False" "token_own N" N
proof
  fix a U assume "token_own N a U"
  then show "U \<subseteq># mset [1..int N]" unfolding token_own_def by (rule owns_within)
next
  fix a U n out a' assume "token_own N a U" "token_alloc a n = Inr (Some out, a')"
  then show "token_own N a' (U + mset out)"
    unfolding token_own_def token_alloc_def Let_def by (auto split: if_splits intro: owns_take)
next
  fix a U n a' assume "token_own N a U" "token_alloc a n = Inr (None, a')"
  then show "token_own N a' U" by (auto simp: token_own_def token_alloc_def Let_def split: if_splits)
next
  fix a U idx assume own: "token_own N a U" "mset idx \<subseteq># U"
  obtain a' where a': "token_free a idx = Inr a'" unfolding token_free_def by (metis (full_types))
  have "token_own N a' (U - mset idx)" unfolding token_own_def
    by (rule owns_return [OF own [unfolded token_own_def]])
       (use a' in \<open>auto simp: token_free_def split: if_splits\<close>)
  with a' show "\<exists>a'. token_free a idx = Inr a' \<and> token_own N a' (U - mset idx)" by blast
next
  fix a U assume "token_own N a U" "is_not_in_free_group a"
  then show "token_own N (free_group_begin a) U" by (simp add: token_own_def owns_def free_group_begin_def)
next
  fix a U assume "token_own N a U" "\<not> is_not_in_free_group a"
  then show "\<exists>a'. free_group_end token_free a = Inr a' \<and> token_own N a' U"
    by (cases "concat (free_group a) = []")
       (auto simp: token_own_def owns_def free_group_end_def token_free_def Let_def ac_simps
         simp del: concat_eq_Nil_conv)
qed simp

subsection \<open>Extending and decoding\<close>

text \<open>
  A batch: the lengths are well formed, the programs run in some order, every last location is
  aligned with its prefix, and the partial last pages are held and differ between requests.
\<close>

definition batch_ok :: "int \<Rightarrow> int multiset \<Rightarrow> nat list \<Rightarrow> int list \<Rightarrow> int list \<Rightarrow> int list \<Rightarrow> bool" where
  "batch_ok ps U order pre seq locs \<longleftrightarrow>
     lens_ok ps pre seq \<and> set order = {..<length seq} \<and> length locs = length seq \<and>
     (\<forall>i < length seq. (locs ! i + 1) mod ps = pre ! i mod ps) \<and>
     (\<forall>i < length seq. pre ! i mod ps \<noteq> 0 \<longrightarrow> locs ! i div ps \<in># U) \<and>
     (\<forall>i < length seq. \<forall>j < length seq. i \<noteq> j \<longrightarrow> pre ! i mod ps \<noteq> 0 \<longrightarrow> pre ! j mod ps \<noteq> 0 \<longrightarrow>
        locs ! i div ps \<noteq> locs ! j div ps)"

definition new_page_count :: "int \<Rightarrow> int list \<Rightarrow> int list \<Rightarrow> int" where
  "new_page_count ps pre seq = page_start ps pre seq (length seq)"

definition batch_slots :: "int \<Rightarrow> int list \<Rightarrow> int list \<Rightarrow> int list \<Rightarrow> int list \<Rightarrow> int list" where
  "batch_slots ps free pre seq locs = concat (map (request_slots ps pre seq locs (\<lambda>k. free ! nat k)) [0..<length seq])"

lemma bit_length_bound: "n < 2 ^ bit_length n"
proof (induction n rule: bit_length.induct)
  case (1 n)
  show ?case
  proof (cases "n = 0")
    case False
    with 1 have "n div 2 < 2 ^ bit_length (n div 2)" by simp
    then show ?thesis using False by (subst bit_length.simps) simp
  qed simp
qed

lemma next_power_of_2_ge: "n \<le> next_power_of_2 n"
  using bit_length_bound [of "n - 1"] by (auto simp: next_power_of_2_def)

lemma new_pages_sum:
  assumes "lens_ok ps pre seq"
  shows "get_num_new_pages seq ps (Some pre) False = Inr (new_page_count ps pre seq)"
  using assms
  by (simp add: get_num_new_pages_def new_page_count_def page_start_def lens_ok_def sum_list_sum_nth lessThan_atLeast0)

lemma slot_page:
  assumes ok: "batch_ok ps U order pre seq locs" and i: "i < length seq" and pos: "pre ! i \<le> pos" "pos < seq ! i"
  shows "slot ps pre seq locs fp i pos mod ps = pos mod ps"
    "slot ps pre seq locs fp i pos div ps =
      (if pos < icdiv (pre ! i) ps * ps then locs ! i div ps
       else fp (page_start ps pre seq i + (pos div ps - icdiv (pre ! i) ps)))"
    "pos < icdiv (pre ! i) ps * ps \<Longrightarrow> pos div ps = pre ! i div ps \<and> pre ! i mod ps \<noteq> 0"
proof -
  have ps: "0 < ps" and align: "(locs ! i + 1) mod ps = pre ! i mod ps"
    using ok i by (auto simp: batch_ok_def lens_ok_def)
  define P k r L where "P = pre ! i" and "k = P div ps" and "r = P mod ps" and "L = (locs ! i + 1) div ps"
  have P: "P = k * ps + r" "0 \<le> r" "r < ps" "locs ! i + 1 = L * ps + r"
    using ps align div_mult_mod_eq [of "locs ! i + 1" ps] by (simp_all add: P_def k_def r_def L_def)
  have old: "pos mod ps = pos - k * ps \<and> pos div ps = k \<and> r \<noteq> 0 \<and>
      slot ps pre seq locs fp i pos mod ps = pos - k * ps \<and> slot ps pre seq locs fp i pos div ps = L \<and> L = locs ! i div ps"
    if "pos < icdiv P ps * ps"
  proof -
    have c: "icdiv P ps = k + (if r = 0 then 0 else 1)" using icdiv_eq [OF ps, of P] by (simp add: k_def r_def)
    with that P pos have r: "r \<noteq> 0" "0 \<le> pos - k * ps" "pos - k * ps < ps"
      by (auto simp: P_def [symmetric] algebra_simps split: if_splits)
    have "slot ps pre seq locs fp i pos = L * ps + (pos - k * ps)"
      using that P by (simp add: slot_def P_def [symmetric])
    moreover have "locs ! i = L * ps + (r - 1)" using P(4) by simp
    moreover have "0 \<le> r - 1" "r - 1 < ps" using r(1) P(2,3) by linarith+
    moreover have "pos = k * ps + (pos - k * ps)" by simp
    ultimately show ?thesis
      using r page_arith [OF ps, of _ L] page_arith [OF ps, of pos k "pos - k * ps"]
      by (simp add: div_pos_pos_trivial mod_pos_pos_trivial)
  qed
  show "slot ps pre seq locs fp i pos mod ps = pos mod ps"
    using old ps by (cases "pos < icdiv P ps * ps") (simp_all add: slot_def P_def)
  show "slot ps pre seq locs fp i pos div ps =
      (if pos < icdiv (pre ! i) ps * ps then locs ! i div ps
       else fp (page_start ps pre seq i + (pos div ps - icdiv (pre ! i) ps)))"
    using old ps by (cases "pos < icdiv P ps * ps") (simp_all add: slot_def P_def)
  show "pos < icdiv (pre ! i) ps * ps \<Longrightarrow> pos div ps = pre ! i div ps \<and> pre ! i mod ps \<noteq> 0"
    using old by (simp add: P_def k_def r_def)
qed

lemma request_of_page:
  fixes f :: "nat \<Rightarrow> int"
  assumes "f 0 \<le> t" "t < f n"
  shows "\<exists>i < n. f i \<le> t \<and> t < f (Suc i)"
  using assms(2)
proof (induction n)
  case (Suc n)
  then show ?case by (cases "t < f n") (use less_Suc_eq in \<open>auto simp: not_less\<close>)
qed (use assms(1) in simp)

lemma new_pages_ranges:
  assumes "batch_ok ps U order pre seq locs" and enough: "new_page_count ps pre seq \<le> int (length free)"
    and "i < length seq" "pre ! i \<le> pos" "pos < seq ! i" "\<not> pos < icdiv (pre ! i) ps * ps"
  shows "slot ps pre seq locs (\<lambda>k. free ! nat k) i pos div ps \<in> set (take (nat (new_page_count ps pre seq)) free)"
proof -
  let ?t = "page_start ps pre seq i + (pos div ps - icdiv (pre ! i) ps)"
  have ok: "lens_ok ps pre seq" using assms(1) by (simp add: batch_ok_def)
  note r = page_index_range [OF ok assms(3-6) order_refl]
  have "nat ?t < nat (new_page_count ps pre seq)" "nat (new_page_count ps pre seq) \<le> length free"
    using r enough by (simp_all add: new_page_count_def)
  then have "free ! nat ?t \<in> set (take (nat (new_page_count ps pre seq)) free)"
    by (metis in_set_conv_nth length_take min.absorb2 nth_take)
  then show ?thesis using slot_page(2) [OF assms(1,3-5)] assms(6) by simp
qed

lemma slot_inj:
  assumes batch: "batch_ok ps U order pre seq locs" and enough: "new_page_count ps pre seq \<le> int (length free)"
    and free: "distinct free" "set free \<inter> set_mset U = {}"
    and i: "i < length seq" "pre ! i \<le> x" "x < seq ! i" and j: "j < length seq" "pre ! j \<le> y" "y < seq ! j"
    and eq: "slot ps pre seq locs (\<lambda>k. free ! nat k) i x = slot ps pre seq locs (\<lambda>k. free ! nat k) j y"
  shows "i = j \<and> x = y"
proof -
  let ?fp = "\<lambda>k. free ! nat k"
  have ok: "lens_ok ps pre seq" using batch by (simp add: batch_ok_def)
  note si = slot_page(1,2) [OF batch i, of ?fp] slot_page(3) [OF batch i]
    and sj = slot_page(1,2) [OF batch j, of ?fp] slot_page(3) [OF batch j]
  let ?old_i = "x < icdiv (pre ! i) ps * ps" and ?old_j = "y < icdiv (pre ! j) ps * ps"
  have eqs: "x mod ps = y mod ps" using si(1) sj(1) eq by simp
  have same: "x = y" if "x div ps = y div ps" by (metis that eqs div_mult_mod_eq)
  have held: "locs ! k div ps \<in># U" if "k < length seq" "pre ! k mod ps \<noteq> 0" for k
    using batch that by (simp add: batch_ok_def)
  have part: "slot ps pre seq locs ?fp k z div ps \<in> set free" if "k < length seq" "pre ! k \<le> z" "z < seq ! k"
    "\<not> z < icdiv (pre ! k) ps * ps" for k z
    using new_pages_ranges [OF batch enough that] set_take_subset by fast
  consider (old) "?old_i" "?old_j" | (mixed) "?old_i \<noteq> ?old_j" | (new) "\<not> ?old_i" "\<not> ?old_j" by blast
  then show ?thesis
  proof cases
    case old
    then have "locs ! i div ps = locs ! j div ps" using si(2) sj(2) eq by simp
    then have "i = j" using batch i(1) j(1) si(3) sj(3) old unfolding batch_ok_def by blast
    then show ?thesis using same si(3) sj(3) old by simp
  next
    case mixed
    then show ?thesis
      using part [OF i] part [OF j] held [OF i(1)] held [OF j(1)] si(2,3) sj(2,3) eq free(2) by fastforce
  next
    case new
    let ?s = "page_start ps pre seq i + (x div ps - icdiv (pre ! i) ps)"
      and ?t = "page_start ps pre seq j + (y div ps - icdiv (pre ! j) ps)"
    note ri = page_index_range [OF ok i new(1) order_refl] and rj = page_index_range [OF ok j new(2) order_refl]
    have "free ! nat ?s = free ! nat ?t" using si(2) sj(2) eq new by simp
    then have st: "?s = ?t"
      using free(1) ri rj enough by (simp add: nth_eq_iff_index_eq new_page_count_def)
    have "\<not> i < j" "\<not> j < i"
      using page_start_mono [OF ok, of "Suc i" j] page_start_mono [OF ok, of "Suc j" i] ri rj st i(1) j(1) by linarith+
    then have "i = j" by simp
    with st same show ?thesis by simp
  qed
qed

lemma concat_index: "concat (map (\<lambda>i. map (f i) (g i)) xs) = map (\<lambda>(i, x). f i x) (concat (map (\<lambda>i. map (Pair i) (g i)) xs))"
  by (induction xs) simp_all

lemma distinct_index: "(\<And>i. distinct (g i)) \<Longrightarrow> distinct (concat (map (\<lambda>i. map (Pair i) (g i)) [0..<n]))"
  by (induction n) (auto simp: distinct_map inj_on_def)

lemma batch_slots_distinct:
  assumes "batch_ok ps U order pre seq locs" "new_page_count ps pre seq \<le> int (length free)"
    and "distinct free" "set free \<inter> set_mset U = {}"
  shows "distinct (batch_slots ps free pre seq locs)"
  unfolding batch_slots_def request_slots_def
    concat_index [of "slot ps pre seq locs (\<lambda>k. free ! nat k)" "\<lambda>i. [pre ! i..seq ! i - 1]"] distinct_map
  using slot_inj [OF assms] by (auto simp: inj_on_def intro!: distinct_index)

lemma batch_new_pages:
  assumes batch: "batch_ok ps U order pre seq locs" and enough: "new_page_count ps pre seq \<le> int (length free)"
    and free: "set free \<inter> set_mset U = {}"
  shows "(\<lambda>x. x div ps) ` set (batch_slots ps free pre seq locs) - set_mset U =
    set (take (nat (new_page_count ps pre seq)) free)" (is "?L = ?R")
proof
  let ?fp = "\<lambda>k. free ! nat k"
  have held: "slot ps pre seq locs ?fp k z div ps \<in># U" if "k < length seq" "pre ! k \<le> z" "z < seq ! k"
    "z < icdiv (pre ! k) ps * ps" for k z
    using slot_page(2,3) [OF batch that(1-3)] that(4) batch by (simp add: batch_ok_def that(1))
  show "?L \<subseteq> ?R"
  proof
    fix p assume "p \<in> ?L"
    then obtain i pos where "i < length seq" "pre ! i \<le> pos" "pos < seq ! i" "p \<notin># U"
      "p = slot ps pre seq locs ?fp i pos div ps" by (auto simp: batch_slots_def request_slots_def)
    then show "p \<in> ?R" using new_pages_ranges [OF batch enough] held by blast
  qed
  show "?R \<subseteq> ?L"
  proof
    fix p assume "p \<in> ?R"
    then obtain t where t: "t < nat (new_page_count ps pre seq)" "t < length free" "p = free ! t"
      by (auto simp: in_set_conv_nth)
    have ok: "lens_ok ps pre seq" "0 < ps" using batch by (auto simp: batch_ok_def lens_ok_def)
    obtain i where i: "i < length seq" "page_start ps pre seq i \<le> int t" "int t < page_start ps pre seq (Suc i)"
    proof -
      have "page_start ps pre seq 0 \<le> int t" "int t < page_start ps pre seq (length seq)"
        using t(1) by (simp_all add: page_start_def [of _ _ _ 0] new_page_count_def zless_nat_eq_int_zless)
      from request_of_page [OF this] that show thesis by blast
    qed
    define j where "j = icdiv (pre ! i) ps + (int t - page_start ps pre seq i)"
    have j: "icdiv (pre ! i) ps \<le> j" "j < icdiv (seq ! i) ps"
      using i by (simp_all add: j_def page_start_Suc)
    have "icdiv (pre ! i) ps * ps \<le> j * ps" using j(1) ok(2) by simp
    then have lo: "pre ! i \<le> j * ps" "\<not> j * ps < icdiv (pre ! i) ps * ps"
      using icdiv_bounds(1) [OF ok(2), of "pre ! i"] by linarith+
    have "(j + 1) * ps \<le> icdiv (seq ! i) ps * ps" using j(2) ok(2) by (intro mult_right_mono) auto
    then have hi: "j * ps < seq ! i"
      using icdiv_bounds(2) [OF ok(2), of "seq ! i"] by (simp add: algebra_simps)
    have "slot ps pre seq locs ?fp i (j * ps) div ps = p"
      using slot_page(2) [OF batch i(1) lo(1) hi] lo(2) ok(2) t by (simp add: j_def)
    moreover have "slot ps pre seq locs ?fp i (j * ps) \<in> set (batch_slots ps free pre seq locs)"
      using i(1) lo(1) hi by (auto simp: batch_slots_def request_slots_def intro!: bexI [of _ i])
    moreover have "p \<notin># U" using free nth_mem [OF t(2)] t(3) by auto
    ultimately show "p \<in> ?L" by force
  qed
qed

definition merged :: "bool \<Rightarrow> allocator \<Rightarrow> allocator" where
  "merged low a = (if need_sort a \<and> low then merge_and_sort_free a else a)"

lemma merged_own: "paged_own ps N a U \<Longrightarrow> paged_own ps N (merged low a) U"
  by (simp add: paged_own_def merged_def)

lemma merged_simps [simp]:
  "page_size (merged low a) = page_size a" "debug_mode (merged low a) = debug_mode a"
  by (simp_all add: merged_def)

lemma own_disjoint: "owns pages N a U \<Longrightarrow> set (free_pages a) \<inter> set_mset U = {}"
proof -
  assume own: "owns pages N a U"
  have "p \<notin># U" if "p \<in> set (free_pages a)" for p
    using own own_count [of _ N p] that
      mset_disjoint [of "mset (free_pages a) + mset (release_pages a) +
        (if is_not_in_free_group a then {#} else mset (pages (concat (free_group a))))" U p]
    by (simp add: owns_def)
  then show ?thesis by blast
qed

lemma launch_slots:
  assumes "batch_ok ps U order pre seq locs" "length seq \<le> n" and "new_page_count ps pre seq \<le> int (length free)"
  shows "map (launch order (alloc_extend_kernel other n ps pre seq locs (page_memory junk free)) m)
      [0..out_start pre seq (length seq) - 1] = map Some (batch_slots ps free pre seq locs)"
proof -
  have ok: "lens_ok ps pre seq" "set order = {..<length seq}" using assms(1) by (simp_all add: batch_ok_def)
  have "map (request_slots ps pre seq locs (page_memory junk free)) [0..<length seq] =
      map (request_slots ps pre seq locs (\<lambda>k. free ! nat k)) [0..<length seq]"
    using request_slots_cong [OF ok(1) _ assms(3) [unfolded new_page_count_def], of _ "page_memory junk free" locs]
    by (simp add: page_memory_def)
  then show ?thesis
    unfolding launch_extend [OF ok assms(2) order_refl] batch_slots_def by (simp only:)
qed

lemma out_start_nonneg: "lens_ok ps pre seq \<Longrightarrow> 0 \<le> out_start pre seq (length seq)"
  using out_start_mono [of ps pre seq 0 "length seq"] by (simp add: out_start_def)

lemma page_count_nonneg: "lens_ok ps pre seq \<Longrightarrow> 0 \<le> new_page_count ps pre seq"
  using page_start_mono [of ps pre seq 0 "length seq"] by (simp add: new_page_count_def page_start_def)

text \<open>Both operations end the same way: the slots are handed out and the new pages leave the free list.\<close>

definition handed_out :: "allocator \<Rightarrow> int list \<Rightarrow> int list \<Rightarrow> int list \<Rightarrow> (int option list option \<times> allocator) result" where
  "handed_out a pre seq locs =
     (let ps = int (page_size a); n = new_page_count ps pre seq
      in if int (length (free_pages a)) < n then Inr (None, a)
         else Inr (Some (map Some (batch_slots ps (free_pages a) pre seq locs)),
                   a\<lparr>free_pages := drop (nat n) (free_pages a)\<rparr>))"

lemma alloc_extend_eq:
  assumes own: "paged_own ps N a U" and batch: "batch_ok (int ps) U order pre seq locs"
    and n: "int n = out_start pre seq (length seq)"
    and num: "num_new \<in> {None, Some (new_page_count (int ps) pre seq)}"
    and a1: "a1 = merged (length (free_pages a) < n div ps + length pre + 1) a"
    and enough: "new_page_count (int ps) pre seq \<le> int (length (free_pages a1)) \<or> \<not> debug_mode a"
  shows "alloc_extend other junk order a pre pre seq seq locs n num_new = handed_out a1 pre seq locs"
proof -
  have ps: "page_size a = ps" and own1: "owns (pages_of ps) N a1 U"
    using own merged_own [OF own] by (simp_all add: paged_own_def a1)
  have ok: "lens_ok (int ps) pre seq" using batch by (simp add: batch_ok_def)
  have len: "length pre = length seq" using ok by (simp add: lens_ok_def)
  have align: "list_all2 (\<lambda>l p. (l + 1) mod int ps = p mod int ps) locs pre"
    using batch len by (simp add: batch_ok_def list_all2_conv_all_nth)
  let ?out = "map (launch order (alloc_extend_kernel other (next_power_of_2 (length seq)) (int ps) pre seq locs
      (page_memory junk (free_pages a1))) Map.empty) [0..int n - 1]"
  have out: "?out = map Some (batch_slots (int ps) (free_pages a1) pre seq locs)"
    if "new_page_count (int ps) pre seq \<le> int (length (free_pages a1))"
    unfolding n by (rule launch_slots [OF batch next_power_of_2_ge that])
  have dist: "distinct ?out" if "new_page_count (int ps) pre seq \<le> int (length (free_pages a1))"
    using batch_slots_distinct [OF batch that owns_free_distinct [OF own1] own_disjoint [OF own1]]
    by (simp add: out [OF that] distinct_map)
  have num': "(case num_new of None \<Rightarrow> get_num_new_pages seq (int ps) (Some pre) False | Some n \<Rightarrow> Inr n)
      = Inr (new_page_count (int ps) pre seq)"
    using num new_pages_sum [OF ok] by auto
  have merge: "(if need_sort a \<and> n div ps + length seq + 1 > length (free_pages a) then merge_and_sort_free a else a) = a1"
    by (simp add: a1 merged_def len)
  have "page_size a1 = ps" "debug_mode a1 = debug_mode a" by (simp_all add: a1 ps)
  with enough dist out page_count_nonneg [OF ok] show ?thesis
    unfolding alloc_extend_def handed_out_def Let_def ps num' len merge
    by (cases "new_page_count (int ps) pre seq \<le> int (length (free_pages a1))")
       (auto simp: align drop_from_def clip_def)
qed

lemma new_page_of_decode:
  assumes "1 < ps"
  shows "icdiv s ps - icdiv (s - 1) ps = (if s mod ps = 1 then 1 else 0)"
proof -
  have "s + ps - 1 = s - 1 + 1 * ps" by simp
  then have "icdiv s ps = (s - 1) div ps + 1" using assms by (simp only: icdiv_def div_mult_self1)
  moreover have "(s - 1) mod ps = 0 \<longleftrightarrow> s mod ps = 1"
    using assms mod_eq_dvd_iff [of s ps 1] by (simp add: dvd_eq_mod_eq_0 [symmetric])
  ultimately show ?thesis using icdiv_eq [of ps "s - 1"] assms by simp
qed

lemma decode_page_count:
  assumes "1 < ps"
  shows "new_page_count ps (map (\<lambda>s. s - 1) seq) seq = int (length (filter (\<lambda>s. s mod ps = 1) seq))"
proof -
  have "(\<Sum>j<length seq. icdiv (seq ! j) ps - icdiv (map (\<lambda>s. s - 1) seq ! j) ps) =
      (\<Sum>j<length seq. if seq ! j mod ps = 1 then 1 else 0)"
    by (rule sum.cong) (simp_all add: new_page_of_decode [OF assms])
  also have "\<dots> = sum_list (map (\<lambda>s. if s mod ps = 1 then 1 else 0) seq)"
    by (simp add: sum_list_sum_nth lessThan_atLeast0)
  also have "\<dots> = int (length (filter (\<lambda>s. s mod ps = 1) seq))" by (induction seq) simp_all
  finally show ?thesis by (simp add: new_page_count_def page_start_def)
qed

lemma launch_decode:
  assumes "0 < ps" "set order = {..<length seq}" "length seq \<le> n"
  shows "launch order (alloc_decode_kernel other n ps seq locs fp) m =
    launch order (alloc_extend_kernel other n ps (map (\<lambda>s. s - 1) seq) seq locs fp) m"
  unfolding launch_def
  by (rule foldl_cong [OF refl refl]) (use assms in \<open>auto simp: decode_is_extend\<close>)

lemma alloc_decode_eq:
  assumes own: "paged_own ps N a U" and "1 < ps" and batch: "batch_ok (int ps) U order (map (\<lambda>s. s - 1) seq) seq locs"
    and a1: "a1 = merged (length (free_pages a) < length seq) a"
    and enough: "new_page_count (int ps) (map (\<lambda>s. s - 1) seq) seq \<le> int (length (free_pages a1)) \<or> \<not> debug_mode a"
  shows "alloc_decode other junk order a seq seq locs = handed_out a1 (map (\<lambda>s. s - 1) seq) seq locs"
proof -
  let ?pre = "map (\<lambda>s. s - 1) seq"
  have ps: "page_size a = ps" and own1: "owns (pages_of ps) N a1 U"
    using own merged_own [OF own] by (simp_all add: paged_own_def a1)
  have ok: "lens_ok (int ps) ?pre seq" "set order = {..<length seq}" "0 < int ps"
    using batch by (simp_all add: batch_ok_def lens_ok_def)
  have align: "list_all2 (\<lambda>l s. (l + 2) mod int ps = s mod int ps) locs seq"
  proof -
    have "(locs ! i + 2) mod int ps = seq ! i mod int ps" if "i < length seq" for i
    proof -
      have "(locs ! i + 1) mod int ps = (seq ! i - 1) mod int ps" using batch that by (simp add: batch_ok_def)
      from mod_add_cong [OF this refl, of 1] show ?thesis by (simp add: add.commute)
    qed
    then show ?thesis using batch by (simp add: batch_ok_def list_all2_conv_all_nth)
  qed
  let ?out = "map (launch order (alloc_decode_kernel other (next_power_of_2 (length seq)) (int ps) seq locs
      (page_memory junk (free_pages a1))) Map.empty) [0..int (length seq) - 1]"
  have start: "int (length seq) = out_start ?pre seq (length seq)" by (simp add: out_start_def)
  have out: "?out = map Some (batch_slots (int ps) (free_pages a1) ?pre seq locs)"
    if "new_page_count (int ps) ?pre seq \<le> int (length (free_pages a1))"
    unfolding start launch_decode [OF ok(3,2) next_power_of_2_ge]
    by (rule launch_slots [OF batch next_power_of_2_ge that])
  have dist: "distinct ?out" if "new_page_count (int ps) ?pre seq \<le> int (length (free_pages a1))"
    using batch_slots_distinct [OF batch that owns_free_distinct [OF own1] own_disjoint [OF own1]]
    by (simp add: out [OF that] distinct_map)
  have num: "get_num_new_pages seq (int ps) None True = Inr (new_page_count (int ps) ?pre seq)"
    using decode_page_count [of "int ps" seq] assms(2) by (simp add: get_num_new_pages_def)
  have merge: "(if need_sort a \<and> length seq > length (free_pages a) then merge_and_sort_free a else a) = a1"
    by (simp add: a1 merged_def)
  have "page_size a1 = ps" "debug_mode a1 = debug_mode a" by (simp_all add: a1 ps)
  with enough dist out page_count_nonneg [OF ok(1)] show ?thesis
    unfolding alloc_decode_def handed_out_def Let_def ps num merge
    by (cases "new_page_count (int ps) ?pre seq \<le> int (length (free_pages a1))")
       (auto simp: align drop_from_def clip_def)
qed

text \<open>The pages of the result that were not held before.\<close>

definition fresh_pages :: "nat \<Rightarrow> int multiset \<Rightarrow> int option list \<Rightarrow> int multiset" where
  "fresh_pages ps U out = mset_set ((\<lambda>x. the x div int ps) ` set out - set_mset U)"

lemma handed_out_own:
  assumes own: "paged_own ps N a U" and batch: "batch_ok (int ps) U order pre seq locs"
    and out: "handed_out a pre seq locs = Inr (Some out, a')"
  shows "paged_own ps N a' (U + fresh_pages ps U out)"
proof -
  have ps: "page_size a = ps" "0 < ps" and own': "owns (pages_of ps) N a U" using own by (simp_all add: paged_own_def)
  let ?n = "new_page_count (int ps) pre seq"
  have enough: "?n \<le> int (length (free_pages a))"
    and out': "out = map Some (batch_slots (int ps) (free_pages a) pre seq locs)"
    and a': "a' = a\<lparr>free_pages := drop (nat ?n) (free_pages a)\<rparr>"
    using out by (auto simp: handed_out_def Let_def ps split: if_splits)
  have "(\<lambda>x. the x div int ps) ` set out - set_mset U = set (take (nat ?n) (free_pages a))"
    using batch_new_pages [OF batch enough own_disjoint [OF own']] by (simp add: out' image_image)
  then have "fresh_pages ps U out = mset (take (nat ?n) (free_pages a))"
    using owns_free_distinct [OF own'] by (simp add: fresh_pages_def mset_set_set)
  with owns_take [OF own', of "nat ?n"] ps show ?thesis by (simp add: paged_own_def a')
qed

definition extend_grab :: "nat \<Rightarrow> allocator \<Rightarrow> int multiset \<Rightarrow> int multiset \<Rightarrow> allocator \<Rightarrow> bool" where
  "extend_grab ps a U Q a' \<longleftrightarrow>
     (\<exists>other junk order pre seq locs n num_new out.
        batch_ok (int ps) U order pre seq locs \<and> int n = out_start pre seq (length seq) \<and>
        num_new \<in> {None, Some (new_page_count (int ps) pre seq)} \<and>
        (debug_mode a \<longrightarrow> new_page_count (int ps) pre seq \<le> int (length (free_pages a))) \<and>
        alloc_extend other junk order a pre pre seq seq locs n num_new = Inr (Some out, a') \<and> Q = fresh_pages ps U out)"

definition decode_grab :: "nat \<Rightarrow> allocator \<Rightarrow> int multiset \<Rightarrow> int multiset \<Rightarrow> allocator \<Rightarrow> bool" where
  "decode_grab ps a U Q a' \<longleftrightarrow>
     (\<exists>other junk order seq locs out.
        1 < ps \<and> batch_ok (int ps) U order (map (\<lambda>s. s - 1) seq) seq locs \<and>
        (debug_mode a \<longrightarrow> new_page_count (int ps) (map (\<lambda>s. s - 1) seq) seq \<le> int (length (free_pages a))) \<and>
        alloc_decode other junk order a seq seq locs = Inr (Some out, a') \<and> Q = fresh_pages ps U out)"

definition paged_grab :: "nat \<Rightarrow> allocator \<Rightarrow> int multiset \<Rightarrow> int multiset \<Rightarrow> allocator \<Rightarrow> bool" where
  "paged_grab ps a U Q a' \<longleftrightarrow> extend_grab ps a U Q a' \<or> decode_grab ps a U Q a'"

lemma merged_longer: "length (free_pages a) \<le> length (free_pages (merged low a))"
  by (simp add: merged_def merge_and_sort_free_def)

lemma extend_grab_own:
  assumes own: "paged_own ps N a U" and "extend_grab ps a U Q a'"
  shows "paged_own ps N a' (U + Q)"
proof -
  from assms(2) obtain other junk order pre seq locs n num_new out where
    h: "batch_ok (int ps) U order pre seq locs" "int n = out_start pre seq (length seq)"
    "num_new \<in> {None, Some (new_page_count (int ps) pre seq)}"
    "debug_mode a \<longrightarrow> new_page_count (int ps) pre seq \<le> int (length (free_pages a))"
    "alloc_extend other junk order a pre pre seq seq locs n num_new = Inr (Some out, a')" "Q = fresh_pages ps U out"
    unfolding extend_grab_def by blast
  let ?a1 = "merged (length (free_pages a) < n div ps + length pre + 1) a"
  have "new_page_count (int ps) pre seq \<le> int (length (free_pages ?a1)) \<or> \<not> debug_mode a"
    using h(4) merged_longer [of a "length (free_pages a) < n div ps + length pre + 1"] by linarith
  from alloc_extend_eq [OF own h(1-3) refl this] h(5) have "handed_out ?a1 pre seq locs = Inr (Some out, a')" by simp
  from handed_out_own [OF merged_own [OF own] h(1) this] show ?thesis by (simp add: h(6))
qed

lemma decode_grab_own:
  assumes own: "paged_own ps N a U" and "decode_grab ps a U Q a'"
  shows "paged_own ps N a' (U + Q)"
proof -
  from assms(2) obtain other junk order seq locs out where
    h: "1 < ps" "batch_ok (int ps) U order (map (\<lambda>s. s - 1) seq) seq locs"
    "debug_mode a \<longrightarrow> new_page_count (int ps) (map (\<lambda>s. s - 1) seq) seq \<le> int (length (free_pages a))"
    "alloc_decode other junk order a seq seq locs = Inr (Some out, a')" "Q = fresh_pages ps U out"
    unfolding decode_grab_def by blast
  let ?pre = "map (\<lambda>s. s - 1) seq" and ?a1 = "merged (length (free_pages a) < length seq) a"
  have "new_page_count (int ps) ?pre seq \<le> int (length (free_pages ?a1)) \<or> \<not> debug_mode a"
    using h(3) merged_longer [of a "length (free_pages a) < length seq"] by linarith
  from alloc_decode_eq [OF own h(1,2) refl this] h(4) have "handed_out ?a1 ?pre seq locs = Inr (Some out, a')" by simp
  from handed_out_own [OF merged_own [OF own] h(2) this] show ?thesis by (simp add: h(5))
qed

lemma pages_of_page_block:
  assumes "0 < ps" "distinct out"
  shows "mset (pages_of ps (concat (map (\<lambda>p. map (\<lambda>q. p * int ps + int q) [0..<ps]) out))) = mset out"
proof -
  have "(\<lambda>i. i div int ps) ` set (concat (map (\<lambda>p. map (\<lambda>q. p * int ps + int q) [0..<ps]) out)) = set out"
    using assms(1) by (force simp: image_iff)
  then show ?thesis using assms(2) by (simp add: pages_of_def mset_unique mset_set_set)
qed

lemma pages_of_append:
  assumes "set (pages_of ps xs) \<inter> set (pages_of ps ys) = {}"
  shows "mset (pages_of ps (xs @ ys)) = mset (pages_of ps xs) + mset (pages_of ps ys)"
  using assms by (simp add: pages_of_def mset_unique image_Un mset_set_Union)

lemma length_unique: "length (unique xs) = length xs \<longleftrightarrow> distinct xs"
  by (simp add: unique_def)

lemma paged_free_own:
  assumes own: "paged_own ps N a U" and sub: "mset (pages_of ps idx) \<subseteq># U"
  shows "\<exists>a'. paged_free a idx = Inr a' \<and> paged_own ps N a' (U - mset (pages_of ps idx))"
proof (cases "idx = []")
  case True
  with own show ?thesis by (simp add: paged_free_def pages_of_def unique_def)
next
  case False
  have ps: "page_size a = ps" "0 < ps" and own': "owns (pages_of ps) N a U" using own by (simp_all add: paged_own_def)
  define a' where "a' = (if is_not_in_free_group a
      then if need_sort a then a\<lparr>release_pages := pages_of ps idx @ release_pages a\<rparr>
           else a\<lparr>free_pages := pages_of ps idx @ free_pages a\<rparr>
      else a\<lparr>free_group := free_group a @ [idx]\<rparr>)"
  have group: "mset (pages_of ps (concat (free_group a) @ idx)) =
      mset (pages_of ps (concat (free_group a))) + mset (pages_of ps idx)" if "\<not> is_not_in_free_group a"
  proof (rule pages_of_append)
    have "p \<notin># U" if "p \<in> set (pages_of ps (concat (free_group a)))" for p
      using own' \<open>\<not> is_not_in_free_group a\<close> own_count [of _ N p] that
        mset_disjoint [of "mset (free_pages a) + mset (release_pages a) + mset (pages_of ps (concat (free_group a)))" U p]
      by (simp add: owns_def)
    with sub show "set (pages_of ps (concat (free_group a))) \<inter> set (pages_of ps idx) = {}"
      by (auto dest: mset_subset_eqD)
  qed
  have "owns (pages_of ps) N a' (U - mset (pages_of ps idx))"
    by (rule owns_return [OF own' sub]) (auto simp: a'_def group ac_simps)
  moreover have "paged_free a idx = Inr a'"
    using False owns_free_distinct [OF calculation] unfolding paged_free_def Let_def ps(1) pages_of_def [symmetric]
    by (simp add: length_unique flip: a'_def)
  moreover have "page_size a' = ps" using ps by (simp add: a'_def)
  ultimately show ?thesis using ps(2) by (simp add: paged_own_def)
qed

interpretation paged: kv_allocator paged_alloc paged_free "pages_of ps" "paged_grab ps" "paged_own ps N" N
proof
  fix a U assume "paged_own ps N a U"
  then show "U \<subseteq># mset [1..int N]" unfolding paged_own_def by (blast intro: owns_within)
next
  fix a U n out a' assume own: "paged_own ps N a U" and out: "paged_alloc a n = Inr (Some out, a')"
  define a1 where "a1 = merged (length (free_pages a) < n div ps) a"
  have own1: "paged_own ps N a1 U" unfolding a1_def by (rule merged_own [OF own])
  have ps: "page_size a = ps" "0 < ps" "page_size a1 = ps" using own own1 by (simp_all add: paged_own_def)
  let ?pages = "take (n div ps) (free_pages a1)"
  have "out = concat (map (\<lambda>p. map (\<lambda>q. p * int ps + int q) [0..<ps]) ?pages)"
    "a' = a1\<lparr>free_pages := drop (n div ps) (free_pages a1)\<rparr>"
    using out ps by (auto simp: paged_alloc_def a1_def merged_def Let_def rbind_eq_Inr_iff split: if_splits)
  moreover have "distinct ?pages" using own1 owns_free_distinct [of "pages_of ps" N a1 U] by (simp add: paged_own_def)
  ultimately show "paged_own ps N a' (U + mset (pages_of ps out))"
    using own1 pages_of_page_block [OF ps(2)] by (simp add: paged_own_def owns_take)
next
  fix a U n a' assume own: "paged_own ps N a U" and out: "paged_alloc a n = Inr (None, a')"
  have "page_size a = ps" using own by (simp add: paged_own_def)
  with out have "a' = merged (length (free_pages a) < n div ps) a"
    by (auto simp: paged_alloc_def merged_def Let_def rbind_eq_Inr_iff split: if_splits)
  then show "paged_own ps N a' U" using merged_own [OF own] by simp
next
  fix a U idx assume "paged_own ps N a U" "mset (pages_of ps idx) \<subseteq># U"
  then show "\<exists>a'. paged_free a idx = Inr a' \<and> paged_own ps N a' (U - mset (pages_of ps idx))"
    by (rule paged_free_own)
next
  fix a U assume "paged_own ps N a U" "is_not_in_free_group a"
  then show "paged_own ps N (free_group_begin a) U"
    by (simp add: paged_own_def owns_def free_group_begin_def pages_of_def unique_def)
next
  fix a U assume own: "paged_own ps N a U" and group: "\<not> is_not_in_free_group a"
  let ?idx = "concat (free_group a)" and ?a = "a\<lparr>is_not_in_free_group := True\<rparr>"
  have "paged_own ps N ?a (U + mset (pages_of ps ?idx))"
    using own group by (simp add: paged_own_def owns_def ac_simps)
  from paged_free_own [OF this, of ?idx] own group
  show "\<exists>a'. free_group_end paged_free a = Inr a' \<and> paged_own ps N a' U"
    by (cases "free_group a = []") (auto simp: free_group_end_def paged_own_def owns_def pages_of_def unique_def)
next
  fix a U Q a' assume "paged_own ps N a U" "paged_grab ps a U Q a'"
  then show "paged_own ps N a' (U + Q)"
    unfolding paged_grab_def using extend_grab_own decode_grab_own by blast
qed

lemma paged_init_own: "paged_init sz ps sort_free debug = Inr a \<Longrightarrow> paged_own ps (sz div ps) a {#}"
  by (auto simp: paged_init_def paged_clear_def paged_own_def owns_def split: if_splits)

lemma token_init_own: "token_own sz (token_init sz sort_free) {#}"
  by (simp add: token_init_def token_clear_def token_own_def owns_def)

lemma batch_slots_nth:
  assumes ok: "lens_ok ps pre seq" and i: "i < length seq" and pos: "pre ! i \<le> pos" "pos < seq ! i"
  shows "batch_slots ps free pre seq locs ! nat (out_start pre seq i + (pos - pre ! i)) =
    slot ps pre seq locs (\<lambda>k. free ! nat k) i pos"
proof -
  let ?rs = "request_slots ps pre seq locs (\<lambda>k. free ! nat k)"
  let ?A = "concat (map ?rs [0..<i])" and ?j = "nat (pos - pre ! i)"
  have "[0..<length seq] = [0..<i] @ i # [Suc i..<length seq]"
    using upt_add_eq_append [of 0 i "length seq - i"] i by (simp add: upt_conv_Cons)
  then have split: "batch_slots ps free pre seq locs = ?A @ ?rs i @ concat (map ?rs [Suc i..<length seq])"
    by (simp add: batch_slots_def)
  have A: "int (length ?A) = out_start pre seq i" using length_slots [OF ok, of i] i by simp
  then have "nat (out_start pre seq i + (pos - pre ! i)) = length ?A + ?j" using pos by linarith
  moreover have "?j < length (?rs i)" using pos by (simp add: request_slots_def)
  moreover have "?rs i ! ?j = slot ps pre seq locs (\<lambda>k. free ! nat k) i pos" using pos by (simp add: request_slots_def)
  ultimately show ?thesis by (simp add: split nth_append)
qed

lemma paged_alloc_eq:
  assumes "page_size a = ps" "n mod ps = 0"
  shows "paged_alloc a n =
    (let a1 = merged (length (free_pages a) < n div ps) a
     in if length (free_pages a1) < n div ps then Inr (None, a1)
        else Inr (Some (concat (map (\<lambda>p. map (\<lambda>q. p * int ps + int q) [0..<ps]) (take (n div ps) (free_pages a1)))),
                  a1\<lparr>free_pages := drop (n div ps) (free_pages a1)\<rparr>))"
  using assms by (simp add: paged_alloc_def merged_def Let_def)

lemma merged_enough:
  "k \<le> length (free_pages (merged (length (free_pages a) < k) a)) \<longleftrightarrow>
   k \<le> length (free_pages a) + (if need_sort a then length (release_pages a) else 0)"
  by (auto simp: merged_def merge_and_sort_free_def)

section \<open>Properties\<close>


text \<open>
  C28. The same for single slots: in every reachable state of the token allocator each slot from 1 to
  the pool size is exactly once free, released, pending or held.
\<close>

theorem token_slots_conserved:
  assumes "kv_reach token_alloc token_free (\<lambda>idx. idx) (\<lambda>_ _ _ _. False) (token_init sz sort_free) a U"
  shows "mset (free_pages a) + mset (release_pages a) +
    (if is_not_in_free_group a then {#} else mset (concat (free_group a))) + U = mset [1..int sz]"
  using token.reach_own [OF assms token_init_own] by (simp add: token_own_def owns_def)

text \<open>
  C27. What \<^verbatim>\<open>alloc\<close> returns is fresh and can be given back: its pages are distinct, were held by nobody,
  and lie in the pool; freeing the returned slots succeeds and restores the previous holdings.
  It returns nothing exactly when the pages on hand do not suffice.
\<close>

theorem paged_alloc_fresh:
  assumes "paged_init sz ps sort_free debug = Inr a0"
    and "kv_reach paged_alloc paged_free (pages_of ps) (paged_grab ps) a0 a U"
    and "n mod ps = 0"
  shows "if n div ps \<le> length (free_pages a) + (if need_sort a then length (release_pages a) else 0)
    then \<exists>out a' a''. paged_alloc a n = Inr (Some out, a') \<and> length out = n \<and>
      distinct (pages_of ps out) \<and> set (pages_of ps out) \<subseteq> {1..int (sz div ps)} - set_mset U \<and>
      paged_free a' out = Inr a'' \<and> paged_own ps (sz div ps) a'' U
    else \<exists>a'. paged_alloc a n = Inr (None, a')"
proof -
  have own: "paged_own ps (sz div ps) a U" by (rule paged.reach_own [OF assms(2) paged_init_own [OF assms(1)]])
  then have ps: "page_size a = ps" "0 < ps" by (simp_all add: paged_own_def)
  show ?thesis
  proof (cases "n div ps \<le> length (free_pages a) + (if need_sort a then length (release_pages a) else 0)")
    case True
    then have "n div ps \<le> length (free_pages (merged (length (free_pages a) < n div ps) a))" by (simp add: merged_enough)
    then obtain out a' where out: "paged_alloc a n = Inr (Some out, a')" "length out = n"
      using paged_alloc_eq [OF ps(1) assms(3)] assms(3)
      by (auto simp: Let_def length_concat comp_def sum_list_triv min_def)
    from True out paged.alloc_fresh [OF own out(1)] paged.alloc_free [OF own out(1)] show ?thesis by auto
  next
    case False
    then have "\<not> n div ps \<le> length (free_pages (merged (length (free_pages a) < n div ps) a))"
      unfolding merged_enough .
    with False show ?thesis using paged_alloc_eq [OF ps(1) assms(3)] by (simp add: Let_def)
  qed
qed


section \<open>Witnesses\<close>

definition sample_pool :: allocator where
  "sample_pool = \<lparr>al_size = 12, page_size = 4, need_sort = True, free_pages = [1, 2, 3], release_pages = [],
     is_not_in_free_group = True, free_group = [], num_pages = 3, debug_mode = True\<rparr>"

lemma sample_pool_init: "paged_init 12 4 True True = Inr sample_pool"
  by (simp add: paged_init_def paged_clear_def sample_pool_def upto.simps)

text \<open>One page allocated, the others free.\<close>

definition sample_pool1 :: allocator where
  "sample_pool1 = sample_pool\<lparr>free_pages := [2, 3]\<rparr>"

lemma sample_alloc: "paged_alloc sample_pool 4 = Inr (Some [4, 5, 6, 7], sample_pool1)"
  by (simp add: paged_alloc_def sample_pool_def sample_pool1_def Let_def upt_rec)

lemma sample_pages: "pages_of 4 [4, 5, 6, 7] = [1]"
  by (simp add: pages_of_def unique_def)

lemma sample_pool1_reach:
  "kv_reach paged_alloc paged_free (pages_of 4) (paged_grab 4) sample_pool sample_pool1 {#1#}"
  using kv_reach.alloc [where alloc = paged_alloc, OF kv_reach.start sample_alloc, of paged_free "pages_of 4" "paged_grab 4"]
  by (simp add: sample_pages)


theorem token_slots_conserved_witness:
  "\<exists>a. token_alloc (token_init 3 False) 2 = Inr (Some [1, 2], a) \<and>
    mset (free_pages a) + mset (release_pages a) +
    (if is_not_in_free_group a then {#} else mset (concat (free_group a))) + mset [1, 2] = mset [1..int 3]"
proof -
  obtain a where a: "token_alloc (token_init 3 False) 2 = Inr (Some [1, 2], a)"
    by (simp add: token_alloc_def token_init_def token_clear_def upto.simps)
  from token_slots_conserved [OF kv_reach.alloc [where alloc = token_alloc and pages = "\<lambda>idx. idx", OF kv_reach.start a]]
    a show ?thesis by simp
qed

theorem paged_alloc_fresh_witness:
  "\<exists>out a' a''. paged_alloc sample_pool1 8 = Inr (Some out, a') \<and> length out = 8 \<and>
      distinct (pages_of 4 out) \<and> set (pages_of 4 out) \<subseteq> {1..int (12 div 4)} - set_mset {#1#} \<and>
      paged_free a' out = Inr a'' \<and> paged_own 4 (12 div 4) a'' {#1#}"
  using paged_alloc_fresh [OF sample_pool_init sample_pool1_reach, of 8]
  by (simp add: sample_pool1_def sample_pool_def)


end
