(* ===== verification/Req_Pool.thy ===== *)
theory Req_Pool
  imports Kv_Kernels
begin

text \<open>
  The table of token locations, class \<^verbatim>\<open>ReqToTokenPool\<close> of \<^verbatim>\<open>mem_cache/memory_pool.py\<close>, and the routines of
  \<^verbatim>\<open>mem_cache/common.py\<close> that fill and read it: \<^verbatim>\<open>write_cache_indices\<close> with its Triton kernel and its loop, and
  the three variants of \<^verbatim>\<open>get_last_loc\<close>.

  \<open>request\<close> holds the fields of \<^verbatim>\<open>Req\<close> (\<^verbatim>\<open>managers/schedule_batch.py\<close>) that memory management reads. The table
  is a tensor of 32-bit integers: storing a 64-bit value wraps around (\<open>wrap32\<close>). Device memory is as in the
  kernels of the allocator; a table of \<open>stride\<close> columns lies row by row.
\<close>

section \<open>Definitions\<close>

subsection \<open>Requests\<close>

datatype finish_reason = FINISH_ABORT | FINISH_LENGTH nat | FINISH_MATCHED_TOKEN int | FINISH_MATCHED_STR string
  | FINISHED_MATCHED_REGEX string

record request =
  req_pool_idx :: "nat option"
  origin_input_ids :: "int list"
  output_ids :: "int list"
  fill_ids :: "int list"
  req_extra_key :: "string option"
  req_priority :: "int option"
  prefix_indices :: "int list"
  last_node :: "nat option"
  cache_protected_len :: nat
  kv_committed_len :: nat
  kv_allocated_len :: nat
  kv_committed_freed :: bool
  kv_overallocated_freed :: bool
  inflight_middle_chunks :: int
  reasoning_tokens :: nat
  skip_radix_cache_insert :: bool
  extend_input_len :: nat
  max_new_tokens :: nat
  ignore_eos :: bool
  return_logprob :: bool
  logprob_start_len :: int
  extend_logprob_start_len :: int
  embed_overrides :: bool
  input_embeds :: bool
  finished_reason :: "finish_reason option"
  finished_len :: "nat option"
  to_finish :: "finish_reason option"
  is_retracted :: bool
  retracted_stain :: bool
  already_computed :: nat
  cached_tokens :: int
  stop_token_ids :: "int list"
  eos_token_ids :: "int list"
  tokenizer_stop :: "(int \<times> int list) option"
  vocab_size :: int
  stop_strs :: "string list"
  stop_regex_strs :: "string list"
  decoded_text :: string
  require_reasoning :: bool
  is_reasoning_over :: bool
  rid :: string
  routing_key :: "string option"
  wait_queue_entry_time :: int

definition cache_commit_len :: "bool \<Rightarrow> request \<Rightarrow> nat" where
  "cache_commit_len strip_thinking_cache r =
     (if strip_thinking_cache \<and> reasoning_tokens r > 0 then min (kv_committed_len r) (length (origin_input_ids r))
      else kv_committed_len r)"

definition pop_committed_kv_cache :: "bool \<Rightarrow> request \<Rightarrow> (nat \<times> request) result" where
  "pop_committed_kv_cache strip_thinking_cache r =
     rbind (rassert (\<not> kv_committed_freed r) AssertionError) (\<lambda>_.
     let r = r\<lparr>kv_committed_freed := True\<rparr> in Inr (cache_commit_len strip_thinking_cache r, r))"

definition pop_overallocated_kv_cache :: "bool \<Rightarrow> request \<Rightarrow> (nat \<times> nat \<times> request) result" where
  "pop_overallocated_kv_cache strip_thinking_cache r =
     rbind (rassert (\<not> kv_overallocated_freed r) AssertionError) (\<lambda>_.
     let r = r\<lparr>kv_overallocated_freed := True\<rparr> in Inr (cache_commit_len strip_thinking_cache r, kv_allocated_len r, r))"

subsection \<open>The table\<close>

record req_to_token_pool =
  rtp_size :: nat
  max_context_len :: nat
  req_to_token :: "int list list"
  free_slots :: "nat list"

definition wrap32 :: "int \<Rightarrow> int" where
  "wrap32 v = (v + 2 ^ 31) mod 2 ^ 32 - 2 ^ 31"

definition pool_init :: "nat \<Rightarrow> nat \<Rightarrow> req_to_token_pool" where
  "pool_init sz ctx =
     \<lparr>rtp_size = sz, max_context_len = ctx, req_to_token = replicate (sz + 1) (replicate ctx 0), free_slots = [1..<sz + 1]\<rparr>"

text \<open>\<^verbatim>\<open>write\<close> for a row and a slice of columns, and for a list of single cells.\<close>

definition pool_write_slice :: "req_to_token_pool \<Rightarrow> nat \<Rightarrow> int \<Rightarrow> int \<Rightarrow> int list \<Rightarrow> req_to_token_pool result" where
  "pool_write_slice pool i a b values =
     (if i < length (req_to_token pool)
      then rbind (slice_assign (req_to_token pool ! i) a b (map wrap32 values)) (\<lambda>row.
           Inr (pool\<lparr>req_to_token := (req_to_token pool)[i := row]\<rparr>))
      else Inl IndexError)"

definition pool_write_cell :: "req_to_token_pool \<Rightarrow> nat \<times> nat \<times> int \<Rightarrow> req_to_token_pool result" where
  "pool_write_cell pool = (\<lambda>(i, j, v).
     if i < length (req_to_token pool) \<and> j < length (req_to_token pool ! i)
     then Inr (pool\<lparr>req_to_token := (req_to_token pool)[i := (req_to_token pool ! i)[j := wrap32 v]]\<rparr>)
     else Inl IndexError)"

definition pool_available_size :: "req_to_token_pool \<Rightarrow> nat" where
  "pool_available_size pool = length (free_slots pool)"

fun give_rows :: "nat list \<Rightarrow> request list \<Rightarrow> request list" where
  "give_rows sel [] = []"
| "give_rows sel (r # rs) =
     (if req_pool_idx r = None then r\<lparr>req_pool_idx := Some (hd sel)\<rparr> # give_rows (tl sel) rs
      else r # give_rows sel rs)"

definition pool_alloc :: "req_to_token_pool \<Rightarrow> request list \<Rightarrow> (nat option list option \<times> request list \<times> req_to_token_pool) result" where
  "pool_alloc pool reqs =
     (let reusing = filter (\<lambda>r. req_pool_idx r \<noteq> None) reqs
      in rbind (rassert (\<forall>r \<in> set reusing. inflight_middle_chunks r > 0 \<or> kv_committed_len r > 0) AssertionError) (\<lambda>_.
         let need_size = length reqs - length reusing
         in if need_size > length (free_slots pool) then Inr (None, reqs, pool)
            else
              let reqs' = give_rows (take need_size (free_slots pool)) reqs
              in Inr (Some (map req_pool_idx reqs'), reqs', pool\<lparr>free_slots := drop need_size (free_slots pool)\<rparr>)))"

definition pool_free :: "req_to_token_pool \<Rightarrow> request \<Rightarrow> (request \<times> req_to_token_pool) result" where
  "pool_free pool r =
     (case req_pool_idx r of
        None \<Rightarrow> Inl AssertionError
      | Some i \<Rightarrow> Inr (r\<lparr>req_pool_idx := None\<rparr>, pool\<lparr>free_slots := free_slots pool @ [i]\<rparr>))"

definition pool_clear :: "req_to_token_pool \<Rightarrow> req_to_token_pool" where
  "pool_clear pool = pool\<lparr>free_slots := [1..<rtp_size pool + 1]\<rparr>"

subsection \<open>Filling the table\<close>

definition WRITE_BLOCK :: nat where
  "WRITE_BLOCK = 512"

text \<open>One program of \<^verbatim>\<open>write_req_to_token_pool_triton\<close>; the tensors are the memory behind the pointers.\<close>

definition write_req_to_token_pool_kernel ::
  "int \<Rightarrow> (nat \<Rightarrow> int) \<Rightarrow> (nat \<Rightarrow> nat \<Rightarrow> int) \<Rightarrow> (nat \<Rightarrow> int) \<Rightarrow> (nat \<Rightarrow> int) \<Rightarrow> (nat \<Rightarrow> int) \<Rightarrow> (int \<Rightarrow> int) \<Rightarrow> nat \<Rightarrow> mem \<Rightarrow> mem" where
  "write_req_to_token_pool_kernel stride req_pool_indices prefix_tensors pre_lens seq_lens extend_lens out_cache_loc pid m =
     (let req_pool_index = req_pool_indices pid;
          pre_len = pre_lens pid;
          seq_len = seq_lens pid;
          prefix_tensor = prefix_tensors pid;
          m = foldl (\<lambda>m i. masked_store WRITE_BLOCK
                (\<lambda>l. req_pool_index * stride + (int l + int i * int WRITE_BLOCK))
                (\<lambda>l. wrap32 (prefix_tensor (l + i * WRITE_BLOCK)))
                (\<lambda>l. int l + int i * int WRITE_BLOCK < pre_len) m) m [0..<nat (icdiv pre_len (int WRITE_BLOCK))];
          cumsum_start = foldl (\<lambda>s i. s + extend_lens i) 0 [0..<pid]
      in foldl (\<lambda>m i. masked_store WRITE_BLOCK
           (\<lambda>l. req_pool_index * stride + (int l + int i * int WRITE_BLOCK) + pre_len)
           (\<lambda>l. wrap32 (out_cache_loc (cumsum_start + (int l + int i * int WRITE_BLOCK))))
           (\<lambda>l. int l + int i * int WRITE_BLOCK < seq_len - pre_len) m) m [0..<nat (icdiv (seq_len - pre_len) (int WRITE_BLOCK))])"

text \<open>The loop of \<^verbatim>\<open>write_cache_indices\<close> for backends without Triton.\<close>

definition write_one ::
  "nat list \<Rightarrow> nat list \<Rightarrow> nat list \<Rightarrow> nat list \<Rightarrow> int list list \<Rightarrow> int list \<Rightarrow> nat \<times> req_to_token_pool \<Rightarrow> nat \<Rightarrow> (nat \<times> req_to_token_pool) result" where
  "write_one req_pool_indices prefix_lens seq_lens extend_lens prefix_tensors out_cache_loc = (\<lambda>(pt, pool) i.
     let req_idx = req_pool_indices ! i; prefix_len = prefix_lens ! i; seq_len = seq_lens ! i; extend_len = extend_lens ! i
     in rbind (pool_write_slice pool req_idx 0 (int prefix_len) (prefix_tensors ! i)) (\<lambda>pool.
        rbind (pool_write_slice pool req_idx (int prefix_len) (int seq_len) (slice pt (pt + extend_len) out_cache_loc)) (\<lambda>pool.
        Inr (pt + extend_len, pool))))"

definition write_cache_indices ::
  "nat list \<Rightarrow> nat list \<Rightarrow> nat list \<Rightarrow> nat list \<Rightarrow> int list list \<Rightarrow> int list \<Rightarrow> req_to_token_pool \<Rightarrow> req_to_token_pool result" where
  "write_cache_indices req_pool_indices prefix_lens seq_lens extend_lens prefix_tensors out_cache_loc pool =
     rbind (foldM (write_one req_pool_indices prefix_lens seq_lens extend_lens prefix_tensors out_cache_loc)
              (0, pool) [0..<length req_pool_indices]) (\<lambda>(pt, pool). Inr pool)"

subsection \<open>Reading the last location\<close>

definition get_last_loc_torch :: "int list list \<Rightarrow> nat list \<Rightarrow> nat list \<Rightarrow> int list result" where
  "get_last_loc_torch table req_pool_indices prefix_lens =
     mmap (\<lambda>(i, n). if i < length table \<and> n \<le> length (table ! i) \<and> table ! i \<noteq> []
                    then Inr (if n > 0 then table ! i ! (n - 1) else - 1) else Inl IndexError)
       (zip req_pool_indices prefix_lens)"

definition LAST_BLOCK :: nat where
  "LAST_BLOCK = 256"

text \<open>
  One program of \<^verbatim>\<open>get_last_loc_kernel\<close> and of \<^verbatim>\<open>_get_last_loc_safe_kernel\<close>; \<open>other\<close> is what a lane outside the
  tensors loads where the kernel names no value.
\<close>

definition get_last_loc_kernel ::
  "(int \<Rightarrow> int) \<Rightarrow> (nat \<Rightarrow> int) \<Rightarrow> (nat \<Rightarrow> int) \<Rightarrow> nat \<Rightarrow> int \<Rightarrow> nat \<Rightarrow> mem \<Rightarrow> mem" where
  "get_last_loc_kernel table req_pool_indices prefix_lens num_tokens stride pid =
     (let offset = (\<lambda>l. l + pid * LAST_BLOCK);
          msk = (\<lambda>l. offset l < num_tokens);
          lens = (\<lambda>l. if msk l then prefix_lens (offset l) else 0);
          rows = (\<lambda>l. if msk l then req_pool_indices (offset l) else 0)
      in masked_store LAST_BLOCK (\<lambda>l. int (offset l))
           (\<lambda>l. if lens l > 0 then table (rows l * stride + (lens l - 1)) else - 1) msk)"

definition get_last_loc_safe_kernel ::
  "(int \<Rightarrow> int) \<Rightarrow> (nat \<Rightarrow> int) \<Rightarrow> (nat \<Rightarrow> int) \<Rightarrow> nat \<Rightarrow> int \<Rightarrow> nat \<Rightarrow> mem \<Rightarrow> mem" where
  "get_last_loc_safe_kernel table req_pool_indices prefix_lens num_tokens stride pid =
     (let offset = (\<lambda>l. l + pid * LAST_BLOCK);
          msk = (\<lambda>l. offset l < num_tokens);
          lens = (\<lambda>l. if msk l then prefix_lens (offset l) else 0);
          rows = (\<lambda>l. if msk l then req_pool_indices (offset l) else 0)
      in masked_store LAST_BLOCK (\<lambda>l. int (offset l))
           (\<lambda>l. if msk l \<and> lens l > 0 then table (rows l * stride + (lens l - 1)) else - 1) msk)"

definition get_last_loc_triton ::
  "nat list \<Rightarrow> (int \<Rightarrow> int) \<Rightarrow> int \<Rightarrow> int list \<Rightarrow> int list \<Rightarrow> mem" where
  "get_last_loc_triton order table stride req_pool_indices prefix_lens =
     launch order (get_last_loc_kernel table (\<lambda>i. req_pool_indices ! i) (\<lambda>i. prefix_lens ! i) (length prefix_lens) stride) Map.empty"

definition get_last_loc_triton_safe ::
  "nat list \<Rightarrow> (int \<Rightarrow> int) \<Rightarrow> int \<Rightarrow> int list \<Rightarrow> int list \<Rightarrow> mem" where
  "get_last_loc_triton_safe order table stride req_pool_indices prefix_lens =
     launch order (get_last_loc_safe_kernel table (\<lambda>i. req_pool_indices ! i) (\<lambda>i. prefix_lens ! i) (length prefix_lens) stride) Map.empty"

section \<open>Rows of the table\<close>

text \<open>\<open>rows_own pool U\<close>: the rows \<open>U\<close> are handed out, the others are free, each exactly once; row 0 is neither.\<close>

definition rows_own :: "req_to_token_pool \<Rightarrow> nat multiset \<Rightarrow> bool" where
  "rows_own pool U \<longleftrightarrow> mset (free_slots pool) + U = mset [1..<rtp_size pool + 1]"

definition held_rows :: "request list \<Rightarrow> nat multiset" where
  "held_rows reqs = mset (map the (filter (\<lambda>i. i \<noteq> None) (map req_pool_idx reqs)))"

lemma held_rows_simps [simp]:
  "held_rows [] = {#}"
  "held_rows (r # rs) = (case req_pool_idx r of None \<Rightarrow> held_rows rs | Some i \<Rightarrow> add_mset i (held_rows rs))"
  by (auto simp: held_rows_def split: option.splits)

lemma give_rows_held:
  assumes "length (filter (\<lambda>r. req_pool_idx r = None) reqs) \<le> length sel"
  shows "held_rows (give_rows sel reqs) =
      held_rows reqs + mset (take (length (filter (\<lambda>r. req_pool_idx r = None) reqs)) sel)"
  using assms
proof (induction reqs arbitrary: sel)
  case (Cons r rs)
  then show ?case by (cases sel) (auto split: option.splits)
qed simp

text \<open>\<open>gets_row r r'\<close>: the request \<open>r'\<close> is \<open>r\<close> with a row, its own where it had one.\<close>

definition gets_row :: "request \<Rightarrow> request \<Rightarrow> bool" where
  "gets_row r r' \<longleftrightarrow> r\<lparr>req_pool_idx := req_pool_idx r'\<rparr> = r' \<and> req_pool_idx r' \<noteq> None \<and>
     (req_pool_idx r \<noteq> None \<longrightarrow> req_pool_idx r' = req_pool_idx r)"

lemma give_rows_fields: "list_all2 gets_row reqs (give_rows sel reqs)"
  by (induction sel reqs rule: give_rows.induct) (auto simp: gets_row_def)

lemma not_reusing: "length reqs - length (filter (\<lambda>r. req_pool_idx r \<noteq> None) reqs) = length (filter (\<lambda>r. req_pool_idx r = None) reqs)"
  using sum_length_filter_compl [of "\<lambda>r. req_pool_idx r = None" reqs] by simp

text \<open>
  Allocation of rows: every request leaves with a row, the ones that had one keep it, and the rows handed out
  come off the free list.
\<close>

lemma pool_alloc_ok:
  assumes own: "rows_own pool U" and held: "held_rows reqs \<subseteq># U"
    and reuse: "\<forall>r \<in> set reqs. req_pool_idx r \<noteq> None \<longrightarrow> inflight_middle_chunks r > 0 \<or> kv_committed_len r > 0"
    and enough: "length (filter (\<lambda>r. req_pool_idx r = None) reqs) \<le> pool_available_size pool"
  obtains reqs' pool' where "pool_alloc pool reqs = Inr (Some (map req_pool_idx reqs'), reqs', pool')"
    "list_all2 gets_row reqs reqs'"
    "rows_own pool' (U - held_rows reqs + held_rows reqs')" "req_to_token pool' = req_to_token pool"
proof -
  define need where "need = length (filter (\<lambda>r. req_pool_idx r = None) reqs)"
  define sel where "sel = take need (free_slots pool)"
  define pool' where "pool' = pool\<lparr>free_slots := drop need (free_slots pool)\<rparr>"
  have n: "need \<le> length (free_slots pool)" using enough by (simp add: need_def pool_available_size_def)
  have given: "held_rows (give_rows sel reqs) = held_rows reqs + mset sel"
    using give_rows_held [of reqs sel] n by (simp add: sel_def need_def [symmetric])
  have eval: "pool_alloc pool reqs = Inr (Some (map req_pool_idx (give_rows sel reqs)), give_rows sel reqs, pool')"
    using reuse n unfolding pool_alloc_def Let_def not_reusing need_def [symmetric] sel_def pool'_def
    by (auto simp: rassert_def)
  have "mset (free_slots pool) = mset sel + mset (drop need (free_slots pool))"
    unfolding sel_def by (metis append_take_drop_id mset_append)
  then have "rows_own pool' (U + mset sel)"
    using own by (simp add: rows_own_def pool'_def ac_simps)
  moreover have "U - held_rows reqs + held_rows (give_rows sel reqs) = U + mset sel"
    using held by (simp add: given multiset_eq_iff subseteq_mset_def)
  ultimately show thesis using that [OF eval give_rows_fields] by (simp add: pool'_def)
qed

lemma pool_free_ok:
  assumes "rows_own pool (add_mset i U)" "req_pool_idx r = Some i"
  obtains pool' where "pool_free pool r = Inr (r\<lparr>req_pool_idx := None\<rparr>, pool')" "rows_own pool' U"
    "req_to_token pool' = req_to_token pool"
  using assms that by (simp add: pool_free_def rows_own_def)

section \<open>The kernel fills the table as the loop does\<close>

definition pool_mem :: "nat \<Rightarrow> int list list \<Rightarrow> mem" where
  "pool_mem stride table = (\<lambda>x. if 0 \<le> x \<and> x < int (length table) * int stride
     then Some (table ! nat (x div int stride) ! nat (x mod int stride)) else None)"

text \<open>\<open>write_row\<close>: program \<open>i\<close> fills the first cells of its row.\<close>

definition write_row :: "int \<Rightarrow> (nat \<Rightarrow> int) \<Rightarrow> (nat \<Rightarrow> int) \<Rightarrow> (nat \<Rightarrow> int \<Rightarrow> int) \<Rightarrow> nat \<Rightarrow> mem \<Rightarrow> mem" where
  "write_row stride rows len cell i m =
     (\<lambda>x. if rows i * stride \<le> x \<and> x < rows i * stride + len i then Some (cell i (x - rows i * stride)) else m x)"

definition written_cell :: "(nat \<Rightarrow> nat \<Rightarrow> int) \<Rightarrow> (nat \<Rightarrow> int) \<Rightarrow> (nat \<Rightarrow> int) \<Rightarrow> (int \<Rightarrow> int) \<Rightarrow> nat \<Rightarrow> int \<Rightarrow> int" where
  "written_cell prefixes pre ext out i y =
     (if y < pre i then wrap32 (prefixes i (nat y)) else wrap32 (out ((\<Sum>j<i. ext j) + (y - pre i))))"

lemma masked_rows:
  "foldl (\<lambda>m i. masked_store WRITE_BLOCK (\<lambda>l. base + (int l + int i * int WRITE_BLOCK)) (\<lambda>l. v (int l + int i * int WRITE_BLOCK))
       (\<lambda>l. int l + int i * int WRITE_BLOCK < n) m) m [0..<nat (icdiv n (int WRITE_BLOCK))] =
     (\<lambda>x. if base \<le> x \<and> x < base + n then Some (v (x - base)) else m x)"
proof -
  define K where "K = nat (icdiv n (int WRITE_BLOCK))"
  have "n \<le> icdiv n (int WRITE_BLOCK) * int WRITE_BLOCK" by (rule icdiv_bounds) (simp add: WRITE_BLOCK_def)
  also have "\<dots> \<le> int K * int WRITE_BLOCK" by (rule mult_right_mono) (auto simp: K_def)
  finally have n: "n \<le> int K * int WRITE_BLOCK" .
  have b: "0 < WRITE_BLOCK" by (simp add: WRITE_BLOCK_def)
  show ?thesis
    using n unfolding K_def [symmetric] add.commute [of "int _" "int _ * int WRITE_BLOCK"] masked_blocks [OF b]
    by (auto simp: fun_eq_iff)
qed

lemma write_kernel_row:
  assumes "0 \<le> pre pid" "pre pid \<le> seq pid"
  shows "write_req_to_token_pool_kernel stride rows prefixes pre seq ext out pid m =
     write_row stride rows seq (written_cell prefixes pre ext out) pid m"
proof -
  define base where "base = rows pid * stride"
  have sum: "foldl (\<lambda>s i. s + ext i) 0 [0..<pid] = (\<Sum>j<pid. ext j)" by (induction pid) auto
  have nats: "l + i * WRITE_BLOCK = nat (int l + int i * int WRITE_BLOCK)" for l i
    by (simp add: nat_add_distrib nat_mult_distrib)
  have shift: "base + y + pre pid = (base + pre pid) + y" for y by simp
  show ?thesis
    unfolding write_req_to_token_pool_kernel_def write_row_def written_cell_def Let_def sum nats base_def [symmetric] shift
      masked_rows [of base "\<lambda>y. wrap32 (prefixes pid (nat y))"]
      masked_rows [of "base + pre pid" "\<lambda>y. wrap32 (out ((\<Sum>j<pid. ext j) + y))"]
    using assms by (auto simp: fun_eq_iff algebra_simps)
qed

lemma pool_mem_update:
  assumes r: "r < length table" and row: "length (table ! r) = stride" and front: "length front \<le> stride"
  shows "pool_mem stride (table[r := front @ drop (length front) (table ! r)]) x =
     (if int r * int stride \<le> x \<and> x < int r * int stride + int (length front)
      then Some (front ! nat (x - int r * int stride)) else pool_mem stride table x)"
proof (cases "int r * int stride \<le> x \<and> x < int r * int stride + int stride")
  case True
  define y where "y = nat (x - int r * int stride)"
  have x: "x = int r * int stride + int y" "y < stride" using True by (auto simp: y_def)
  then have q: "x div int stride = int r" "x mod int stride = int y" by (simp_all add: div_add1_eq)
  have "(int r + 1) * int stride \<le> int (length table) * int stride" using r by (intro mult_right_mono) auto
  then have "x < int (length table) * int stride" "0 \<le> x" using x by (simp_all add: distrib_right)
  then show ?thesis using True r front row q x(2) y_def
    by (auto simp: pool_mem_def nth_append less_diff_conv2)
next
  case False
  have "x div int stride \<noteq> int r" if "0 \<le> x" "stride \<noteq> 0"
  proof
    assume q: "x div int stride = int r"
    have "x = int r * int stride + x mod int stride" using q by (metis div_mult_mod_eq)
    moreover have "0 \<le> x mod int stride" "x mod int stride < int stride" using that by simp_all
    ultimately show False using False by linarith
  qed
  then have "nat (x div int stride) \<noteq> r" if "0 \<le> x" "stride \<noteq> 0"
    using that by (metis nat_0_le pos_imp_zdiv_nonneg_iff of_nat_0_less_iff neq0_conv)
  then show ?thesis using False front by (cases "stride = 0") (auto simp: pool_mem_def)
qed

text \<open>\<open>batch_fits\<close>: the tensors of a batch agree with each other and with the table.\<close>

definition batch_fits ::
  "req_to_token_pool \<Rightarrow> nat list \<Rightarrow> nat list \<Rightarrow> nat list \<Rightarrow> nat list \<Rightarrow> int list list \<Rightarrow> int list \<Rightarrow> bool" where
  "batch_fits pool rows pre seq ext prefixes out \<longleftrightarrow>
     (\<forall>row \<in> set (req_to_token pool). length row = max_context_len pool) \<and>
     (\<forall>i < length rows. rows ! i < length (req_to_token pool) \<and> pre ! i = length (prefixes ! i) \<and>
        seq ! i = pre ! i + ext ! i \<and> seq ! i \<le> max_context_len pool) \<and>
     (\<Sum>i < length rows. ext ! i) = length out"

definition batch_row :: "nat list \<Rightarrow> int list list \<Rightarrow> int list \<Rightarrow> nat \<Rightarrow> int list" where
  "batch_row ext prefixes out i =
     map wrap32 (prefixes ! i @ slice (\<Sum>j<i. ext ! j) ((\<Sum>j<i. ext ! j) + ext ! i) out)"

lemma pool_write_slice_ok:
  assumes "i < length (req_to_token pool)" "req_to_token pool ! i = A @ M @ B" "a = int (length A)"
    "b = a + int (length M)" "length values = length M"
  shows "pool_write_slice pool i a b values =
     Inr (pool\<lparr>req_to_token := (req_to_token pool)[i := A @ map wrap32 values @ B]\<rparr>)"
  using assms slice_assign_middle [of a A b M "map wrap32 values" B] by (simp add: pool_write_slice_def)

lemma length_batch_row:
  assumes "batch_fits pool rows pre seq ext prefixes out" "i < length rows"
  shows "length (batch_row ext prefixes out i) = seq ! i" "(\<Sum>j<i. ext ! j) + ext ! i \<le> length out"
proof -
  have "(\<Sum>j<Suc i. ext ! j) \<le> (\<Sum>j<length rows. ext ! j)"
    by (rule sum_mono2) (use assms(2) in auto)
  then show *: "(\<Sum>j<i. ext ! j) + ext ! i \<le> length out" using assms by (simp add: batch_fits_def)
  show "length (batch_row ext prefixes out i) = seq ! i"
    using assms * by (simp add: batch_fits_def batch_row_def slice_def)
qed

lemma write_one_ok:
  assumes fits: "batch_fits pool rows pre seq ext prefixes out" and i: "i < length rows"
  shows "write_one rows pre seq ext prefixes out (\<Sum>j<i. ext ! j, pool) i =
     Inr (\<Sum>j<Suc i. ext ! j, pool\<lparr>req_to_token := (req_to_token pool)[rows ! i :=
       batch_row ext prefixes out i @ drop (seq ! i) (req_to_token pool ! (rows ! i))]\<rparr>)"
proof -
  define r where "r = rows ! i"
  define row where "row = req_to_token pool ! r"
  define ys where "ys = slice (\<Sum>j<i. ext ! j) ((\<Sum>j<i. ext ! j) + ext ! i) out"
  have r: "r < length (req_to_token pool)" and pre: "pre ! i = length (prefixes ! i)" and
    seq: "seq ! i = pre ! i + ext ! i" "seq ! i \<le> max_context_len pool"
    using fits i by (auto simp: batch_fits_def r_def)
  have row: "length row = max_context_len pool" using fits r by (auto simp: batch_fits_def row_def)
  have ys: "length ys = ext ! i" using length_batch_row(2) [OF fits i] by (simp add: ys_def slice_def)
  have first: "pool_write_slice pool r 0 (int (pre ! i)) (prefixes ! i) =
      Inr (pool\<lparr>req_to_token := (req_to_token pool)[r := map wrap32 (prefixes ! i) @ drop (pre ! i) row]\<rparr>)"
    using pool_write_slice_ok [OF r, of "[]" "take (pre ! i) row" "drop (pre ! i) row"] row seq pre
    by (simp add: row_def)
  have "drop (pre ! i) row = take (ext ! i) (drop (pre ! i) row) @ drop (seq ! i) row"
    using append_take_drop_id [of "ext ! i" "drop (pre ! i) row"] seq(1) by (simp add: add.commute)
  then have "pool_write_slice (pool\<lparr>req_to_token := (req_to_token pool)[r := map wrap32 (prefixes ! i) @ drop (pre ! i) row]\<rparr>)
      r (int (pre ! i)) (int (seq ! i)) ys =
      Inr (pool\<lparr>req_to_token := (req_to_token pool)[r := batch_row ext prefixes out i @ drop (seq ! i) row]\<rparr>)"
    using pool_write_slice_ok [of r _ "map wrap32 (prefixes ! i)" "take (ext ! i) (drop (pre ! i) row)" "drop (seq ! i) row"]
      r row seq pre ys by (simp add: batch_row_def ys_def)
  then show ?thesis
    using first by (simp add: write_one_def Let_def r_def [symmetric] ys_def row_def)
qed

lemma write_loop_ok:
  assumes fits: "batch_fits pool rows pre seq ext prefixes out" and k: "k \<le> length rows" and dist: "distinct rows"
  shows "\<exists>pool'. foldM (write_one rows pre seq ext prefixes out) (0, pool) [0..<k] = Inr (\<Sum>j<k. ext ! j, pool') \<and>
     batch_fits pool' rows pre seq ext prefixes out \<and> max_context_len pool' = max_context_len pool \<and>
     length (req_to_token pool') = length (req_to_token pool) \<and>
     (\<forall>i<k. take (seq ! i) (req_to_token pool' ! (rows ! i)) = batch_row ext prefixes out i) \<and>
     (\<forall>r. r \<notin> set rows \<longrightarrow> req_to_token pool' ! r = req_to_token pool ! r) \<and>
     pool_mem (max_context_len pool) (req_to_token pool') =
       launch [0..<k] (write_row (int (max_context_len pool)) (\<lambda>i. int (rows ! i)) (\<lambda>i. int (seq ! i))
         (\<lambda>i y. batch_row ext prefixes out i ! nat y)) (pool_mem (max_context_len pool) (req_to_token pool))"
  using k
proof (induction k)
  case 0
  then show ?case using fits by (simp add: launch_def)
next
  case (Suc k)
  then obtain pool' where IH: "foldM (write_one rows pre seq ext prefixes out) (0, pool) [0..<k] = Inr (\<Sum>j<k. ext ! j, pool')"
    "batch_fits pool' rows pre seq ext prefixes out" "max_context_len pool' = max_context_len pool"
    "length (req_to_token pool') = length (req_to_token pool)"
    "\<forall>i<k. take (seq ! i) (req_to_token pool' ! (rows ! i)) = batch_row ext prefixes out i"
    "\<forall>r. r \<notin> set rows \<longrightarrow> req_to_token pool' ! r = req_to_token pool ! r"
    "pool_mem (max_context_len pool) (req_to_token pool') =
       launch [0..<k] (write_row (int (max_context_len pool)) (\<lambda>i. int (rows ! i)) (\<lambda>i. int (seq ! i))
         (\<lambda>i y. batch_row ext prefixes out i ! nat y)) (pool_mem (max_context_len pool) (req_to_token pool))"
    by auto
  define row where "row = batch_row ext prefixes out k @ drop (seq ! k) (req_to_token pool' ! (rows ! k))"
  define pool'' where "pool'' = pool'\<lparr>req_to_token := (req_to_token pool')[rows ! k := row]\<rparr>"
  have k: "k < length rows" using Suc.prems by simp
  have len: "length (batch_row ext prefixes out k) = seq ! k" by (rule length_batch_row [OF IH(2) k])
  have r: "rows ! k < length (req_to_token pool')" "length (req_to_token pool' ! (rows ! k)) = max_context_len pool"
    "seq ! k \<le> max_context_len pool"
    using IH(2,3) k by (auto simp: batch_fits_def)
  have "length row = max_context_len pool'" using len r IH(3) by (simp add: row_def)
  then have "batch_fits pool'' rows pre seq ext prefixes out"
    using IH(2) by (auto simp: batch_fits_def pool''_def dest!: set_update_subset_insert [THEN subsetD])
  moreover have "foldM (write_one rows pre seq ext prefixes out) (0, pool) [0..<Suc k] = Inr (\<Sum>j<Suc k. ext ! j, pool'')"
    using IH(1) write_one_ok [OF IH(2) k] by (simp add: foldM_append pool''_def row_def)
  moreover have "pool_mem (max_context_len pool) (req_to_token pool'') =
      launch [0..<Suc k] (write_row (int (max_context_len pool)) (\<lambda>i. int (rows ! i)) (\<lambda>i. int (seq ! i))
         (\<lambda>i y. batch_row ext prefixes out i ! nat y)) (pool_mem (max_context_len pool) (req_to_token pool))"
    using pool_mem_update [OF r(1,2), of "batch_row ext prefixes out k"] len r(3)
    by (simp add: launch_def IH(7) write_row_def pool''_def row_def fun_eq_iff)
  moreover have "rows ! k \<noteq> rows ! i" if "i < k" for i
    using that k dist by (simp add: nth_eq_iff_index_eq)
  then have "\<forall>i<Suc k. take (seq ! i) (req_to_token pool'' ! (rows ! i)) = batch_row ext prefixes out i"
    using IH(5) r len by (auto simp: pool''_def row_def less_Suc_eq)
  moreover have "\<forall>r. r \<notin> set rows \<longrightarrow> req_to_token pool'' ! r = req_to_token pool ! r"
  proof (intro allI impI)
    fix r assume "r \<notin> set rows"
    then have "rows ! k \<noteq> r" using k by auto
    then show "req_to_token pool'' ! r = req_to_token pool ! r" using IH(6) \<open>r \<notin> set rows\<close> by (simp add: pool''_def)
  qed
  ultimately show ?case using IH(3,4) unfolding pool''_def by simp
qed

lemma write_rows_commute:
  fixes stride :: int
  assumes "rows i \<noteq> rows j" "len i \<le> stride" "len j \<le> stride" "0 \<le> stride"
  shows "write_row stride rows len cell i (write_row stride rows len cell j m) =
     write_row stride rows len cell j (write_row stride rows len cell i m)"
proof -
  have "\<not> (rows i * stride \<le> x \<and> x < rows i * stride + len i \<and> rows j * stride \<le> x \<and> x < rows j * stride + len j)" for x
  proof (cases "rows i < rows j")
    case True
    then have "(rows i + 1) * stride \<le> rows j * stride" using assms(4) by (intro mult_right_mono) auto
    then show ?thesis using assms(2) by (simp add: distrib_right)
  next
    case False
    then have "(rows j + 1) * stride \<le> rows i * stride" using assms(1,4) by (intro mult_right_mono) auto
    then show ?thesis using assms(3) by (simp add: distrib_right)
  qed
  then show ?thesis by (auto simp: write_row_def fun_eq_iff)
qed

lemma launch_order:
  assumes "mset order = mset order'"
    and "\<And>i j m. i \<in> set order \<Longrightarrow> j \<in> set order \<Longrightarrow> prog i (prog j m) = prog j (prog i m)"
  shows "launch order prog m = launch order' prog m"
proof -
  have "fold prog order = fold prog order'"
    by (rule fold_multiset_equiv) (use assms in \<open>auto simp: fun_eq_iff\<close>)
  then show ?thesis by (simp add: launch_def foldl_conv_fold)
qed

lemma launch_cong:
  "(\<And>i m. i \<in> set order \<Longrightarrow> prog i m = prog' i m) \<Longrightarrow> launch order prog m = launch order prog' m"
  unfolding launch_def by (rule foldl_cong) auto

lemma written_cell_batch:
  assumes fits: "batch_fits pool rows pre seq ext prefixes out" and i: "i < length rows" and y: "0 \<le> y" "y < int (seq ! i)"
  shows "written_cell (\<lambda>i k. prefixes ! i ! k) (\<lambda>i. int (pre ! i)) (\<lambda>i. int (ext ! i)) (\<lambda>k. out ! nat k) i y =
     batch_row ext prefixes out i ! nat y"
proof -
  define S where "S = (\<Sum>j<i. ext ! j)"
  define k where "k = nat y"
  have f: "pre ! i = length (prefixes ! i)" "seq ! i = pre ! i + ext ! i" using fits i by (auto simp: batch_fits_def)
  have S: "(\<Sum>j<i. int (ext ! j)) = int S" "S + ext ! i \<le> length out"
    using length_batch_row(2) [OF fits i] by (simp_all add: S_def)
  have k: "y = int k" "k < pre ! i + ext ! i" using y f by (auto simp: k_def)
  have n: "nat (int S + (int k - int (pre ! i))) = S + (k - pre ! i)" if "\<not> k < pre ! i" using that by linarith
  show ?thesis
    unfolding written_cell_def batch_row_def S_def [symmetric] S(1) k(1)
    using k(2) S(2) f(1) n by (simp add: nth_append slice_def)
qed

text \<open>
  C37. Filling the table of token locations: for a batch whose rows are distinct and whose lengths agree, the Triton
  kernel, its programs run in any order, leaves the memory of the table as the sequential loop leaves it; the loop does not
  raise, and afterwards each row starts with the request's cached prefix followed by its own part of the newly
  allocated slots, every other row unchanged.
\<close>

theorem write_kernel_equals_loop:
  assumes fits: "batch_fits pool rows pre seq ext prefixes out" and dist: "distinct rows"
    and order: "mset order = mset [0..<length rows]"
  shows "\<exists>pool'. write_cache_indices rows pre seq ext prefixes out pool = Inr pool' \<and>
     launch order (write_req_to_token_pool_kernel (int (max_context_len pool)) (\<lambda>i. int (rows ! i)) (\<lambda>i k. prefixes ! i ! k)
       (\<lambda>i. int (pre ! i)) (\<lambda>i. int (seq ! i)) (\<lambda>i. int (ext ! i)) (\<lambda>k. out ! nat k))
       (pool_mem (max_context_len pool) (req_to_token pool)) = pool_mem (max_context_len pool) (req_to_token pool') \<and>
     (\<forall>i<length rows. take (seq ! i) (req_to_token pool' ! (rows ! i)) = batch_row ext prefixes out i) \<and>
     (\<forall>r. r \<notin> set rows \<longrightarrow> req_to_token pool' ! r = req_to_token pool ! r)"
proof -
  define stride where "stride = max_context_len pool"
  define prog where "prog = write_row (int stride) (\<lambda>i. int (rows ! i)) (\<lambda>i. int (seq ! i)) (\<lambda>i y. batch_row ext prefixes out i ! nat y)"
  have set: "set order = {..<length rows}" using mset_eq_setD [OF order] by (simp add: lessThan_atLeast0)
  obtain pool' where loop: "write_cache_indices rows pre seq ext prefixes out pool = Inr pool'"
    and mem: "pool_mem stride (req_to_token pool') = launch [0..<length rows] prog (pool_mem stride (req_to_token pool))"
    and rest: "\<forall>i<length rows. take (seq ! i) (req_to_token pool' ! (rows ! i)) = batch_row ext prefixes out i"
      "\<forall>r. r \<notin> set rows \<longrightarrow> req_to_token pool' ! r = req_to_token pool ! r"
  proof -
    from write_loop_ok [OF fits order.refl dist] obtain pool' where
      "foldM (write_one rows pre seq ext prefixes out) (0, pool) [0..<length rows] = Inr (\<Sum>j<length rows. ext ! j, pool')"
      "pool_mem stride (req_to_token pool') = launch [0..<length rows] prog (pool_mem stride (req_to_token pool))"
      "\<forall>i<length rows. take (seq ! i) (req_to_token pool' ! (rows ! i)) = batch_row ext prefixes out i"
      "\<forall>r. r \<notin> set rows \<longrightarrow> req_to_token pool' ! r = req_to_token pool ! r"
      unfolding stride_def prog_def by blast
    then show thesis by (intro that) (simp_all add: write_cache_indices_def)
  qed
  define kernel where "kernel = write_req_to_token_pool_kernel (int stride) (\<lambda>i. int (rows ! i)) (\<lambda>i k. prefixes ! i ! k)
      (\<lambda>i. int (pre ! i)) (\<lambda>i. int (seq ! i)) (\<lambda>i. int (ext ! i)) (\<lambda>k. out ! nat k)"
  have row: "kernel i m = prog i m" if "i \<in> set order" for i m
  proof -
    have i: "i < length rows" using that set by simp
    then have "int (pre ! i) \<le> int (seq ! i)" using fits by (simp add: batch_fits_def)
    then have "kernel i m = write_row (int stride) (\<lambda>i. int (rows ! i)) (\<lambda>i. int (seq ! i))
        (written_cell (\<lambda>i k. prefixes ! i ! k) (\<lambda>i. int (pre ! i)) (\<lambda>i. int (ext ! i)) (\<lambda>k. out ! nat k)) i m"
      unfolding kernel_def by (intro write_kernel_row) simp_all
    also have "\<dots> = prog i m"
      using written_cell_batch [OF fits i] unfolding prog_def write_row_def by fastforce
    finally show ?thesis .
  qed
  have commute: "prog i (prog j m) = prog j (prog i m)" if ij: "i \<in> set order" "j \<in> set order" for i j m
  proof (cases "i = j")
    case False
    then have "rows ! i \<noteq> rows ! j" using ij set dist by (simp add: nth_eq_iff_index_eq)
    moreover have "seq ! i \<le> stride" "seq ! j \<le> stride" using ij set fits by (auto simp: batch_fits_def stride_def)
    ultimately show ?thesis unfolding prog_def by (intro write_rows_commute) simp_all
  qed simp
  have "launch order kernel m = launch order prog m" for m using row by (rule launch_cong)
  also have "launch order prog m = launch [0..<length rows] prog m" for m using order commute by (rule launch_order)
  finally have "launch order kernel (pool_mem stride (req_to_token pool)) = pool_mem stride (req_to_token pool')"
    by (simp only: mem)
  then show ?thesis using loop rest unfolding stride_def kernel_def by blast
qed

theorem write_kernel_equals_loop_witness:
  "\<exists>pool'. write_cache_indices [2, 1] [1, 0] [2, 2] [1, 2] [[7], []] [8, 9, 10] (pool_init 2 4) = Inr pool' \<and>
     take 2 (req_to_token pool' ! 2) = [7, 8] \<and> take 2 (req_to_token pool' ! 1) = [9, 10] \<and>
     launch [1, 0] (write_req_to_token_pool_kernel 4 (\<lambda>i. int ([2, 1] ! i)) (\<lambda>i k. [[7], []] ! i ! k)
       (\<lambda>i. int ([1, 0] ! i)) (\<lambda>i. int ([2, 2] ! i)) (\<lambda>i. int ([1, 2] ! i)) (\<lambda>k. [8, 9, 10] ! nat k))
       (pool_mem 4 (req_to_token (pool_init 2 4))) = pool_mem 4 (req_to_token pool')"
proof -
  have "batch_fits (pool_init 2 4) [2, 1] [1, 0] [2, 2] [1, 2] [[7], []] [8, 9, 10]"
    by (simp add: batch_fits_def pool_init_def All_less_Suc numeral_2_eq_2)
  moreover have "mset [1, 0] = mset [0..<length [2::nat, 1]]" by (simp add: upt_rec)
  ultimately show ?thesis
    using write_kernel_equals_loop [of "pool_init 2 4" "[2, 1]" "[1, 0]" "[2, 2]" "[1, 2]" "[[7], []]" "[8, 9, 10]" "[1, 0]"]
    by (auto simp: pool_init_def batch_row_def slice_def wrap32_def All_less_Suc numeral_2_eq_2)
qed

section \<open>The last location\<close>

lemma launch_common:
  assumes "\<And>pid m. pid \<in> set order \<Longrightarrow> prog pid m = (\<lambda>x. if P pid x then Some (F x) else m x)"
  shows "launch order prog m = (\<lambda>x. if \<exists>pid \<in> set order. P pid x then Some (F x) else m x)"
  using assms
proof (induction order arbitrary: m)
  case (Cons pid order)
  then have "launch (pid # order) prog m = launch order prog (\<lambda>x. if P pid x then Some (F x) else m x)"
    by (simp add: launch_def)
  also have "\<dots> = (\<lambda>x. if \<exists>q \<in> set (pid # order). P q x then Some (F x) else m x)"
    using Cons.IH Cons.prems by (auto simp: fun_eq_iff)
  finally show ?case .
qed (simp add: launch_def)

lemma last_loc_kernels_eq: "get_last_loc_safe_kernel table rows lens n stride = get_last_loc_kernel table rows lens n stride"
proof (rule ext)
  fix pid
  show "get_last_loc_safe_kernel table rows lens n stride pid = get_last_loc_kernel table rows lens n stride pid"
    unfolding get_last_loc_safe_kernel_def get_last_loc_kernel_def Let_def
    by (intro arg_cong2 [of _ _ _ _ "\<lambda>f. masked_store LAST_BLOCK (\<lambda>l. int (l + pid * LAST_BLOCK)) f"] ext) auto
qed

lemma last_loc_kernel_block:
  "get_last_loc_kernel table rows lens n stride pid m =
     (\<lambda>x. if int pid * int LAST_BLOCK \<le> x \<and> x < int pid * int LAST_BLOCK + int LAST_BLOCK \<and> x < int n
       then Some (if lens (nat x) > 0 then table (rows (nat x) * stride + (lens (nat x) - 1)) else - 1) else m x)"
proof -
  define b where "b = int pid * int LAST_BLOCK"
  have b0: "0 \<le> b" by (simp add: b_def)
  have addr: "int (l + pid * LAST_BLOCK) = b + int l" for l by (simp add: b_def)
  have l: "l + pid * LAST_BLOCK = nat (b + int l)" for l by (metis addr nat_int)
  have "nat (b + int (nat (x - b))) = nat x" if "b \<le> x" for x using that by simp
  moreover have "l + pid * LAST_BLOCK < n \<longleftrightarrow> b + int l < int n" for l by (metis addr of_nat_less_iff)
  ultimately show ?thesis
    unfolding get_last_loc_kernel_def Let_def addr masked_store_contiguous b_def [symmetric]
    using b0 by (auto simp: fun_eq_iff l nat_less_iff)
qed

lemma last_loc_cell:
  assumes "r < length table" "\<forall>row \<in> set table. length row = stride" "0 < n" "n \<le> stride"
  shows "the (pool_mem stride table (int r * int stride + (int n - 1))) = table ! r ! (n - 1)"
proof -
  have "pool_mem stride (table[r := table ! r @ drop (length (table ! r)) (table ! r)]) (int r * int stride + (int n - 1)) =
      Some (table ! r ! (n - 1))"
    by (subst pool_mem_update) (use assms in \<open>auto simp: nat_diff_distrib\<close>)
  then show ?thesis by simp
qed

text \<open>The three implementations of \<^verbatim>\<open>get_last_loc\<close> agree, the kernels in every order of their programs.\<close>

lemma last_loc_agree:
  assumes len: "length lens = length rows" and rows: "\<forall>i<length rows. rows ! i < length table \<and> lens ! i \<le> stride"
    and table: "\<forall>row \<in> set table. length row = stride" "0 < stride"
    and order: "set order = {..<cdiv (length rows) LAST_BLOCK}"
  obtains locs where "get_last_loc_torch table rows lens = Inr locs" "length locs = length rows"
    "get_last_loc_triton order (\<lambda>a. the (pool_mem stride table a)) (int stride) (map int rows) (map int lens) =
       (\<lambda>x. if 0 \<le> x \<and> x < int (length rows) then Some (locs ! nat x) else None)"
    "get_last_loc_triton_safe order (\<lambda>a. the (pool_mem stride table a)) (int stride) (map int rows) (map int lens) =
       (\<lambda>x. if 0 \<le> x \<and> x < int (length rows) then Some (locs ! nat x) else None)"
proof -
  define locs where "locs = map (\<lambda>(i, n). if n > 0 then table ! i ! (n - 1) else - 1) (zip rows lens)"
  have ok: "i < length table \<and> n \<le> length (table ! i) \<and> table ! i \<noteq> []" if "(i, n) \<in> set (zip rows lens)" for i n
  proof -
    from that rows have "i < length table" "n \<le> stride" by (auto simp: in_set_zip)
    with table show ?thesis by (auto dest: nth_mem)
  qed
  have torch: "get_last_loc_torch table rows lens = Inr locs"
    unfolding get_last_loc_torch_def locs_def by (rule mmap_total) (use ok in auto)
  have covered: "(\<exists>pid \<in> set order. int pid * int LAST_BLOCK \<le> x \<and> x < int pid * int LAST_BLOCK + int LAST_BLOCK \<and> x < int (length rows))
      \<longleftrightarrow> 0 \<le> x \<and> x < int (length rows)" for x
  proof
    assume x: "0 \<le> x \<and> x < int (length rows)"
    then have "nat (x div int LAST_BLOCK) < cdiv (length rows) LAST_BLOCK"
      unfolding cdiv_def LAST_BLOCK_def by (cases x) auto
    moreover have "int (nat (x div int LAST_BLOCK)) * int LAST_BLOCK \<le> x \<and>
        x < int (nat (x div int LAST_BLOCK)) * int LAST_BLOCK + int LAST_BLOCK"
    proof -
      define q where "q = int (nat (x div int LAST_BLOCK)) * int LAST_BLOCK"
      have "0 \<le> x div int LAST_BLOCK" using x by (simp add: LAST_BLOCK_def pos_imp_zdiv_nonneg_iff)
      then have "x = q + x mod int LAST_BLOCK" by (simp add: q_def)
      moreover have "0 \<le> x mod int LAST_BLOCK" "x mod int LAST_BLOCK < int LAST_BLOCK"
        by (simp_all add: LAST_BLOCK_def)
      ultimately show ?thesis unfolding q_def [symmetric] by linarith
    qed
    ultimately show "\<exists>pid \<in> set order. int pid * int LAST_BLOCK \<le> x \<and> x < int pid * int LAST_BLOCK + int LAST_BLOCK \<and> x < int (length rows)"
      using order x by blast
  next
    assume "\<exists>pid \<in> set order. int pid * int LAST_BLOCK \<le> x \<and> x < int pid * int LAST_BLOCK + int LAST_BLOCK \<and> x < int (length rows)"
    then show "0 \<le> x \<and> x < int (length rows)" by (auto simp: LAST_BLOCK_def)
  qed
  have cell: "(if map int lens ! nat x > 0
       then the (pool_mem stride table (map int rows ! nat x * int stride + (map int lens ! nat x - 1))) else - 1) = locs ! nat x"
    if "0 \<le> x" "x < int (length rows)" for x
    using that len rows table last_loc_cell by (auto simp: locs_def nat_less_iff)
  have "get_last_loc_triton order (\<lambda>a. the (pool_mem stride table a)) (int stride) (map int rows) (map int lens) =
      (\<lambda>x. if \<exists>pid \<in> set order. int pid * int LAST_BLOCK \<le> x \<and> x < int pid * int LAST_BLOCK + int LAST_BLOCK \<and> x < int (length rows)
        then Some (if map int lens ! nat x > 0
          then the (pool_mem stride table (map int rows ! nat x * int stride + (map int lens ! nat x - 1))) else - 1)
        else None)"
    unfolding get_last_loc_triton_def
    by (rule launch_common) (simp only: last_loc_kernel_block length_map len)
  also have "\<dots> = (\<lambda>x. if 0 \<le> x \<and> x < int (length rows) then Some (locs ! nat x) else None)"
    unfolding covered using cell by (simp add: fun_eq_iff)
  finally have "get_last_loc_triton order (\<lambda>a. the (pool_mem stride table a)) (int stride) (map int rows) (map int lens) =
      (\<lambda>x. if 0 \<le> x \<and> x < int (length rows) then Some (locs ! nat x) else None)" .
  then show thesis
    using that [OF torch] len
    by (simp add: get_last_loc_triton_safe_def get_last_loc_triton_def last_loc_kernels_eq locs_def)
qed

end
