(* ===== verification/Cache_Memory.thy ===== *)
theory Cache_Memory
  imports Radix_Evict Kv_Allocator Req_Pool
begin

text \<open>
  The memory of a request between prefix cache, KV pool and table of token locations: \<^verbatim>\<open>cache_finished_req\<close> and
  \<^verbatim>\<open>cache_unfinished_req\<close> of \<^verbatim>\<open>RadixCache\<close> and of \<^verbatim>\<open>ChunkCache\<close> (\<^verbatim>\<open>mem_cache/radix_cache.py\<close>, \<^verbatim>\<open>mem_cache/chunk_cache.py\<close>), and
  \<^verbatim>\<open>release_kv_cache\<close> of \<^verbatim>\<open>mem_cache/common.py\<close>.

  \<open>kv_memory\<close> holds the two pools that a cache object refers to. The class of the KV allocator is a value of
  \<open>allocator_class\<close>; \<open>kv_alloc\<close> and \<open>kv_free\<close> are its methods. \<open>prefix_cache\<close> is the cache object. The hybrid
  pools for sliding windows and for state-space layers are not modelled. A request without a row of the
  table does not reach these methods; the model raises \<open>TypeError\<close> there.

  The locale \<open>paged_kv\<close> extends the contract of an allocator by the relation between slots and pages; the
  lemmas on requests are proved in it and hold for both allocators.
\<close>

section \<open>Definitions\<close>

datatype allocator_class = TokenToKVPool | PagedTokenToKVPool

definition kv_alloc :: "allocator_class \<Rightarrow> allocator \<Rightarrow> nat \<Rightarrow> (int list option \<times> allocator) result" where
  "kv_alloc k = (case k of TokenToKVPool \<Rightarrow> token_alloc | PagedTokenToKVPool \<Rightarrow> paged_alloc)"

definition kv_free :: "allocator_class \<Rightarrow> allocator \<Rightarrow> int list \<Rightarrow> allocator result" where
  "kv_free k = (case k of TokenToKVPool \<Rightarrow> token_free | PagedTokenToKVPool \<Rightarrow> paged_free)"

definition kv_available_size :: "allocator_class \<Rightarrow> allocator \<Rightarrow> nat" where
  "kv_available_size k = (case k of TokenToKVPool \<Rightarrow> token_available_size | PagedTokenToKVPool \<Rightarrow> available_size)"

record kv_memory =
  kv_pool :: allocator
  row_pool :: req_to_token_pool

datatype prefix_cache = RadixCache radix_cache | ChunkCache nat

record server_args =
  strip_thinking_cache :: bool
  disable_finished_insert :: bool
  sa_page_size :: nat
  speculative_algorithm :: "string option"

subsection \<open>Helpers\<close>

definition kv_to_page_indices :: "int list \<Rightarrow> nat \<Rightarrow> int list result" where
  "kv_to_page_indices kv_indices ps =
     (if ps = 1 then Inr kv_indices
      else if ps = 0 then Inl ValueError
      else Inr (map (\<lambda>j. kv_indices ! (j * ps) div int ps) [0..<cdiv (length kv_indices) ps]))"

definition kv_to_page_num :: "nat \<Rightarrow> nat \<Rightarrow> nat result" where
  "kv_to_page_num num_kv_indices ps =
     (if ps = 0 then Inl ZeroDivisionError else Inr ((num_kv_indices + ps - 1) div ps))"

definition page_align_floor :: "nat \<Rightarrow> nat \<Rightarrow> nat result" where
  "page_align_floor len ps = (if ps = 0 then Inl ZeroDivisionError else Inr (len div ps * ps))"

definition ceil_div :: "nat \<Rightarrow> nat \<Rightarrow> nat result" where
  "ceil_div x y = (if y = 0 then Inl ZeroDivisionError else Inr ((x + y - 1) div y))"

definition ceil_align :: "nat \<Rightarrow> nat \<Rightarrow> nat result" where
  "ceil_align x y = rbind (ceil_div x y) (\<lambda>n. Inr (n * y))"

text \<open>\<^verbatim>\<open>req_to_token[req_pool_idx, :n]\<close>.\<close>

definition row_prefix :: "kv_memory \<Rightarrow> request \<Rightarrow> nat \<Rightarrow> int list result" where
  "row_prefix m r n =
     (case req_pool_idx r of
        None \<Rightarrow> Inl TypeError
      | Some i \<Rightarrow> if i < length (req_to_token (row_pool m)) then Inr (take n (req_to_token (row_pool m) ! i)) else Inl IndexError)"

definition memory_free :: "allocator_class \<Rightarrow> kv_memory \<Rightarrow> int list \<Rightarrow> kv_memory result" where
  "memory_free k m idx = rbind (kv_free k (kv_pool m) idx) (\<lambda>a. Inr (m\<lparr>kv_pool := a\<rparr>))"

definition req_key :: "radix_cache \<Rightarrow> request \<Rightarrow> int list \<Rightarrow> radix_key" where
  "req_key c r toks =
     page_aligned (rc_page_size c) \<lparr>token_ids = toks, extra_key = req_extra_key r, is_bigram = is_eagle c\<rparr>"

definition priority_or_zero :: "request \<Rightarrow> int" where
  "priority_or_zero r = (case req_priority r of None \<Rightarrow> 0 | Some p \<Rightarrow> p)"

subsection \<open>Caching a request\<close>

definition radix_cache_finished_req ::
  "allocator_class \<Rightarrow> server_args \<Rightarrow> int \<Rightarrow> int \<Rightarrow> kv_memory \<Rightarrow> radix_cache \<Rightarrow> request \<Rightarrow> bool \<Rightarrow> (request \<times> kv_memory \<times> radix_cache) result" where
  "radix_cache_finished_req k sa access created m c r is_insert =
     (let is_insert = (if disable_finished_insert sa then False else is_insert)
      in rbind (pop_committed_kv_cache (strip_thinking_cache sa) r) (\<lambda>(kv_committed_len, r).
         if disable c
         then rbind (row_prefix m r kv_committed_len) (\<lambda>kv_indices.
              rbind (memory_free k m kv_indices) (\<lambda>m. Inr (r, m, c)))
         else
           let token_ids = take kv_committed_len (origin_input_ids r @ output_ids r)
           in rbind (row_prefix m r (length token_ids)) (\<lambda>kv_indices.
              let radix_key = req_key c r token_ids;
                  n = key_len radix_key;
                  values = take n kv_indices
              in rbind (if is_insert
                        then rbind (rc_insert access created c radix_key (Some values) (Some (priority_or_zero r)) False) (\<lambda>(prefix_len, c).
                             rbind (memory_free k m (slice (cache_protected_len r) prefix_len kv_indices)) (\<lambda>m. Inr (m, c)))
                        else rbind (memory_free k m (slice (cache_protected_len r) n kv_indices)) (\<lambda>m. Inr (m, c))) (\<lambda>(m, c).
                 rbind (memory_free k m (drop n kv_indices)) (\<lambda>m.
                 case last_node r of
                   None \<Rightarrow> Inr (r, m, c)
                 | Some node \<Rightarrow> rbind (dec_lock_ref c node) (\<lambda>(delta, c). Inr (r, m, c)))))))"

definition radix_cache_unfinished_req ::
  "allocator_class \<Rightarrow> int \<Rightarrow> int \<Rightarrow> int \<Rightarrow> int \<Rightarrow> kv_memory \<Rightarrow> radix_cache \<Rightarrow> request \<Rightarrow> bool \<Rightarrow> (request \<times> kv_memory \<times> radix_cache) result" where
  "radix_cache_unfinished_req k access created access' created' m c r chunked =
     (if disable c then Inr (r, m, c)
      else
        let token_ids = fill_ids r
        in rbind (row_prefix m r (length token_ids)) (\<lambda>kv_indices.
           let radix_key = req_key c r token_ids;
               values = take (key_len radix_key) kv_indices
           in rbind (rc_insert access created c radix_key (Some values) (Some (priority_or_zero r)) chunked) (\<lambda>(new_prefix_len, c).
              rbind (memory_free k m (slice (cache_protected_len r) new_prefix_len kv_indices)) (\<lambda>m.
              rbind (match_prefix access' created' c radix_key) (\<lambda>(new_indices, new_last_node, c).
              rbind (rassert (length new_indices = key_len radix_key) AssertionError) (\<lambda>_.
              rbind (pool_write_slice (row_pool m) (the (req_pool_idx r)) (int (cache_protected_len r)) (int (length new_indices))
                       (drop (cache_protected_len r) new_indices)) (\<lambda>rows.
              let m = m\<lparr>row_pool := rows\<rparr>;
                  r = r\<lparr>cache_protected_len := length new_indices\<rparr>
              in rbind (case last_node r of None \<Rightarrow> Inl AttributeError | Some node \<Rightarrow> dec_lock_ref c node) (\<lambda>(delta, c).
                 rbind (inc_lock_ref c new_last_node) (\<lambda>(delta, c).
                 let r = (if length new_indices < length kv_indices
                          then r\<lparr>prefix_indices := new_indices @ drop (length new_indices) kv_indices\<rparr>
                          else r\<lparr>prefix_indices := new_indices\<rparr>)
                 in Inr (r\<lparr>last_node := Some new_last_node\<rparr>, m, c))))))))))"

definition chunk_cache_finished_req ::
  "allocator_class \<Rightarrow> server_args \<Rightarrow> kv_memory \<Rightarrow> request \<Rightarrow> (request \<times> kv_memory) result" where
  "chunk_cache_finished_req k sa m r =
     rbind (pop_committed_kv_cache (strip_thinking_cache sa) r) (\<lambda>(kv_committed_len, r).
     rbind (row_prefix m r kv_committed_len) (\<lambda>kv_indices.
     rbind (memory_free k m kv_indices) (\<lambda>m. Inr (r, m))))"

definition chunk_cache_unfinished_req :: "kv_memory \<Rightarrow> request \<Rightarrow> request result" where
  "chunk_cache_unfinished_req m r =
     rbind (row_prefix m r (length (fill_ids r))) (\<lambda>kv_indices. Inr (r\<lparr>prefix_indices := kv_indices\<rparr>))"

definition cache_finished_req ::
  "allocator_class \<Rightarrow> server_args \<Rightarrow> int \<Rightarrow> int \<Rightarrow> kv_memory \<Rightarrow> prefix_cache \<Rightarrow> request \<Rightarrow> bool \<Rightarrow> (request \<times> kv_memory \<times> prefix_cache) result" where
  "cache_finished_req k sa access created m tree r is_insert =
     (case tree of
        RadixCache c \<Rightarrow> rbind (radix_cache_finished_req k sa access created m c r is_insert) (\<lambda>(r, m, c). Inr (r, m, RadixCache c))
      | ChunkCache ps \<Rightarrow> rbind (chunk_cache_finished_req k sa m r) (\<lambda>(r, m). Inr (r, m, ChunkCache ps)))"

definition maybe_cache_unfinished_req ::
  "allocator_class \<Rightarrow> int \<Rightarrow> int \<Rightarrow> int \<Rightarrow> int \<Rightarrow> kv_memory \<Rightarrow> prefix_cache \<Rightarrow> request \<Rightarrow> bool \<Rightarrow> (request \<times> kv_memory \<times> prefix_cache) result" where
  "maybe_cache_unfinished_req k access created access' created' m tree r chunked =
     (if skip_radix_cache_insert r then Inr (r, m, tree)
      else case tree of
        RadixCache c \<Rightarrow> rbind (radix_cache_unfinished_req k access created access' created' m c r chunked) (\<lambda>(r, m, c). Inr (r, m, RadixCache c))
      | ChunkCache ps \<Rightarrow> rbind (chunk_cache_unfinished_req m r) (\<lambda>r. Inr (r, m, ChunkCache ps)))"

text \<open>Neither cache supports state-space layers, so a request without a row fails the first assertion.\<close>

definition release_kv_cache ::
  "allocator_class \<Rightarrow> server_args \<Rightarrow> int \<Rightarrow> int \<Rightarrow> kv_memory \<Rightarrow> prefix_cache \<Rightarrow> request \<Rightarrow> bool \<Rightarrow> (request \<times> kv_memory \<times> prefix_cache) result" where
  "release_kv_cache k sa access created m tree r is_insert =
     (if req_pool_idx r = None then Inl AssertionError
      else rbind (cache_finished_req k sa access created m tree r (is_insert \<and> \<not> skip_radix_cache_insert r)) (\<lambda>(r, m, tree).
      rbind (pop_overallocated_kv_cache (strip_thinking_cache sa) r) (\<lambda>(start_p, end_p, r).
      rbind (if speculative_algorithm sa = None \<and> \<not> strip_thinking_cache sa then rassert (start_p = end_p) AssertionError else Inr ()) (\<lambda>_.
      rbind (if sa_page_size sa > 1 then ceil_align start_p (sa_page_size sa) else Inr start_p) (\<lambda>start_p.
      rbind (if start_p < end_p
             then rbind (row_prefix m r end_p) (\<lambda>row. memory_free k m (drop start_p row))
             else Inr m) (\<lambda>m.
      rbind (pool_free (row_pool m) r) (\<lambda>(r, rows).
      Inr (r, m\<lparr>row_pool := rows\<rparr>, tree))))))))"

section \<open>Slots and pages\<close>

text \<open>
  \<open>layout ps xs pgs\<close>: the slots \<open>xs\<close> run through the pages \<open>pgs\<close> in order, the last page possibly in part.
  \<open>tree_pages\<close> are the pages whose slots the prefix cache stores.
\<close>

definition block :: "nat \<Rightarrow> int \<Rightarrow> int list" where
  "block ps pg = map (\<lambda>q. pg * int ps + int q) [0..<ps]"

definition layout :: "nat \<Rightarrow> int list \<Rightarrow> int list \<Rightarrow> bool" where
  "layout ps xs pgs \<longleftrightarrow> length pgs = cdiv (length xs) ps \<and>
     (\<forall>i < length xs. xs ! i = pgs ! (i div ps) * int ps + int (i mod ps))"

definition page_no :: "nat \<Rightarrow> int list \<Rightarrow> int" where
  "page_no ps v = hd v div int ps"

definition tree_pages :: "radix_cache \<Rightarrow> int multiset" where
  "tree_pages c = image_mset (page_no (rc_page_size c)) (page_lists c)"

definition whole_pages :: "radix_cache \<Rightarrow> bool" where
  "whole_pages c \<longleftrightarrow> (\<forall>v \<in># page_lists c. v = block (rc_page_size c) (page_no (rc_page_size c) v))"

lemma cdiv_diff: "0 < ps \<Longrightarrow> cdiv (b - i * ps) ps = cdiv b ps - i"
proof (cases "i * ps \<le> b")
  case True
  assume ps: "0 < ps"
  have "b + ps - 1 = (b - i * ps + ps - 1) + i * ps" using True ps by simp
  then have "cdiv b ps = cdiv (b - i * ps) ps + i" unfolding cdiv_def using ps by (metis div_mult_self1 neq0_conv add.commute)
  then show ?thesis by simp
next
  case False
  assume ps: "0 < ps"
  have "b + ps - 1 < Suc i * ps" using False ps by simp
  then have "cdiv b ps \<le> i" unfolding cdiv_def by (metis less_Suc_eq_le less_mult_imp_div_less)
  moreover have "cdiv 0 ps = 0" using ps by (simp add: cdiv_def)
  ultimately show ?thesis using False by simp
qed

lemma cdiv_gt: "0 < ps \<Longrightarrow> i < n \<Longrightarrow> i div ps < cdiv n ps"
proof -
  assume "0 < ps" "i < n"
  then have "i + ps \<le> n + ps - 1" by simp
  then have "(i + ps) div ps \<le> cdiv n ps" unfolding cdiv_def by (rule div_le_mono)
  then show ?thesis using \<open>0 < ps\<close> by simp
qed

lemma nth_slice_le: "i < b - a \<Longrightarrow> b \<le> length xs \<Longrightarrow> slice a b xs ! i = xs ! (a + i)"
  by (simp add: slice_def)

lemma layout_slice:
  assumes ps: "0 < ps" and lay: "layout ps xs pgs" and b: "b \<le> length xs"
  shows "layout ps (slice (i * ps) b xs) (slice i (cdiv b ps) pgs)"
proof -
  have len: "cdiv b ps \<le> length pgs" using lay cdiv_mono [OF b, of ps] by (simp add: layout_def)
  have "slice (i * ps) b xs ! j = slice i (cdiv b ps) pgs ! (j div ps) * int ps + int (j mod ps)" if j: "j < b - i * ps" for j
  proof -
    have "(i * ps + j) div ps = i + j div ps" "(i * ps + j) mod ps = j mod ps" using ps by simp_all
    moreover have "j div ps < cdiv b ps - i" using cdiv_gt [OF ps j] by (simp add: cdiv_diff [OF ps])
    ultimately show ?thesis using lay j b len by (simp add: layout_def nth_slice_le)
  qed
  then show ?thesis using b len by (simp add: layout_def cdiv_diff [OF ps])
qed

lemma layout_chunk:
  assumes ps: "0 < ps" and lay: "layout ps xs pgs" and j: "Suc j * ps \<le> length xs"
  shows "slice (j * ps) (Suc j * ps) xs = block ps (pgs ! j)"
proof (rule nth_equalityI)
  show "length (slice (j * ps) (Suc j * ps) xs) = length (block ps (pgs ! j))" using j by (simp add: block_def)
next
  fix i assume "i < length (slice (j * ps) (Suc j * ps) xs)"
  then have i: "i < ps" using j by simp
  then have "(j * ps + i) div ps = j" "(j * ps + i) mod ps = i" by simp_all
  moreover have "xs ! (j * ps + i) = pgs ! ((j * ps + i) div ps) * int ps + int ((j * ps + i) mod ps)"
    using lay i j by (simp add: layout_def)
  ultimately show "slice (j * ps) (Suc j * ps) xs ! i = block ps (pgs ! j) ! i"
    using i j by (simp add: nth_slice_le block_def)
qed

lemma page_no_block [simp]: "0 < ps \<Longrightarrow> page_no ps (block ps pg) = pg"
  by (simp add: page_no_def block_def hd_map upt_conv_Cons)

text \<open>A list of whole pages: its chunks are blocks and it is laid out in their pages.\<close>

lemma chunks_layout:
  assumes ps: "0 < ps" and dvd: "ps dvd length v" and blocks: "\<forall>w \<in> set (chunks ps v). w = block ps (page_no ps w)"
  shows "layout ps v (map (page_no ps) (chunks ps v))"
proof -
  obtain n where n: "length v = n * ps" using dvd by (metis dvdE mult.commute)
  have "v ! i = map (page_no ps) (chunks ps v) ! (i div ps) * int ps + int (i mod ps)" if i: "i < length v" for i
  proof -
    define j where "j = i div ps"
    have j: "j < n" using i n ps by (simp add: j_def less_mult_imp_div_less)
    define w where "w = slice (j * ps) (Suc j * ps) v"
    have w: "chunks ps v ! j = w" "w \<in> set (chunks ps v)" using j n ps by (simp_all add: chunks_def w_def)
    have "Suc j * ps \<le> length v" unfolding n using j by (intro mult_le_mono1) simp
    then have "w ! (i mod ps) = v ! i" using ps by (simp add: w_def nth_slice_le j_def)
    moreover have "w = block ps (page_no ps w)" using blocks w(2) by blast
    then have "w ! (i mod ps) = page_no ps w * int ps + int (i mod ps)"
      using ps by (metis (no_types, lifting) block_def add_0 diff_zero length_upt mod_less_divisor nth_map nth_upt)
    ultimately show ?thesis using w j n ps by (simp add: chunks_def j_def)
  qed
  then show ?thesis using n ps by (simp add: layout_def chunks_def)
qed

lemma layout_chunks:
  assumes ps: "0 < ps" and lay: "layout ps v pgs" and dvd: "ps dvd length v"
  shows "chunks ps v = map (block ps) pgs"
proof -
  obtain n where n: "length v = n * ps" using dvd by (metis dvdE mult.commute)
  then have len: "length pgs = n" using lay ps by (simp add: layout_def)
  have "slice (j * ps) (Suc j * ps) v = block ps (pgs ! j)" if "j < n" for j
    by (rule layout_chunk [OF ps lay]) (use that n in \<open>simp only: n, intro mult_le_mono1, simp\<close>)
  then show ?thesis using n ps len by (auto simp: chunks_def intro!: nth_equalityI)
qed

section \<open>The contract between slots and pages\<close>

locale paged_kv = kv_allocator +
  fixes ps :: nat
  assumes page_size_pos: "own a U \<Longrightarrow> 0 < ps"
    and pages_layout: "own a U \<Longrightarrow> layout ps xs pgs \<Longrightarrow> distinct pgs \<Longrightarrow> mset (pages xs) = mset pgs"
begin

lemma own_distinct:
  assumes "own a (mset pgs + W)"
  shows "distinct pgs"
proof (rule distinct_countI)
  fix p
  show "count (mset pgs) p \<le> 1" using held_once [OF assms, of p] by simp
qed

text \<open>Freeing a page-aligned part of a request's slots returns the pages of that part.\<close>

lemma free_layout:
  assumes own: "own a (mset pgs + W)" and lay: "layout ps xs pgs"
  shows "\<exists>a'. free a xs = Inr a' \<and> own a' W"
proof -
  have "mset (pages xs) = mset pgs" using pages_layout [OF own lay own_distinct [OF own]] .
  then show ?thesis using free_returns [OF own, of xs] by simp
qed

lemma free_range:
  assumes own: "own a (mset (slice i (cdiv b ps) pgs) + W)" and lay: "layout ps xs pgs" and b: "b \<le> length xs"
  shows "\<exists>a'. free a (slice (i * ps) b xs) = Inr a' \<and> own a' W"
  using free_layout [OF own layout_slice [OF page_size_pos [OF own] lay b]] .

text \<open>Freeing several values of whole pages, one call for each.\<close>

lemma free_values:
  assumes "own a (image_mset (page_no ps) (mset (concat (map (chunks ps) vs))) + W)"
    and "\<forall>v \<in> set vs. ps dvd length v" and "\<forall>w \<in> set (concat (map (chunks ps) vs)). w = block ps (page_no ps w)"
  shows "\<exists>a'. foldM free a vs = Inr a' \<and> own a' W"
  using assms
proof (induction vs arbitrary: a)
  case (Cons v vs)
  let ?rest = "image_mset (page_no ps) (mset (concat (map (chunks ps) vs))) + W"
  have own: "own a (mset (map (page_no ps) (chunks ps v)) + ?rest)" using Cons.prems(1) by (simp add: add.assoc)
  have "layout ps v (map (page_no ps) (chunks ps v))"
    by (rule chunks_layout [OF page_size_pos [OF own]]) (use Cons.prems(2,3) in auto)
  from free_layout [OF own this] obtain a1 where "free a v = Inr a1" "own a1 ?rest" by blast
  moreover from this Cons.IH [of a1] Cons.prems(2,3) obtain a' where "foldM free a1 vs = Inr a'" "own a' W" by auto
  ultimately show ?case by simp
qed simp

end

text \<open>Both allocators keep the contract.\<close>

definition kv_pages :: "allocator_class \<Rightarrow> nat \<Rightarrow> int list \<Rightarrow> int list" where
  "kv_pages k ps = (case k of TokenToKVPool \<Rightarrow> (\<lambda>idx. idx) | PagedTokenToKVPool \<Rightarrow> pages_of ps)"

definition kv_own :: "allocator_class \<Rightarrow> nat \<Rightarrow> nat \<Rightarrow> allocator \<Rightarrow> int multiset \<Rightarrow> bool" where
  "kv_own k ps N a U =
     (case k of TokenToKVPool \<Rightarrow> ps = 1 \<and> page_size a = 1 \<and> token_own N a U | PagedTokenToKVPool \<Rightarrow> paged_own ps N a U)"

definition kv_grab :: "allocator_class \<Rightarrow> nat \<Rightarrow> allocator \<Rightarrow> int multiset \<Rightarrow> int multiset \<Rightarrow> allocator \<Rightarrow> bool" where
  "kv_grab k ps = (case k of TokenToKVPool \<Rightarrow> (\<lambda>_ _ _ _. False) | PagedTokenToKVPool \<Rightarrow> paged_grab ps)"

lemma token_free_page_size: "token_free a idx = Inr a' \<Longrightarrow> page_size a' = page_size a"
  unfolding token_free_def by (simp split: if_splits) (drule sym, simp)+

lemma token_keeps_page_size:
  "token_alloc a n = Inr (out, a') \<Longrightarrow> page_size a' = page_size a"
  "token_free a idx = Inr a' \<Longrightarrow> page_size a' = page_size a"
  "free_group_end token_free a = Inr a' \<Longrightarrow> page_size a' = page_size a"
proof -
  show "page_size a' = page_size a" if "token_alloc a n = Inr (out, a')"
    using that unfolding token_alloc_def Let_def by (auto split: if_splits)
  show "page_size a' = page_size a" if "token_free a idx = Inr a'" by (rule token_free_page_size [OF that])
  show "page_size a' = page_size a" if "free_group_end token_free a = Inr a'"
    using that token_free_page_size [of "a\<lparr>is_not_in_free_group := True\<rparr>" "concat (free_group a)" a']
    by (simp add: free_group_end_def Let_def split: if_splits) (drule sym, simp)
qed

lemma pages_of_layout:
  assumes ps: "0 < ps" and lay: "layout ps xs pgs" and dist: "distinct pgs"
  shows "mset (pages_of ps xs) = mset pgs"
proof -
  have "(\<lambda>i. i div int ps) ` set xs = set pgs"
  proof (intro equalityI subsetI)
    fix p assume "p \<in> (\<lambda>i. i div int ps) ` set xs"
    then obtain i where i: "i < length xs" "p = xs ! i div int ps" by (auto simp: in_set_conv_nth)
    then have "p = pgs ! (i div ps)" using lay ps by (simp add: layout_def)
    moreover have "i div ps < length pgs" using cdiv_gt [OF ps i(1)] lay by (simp add: layout_def)
    ultimately show "p \<in> set pgs" by simp
  next
    fix p assume "p \<in> set pgs"
    then obtain j where j: "j < length pgs" "p = pgs ! j" by (auto simp: in_set_conv_nth)
    have "j * ps < length xs"
    proof (rule ccontr)
      assume "\<not> j * ps < length xs"
      then have "cdiv (length xs) ps \<le> cdiv (j * ps) ps" by (intro cdiv_mono) simp
      then show False using j(1) lay ps by (simp add: layout_def)
    qed
    moreover from this have "xs ! (j * ps) = p * int ps" using lay ps j by (simp add: layout_def)
    then have "p = xs ! (j * ps) div int ps" using ps by (simp only: nonzero_mult_div_cancel_right of_nat_eq_0_iff)
    ultimately show "p \<in> (\<lambda>i. i div int ps) ` set xs" by (intro rev_image_eqI [OF nth_mem])
  qed
  then have "set (map (\<lambda>i. i div int ps) xs) = set pgs" by (simp only: set_map)
  then show ?thesis unfolding pages_of_def mset_unique by (simp only: mset_set_set [OF dist])
qed

lemma layout_one: "layout 1 xs pgs \<longleftrightarrow> pgs = xs"
proof
  assume lay: "layout 1 xs pgs"
  then have len: "length pgs = length xs" by (simp add: layout_def cdiv_def)
  show "pgs = xs" by (rule nth_equalityI [OF len]) (use lay len in \<open>simp add: layout_def\<close>)
qed (simp add: layout_def cdiv_def)

text \<open>The token allocator, with pages of one slot.\<close>

definition one_own :: "nat \<Rightarrow> nat \<Rightarrow> allocator \<Rightarrow> int multiset \<Rightarrow> bool" where
  "one_own ps N a U \<longleftrightarrow> ps = 1 \<and> page_size a = 1 \<and> token_own N a U"

lemma token_paged_kv: "paged_kv token_alloc token_free (\<lambda>idx. idx) (\<lambda>_ _ _ _. False) (one_own ps N) N ps"
proof
  fix a U assume "one_own ps N a U"
  then show "U \<subseteq># mset [1..int N]" "0 < ps" using token.own_within by (auto simp: one_own_def)
next
  fix a U n out a' assume "one_own ps N a U" "token_alloc a n = Inr (Some out, a')"
  then show "one_own ps N a' (U + mset out)"
    using token.alloc_some [of N a U n out a'] token_keeps_page_size(1) [of a n "Some out" a'] by (simp add: one_own_def)
next
  fix a U n a' assume "one_own ps N a U" "token_alloc a n = Inr (None, a')"
  then show "one_own ps N a' U"
    using token.alloc_none [of N a U n a'] token_keeps_page_size(1) [of a n None a'] by (simp add: one_own_def)
next
  fix a U idx assume own: "one_own ps N a U" "mset idx \<subseteq># U"
  then obtain a' where "token_free a idx = Inr a'" "token_own N a' (U - mset idx)"
    using token.free_returns [of N a U idx] by (auto simp: one_own_def)
  then show "\<exists>a'. token_free a idx = Inr a' \<and> one_own ps N a' (U - mset idx)"
    using own token_keeps_page_size(2) [of a idx a'] by (simp add: one_own_def)
next
  fix a U assume "one_own ps N a U" "is_not_in_free_group a"
  then show "one_own ps N (free_group_begin a) U"
    using token.begin_own [of N a U] by (simp add: one_own_def free_group_begin_def)
next
  fix a U assume own: "one_own ps N a U" "\<not> is_not_in_free_group a"
  then obtain a' where "free_group_end token_free a = Inr a'" "token_own N a' U"
    using token.end_own [of N a U] by (auto simp: one_own_def)
  then show "\<exists>a'. free_group_end token_free a = Inr a' \<and> one_own ps N a' U"
    using own token_keeps_page_size(3) [of a a'] by (simp add: one_own_def)
next
  fix a U xs pgs assume "one_own ps N a U" "layout ps xs pgs"
  then have "layout 1 xs pgs" by (simp add: one_own_def)
  then have "pgs = xs" by (rule layout_one [THEN iffD1])
  then show "mset xs = mset pgs" by simp
qed simp

lemma paged_paged_kv: "paged_kv paged_alloc paged_free (pages_of ps) (paged_grab ps) (paged_own ps N) N ps"
proof (intro paged_kv.intro paged.kv_allocator_axioms paged_kv_axioms.intro)
  fix a U assume "paged_own ps N a U"
  then show "0 < ps" by (simp add: paged_own_def)
next
  fix a U xs pgs assume "paged_own ps N a U" "layout ps xs pgs" "distinct pgs"
  then show "mset (pages_of ps xs) = mset pgs" by (intro pages_of_layout) (simp_all add: paged_own_def)
qed

interpretation kv: paged_kv "kv_alloc k" "kv_free k" "kv_pages k ps" "kv_grab k ps" "kv_own k ps N" N ps
proof (cases k)
  case TokenToKVPool
  have "kv_own k ps N = one_own ps N" by (simp add: TokenToKVPool kv_own_def one_own_def fun_eq_iff)
  then show "paged_kv (kv_alloc k) (kv_free k) (kv_pages k ps) (kv_grab k ps) (kv_own k ps N) N ps"
    using token_paged_kv by (simp add: TokenToKVPool kv_alloc_def kv_free_def kv_pages_def kv_grab_def)
next
  case PagedTokenToKVPool
  have "kv_own k ps N = paged_own ps N" by (simp add: PagedTokenToKVPool kv_own_def fun_eq_iff)
  then show "paged_kv (kv_alloc k) (kv_free k) (kv_pages k ps) (kv_grab k ps) (kv_own k ps N) N ps"
    using paged_paged_kv by (simp add: PagedTokenToKVPool kv_alloc_def kv_free_def kv_pages_def kv_grab_def)
qed

section \<open>Requests\<close>

subsection \<open>Keys\<close>

lemma req_key_len:
  assumes "0 < rc_page_size c"
  shows "rc_page_size c dvd key_len (req_key c r toks)" "key_len (req_key c r toks) \<le> length toks"
proof -
  define key where "key = \<lparr>token_ids = toks, extra_key = req_extra_key r, is_bigram = is_eagle c\<rparr>"
  have n: "key_len (req_key c r toks) = key_len key div rc_page_size c * rc_page_size c"
    using page_aligned_len [OF assms, of key] by (simp add: req_key_def key_def)
  then show "rc_page_size c dvd key_len (req_key c r toks)" by simp
  have "key_len key div rc_page_size c * rc_page_size c \<le> key_len key" by (rule div_times_less_eq_dividend)
  also have "\<dots> \<le> length toks" using key_len_token_ids [of key] by (simp add: key_def)
  finally show "key_len (req_key c r toks) \<le> length toks" unfolding n .
qed

lemma req_key_view:
  assumes "0 < rc_page_size c"
  shows "path (view c (req_key c r toks)) = path (req_key c r toks)" "key_len (view c (req_key c r toks)) = key_len (req_key c r toks)"
    "key_fits c (req_key c r toks)"
proof -
  have e: "is_bigram (req_key c r toks) = is_eagle c" by (simp add: req_key_def)
  then have v: "view c (req_key c r toks) = page_aligned (rc_page_size c) (req_key c r toks)"
    by (simp add: view_def maybe_to_bigram_view_def)
  have "key_len (req_key c r toks) div rc_page_size c * rc_page_size c = key_len (req_key c r toks)"
    using req_key_len(1) [OF assms, of r toks] by (rule dvd_div_mult_self)
  then show "path (view c (req_key c r toks)) = path (req_key c r toks)" unfolding v page_aligned_path [OF assms] by simp
  then show "key_len (view c (req_key c r toks)) = key_len (req_key c r toks)" by (metis length_path)
  show "key_fits c (req_key c r toks)" using e by (simp add: key_fits_def)
qed

lemma req_key_config: "same_config c c' \<Longrightarrow> req_key c' r toks = req_key c r toks"
  by (simp add: same_config_def req_key_def)

subsection \<open>Filing the slots of a request in the tree\<close>

text \<open>What later requests may rely on: nodes keep their place and stored pages stay stored.\<close>

definition keeps :: "radix_cache \<Rightarrow> radix_cache \<Rightarrow> bool" where
  "keeps c c' \<longleftrightarrow> same_config c c' \<and> set (node_paths (root_node c)) \<subseteq> set (node_paths (root_node c')) \<and>
     set (contents c) \<subseteq> set (contents c')"

lemma keeps_trans:
  assumes "keeps c c'" "keeps c' c''"
  shows "keeps c c''"
proof -
  note k = assms [unfolded keeps_def]
  have "same_config c c''" using k by (simp add: same_config_def)
  moreover have "set (node_paths (root_node c)) \<subseteq> set (node_paths (root_node c''))"
    by (rule subset_trans [of _ "set (node_paths (root_node c'))"]) (use k in blast)+
  moreover have "set (contents c) \<subseteq> set (contents c'')"
    by (rule subset_trans [of _ "set (contents c')"]) (use k in blast)+
  ultimately show ?thesis by (simp only: keeps_def)
qed

lemma pages_from_layout:
  assumes ps: "0 < ps" and lay: "layout ps kv pgs" and n: "n \<le> length kv" "length P = n" "ps dvd n"
  shows "image_mset snd (pages_from ps i P (take n kv)) = mset (map (block ps) (slice i (n div ps) pgs))"
proof -
  have "slice (j * ps) (Suc j * ps) (take n kv) = block ps (pgs ! j)" if j: "j < n div ps" for j
  proof -
    have le: "Suc j * ps \<le> n" using j n(3) by (metis Suc_leI dvd_div_mult_self mult_le_mono1)
    then have "slice (j * ps) (Suc j * ps) (take n kv) = slice (j * ps) (Suc j * ps) kv" by (simp add: slice_def drop_take min_def)
    then show ?thesis using layout_chunk [OF ps lay, of j] le n(1) by simp
  qed
  then have "map snd (map (page_of ps P (take n kv)) [i..<n div ps]) = map (\<lambda>j. block ps (pgs ! j)) [i..<n div ps]"
    by (auto simp: page_of_def)
  moreover have "n div ps \<le> length pgs" using lay n(1) cdiv_mono [of n "length kv" ps] ps n(3)
    by (metis cdiv_mult dvd_div_mult_self layout_def)
  then have "map (\<lambda>j. block ps (pgs ! j)) [i..<n div ps] = map (block ps) (slice i (n div ps) pgs)"
    by (intro nth_equalityI) (auto simp: nth_slice_le)
  ultimately show ?thesis unfolding pages_from_def n(2) by (metis mset_map)
qed

lemma insert_req_ok:
  assumes inv: "cache_inv c L" and on: "\<not> disable c" and whole: "whole_pages c"
    and lay: "layout (rc_page_size c) kv pgs" and len: "length kv = length toks"
    and key: "key = req_key c r toks"
  shows "\<exists>m c'. rc_insert access created c key (Some (take (key_len key) kv)) prio chunked = Inr (m, c') \<and>
    cache_inv c' L \<and> whole_pages c' \<and> keeps c c' \<and> rc_page_size c dvd m \<and> m \<le> key_len key \<and>
    tree_pages c' = tree_pages c + mset (slice (m div rc_page_size c) (key_len key div rc_page_size c) pgs) \<and>
    (\<exists>v. matched (rc_page_size c) (set (contents c)) (path key) v \<and> length v = m)"
proof -
  let ?ps = "rc_page_size c" and ?n = "key_len key"
  have ps: "0 < ?ps" using inv by (simp add: cache_inv_def)
  note k = req_key_len [OF ps, of r toks, folded key] req_key_view [OF ps, of r toks, folded key]
  have val: "value_fits c key (Some (take ?n kv))" "insert_value c key (Some (take ?n kv)) = take ?n kv"
    using k(2,4) len by (simp_all add: value_fits_def insert_value_def)
  obtain m c' v where ins: "rc_insert access created c key (Some (take ?n kv)) prio chunked = Inr (m, c')"
    and c': "cache_inv c' L" "same_config c c'" "set (node_paths (root_node c)) \<subseteq> set (node_paths (root_node c'))"
      "mset (contents c') = mset (contents c) + pages_from ?ps (m div ?ps) (path key) (take ?n kv)"
    and m: "m \<le> ?n" "matched ?ps (set (contents c)) (path key) v" "length v = m"
    using rc_insert_ok [OF inv k(5) val(1) on, of access created prio chunked] unfolding k(3,4) val(2) by blast
  have dvd: "?ps dvd m" using m(2,3) unfolding matched_def by (metis dvd_triv_right)
  let ?new = "slice (m div ?ps) (?n div ?ps) pgs"
  have "page_lists c' = page_lists c + mset (map (block ?ps) ?new)"
    using arg_cong [OF c'(4), of "image_mset snd"] c'(2) pages_from_layout [OF ps lay, of ?n "path key" "m div ?ps"] k(1,2) len
    by (simp add: page_lists_def same_config_def)
  then have "tree_pages c' = tree_pages c + mset ?new" "whole_pages c'"
    using whole c'(2) ps by (auto simp: tree_pages_def whole_pages_def same_config_def multiset.map_comp comp_def)
  moreover have "set (contents c) \<subseteq> set (contents c')" using c'(4) by (metis (no_types, lifting) Un_upper1 set_mset_mset set_mset_union)
  ultimately show ?thesis using ins c' m dvd unfolding keeps_def by blast
qed

subsection \<open>Requests that hold slots\<close>

text \<open>
  \<open>attached c m r toks pgs\<close>: the row of \<open>r\<close> holds the slots of the tokens \<open>toks\<close> in the pages \<open>pgs\<close>; the first
  \<^verbatim>\<open>cache_protected_len\<close> of them are those of the tree, at whose end the request has its node. The remaining
  pages are the request's own.
\<close>

definition attached :: "radix_cache \<Rightarrow> kv_memory \<Rightarrow> request \<Rightarrow> int list \<Rightarrow> int list \<Rightarrow> bool" where
  "attached c m r toks pgs \<longleftrightarrow>
     (\<exists>i. req_pool_idx r = Some i \<and> i < length (req_to_token (row_pool m)) \<and>
        length toks \<le> length (req_to_token (row_pool m) ! i) \<and>
        layout (rc_page_size c) (take (length toks) (req_to_token (row_pool m) ! i)) pgs) \<and>
     rc_page_size c dvd cache_protected_len r \<and> cache_protected_len r \<le> key_len (req_key c r toks) \<and>
     (\<exists>nd. last_node r = Some nd \<and>
        (nd, take (cache_protected_len r) (path (req_key c r toks))) \<in> set (node_paths (root_node c))) \<and>
     (\<forall>j. Suc j * rc_page_size c \<le> cache_protected_len r \<longrightarrow>
        (take (Suc j * rc_page_size c) (path (req_key c r toks)), block (rc_page_size c) (pgs ! j)) \<in> set (contents c))"

definition own_pages :: "radix_cache \<Rightarrow> request \<Rightarrow> int list \<Rightarrow> int multiset" where
  "own_pages c r pgs = mset (drop (cache_protected_len r div rc_page_size c) pgs)"

lemma split_pages:
  assumes "i \<le> j" "j \<le> n"
  shows "mset (drop i pgs) = mset (slice i j pgs) + (mset (slice j n pgs) + mset (drop n pgs))"
proof -
  have "drop i pgs = take (j - i) (drop i pgs) @ take (n - j) (drop j pgs) @ drop n pgs"
    using assms by (metis append_take_drop_id drop_drop le_add_diff_inverse2)
  then show ?thesis unfolding slice_def by (metis mset_append)
qed

lemma memory_free_eq: "kv_free k (kv_pool m) idx = Inr a \<Longrightarrow> memory_free k m idx = Inr (m\<lparr>kv_pool := a\<rparr>)"
  by (simp add: memory_free_def)

text \<open>Freeing the slots from the protected length to \<open>b\<close>, and those behind the last whole page.\<close>

lemma free_from_protected:
  assumes own: "kv_own k ps N (kv_pool m) (mset (slice (i div ps) (b div ps) pgs) + W)" and lay: "layout ps kv pgs"
    and b: "ps dvd i" "ps dvd b" "b \<le> length kv"
  obtains a where "memory_free k m (slice i b kv) = Inr (m\<lparr>kv_pool := a\<rparr>)" "kv_own k ps N a W"
proof -
  have ps: "0 < ps" by (rule kv.page_size_pos [OF own])
  have "cdiv b ps = b div ps" "i div ps * ps = i" using b ps by (metis cdiv_mult dvd_div_mult_self) (use b in simp)
  then show thesis using kv.free_range [of k ps N "kv_pool m" "i div ps" b pgs W kv] own lay b(3) that memory_free_eq by auto
qed

lemma free_tail:
  assumes own: "kv_own k ps N (kv_pool m) (mset (drop (n div ps) pgs) + W)" and lay: "layout ps kv pgs" and n: "ps dvd n"
  obtains a where "memory_free k m (drop n kv) = Inr (m\<lparr>kv_pool := a\<rparr>)" "kv_own k ps N a W"
proof -
  have "slice (n div ps) (cdiv (length kv) ps) pgs = drop (n div ps) pgs" "slice (n div ps * ps) (length kv) kv = drop n kv"
    using lay n by (simp_all add: slice_def layout_def)
  then show thesis using kv.free_range [of k ps N "kv_pool m" "n div ps" "length kv" pgs W kv] own lay that memory_free_eq by auto
qed

lemma protected_matched:
  assumes inv: "cache_inv c L" and att: "attached c m r toks pgs"
    and v: "matched (rc_page_size c) (set (contents c)) (path (req_key c r toks)) v"
  shows "cache_protected_len r \<le> length v"
proof -
  let ?P = "path (req_key c r toks)" and ?p = "cache_protected_len r"
  obtain nd where nd: "(nd, take ?p ?P) \<in> set (node_paths (root_node c))" "?p \<le> length ?P" using att by (auto simp: attached_def)
  have "length (take ?p ?P) \<le> length v"
    by (rule matched_at_least [OF _ _ nd(1) _ v, of "is_eagle c"]) (use inv nd(2) in \<open>simp_all add: cache_inv_def min_absorb2\<close>)
  then show ?thesis using nd(2) by simp
qed

text \<open>Locking changes neither the nodes nor what is stored.\<close>

definition same_tree :: "radix_cache \<Rightarrow> radix_cache \<Rightarrow> bool" where
  "same_tree c c' \<longleftrightarrow> same_config c c' \<and> contents c' = contents c \<and> node_paths (root_node c') = node_paths (root_node c)"

lemma same_tree_facts:
  assumes "same_tree c c'"
  shows "keeps c c'" "tree_pages c' = tree_pages c" "whole_pages c' = whole_pages c"
proof -
  have c: "contents c' = contents c" "node_paths (root_node c') = node_paths (root_node c)" "same_config c c'"
    using assms unfolding same_tree_def by blast+
  show "keeps c c'" unfolding keeps_def c(1,2) using c(3) by simp
  have "page_lists c' = page_lists c" unfolding page_lists_def c(1) ..
  then show "tree_pages c' = tree_pages c" "whole_pages c' = whole_pages c"
    using c(3) by (simp_all add: tree_pages_def whole_pages_def same_config_def)
qed

lemma cache_commit_len_record [simp]: "cache_commit_len b (r\<lparr>kv_committed_freed := x\<rparr>) = cache_commit_len b r"
  by (simp add: cache_commit_len_def)

lemma attached_row:
  assumes "attached c m r toks pgs" "req_pool_idx r' = req_pool_idx r"
  obtains kv where "row_prefix m r' (length toks) = Inr kv" "length kv = length toks" "layout (rc_page_size c) kv pgs"
  using assms by (auto simp: attached_def row_prefix_def)

lemma finished_ok:
  assumes inv: "cache_inv c L" and on: "\<not> disable c" and whole: "whole_pages c"
    and own: "kv_own k (rc_page_size c) N (kv_pool m) (tree_pages c + own_pages c r pgs + V)"
    and att: "attached c m r toks pgs" and nd: "last_node r = Some nd" "nd \<in># L"
    and toks: "toks = take (cache_commit_len (strip_thinking_cache sa) r) (origin_input_ids r @ output_ids r)"
    and freed: "\<not> kv_committed_freed r"
  shows "\<exists>a c'. radix_cache_finished_req k sa access created m c r is_insert =
      Inr (r\<lparr>kv_committed_freed := True\<rparr>, m\<lparr>kv_pool := a\<rparr>, c') \<and>
    cache_inv c' (L - {#nd#}) \<and> whole_pages c' \<and> keeps c c' \<and>
    kv_own k (rc_page_size c) N a (tree_pages c' + V)"
proof -
  let ?ps = "rc_page_size c" and ?r = "r\<lparr>kv_committed_freed := True\<rparr>" and ?p = "cache_protected_len r"
  define key where "key = req_key c r toks"
  define n where "n = key_len key"
  have ps: "0 < ?ps" by (rule kv.page_size_pos [OF own])
  obtain kv where kv: "row_prefix m ?r (length toks) = Inr kv" "length kv = length toks" "layout ?ps kv pgs"
    by (rule attached_row [OF att, of ?r]) simp_all
  have key': "req_key c ?r toks = key" "priority_or_zero ?r = priority_or_zero r"
    by (simp_all add: key_def req_key_def priority_or_zero_def)
  have n: "?ps dvd n" "n \<le> length kv" using req_key_len [OF ps, of r toks] kv(2) by (simp_all add: n_def key_def)
  have p: "?ps dvd ?p" "?p \<le> n" using att by (simp_all add: attached_def n_def key_def)
  have insert: "\<exists>a c1. (if is_insert \<and> \<not> disable_finished_insert sa
        then rbind (rc_insert access created c key (Some (take n kv)) (Some (priority_or_zero r)) False) (\<lambda>(prefix_len, c).
             rbind (memory_free k m (slice ?p prefix_len kv)) (\<lambda>m. Inr (m, c)))
        else rbind (memory_free k m (slice ?p n kv)) (\<lambda>m. Inr (m, c))) = Inr (m\<lparr>kv_pool := a\<rparr>, c1) \<and>
      cache_inv c1 L \<and> whole_pages c1 \<and> keeps c c1 \<and>
      kv_own k ?ps N a (mset (drop (n div ?ps) pgs) + (tree_pages c1 + V))"
  proof (cases "is_insert \<and> \<not> disable_finished_insert sa")
    case True
    obtain b c1 v where ins: "rc_insert access created c key (Some (take n kv)) (Some (priority_or_zero r)) False = Inr (b, c1)"
      and c1: "cache_inv c1 L" "whole_pages c1" "keeps c c1" "tree_pages c1 = tree_pages c + mset (slice (b div ?ps) (n div ?ps) pgs)"
      and b: "?ps dvd b" "b \<le> n" "matched ?ps (set (contents c)) (path key) v" "length v = b"
      using insert_req_ok [OF inv on whole kv(3,2) key_def, of access created "Some (priority_or_zero r)" False] unfolding n_def by blast
    have pb: "?p \<le> b" using protected_matched [OF inv att, of v] b(3,4) by (simp add: key_def)
    have "kv_own k ?ps N (kv_pool m) (mset (slice (?p div ?ps) (b div ?ps) pgs) + (mset (drop (n div ?ps) pgs) + (tree_pages c1 + V)))"
      using own split_pages [OF div_le_mono [OF pb] div_le_mono [OF b(2)], of ?ps pgs] by (simp add: own_pages_def c1(4) ac_simps)
    from free_from_protected [OF this kv(3) p(1) b(1) le_trans [OF b(2) n(2)]] obtain a where
      "memory_free k m (slice ?p b kv) = Inr (m\<lparr>kv_pool := a\<rparr>)" "kv_own k ?ps N a (mset (drop (n div ?ps) pgs) + (tree_pages c1 + V))" .
    then show ?thesis using True ins c1(1-3) by auto
  next
    case False
    have "kv_own k ?ps N (kv_pool m) (mset (slice (?p div ?ps) (n div ?ps) pgs) + (mset (drop (n div ?ps) pgs) + (tree_pages c + V)))"
      using own split_pages [OF div_le_mono [OF p(2)] order.refl, of ?ps pgs] by (simp add: own_pages_def slice_def ac_simps)
    from free_from_protected [OF this kv(3) p(1) n] obtain a where
      "memory_free k m (slice ?p n kv) = Inr (m\<lparr>kv_pool := a\<rparr>)" "kv_own k ?ps N a (mset (drop (n div ?ps) pgs) + (tree_pages c + V))" .
    then show ?thesis using False inv whole by (auto simp: keeps_def same_config_def)
  qed
  then obtain a c1 where a: "(if is_insert \<and> \<not> disable_finished_insert sa
        then rbind (rc_insert access created c key (Some (take n kv)) (Some (priority_or_zero r)) False) (\<lambda>(prefix_len, c).
             rbind (memory_free k m (slice ?p prefix_len kv)) (\<lambda>m. Inr (m, c)))
        else rbind (memory_free k m (slice ?p n kv)) (\<lambda>m. Inr (m, c))) = Inr (m\<lparr>kv_pool := a\<rparr>, c1)"
    and c1: "cache_inv c1 L" "whole_pages c1" "keeps c c1"
    and own1: "kv_own k ?ps N (kv_pool (m\<lparr>kv_pool := a\<rparr>)) (mset (drop (n div ?ps) pgs) + (tree_pages c1 + V))" by auto
  from free_tail [OF own1 kv(3) n(1)] obtain a' where a': "memory_free k (m\<lparr>kv_pool := a\<rparr>) (drop n kv) = Inr (m\<lparr>kv_pool := a'\<rparr>)"
    "kv_own k ?ps N a' (tree_pages c1 + V)" by auto
  have "\<not> disable c1" using on c1(3) by (simp add: keeps_def same_config_def)
  from dec_lock_ref_ok [OF c1(1) nd(2) this] obtain d c2 where c2: "dec_lock_ref c1 nd = Inr (d, c2)" "cache_inv c2 (L - {#nd#})"
    "same_tree c1 c2" unfolding same_tree_def by blast
  have "radix_cache_finished_req k sa access created m c r is_insert = Inr (?r, m\<lparr>kv_pool := a'\<rparr>, c2)"
  proof -
    have tk: "take (cache_commit_len (strip_thinking_cache sa) r) (origin_input_ids ?r @ output_ids ?r) = toks"
      by (simp add: toks del: take_append)
    have pop: "pop_committed_kv_cache (strip_thinking_cache sa) r = Inr (cache_commit_len (strip_thinking_cache sa) r, ?r)"
      using freed by (simp add: pop_committed_kv_cache_def Let_def)
    have ins: "(if disable_finished_insert sa then False else is_insert) = (is_insert \<and> \<not> disable_finished_insert sa)" by simp
    have sel: "cache_protected_len ?r = ?p" "last_node ?r = Some nd" using nd(1) by simp_all
    show ?thesis
      unfolding radix_cache_finished_req_def Let_def pop rbind_Inr prod.case tk kv(1) key' n_def [symmetric] ins sel a
      by (simp add: on a'(1) c2(1))
  qed
  moreover have "whole_pages c2" "kv_own k ?ps N a' (tree_pages c2 + V)" using c1(2) a'(2) same_tree_facts [OF c2(3)] by simp_all
  ultimately show ?thesis using c2(2) keeps_trans [OF c1(3) same_tree_facts(1) [OF c2(3)]] by blast
qed

text \<open>The slots that a match finds are whole pages of the tree.\<close>

lemma matched_layout:
  assumes inv: "cache_inv c L" and whole: "whole_pages c" and v: "matched (rc_page_size c) (set (contents c)) P v"
  defines "pv \<equiv> map (page_no (rc_page_size c)) (chunks (rc_page_size c) v)"
  shows "layout (rc_page_size c) v pv" "set pv \<subseteq> set_mset (tree_pages c)" "rc_page_size c dvd length v"
    "\<And>j. Suc j * rc_page_size c \<le> length v \<Longrightarrow> (take (Suc j * rc_page_size c) P, block (rc_page_size c) (pv ! j)) \<in> set (contents c)"
proof -
  let ?ps = "rc_page_size c"
  have ps: "0 < ?ps" using inv by (simp add: cache_inv_def)
  obtain n where n: "length v = n * ?ps" "\<And>j. j < n \<Longrightarrow> page_of ?ps P v j \<in> set (contents c)" using v unfolding matched_def by blast
  then show dvd: "?ps dvd length v" by simp
  have page: "(take (Suc j * ?ps) P, slice (j * ?ps) (Suc j * ?ps) v) \<in> set (contents c)" if "j < n" for j
    using n(2) [OF that] by (simp add: page_of_def)
  have lists: "slice (j * ?ps) (Suc j * ?ps) v \<in># page_lists c" if "j < n" for j
    using page [OF that] unfolding page_lists_def by (metis imageI set_map set_mset_mset snd_conv)
  have blocks: "w \<in># page_lists c \<and> w = block ?ps (page_no ?ps w)" if "w \<in> set (chunks ?ps v)" for w
    using that lists whole ps unfolding chunks_def n(1) whole_pages_def by auto
  then show lay: "layout ?ps v pv" unfolding pv_def by (intro chunks_layout [OF ps dvd]) blast
  show "set pv \<subseteq> set_mset (tree_pages c)" unfolding pv_def tree_pages_def using blocks by auto
  show "(take (Suc j * ?ps) P, block ?ps (pv ! j)) \<in> set (contents c)" if "Suc j * ?ps \<le> length v" for j
  proof -
    have "j < n" using that n(1) ps by (metis Suc_le_lessD mult_le_cancel2)
    from page [OF this] show ?thesis by (simp only: layout_chunk [OF ps lay that])
  qed
qed

text \<open>Where a request shares the tree's pages, its row holds the slots that a match finds.\<close>

lemma attached_agrees:
  assumes inv: "cache_inv c L" and att: "attached c m r toks pgs" and kv: "layout (rc_page_size c) kv pgs" "length kv = length toks"
    and v: "matched (rc_page_size c) (set (contents c)) (path (req_key c r toks)) v"
  shows "take (cache_protected_len r) v = take (cache_protected_len r) kv"
proof -
  let ?ps = "rc_page_size c" and ?P = "path (req_key c r toks)" and ?p = "cache_protected_len r"
  have ps: "0 < ?ps" "wf_tree ?ps (is_eagle c) (root_node c)" using inv by (simp_all add: cache_inv_def)
  obtain n where n: "length v = n * ?ps" "\<And>j. j < n \<Longrightarrow> page_of ?ps ?P v j \<in> set (contents c)" using v unfolding matched_def by blast
  have p: "?p \<le> length v" "?p \<le> length kv" "?ps dvd ?p"
    using protected_matched [OF inv att v] req_key_len(2) [OF ps(1), of r toks] att kv(2) by (simp_all add: attached_def)
  have chunk: "slice (j * ?ps) (Suc j * ?ps) v = slice (j * ?ps) (Suc j * ?ps) kv" if j: "Suc j * ?ps \<le> ?p" for j
  proof -
    have "(take (Suc j * ?ps) ?P, block ?ps (pgs ! j)) \<in> set (contents c)" using att j by (simp add: attached_def)
    moreover have "Suc j * ?ps \<le> n * ?ps" using j p(1) n(1) by linarith
    then have "j < n" using ps(1) by (metis Suc_le_lessD mult_le_cancel2)
    then have "(take (Suc j * ?ps) ?P, slice (j * ?ps) (Suc j * ?ps) v) \<in> set (contents c)" using n(2) by (simp add: page_of_def)
    ultimately have "slice (j * ?ps) (Suc j * ?ps) v = block ?ps (pgs ! j)"
      using below_distinct [OF ps] by (metis eq_key_imp_eq_value)
    then show ?thesis using layout_chunk [OF ps(1) kv(1), of j] j p(2) by simp
  qed
  show ?thesis
  proof (rule nth_equalityI)
    show "length (take ?p v) = length (take ?p kv)" using p by simp
  next
    fix i assume "i < length (take ?p v)"
    then have i: "i < ?p" by simp
    define j where "j = i div ?ps"
    have le: "Suc j * ?ps \<le> ?p"
      using i p(3) ps(1) unfolding j_def by (metis Suc_leI dvd_div_mult_self less_mult_imp_div_less mult_le_mono1)
    have ij: "i = j * ?ps + i mod ?ps" "i mod ?ps < ?ps" using ps(1) by (simp_all add: j_def)
    have "slice (j * ?ps) (Suc j * ?ps) xs ! (i mod ?ps) = xs ! i" if "?p \<le> length xs" for xs :: "int list"
      using le ij that by (subst nth_slice_le) auto
    then show "take ?p v ! i = take ?p kv ! i" using chunk [OF le] p(1,2) i by (metis nth_take)
  qed
qed

lemma wrap32_id: "0 \<le> v \<Longrightarrow> v < 2 ^ 31 \<Longrightarrow> wrap32 v = v"
  by (simp add: wrap32_def)

text \<open>Slots of pages of the pool fit the table, if the pool fits 32 bits.\<close>

lemma slots_fit:
  assumes ps: "0 < ps" and lay: "layout ps xs pgs" and pgs: "\<forall>p \<in> set pgs. 1 \<le> p \<and> p \<le> int N" and N: "(N + 1) * ps \<le> 2 ^ 31"
  shows "map wrap32 xs = xs"
proof (rule map_idI)
  fix x assume "x \<in> set xs"
  then obtain i where i: "i < length xs" "x = xs ! i" by (auto simp: in_set_conv_nth)
  define p where "p = pgs ! (i div ps)"
  have "i div ps < length pgs" using cdiv_gt [OF ps i(1)] lay by (simp add: layout_def)
  then have p: "1 \<le> p" "p \<le> int N" using pgs by (auto simp: p_def)
  have x: "x = p * int ps + int (i mod ps)" using lay i by (simp add: layout_def p_def)
  have "p * int ps \<le> int N * int ps" using p(2) by (intro mult_right_mono) simp_all
  moreover have "int (i mod ps) < int ps" "0 \<le> p * int ps" using ps p(1) by simp_all
  moreover have "int N * int ps + int ps \<le> 2 ^ 31" using N by (simp add: distrib_right flip: of_nat_mult of_nat_add)
  ultimately show "wrap32 x = x" unfolding x by (intro wrap32_id) linarith+
qed

lemma held_slots_fit:
  assumes own: "kv_own k ps N a U" and lay: "layout ps xs pgs" and held: "set pgs \<subseteq> set_mset U" and N: "(N + 1) * ps \<le> 2 ^ 31"
  shows "map wrap32 xs = xs"
  by (rule slots_fit [OF kv.page_size_pos [OF own] lay _ N]) (use kv.held_once [OF own] held in blast)

lemma layout_append:
  assumes ps: "0 < ps" and x: "layout ps xs pxs" "ps dvd length xs" and y: "layout ps ys pys"
  shows "layout ps (xs @ ys) (pxs @ pys)"
proof -
  obtain n where n: "length xs = n * ps" using x(2) by (metis dvdE mult.commute)
  then have len: "length pxs = n" using x(1) ps by (simp add: layout_def)
  have "cdiv (n * ps + length ys) ps = n + cdiv (length ys) ps"
    using cdiv_diff [OF ps, of "n * ps + length ys" n] cdiv_mono [of "n * ps" "n * ps + length ys" ps] ps by simp
  moreover have "(xs @ ys) ! i = (pxs @ pys) ! (i div ps) * int ps + int (i mod ps)" if i: "i < n * ps + length ys" for i
  proof (cases "i < n * ps")
    case True
    then have "i div ps < n" by (simp add: less_mult_imp_div_less)
    then show ?thesis using True x(1) n len by (simp add: layout_def nth_append)
  next
    case False
    define j where "j = i - n * ps"
    have "i = n * ps + j" "j < length ys" using False i by (simp_all add: j_def)
    then show ?thesis using y n len ps by (simp add: layout_def nth_append)
  qed
  ultimately show ?thesis using n len y by (simp add: layout_def)
qed

lemma layout_drop:
  assumes "0 < ps" "layout ps xs pgs" "ps dvd n"
  shows "layout ps (drop n xs) (drop (n div ps) pgs)"
proof -
  have "slice (n div ps) (cdiv (length xs) ps) pgs = drop (n div ps) pgs" "slice (n div ps * ps) (length xs) xs = drop n xs"
    using assms by (simp_all add: slice_def layout_def)
  then show ?thesis using layout_slice [OF assms(1,2) order.refl, of "n div ps"] by simp
qed

text \<open>The request after \<^verbatim>\<open>cache_unfinished_req\<close>: its row, its prefix and its node.\<close>

definition reattached :: "radix_cache \<Rightarrow> request \<Rightarrow> int list \<Rightarrow> int list \<Rightarrow> nat \<Rightarrow> request" where
  "reattached c r toks row nd = r\<lparr>cache_protected_len := key_len (req_key c r toks), prefix_indices := row, last_node := Some nd\<rparr>"

lemma unfinished_tree:
  assumes inv: "cache_inv c L" and on: "\<not> disable c" and whole: "whole_pages c"
    and own: "kv_own k (rc_page_size c) N (kv_pool m) (tree_pages c + own_pages c r pgs + V)"
    and att: "attached c m r toks pgs" and kv: "layout (rc_page_size c) kv pgs" "length kv = length toks"
    and key: "key = req_key c r toks"
  shows "\<exists>b c1 a v i c2. rc_insert access created c key (Some (take (key_len key) kv)) prio chunked = Inr (b, c1) \<and>
    memory_free k m (slice (cache_protected_len r) b kv) = Inr (m\<lparr>kv_pool := a\<rparr>) \<and>
    match_prefix access' created' c1 key = Inr (v, i, c2) \<and> length v = key_len key \<and>
    take (cache_protected_len r) v = take (cache_protected_len r) kv \<and>
    cache_inv c2 L \<and> whole_pages c2 \<and> keeps c c2 \<and> matched (rc_page_size c) (set (contents c2)) (path key) v \<and>
    (i, path key) \<in> set (node_paths (root_node c2)) \<and>
    kv_own k (rc_page_size c) N a (tree_pages c2 + mset (drop (key_len key div rc_page_size c) pgs) + V)"
proof -
  let ?ps = "rc_page_size c" and ?n = "key_len key" and ?p = "cache_protected_len r"
  have ps: "0 < ?ps" by (rule kv.page_size_pos [OF own])
  have n: "?ps dvd ?n" "?n \<le> length kv" using req_key_len [OF ps, of r toks] kv(2) by (simp_all add: key)
  have p: "?ps dvd ?p" "?p \<le> ?n" using att by (simp_all add: attached_def key)
  obtain b c1 old where ins: "rc_insert access created c key (Some (take ?n kv)) prio chunked = Inr (b, c1)"
    and c1: "cache_inv c1 L" "whole_pages c1" "keeps c c1" "tree_pages c1 = tree_pages c + mset (slice (b div ?ps) (?n div ?ps) pgs)"
    and b: "?ps dvd b" "b \<le> ?n" "matched ?ps (set (contents c)) (path key) old" "length old = b"
    using insert_req_ok [OF inv on whole kv key, of access created prio chunked] by blast
  have pb: "?p \<le> b" using protected_matched [OF inv att, of old] b(3,4) by (simp add: key)
  have "kv_own k ?ps N (kv_pool m) (mset (slice (?p div ?ps) (b div ?ps) pgs) + (tree_pages c1 + mset (drop (?n div ?ps) pgs) + V))"
    using own split_pages [OF div_le_mono [OF pb] div_le_mono [OF b(2)], of ?ps pgs] by (simp add: own_pages_def c1(4) ac_simps)
  from free_from_protected [OF this kv(1) p(1) b(1) le_trans [OF b(2) n(2)]] obtain a where
    a: "memory_free k m (slice ?p b kv) = Inr (m\<lparr>kv_pool := a\<rparr>)" "kv_own k ?ps N a (tree_pages c1 + mset (drop (?n div ?ps) pgs) + V)" .
  note kview = req_key_view [OF ps, of r toks, folded key]
  have sc: "same_config c c1" "rc_page_size c1 = ?ps" "\<not> disable c1" using c1(3) on by (simp_all add: keeps_def same_config_def)
  have kv1: "path (view c1 key) = path key" "key_fits c1 key"
    using req_key_view [of c1 r toks] ps sc req_key_config [OF sc(1), of r toks] by (simp_all add: key)
  obtain v i c2 where mat: "match_prefix access' created' c1 key = Inr (v, i, c2)"
    and c2: "cache_inv c2 L" "same_config c1 c2" "mset (contents c2) = mset (contents c1)"
      "(i, take (length v) (path key)) \<in> set (node_paths (root_node c2))"
      "set (node_paths (root_node c1)) \<subseteq> set (node_paths (root_node c2))" "matched ?ps (set (contents c1)) (path key) v"
    using match_prefix_ok [OF c1(1) kv1(2) sc(3), of access' created'] unfolding kv1(1) sc(2) by blast
  have fits: "value_fits c key (Some (take ?n kv))" using n(2) kview(2) by (simp add: value_fits_def)
  obtain old' where "matched ?ps (set (contents c)) (path key) old'" "length old' = b" "length v = ?n"
      "v = old' @ drop b (insert_value c key (Some (take ?n kv)))"
    using match_after_insert [OF inv kview(3) fits on ins mat] unfolding kview(1,2) by blast
  then have v: "length v = ?n" "take ?p v = take ?p kv"
    using attached_agrees [OF inv att kv, of old'] pb by (simp_all add: key)
  have "page_lists c2 = page_lists c1" unfolding page_lists_def mset_map c2(3) ..
  then have t2: "tree_pages c2 = tree_pages c1" "whole_pages c2" using c1(2) c2(2)
    by (simp_all add: tree_pages_def whole_pages_def same_config_def)
  have sets: "set (contents c2) = set (contents c1)" using c2(3) by (rule mset_eq_setD)
  have "keeps c1 c2" unfolding keeps_def sets using c2(2,5) by simp
  then have "keeps c c2" by (rule keeps_trans [OF c1(3)])
  moreover have "(i, path key) \<in> set (node_paths (root_node c2))" using c2(4) v(1) by simp
  ultimately show ?thesis using ins a mat v c2(1) t2(2) c2(6) unfolding sets [symmetric] t2(1) [symmetric] by blast
qed

definition set_row :: "kv_memory \<Rightarrow> nat \<Rightarrow> int list \<Rightarrow> kv_memory" where
  "set_row m i row = m\<lparr>row_pool := (row_pool m)\<lparr>req_to_token := (req_to_token (row_pool m))[i := row]\<rparr>\<rparr>"

lemma unfinished_ok:
  assumes inv: "cache_inv c L" and on: "\<not> disable c" and whole: "whole_pages c"
    and own: "kv_own k (rc_page_size c) N (kv_pool m) (tree_pages c + own_pages c r pgs + V)" and N: "(N + 1) * rc_page_size c \<le> 2 ^ 31"
    and att: "attached c m r (fill_ids r) pgs" and nd: "last_node r = Some nd" "nd \<in># L"
    and i: "req_pool_idx r = Some i"
  shows "\<exists>a c' nd' row pgs'. radix_cache_unfinished_req k access created access' created' m c r chunked =
      Inr (reattached c r (fill_ids r) (take (length (fill_ids r)) row) nd', set_row (m\<lparr>kv_pool := a\<rparr>) i row, c') \<and>
    length row = length (req_to_token (row_pool m) ! i) \<and>
    attached c' (set_row (m\<lparr>kv_pool := a\<rparr>) i row) (reattached c r (fill_ids r) (take (length (fill_ids r)) row) nd') (fill_ids r) pgs' \<and>
    own_pages c' (reattached c r (fill_ids r) (take (length (fill_ids r)) row) nd') pgs' =
      mset (drop (key_len (req_key c r (fill_ids r)) div rc_page_size c) pgs) \<and>
    cache_inv c' (add_mset nd' (L - {#nd#})) \<and> whole_pages c' \<and> keeps c c' \<and>
    kv_own k (rc_page_size c) N a (tree_pages c' + mset (drop (key_len (req_key c r (fill_ids r)) div rc_page_size c) pgs) + V)"
proof -
  let ?ps = "rc_page_size c" and ?p = "cache_protected_len r" and ?toks = "fill_ids r"
  define key where "key = req_key c r ?toks"
  define row0 where "row0 = req_to_token (row_pool m) ! i"
  define kv where "kv = take (length ?toks) row0"
  have row0: "i < length (req_to_token (row_pool m))" "length ?toks \<le> length row0" "layout ?ps kv pgs"
    using att i by (auto simp: attached_def kv_def row0_def)
  have kv: "length kv = length ?toks" using row0(2) by (simp add: kv_def)
  have ps: "0 < ?ps" by (rule kv.page_size_pos [OF own])
  have n: "?ps dvd key_len key" "key_len key \<le> length kv" using req_key_len [OF ps, of r ?toks] kv by (simp_all add: key_def)
  have p: "?p \<le> key_len key" using att by (simp add: attached_def key_def)
  obtain b c1 a v nd' c2 where ins: "rc_insert access created c key (Some (take (key_len key) kv)) (Some (priority_or_zero r)) chunked = Inr (b, c1)"
    and a: "memory_free k m (slice ?p b kv) = Inr (m\<lparr>kv_pool := a\<rparr>)"
    and mat: "match_prefix access' created' c1 key = Inr (v, nd', c2)"
    and v: "length v = key_len key" "take ?p v = take ?p kv" "matched ?ps (set (contents c2)) (path key) v"
    and c2: "cache_inv c2 L" "whole_pages c2" "keeps c c2" "(nd', path key) \<in> set (node_paths (root_node c2))"
    and own2: "kv_own k ?ps N a (tree_pages c2 + mset (drop (key_len key div ?ps) pgs) + V)"
    using unfinished_tree [OF inv on whole own att row0(3) kv key_def, of access created "Some (priority_or_zero r)" chunked access' created'] by blast
  have sc2: "rc_page_size c2 = ?ps" "\<not> disable c2" using c2(3) on by (simp_all add: keeps_def same_config_def)
  define pv where "pv = map (page_no ?ps) (chunks ?ps v)"
  note lv = matched_layout [OF c2(1,2), unfolded sc2(1), OF v(3) [unfolded sc2(1)], folded pv_def]
  define row where "row = v @ drop (length v) row0"
  have "set pv \<subseteq> set_mset (tree_pages c2 + mset (drop (key_len key div ?ps) pgs) + V)" using lv(2) by auto
  then have w: "map wrap32 v = v" by (rule held_slots_fit [OF own2 lv(1) _ N])
  have "row0 = take ?p row0 @ take (length v - ?p) (drop ?p row0) @ drop (length v) row0"
    using p v(1) by (metis append_take_drop_id drop_drop le_add_diff_inverse2)
  moreover have "length v \<le> length row0" using n(2) v(1) row0(2) kv by simp
  ultimately have "pool_write_slice (row_pool m) i (int ?p) (int (length v)) (drop ?p v) =
      Inr ((row_pool m)\<lparr>req_to_token := (req_to_token (row_pool m))[i := take ?p row0 @ map wrap32 (drop ?p v) @ drop (length v) row0]\<rparr>)"
    using pool_write_slice_ok [OF row0(1), of "take ?p row0" "take (length v - ?p) (drop ?p row0)" "drop (length v) row0" "int ?p"] p v(1)
    by (simp add: row0_def [symmetric])
  moreover have "take ?p row0 @ map wrap32 (drop ?p v) @ drop (length v) row0 = row"
  proof -
    have "take ?p kv = take ?p row0" using p n(2) kv by (simp add: kv_def)
    then have "take ?p row0 @ drop ?p v = v" using v(2) by (metis append_take_drop_id)
    moreover have "map wrap32 (drop ?p v) = drop ?p v" using w by (metis drop_map)
    ultimately show ?thesis by (metis append_assoc row_def)
  qed
  ultimately have stored: "pool_write_slice (row_pool m) i (int ?p) (int (length v)) (drop ?p v) =
      Inr ((row_pool m)\<lparr>req_to_token := (req_to_token (row_pool m))[i := row]\<rparr>)" by simp
  from dec_lock_ref_ok [OF c2(1) nd(2) sc2(2)] obtain d c3 where c3: "dec_lock_ref c2 nd = Inr (d, c3)" "cache_inv c3 (L - {#nd#})"
    "same_tree c2 c3" unfolding same_tree_def by blast
  have on3: "\<not> disable c3" using c3(3) sc2(2) by (simp add: same_tree_def same_config_def)
  have "nd' \<in># ids (root_node c3)" using c2(4) c3(3) node_paths_ids unfolding same_tree_def by metis
  from inc_lock_ref_ok [OF c3(2) this on3] obtain d' c4 where c4: "inc_lock_ref c3 nd' = Inr (d', c4)" "cache_inv c4 (add_mset nd' (L - {#nd#}))"
    "same_tree c3 c4" unfolding same_tree_def by blast
  note t34 = same_tree_facts [OF c3(3)] same_tree_facts [OF c4(3)]
  have keep: "keeps c2 c4" by (rule keeps_trans [OF t34(1) t34(4)])
  have same: "contents c4 = contents c2" "node_paths (root_node c4) = node_paths (root_node c2)"
    using c3(3) c4(3) unfolding same_tree_def by (auto simp only:)
  have sc4: "same_config c c4" "rc_page_size c4 = ?ps"
    using keeps_trans [OF c2(3) keep] by (simp_all add: keeps_def same_config_def)
  define r' where "r' = reattached c r ?toks (take (length ?toks) row) nd'"
  define m' where "m' = set_row (m\<lparr>kv_pool := a\<rparr>) i row"
  have tr: "take (length ?toks) row = v @ drop (length v) kv"
    using n(2) v(1) kv by (simp add: row_def kv_def drop_take)
  have eval: "radix_cache_unfinished_req k access created access' created' m c r chunked = Inr (r', m', c4)"
  proof -
    have rp: "row_prefix m r (length ?toks) = Inr kv" using i row0 by (simp add: row_prefix_def kv_def row0_def)
    have "v @ drop (length v) kv = v" if "\<not> length v < length kv" using that by simp
    then have "r\<lparr>cache_protected_len := length v, prefix_indices := (if length v < length kv then v @ drop (length v) kv else v), last_node := Some nd'\<rparr> = r'"
      by (simp add: r'_def reattached_def tr v(1) key_def)
    then show ?thesis
      unfolding radix_cache_unfinished_req_def Let_def rp rbind_Inr key_def [symmetric] ins prod.case a mat
      by (cases "length v < length kv") (simp_all add: on v(1) i stored [unfolded v(1)] nd(1) c3(1) c4(1) m'_def set_row_def)
  qed
  have len: "length row = length row0" using n(2) v(1) row0(2) kv by (simp add: row_def)
  have pgs': "length pv = key_len key div ?ps" using v(1) by (simp add: pv_def chunks_def)
  have "layout ?ps (v @ drop (length v) kv) (pv @ drop (key_len key div ?ps) pgs)"
    by (rule layout_append [OF ps lv(1,3)]) (use layout_drop [OF ps row0(3) n(1)] v(1) in simp)
  then have lay: "layout ?ps (take (length ?toks) row) (pv @ drop (key_len key div ?ps) pgs)" by (simp only: tr)
  have key': "req_key c4 r' ?toks = key" using req_key_config [OF sc4(1)] by (simp add: r'_def reattached_def key_def req_key_def)
  have "attached c4 m' r' ?toks (pv @ drop (key_len key div ?ps) pgs)"
    unfolding attached_def same unfolding key' sc4(2)
  proof (intro conjI)
    show "\<exists>i. req_pool_idx r' = Some i \<and> i < length (req_to_token (row_pool m')) \<and>
        length ?toks \<le> length (req_to_token (row_pool m') ! i) \<and>
        layout ?ps (take (length ?toks) (req_to_token (row_pool m') ! i)) (pv @ drop (key_len key div ?ps) pgs)"
      using i row0(1,2) lay len by (simp add: r'_def reattached_def m'_def set_row_def)
    show "?ps dvd cache_protected_len r'" "cache_protected_len r' \<le> key_len key"
      using n(1) by (simp_all add: r'_def reattached_def key_def)
    show "\<exists>nd. last_node r' = Some nd \<and> (nd, take (cache_protected_len r') (path key)) \<in> set (node_paths (root_node c2))"
      using c2(4) by (simp add: r'_def reattached_def key_def)
    have "(take (Suc j * ?ps) (path key), block ?ps ((pv @ drop (key_len key div ?ps) pgs) ! j)) \<in> set (contents c2)"
      if "Suc j * ?ps \<le> key_len key" for j
    proof -
      have "j < length pv" using that ps unfolding pgs' by (metis Suc_le_lessD less_eq_div_iff_mult_less_eq)
      then show ?thesis using lv(4) [of j] that v(1) sc2(1) by (simp add: nth_append)
    qed
    then show "\<forall>j. Suc j * ?ps \<le> cache_protected_len r' \<longrightarrow>
        (take (Suc j * ?ps) (path key), block ?ps ((pv @ drop (key_len key div ?ps) pgs) ! j)) \<in> set (contents c2)"
      by (simp add: r'_def reattached_def key_def)
  qed
  moreover have "own_pages c4 r' (pv @ drop (key_len key div ?ps) pgs) = mset (drop (key_len key div ?ps) pgs)"
    by (simp add: own_pages_def r'_def reattached_def sc4(2) key_def [symmetric] pgs')
  moreover have "tree_pages c4 = tree_pages c2" "whole_pages c4" using t34 c2(2) by simp_all
  ultimately show ?thesis
    using eval len c4(2) keeps_trans [OF c2(3) keep] own2 unfolding r'_def m'_def key_def row0_def by metis
qed

subsection \<open>Releasing a request\<close>

text \<open>
  A request may hold more slots than it has committed: \<open>pgs\<close> are the pages of all slots of its row, and the
  pages behind the last committed token are freed as over-allocated.
\<close>

definition released :: "request \<Rightarrow> request" where
  "released r = r\<lparr>kv_committed_freed := True, kv_overallocated_freed := True, req_pool_idx := None\<rparr>"

definition holds_slots :: "nat \<Rightarrow> kv_memory \<Rightarrow> request \<Rightarrow> int list \<Rightarrow> bool" where
  "holds_slots ps m r pgs \<longleftrightarrow>
     (\<exists>i. req_pool_idx r = Some i \<and> i < length (req_to_token (row_pool m)) \<and>
        kv_allocated_len r \<le> length (req_to_token (row_pool m) ! i) \<and>
        layout ps (take (kv_allocated_len r) (req_to_token (row_pool m) ! i)) pgs)"

text \<open>The calls of \<^verbatim>\<open>release_kv_cache\<close> behind \<^verbatim>\<open>cache_finished_req\<close>.\<close>

definition release_rest ::
  "allocator_class \<Rightarrow> server_args \<Rightarrow> request \<Rightarrow> kv_memory \<Rightarrow> (request \<times> kv_memory) result" where
  "release_rest k sa r m =
     rbind (pop_overallocated_kv_cache (strip_thinking_cache sa) r) (\<lambda>(start_p, end_p, r).
     rbind (if speculative_algorithm sa = None \<and> \<not> strip_thinking_cache sa then rassert (start_p = end_p) AssertionError else Inr ()) (\<lambda>_.
     rbind (if sa_page_size sa > 1 then ceil_align start_p (sa_page_size sa) else Inr start_p) (\<lambda>start_p.
     rbind (if start_p < end_p
            then rbind (row_prefix m r end_p) (\<lambda>row. memory_free k m (drop start_p row))
            else Inr m) (\<lambda>m.
     rbind (pool_free (row_pool m) r) (\<lambda>(r, rows).
     Inr (r, m\<lparr>row_pool := rows\<rparr>))))))"

lemma release_split:
  "release_kv_cache k sa access created m tree r is_insert =
     (if req_pool_idx r = None then Inl AssertionError
      else rbind (cache_finished_req k sa access created m tree r (is_insert \<and> \<not> skip_radix_cache_insert r)) (\<lambda>(r, m, tree).
      rbind (release_rest k sa r m) (\<lambda>(r, m). Inr (r, m, tree))))"
  unfolding release_kv_cache_def release_rest_def by (simp add: rbind_assoc split_def cong: if_cong)

lemma release_rest_ok:
  assumes own: "kv_own k ps N (kv_pool m) (mset (drop (cdiv (cache_commit_len (strip_thinking_cache sa) r) ps) pgs) + W)"
    and slots: "holds_slots ps m r pgs" and len: "cache_commit_len (strip_thinking_cache sa) r \<le> kv_allocated_len r"
    and sa: "sa_page_size sa = ps" and freed: "\<not> kv_overallocated_freed r"
    and exact: "speculative_algorithm sa = None \<Longrightarrow> \<not> strip_thinking_cache sa \<Longrightarrow> kv_committed_len r = kv_allocated_len r"
    and rows: "rows_own (row_pool m) (add_mset i R)" "req_pool_idx r = Some i"
  shows "\<exists>a rows'. release_rest k sa r m = Inr (r\<lparr>kv_overallocated_freed := True, req_pool_idx := None\<rparr>, \<lparr>kv_pool = a, row_pool = rows'\<rparr>) \<and>
    kv_own k ps N a W \<and> rows_own rows' R \<and> req_to_token rows' = req_to_token (row_pool m)"
proof -
  let ?s = "cache_commit_len (strip_thinking_cache sa) r" and ?e = "kv_allocated_len r" and ?r = "r\<lparr>kv_overallocated_freed := True\<rparr>"
  have ps: "0 < ps" by (rule kv.page_size_pos [OF own])
  have start: "(if sa_page_size sa > 1 then ceil_align ?s (sa_page_size sa) else Inr ?s) = Inr (cdiv ?s ps * ps)"
    using ps by (auto simp: sa ceil_align_def ceil_div_def cdiv_def)
  define row where "row = take ?e (req_to_token (row_pool m) ! i)"
  have row: "row_prefix m ?r ?e = Inr row" "length row = ?e" "layout ps row pgs"
    using slots rows(2) by (auto simp: holds_slots_def row_prefix_def row_def)
  have "\<exists>a. (if cdiv ?s ps * ps < ?e then rbind (row_prefix m ?r ?e) (\<lambda>row. memory_free k m (drop (cdiv ?s ps * ps) row)) else Inr m) =
      Inr (m\<lparr>kv_pool := a\<rparr>) \<and> kv_own k ps N a W"
  proof (cases "cdiv ?s ps * ps < ?e")
    case True
    have "kv_own k ps N (kv_pool m) (mset (drop (cdiv ?s ps * ps div ps) pgs) + W)" using own ps by simp
    from free_tail [OF this row(3)] obtain a where "memory_free k m (drop (cdiv ?s ps * ps) row) = Inr (m\<lparr>kv_pool := a\<rparr>)" "kv_own k ps N a W"
      by (metis dvd_triv_right)
    then show ?thesis using True row(1) by auto
  next
    case False
    then have "cdiv ?e ps \<le> cdiv ?s ps" using cdiv_mono [of ?e "cdiv ?s ps * ps" ps] ps by simp
    then have "drop (cdiv ?s ps) pgs = []" using row(2,3) by (simp add: layout_def)
    then show ?thesis using False own by (auto intro!: exI [of _ "kv_pool m"])
  qed
  then obtain a where a: "(if cdiv ?s ps * ps < ?e then rbind (row_prefix m ?r ?e) (\<lambda>row. memory_free k m (drop (cdiv ?s ps * ps) row)) else Inr m) =
      Inr (m\<lparr>kv_pool := a\<rparr>)" "kv_own k ps N a W" by blast
  have commit: "cache_commit_len (strip_thinking_cache sa) ?r = ?s" by (simp add: cache_commit_len_def)
  have eq: "(if speculative_algorithm sa = None \<and> \<not> strip_thinking_cache sa then rassert (?s = ?e) AssertionError else Inr ()) = Inr ()"
    using exact by (simp add: cache_commit_len_def)
  obtain rows' where rows': "pool_free (row_pool m) ?r = Inr (?r\<lparr>req_pool_idx := None\<rparr>, rows')" "rows_own rows' R"
      "req_to_token rows' = req_to_token (row_pool m)"
    using pool_free_ok [OF rows(1), of ?r] rows(2) by auto
  have "release_rest k sa r m = Inr (r\<lparr>kv_overallocated_freed := True, req_pool_idx := None\<rparr>, \<lparr>kv_pool = a, row_pool = rows'\<rparr>)"
  proof -
    have pop: "pop_overallocated_kv_cache (strip_thinking_cache sa) r = Inr (?s, ?e, ?r)"
      using freed by (simp add: pop_overallocated_kv_cache_def Let_def commit)
    show ?thesis unfolding release_rest_def pop rbind_Inr prod.case eq start a(1) using rows'(1) by simp
  qed
  then show ?thesis using a(2) rows'(2,3) by blast
qed

lemma layout_take:
  assumes "0 < ps" "layout ps xs pgs" "n \<le> length xs"
  shows "layout ps (take n xs) (take (cdiv n ps) pgs)"
  using layout_slice [OF assms, of 0] by (simp add: slice_def)

lemma holds_committed:
  assumes "holds_slots ps m r pgs" "0 < ps" "n \<le> kv_allocated_len r"
  shows "\<exists>i. req_pool_idx r = Some i \<and> i < length (req_to_token (row_pool m)) \<and> n \<le> length (req_to_token (row_pool m) ! i) \<and>
     layout ps (take n (req_to_token (row_pool m) ! i)) (take (cdiv n ps) pgs)"
proof -
  obtain i where i: "req_pool_idx r = Some i" "i < length (req_to_token (row_pool m))"
      "kv_allocated_len r \<le> length (req_to_token (row_pool m) ! i)"
      "layout ps (take (kv_allocated_len r) (req_to_token (row_pool m) ! i)) pgs"
    using assms(1) by (auto simp: holds_slots_def)
  then show ?thesis using layout_take [OF assms(2) i(4), of n] assms(3) by (simp add: min_absorb1 min_def)
qed

lemma release_radix_ok:
  assumes inv: "cache_inv c L" and on: "\<not> disable c" and whole: "whole_pages c"
    and own: "kv_own k (rc_page_size c) N (kv_pool m) (tree_pages c + own_pages c r pgs + V)"
    and att: "attached c m r toks (take (cdiv (length toks) (rc_page_size c)) pgs)" and nd: "last_node r = Some nd" "nd \<in># L"
    and toks: "toks = take (cache_commit_len (strip_thinking_cache sa) r) (origin_input_ids r @ output_ids r)"
      "length toks = cache_commit_len (strip_thinking_cache sa) r"
    and slots: "holds_slots (rc_page_size c) m r pgs" "cache_commit_len (strip_thinking_cache sa) r \<le> kv_allocated_len r"
    and sa: "sa_page_size sa = rc_page_size c" and freed: "\<not> kv_committed_freed r" "\<not> kv_overallocated_freed r"
    and exact: "speculative_algorithm sa = None \<Longrightarrow> \<not> strip_thinking_cache sa \<Longrightarrow> kv_committed_len r = kv_allocated_len r"
    and rows: "rows_own (row_pool m) (add_mset i R)" "req_pool_idx r = Some i"
  shows "\<exists>a rows' c'. release_kv_cache k sa access created m (RadixCache c) r is_insert =
      Inr (released r, \<lparr>kv_pool = a, row_pool = rows'\<rparr>, RadixCache c') \<and>
    cache_inv c' (L - {#nd#}) \<and> whole_pages c' \<and> keeps c c' \<and> kv_own k (rc_page_size c) N a (tree_pages c' + V) \<and>
    rows_own rows' R \<and> req_to_token rows' = req_to_token (row_pool m)"
proof -
  let ?ps = "rc_page_size c" and ?q = "cdiv (length toks) (rc_page_size c)"
  have ps: "0 < ?ps" by (rule kv.page_size_pos [OF own])
  have "cache_protected_len r \<le> length toks" using att req_key_len(2) [OF ps, of r toks] by (simp add: attached_def)
  then have "cache_protected_len r div ?ps \<le> ?q"
    unfolding cdiv_def using ps by (intro div_le_mono) simp
  then have "own_pages c r pgs = own_pages c r (take ?q pgs) + mset (drop ?q pgs)"
    using split_pages [of "cache_protected_len r div ?ps" ?q ?q pgs] by (simp add: own_pages_def slice_def drop_take)
  then have "kv_own k ?ps N (kv_pool m) (tree_pages c + own_pages c r (take ?q pgs) + (mset (drop ?q pgs) + V))"
    using own by (simp add: ac_simps)
  from finished_ok [OF inv on whole this att nd toks(1) freed(1), of access created "is_insert \<and> \<not> skip_radix_cache_insert r"]
  obtain a c' where fin: "radix_cache_finished_req k sa access created m c r (is_insert \<and> \<not> skip_radix_cache_insert r) =
        Inr (r\<lparr>kv_committed_freed := True\<rparr>, m\<lparr>kv_pool := a\<rparr>, c')"
      and c': "cache_inv c' (L - {#nd#})" "whole_pages c'" "keeps c c'"
      and own': "kv_own k ?ps N a (tree_pages c' + (mset (drop ?q pgs) + V))" by blast
  let ?r = "r\<lparr>kv_committed_freed := True\<rparr>" and ?m = "m\<lparr>kv_pool := a\<rparr>"
  have "kv_own k ?ps N (kv_pool ?m) (mset (drop (cdiv (cache_commit_len (strip_thinking_cache sa) ?r) ?ps) pgs) + (tree_pages c' + V))"
    using own' by (simp add: toks(2) ac_simps)
  moreover have "holds_slots ?ps ?m ?r pgs" using slots(1) by (simp add: holds_slots_def)
  ultimately obtain a' rows' where "release_rest k sa ?r ?m = Inr (?r\<lparr>kv_overallocated_freed := True, req_pool_idx := None\<rparr>, \<lparr>kv_pool = a', row_pool = rows'\<rparr>)"
    "kv_own k ?ps N a' (tree_pages c' + V)" "rows_own rows' R" "req_to_token rows' = req_to_token (row_pool m)"
    using release_rest_ok [of k ?ps N ?m sa ?r pgs "tree_pages c' + V" i R] slots(2) sa freed(2) exact rows by auto
  then show ?thesis using fin c' rows(2) by (simp add: release_split cache_finished_req_def released_def)
qed

lemma release_chunk_ok:
  assumes own: "kv_own k ps N (kv_pool m) (mset pgs + V)"
    and slots: "holds_slots ps m r pgs" "cache_commit_len (strip_thinking_cache sa) r \<le> kv_allocated_len r"
    and sa: "sa_page_size sa = ps" and freed: "\<not> kv_committed_freed r" "\<not> kv_overallocated_freed r"
    and exact: "speculative_algorithm sa = None \<Longrightarrow> \<not> strip_thinking_cache sa \<Longrightarrow> kv_committed_len r = kv_allocated_len r"
    and rows: "rows_own (row_pool m) (add_mset i R)" "req_pool_idx r = Some i"
  shows "\<exists>a rows'. release_kv_cache k sa access created m (ChunkCache ps') r is_insert =
      Inr (released r, \<lparr>kv_pool = a, row_pool = rows'\<rparr>, ChunkCache ps') \<and>
    kv_own k ps N a V \<and> rows_own rows' R \<and> req_to_token rows' = req_to_token (row_pool m)"
proof -
  let ?n = "cache_commit_len (strip_thinking_cache sa) r" and ?r = "r\<lparr>kv_committed_freed := True\<rparr>"
  have ps: "0 < ps" by (rule kv.page_size_pos [OF own])
  define kv where "kv = take ?n (req_to_token (row_pool m) ! i)"
  have kv: "row_prefix m ?r ?n = Inr kv" "layout ps kv (take (cdiv ?n ps) pgs)"
    using holds_committed [OF slots(1) ps slots(2)] rows(2) by (auto simp: row_prefix_def kv_def)
  have "mset pgs = mset (take (cdiv ?n ps) pgs) + mset (drop (cdiv ?n ps) pgs)" by (metis append_take_drop_id mset_append)
  then have "kv_own k ps N (kv_pool m) (mset (take (cdiv ?n ps) pgs) + (mset (drop (cdiv ?n ps) pgs) + V))" using own by (simp add: ac_simps)
  from kv.free_layout [OF this kv(2)] obtain a where a: "memory_free k m kv = Inr (m\<lparr>kv_pool := a\<rparr>)"
      "kv_own k ps N a (mset (drop (cdiv ?n ps) pgs) + V)" using memory_free_eq by blast
  let ?m = "m\<lparr>kv_pool := a\<rparr>"
  have "holds_slots ps ?m ?r pgs" using slots(1) by (simp add: holds_slots_def)
  then obtain a' rows' where "release_rest k sa ?r ?m = Inr (?r\<lparr>kv_overallocated_freed := True, req_pool_idx := None\<rparr>, \<lparr>kv_pool = a', row_pool = rows'\<rparr>)"
    "kv_own k ps N a' V" "rows_own rows' R" "req_to_token rows' = req_to_token (row_pool m)"
    using release_rest_ok [of k ps N ?m sa ?r pgs V i R] a(2) slots(2) sa freed(2) exact rows by auto
  moreover have "chunk_cache_finished_req k sa m r = Inr (?r, ?m)"
    using freed(1) kv(1) a(1) by (simp add: chunk_cache_finished_req_def pop_committed_kv_cache_def Let_def)
  ultimately show ?thesis using rows(2) by (simp add: release_split cache_finished_req_def released_def)
qed

end
