(* ===== verification/Kv_Serving.thy ===== *)
theory Kv_Serving
  imports Cache_Memory
begin

text \<open>
  Allocation for a batch, \<^verbatim>\<open>mem_cache/common.py\<close>: eviction from the prefix cache when the pool runs low,
  \<^verbatim>\<open>alloc_token_slots\<close>, its paged variants, and \<^verbatim>\<open>alloc_for_extend\<close> and \<^verbatim>\<open>alloc_for_decode\<close>, which also allocate rows and
  fill the table.

  \<open>schedule_batch\<close> holds the fields of \<^verbatim>\<open>ScheduleBatch\<close> that allocation reads; the device copies of a tensor equal
  its host copy. \<open>device\<close> holds what the kernels leave open: the value of masked lanes, the memory behind the
  list of free pages, the order of the programs, and the content of fresh memory. Filling the table is
  the loop \<open>write_cache_indices\<close>, to which the kernel is equal. The hybrid allocator and encoder caches with sliding
  windows are not modelled.
\<close>

section \<open>Definitions\<close>

record device =
  lane_other :: int
  page_junk :: "int \<Rightarrow> int"
  program_order :: "nat \<Rightarrow> nat list"
  fresh_memory :: int

record schedule_batch =
  reqs :: "request list"
  prefix_lens :: "nat list"
  extend_lens :: "nat list"
  seq_lens :: "nat list"
  extend_num_tokens :: nat
  req_pool_indices :: "nat list"
  encoder_lens :: "nat list option"

definition cache_page_size :: "prefix_cache \<Rightarrow> nat" where
  "cache_page_size tree = (case tree of RadixCache c \<Rightarrow> rc_page_size c | ChunkCache ps \<Rightarrow> ps)"

definition evict_from_tree_cache ::
  "allocator_class \<Rightarrow> kv_memory \<Rightarrow> prefix_cache \<Rightarrow> nat \<Rightarrow> (kv_memory \<times> prefix_cache) result" where
  "evict_from_tree_cache k m tree num_tokens =
     (case tree of
        ChunkCache ps \<Rightarrow> Inr (m, tree)
      | RadixCache c \<Rightarrow>
          if kv_available_size k (kv_pool m) < num_tokens
          then rbind (evict c (int num_tokens)) (\<lambda>(num_evicted, freed, c).
               rbind (foldM (kv_free k) (kv_pool m) freed) (\<lambda>a.
               Inr (m\<lparr>kv_pool := a\<rparr>, RadixCache c)))
          else Inr (m, tree))"

definition alloc_token_slots ::
  "allocator_class \<Rightarrow> kv_memory \<Rightarrow> prefix_cache \<Rightarrow> nat \<Rightarrow> bool
     \<Rightarrow> (int list \<times> (int list \<times> int list) option \<times> kv_memory \<times> prefix_cache) result" where
  "alloc_token_slots k m tree num_tokens backup =
     rbind (evict_from_tree_cache k m tree num_tokens) (\<lambda>(m, tree).
     let state = (if backup then Some (backup_state (kv_pool m)) else None)
     in rbind (kv_alloc k (kv_pool m) num_tokens) (\<lambda>(out_cache_loc, a).
        case out_cache_loc of
          None \<Rightarrow> Inl RuntimeError
        | Some locs \<Rightarrow> Inr (locs, state, m\<lparr>kv_pool := a\<rparr>, tree)))"

text \<open>The kernels' output; a cell that no program wrote holds fresh memory.\<close>

definition read_output :: "device \<Rightarrow> int option list \<Rightarrow> int list" where
  "read_output dev out = map (\<lambda>x. case x of Some v \<Rightarrow> v | None \<Rightarrow> fresh_memory dev) out"

definition kv_alloc_extend ::
  "device \<Rightarrow> allocator_class \<Rightarrow> allocator \<Rightarrow> nat list \<Rightarrow> nat list \<Rightarrow> int list \<Rightarrow> nat \<Rightarrow> (int list option \<times> allocator) result" where
  "kv_alloc_extend dev k a pre seq last_loc n =
     (case k of
        TokenToKVPool \<Rightarrow> Inl NotImplementedError
      | PagedTokenToKVPool \<Rightarrow>
          rbind (alloc_extend (lane_other dev) (page_junk dev) (program_order dev (length seq)) a (map int pre) (map int pre)
                   (map int seq) (map int seq) last_loc n None) (\<lambda>(out, a). Inr (map_option (read_output dev) out, a)))"

definition kv_alloc_decode ::
  "device \<Rightarrow> allocator_class \<Rightarrow> allocator \<Rightarrow> nat list \<Rightarrow> int list \<Rightarrow> (int list option \<times> allocator) result" where
  "kv_alloc_decode dev k a seq last_loc =
     (case k of
        TokenToKVPool \<Rightarrow> Inl NotImplementedError
      | PagedTokenToKVPool \<Rightarrow>
          rbind (alloc_decode (lane_other dev) (page_junk dev) (program_order dev (length seq)) a (map int seq) (map int seq) last_loc)
            (\<lambda>(out, a). Inr (map_option (read_output dev) out, a)))"

definition alloc_paged_token_slots_extend ::
  "device \<Rightarrow> allocator_class \<Rightarrow> kv_memory \<Rightarrow> prefix_cache \<Rightarrow> nat list \<Rightarrow> nat list \<Rightarrow> int list \<Rightarrow> nat \<Rightarrow> bool
     \<Rightarrow> (int list \<times> (int list \<times> int list) option \<times> kv_memory \<times> prefix_cache) result" where
  "alloc_paged_token_slots_extend dev k m tree pre seq last_loc extend_num backup =
     (let num_tokens = extend_num + length seq * page_size (kv_pool m)
      in rbind (evict_from_tree_cache k m tree num_tokens) (\<lambda>(m, tree).
         let state = (if backup then Some (backup_state (kv_pool m)) else None)
         in rbind (kv_alloc_extend dev k (kv_pool m) pre seq last_loc extend_num) (\<lambda>(out_cache_loc, a).
            case out_cache_loc of
              None \<Rightarrow> Inl RuntimeError
            | Some locs \<Rightarrow> Inr (locs, state, m\<lparr>kv_pool := a\<rparr>, tree))))"

definition alloc_paged_token_slots_decode ::
  "device \<Rightarrow> allocator_class \<Rightarrow> kv_memory \<Rightarrow> prefix_cache \<Rightarrow> nat list \<Rightarrow> int list \<Rightarrow> (int list \<times> kv_memory \<times> prefix_cache) result" where
  "alloc_paged_token_slots_decode dev k m tree seq last_loc =
     (let num_tokens = length seq * page_size (kv_pool m)
      in rbind (evict_from_tree_cache k m tree num_tokens) (\<lambda>(m, tree).
         rbind (kv_alloc_decode dev k (kv_pool m) seq last_loc) (\<lambda>(out_cache_loc, a).
         case out_cache_loc of
           None \<Rightarrow> Inl RuntimeError
         | Some locs \<Rightarrow> Inr (locs, m\<lparr>kv_pool := a\<rparr>, tree))))"

definition alloc_req_slots :: "req_to_token_pool \<Rightarrow> request list \<Rightarrow> (nat list \<times> request list \<times> req_to_token_pool) result" where
  "alloc_req_slots pool rs =
     rbind (pool_alloc pool rs) (\<lambda>(req_pool_indices, rs, pool).
     case req_pool_indices of
       None \<Rightarrow> Inl RuntimeError
     | Some is \<Rightarrow> Inr (map the is, rs, pool))"

definition last_locs :: "int list list \<Rightarrow> int list" where
  "last_locs prefix_tensors = map (\<lambda>t. if t = [] then - 1 else last t) prefix_tensors"

text \<open>\<^verbatim>\<open>alloc_for_extend\<close>: the slots, the rows, and the batch, pools and cache after the call.\<close>

definition alloc_for_extend ::
  "device \<Rightarrow> allocator_class \<Rightarrow> schedule_batch \<Rightarrow> kv_memory \<Rightarrow> prefix_cache
     \<Rightarrow> (int list \<times> nat list \<times> schedule_batch \<times> kv_memory \<times> prefix_cache) result" where
  "alloc_for_extend dev k batch m tree =
     (let prefix_tensors = map prefix_indices (reqs batch)
      in rbind (alloc_req_slots (row_pool m) (reqs batch)) (\<lambda>(req_pool_indices, rs, pool).
         let batch = batch\<lparr>reqs := rs\<rparr>; m = m\<lparr>row_pool := pool\<rparr>
         in rbind (if cache_page_size tree = 1
                   then alloc_token_slots k m tree (extend_num_tokens batch) False
                   else alloc_paged_token_slots_extend dev k m tree (prefix_lens batch) (seq_lens batch)
                          (last_locs prefix_tensors) (extend_num_tokens batch) False) (\<lambda>(out_cache_loc, state, m, tree).
            rbind (write_cache_indices req_pool_indices (prefix_lens batch) (seq_lens batch) (extend_lens batch)
                     prefix_tensors out_cache_loc (row_pool m)) (\<lambda>pool.
            Inr (out_cache_loc, req_pool_indices, batch, m\<lparr>row_pool := pool\<rparr>, tree)))))"

text \<open>Assignment to a list of cells; a single value is broadcast.\<close>

definition pool_write_cells :: "req_to_token_pool \<Rightarrow> nat list \<Rightarrow> nat list \<Rightarrow> int list \<Rightarrow> req_to_token_pool result" where
  "pool_write_cells pool rows cols values =
     (let values = (if length values = 1 then replicate (length rows) (hd values) else values)
      in if length values = length rows \<and> length cols = length rows
         then foldM pool_write_cell pool (zip rows (zip cols values)) else Inl RuntimeError)"

definition alloc_for_decode ::
  "device \<Rightarrow> allocator_class \<Rightarrow> schedule_batch \<Rightarrow> nat \<Rightarrow> kv_memory \<Rightarrow> prefix_cache \<Rightarrow> (int list \<times> kv_memory \<times> prefix_cache) result" where
  "alloc_for_decode dev k batch token_per_req m tree =
     (let bs = length (seq_lens batch)
      in rbind (if cache_page_size tree = 1
                then rbind (alloc_token_slots k m tree (bs * token_per_req) False) (\<lambda>(locs, state, m, tree). Inr (locs, m, tree))
                else rbind (mmap (\<lambda>(i, n). if i < length (req_to_token (row_pool m)) then py_get (req_to_token (row_pool m) ! i) (int n - 1)
                                           else Inl IndexError) (zip (req_pool_indices batch) (seq_lens batch))) (\<lambda>last_loc.
                     alloc_paged_token_slots_decode dev k m tree (map (\<lambda>n. n + token_per_req) (seq_lens batch)) last_loc))
           (\<lambda>(out_cache_loc, m, tree).
         let locs = (case encoder_lens batch of None \<Rightarrow> seq_lens batch | Some e \<Rightarrow> map2 (+) e (seq_lens batch))
         in rbind (pool_write_cells (row_pool m) (req_pool_indices batch) locs out_cache_loc) (\<lambda>pool.
            Inr (out_cache_loc, m\<lparr>row_pool := pool\<rparr>, tree))))"

section \<open>Counting pages\<close>

text \<open>\<open>settled\<close>: no free group is open, and pages wait in the release list only where the allocator merges it.\<close>

definition settled :: "allocator \<Rightarrow> bool" where
  "settled a \<longleftrightarrow> is_not_in_free_group a \<and> (need_sort a \<or> release_pages a = [])"

lemma kv_own_owns: "kv_own k ps N a U \<Longrightarrow> page_size a = ps \<and> owns (kv_pages k ps) N a U"
  by (cases k) (auto simp: kv_own_def kv_pages_def token_own_def paged_own_def)

lemma pages_on_hand:
  assumes "kv_own k ps N a U" "settled a"
  shows "length (free_pages a) + length (release_pages a) + size U = N"
proof -
  have "mset (free_pages a) + mset (release_pages a) + U = mset [1..int N]"
    using kv_own_owns [OF assms(1)] assms(2) by (simp add: owns_def settled_def)
  then have "size (mset (free_pages a) + mset (release_pages a) + U) = size (mset [1..int N])" by simp
  then show ?thesis by simp
qed

lemma available_count:
  assumes "kv_own k ps N a U" "settled a"
  shows "kv_available_size k a = (N - size U) * ps" "size U \<le> N"
proof -
  have n: "length (free_pages a) + length (release_pages a) = N - size U" "size U \<le> N"
    using pages_on_hand [OF assms] by linarith+
  show "size U \<le> N" by (rule n(2))
  show "kv_available_size k a = (N - size U) * ps"
    using assms(1) n(1) kv_own_owns [OF assms(1)]
    by (cases k) (auto simp: kv_available_size_def token_available_size_def available_size_def kv_own_def)
qed

lemma settled_free: "kv_free k a idx = Inr a' \<Longrightarrow> settled a \<Longrightarrow> settled a'"
  by (cases k) (auto simp: kv_free_def token_free_def paged_free_def settled_def Let_def rbind_eq_Inr_iff split: if_splits)

lemma settled_frees: "foldM (kv_free k) a vs = Inr a' \<Longrightarrow> settled a \<Longrightarrow> settled a'"
  by (induction vs arbitrary: a) (auto simp: rbind_eq_Inr_iff dest: settled_free)

lemma settled_merge [simp]: "settled a \<Longrightarrow> settled (merge_and_sort_free a)"
  by (auto simp: settled_def merge_and_sort_free_def)

lemma settled_take [simp]: "settled (a\<lparr>free_pages := xs\<rparr>) = settled a"
  by (simp add: settled_def)

lemma settled_alloc: "kv_alloc k a n = Inr (out, a') \<Longrightarrow> settled a \<Longrightarrow> settled a'"
  by (cases k) (auto simp: kv_alloc_def token_alloc_def paged_alloc_def Let_def rbind_eq_Inr_iff split: if_splits)

lemma length_block [simp]: "length (block ps p) = ps"
  by (simp add: block_def)

lemma layout_blocks:
  assumes ps: "0 < ps"
  shows "layout ps (concat (map (block ps) pgs)) pgs" "length (concat (map (block ps) pgs)) = length pgs * ps"
proof (induction pgs)
  case (Cons p pgs)
  have "layout ps (block ps p) [p]" using ps cdiv_mult [OF ps, of 1] by (simp add: layout_def block_def)
  then show "layout ps (concat (map (block ps) (p # pgs))) (p # pgs)"
    using layout_append [OF ps, of "block ps p" "[p]" "concat (map (block ps) pgs)" pgs] Cons(1) by simp
  show "length (concat (map (block ps) (p # pgs))) = length (p # pgs) * ps" using Cons(2) by simp
qed (use ps in \<open>simp_all add: layout_def cdiv_def\<close>)

text \<open>Allocation of whole pages succeeds exactly when they are on hand.\<close>

lemma kv_alloc_some:
  assumes own: "kv_own k ps N a U" and settled: "settled a" and n: "ps dvd n" "n \<le> kv_available_size k a"
  shows "\<exists>locs a' pgs. kv_alloc k a n = Inr (Some locs, a') \<and> length locs = n \<and> layout ps locs pgs \<and>
    kv_own k ps N a' (mset pgs + U) \<and> settled a'"
proof -
  have ps: "0 < ps" by (rule kv.page_size_pos [OF own])
  define low where "low = (length (free_pages a) < n div ps)"
  define a1 where "a1 = merged low a"
  define pgs where "pgs = take (n div ps) (free_pages a1)"
  have count: "length (free_pages a) + length (release_pages a) = N - size U" using pages_on_hand [OF own settled] by linarith
  have "n div ps \<le> N - size U" using n(2) ps unfolding available_count(1) [OF own settled]
    by (metis div_le_mono nonzero_mult_div_cancel_right neq0_conv)
  then have enough: "n div ps \<le> length (free_pages a1)"
    using count settled unfolding a1_def low_def merged_enough by (auto simp: settled_def)
  have eval: "kv_alloc k a n = Inr (Some (concat (map (block ps) pgs)), a1\<lparr>free_pages := drop (n div ps) (free_pages a1)\<rparr>)"
  proof (cases k)
    case TokenToKVPool
    then have "ps = 1" using own by (simp add: kv_own_def)
    moreover have "concat (map (block 1) xs) = xs" for xs by (induction xs) (simp_all add: block_def)
    ultimately show ?thesis using enough TokenToKVPool
      by (simp add: kv_alloc_def token_alloc_def a1_def merged_def low_def pgs_def Let_def)
  next
    case PagedTokenToKVPool
    have "n mod ps = 0" using n(1) by simp
    then show ?thesis using paged_alloc_eq [of a ps n] enough kv_own_owns [OF own] PagedTokenToKVPool
      by (simp add: kv_alloc_def a1_def low_def pgs_def Let_def block_def [abs_def])
  qed
  have len: "length pgs = n div ps" using enough by (simp add: pgs_def)
  from kv.alloc_some [OF own eval] have own': "kv_own k ps N (a1\<lparr>free_pages := drop (n div ps) (free_pages a1)\<rparr>) (U + mset (kv_pages k ps (concat (map (block ps) pgs))))" .
  have "distinct pgs" using owns_free_distinct kv_own_owns [OF own] unfolding pgs_def a1_def
    by (metis distinct_take merged_def owns_merge)
  then have "mset (kv_pages k ps (concat (map (block ps) pgs))) = mset pgs"
    by (rule kv.pages_layout [OF own layout_blocks(1) [OF ps]])
  then show ?thesis
    using eval own' len settled_alloc [OF eval settled] layout_blocks [OF ps, of pgs] n(1) by (auto simp: add.commute)
qed

lemma kv_alloc_none:
  assumes own: "kv_own k ps N a U" and settled: "settled a" and n: "ps dvd n" "\<not> n \<le> kv_available_size k a"
  shows "\<exists>a'. kv_alloc k a n = Inr (None, a')"
proof -
  have ps: "0 < ps" by (rule kv.page_size_pos [OF own])
  have count: "length (free_pages a) + length (release_pages a) = N - size U" using pages_on_hand [OF own settled] by linarith
  have "N - size U < n div ps" using n ps unfolding available_count(1) [OF own settled]
    by (metis dvd_div_mult_self mult_le_mono1 not_le)
  then have few: "\<not> n div ps \<le> length (free_pages (merged (length (free_pages a) < n div ps) a))"
    using count unfolding merged_enough by auto
  show ?thesis
  proof (cases k)
    case TokenToKVPool
    then have "ps = 1" using own by (simp add: kv_own_def)
    then show ?thesis using few TokenToKVPool by (auto simp: kv_alloc_def token_alloc_def merged_def Let_def)
  next
    case PagedTokenToKVPool
    have "n mod ps = 0" using n(1) by simp
    then show ?thesis using paged_alloc_eq [of a ps n] few kv_own_owns [OF own] PagedTokenToKVPool
      by (simp add: kv_alloc_def Let_def)
  qed
qed

section \<open>Eviction before allocation\<close>

text \<open>
  What a request that holds a lock may rely on when other nodes are evicted; \<open>evictable\<close> counts tokens and
  the pool counts pages, so the sum of both stays what it was.
\<close>

lemma evictable_nonneg: "cache_inv c L \<Longrightarrow> 0 \<le> evictable_size c"
proof -
  assume inv: "cache_inv c L"
  have "0 \<le> sum_list (map (\<lambda>x. if lock_ref (ndata x) = 0 then int (key_len (nkey (ndata x))) else 0) xs)" for xs :: "tree_node list"
    by (induction xs) auto
  then show ?thesis using inv by (simp add: cache_inv_def unlocked_size_def tsum_nodes)
qed

lemma size_chunks:
  assumes "0 < ps" "\<forall>v \<in> set fr. ps dvd length v"
  shows "length (concat (map (chunks ps) fr)) * ps = length (concat fr)"
  using assms(2) by (induction fr) (simp_all add: chunks_def distrib_right)

lemma evict_tokens_ok:
  assumes inv: "cache_inv c L" and on: "\<not> disable c" and whole: "whole_pages c"
    and own: "kv_own k (rc_page_size c) N a (tree_pages c + V)" and settled: "settled a"
  shows "\<exists>n fr c' a'. evict c (int num) = Inr (n, fr, c') \<and> foldM (kv_free k) a fr = Inr a' \<and>
    cache_inv c' L \<and> whole_pages c' \<and> same_config c c' \<and> kept_paths L c c' \<and> mset (contents c') \<subseteq># mset (contents c) \<and>
    kv_own k (rc_page_size c) N a' (tree_pages c' + V) \<and> settled a' \<and>
    (num \<le> kv_available_size k a' \<or> evictable_size c' = 0) \<and>
    int (kv_available_size k a') + evictable_size c' = int (kv_available_size k a) + evictable_size c"
proof -
  let ?ps = "rc_page_size c"
  have ps: "0 < ?ps" by (rule kv.page_size_pos [OF own])
  obtain fr c' where ev: "evict c (int num) = Inr (int (length (concat fr)), fr, c')" "evicted L c fr c'"
      "int num \<le> int (length (concat fr)) \<or> evictable_size c' = 0"
    using evict_ok [OF inv on, of "int num"] by blast
  note e = ev(2) [unfolded evicted_def]
  have sc: "rc_page_size c' = ?ps" using e by (simp add: same_config_def)
  have lists: "page_lists c = page_lists c' + mset (concat (map (chunks ?ps) fr))" and dvd: "\<forall>v \<in> set fr. ?ps dvd length v"
    using e by blast+
  have tp: "tree_pages c = image_mset (page_no ?ps) (mset (concat (map (chunks ?ps) fr))) + tree_pages c'"
    unfolding tree_pages_def sc lists by simp
  have wh: "whole_pages c'" "\<forall>w \<in> set (concat (map (chunks ?ps) fr)). w = block ?ps (page_no ?ps w)"
    using whole unfolding whole_pages_def sc lists by auto
  have "kv_own k ?ps N a (image_mset (page_no ?ps) (mset (concat (map (chunks ?ps) fr))) + (tree_pages c' + V))"
    using own unfolding tp by (simp add: add.assoc)
  from kv.free_values [OF this dvd wh(2)] obtain a' where a': "foldM (kv_free k) a fr = Inr a'" "kv_own k ?ps N a' (tree_pages c' + V)" by blast
  have settled': "settled a'" by (rule settled_frees [OF a'(1) settled])
  define q where "q = length (concat (map (chunks ?ps) fr))"
  have q: "q * ?ps = length (concat fr)" unfolding q_def by (rule size_chunks [OF ps dvd])
  have "size (tree_pages c + V) = q + size (tree_pages c' + V)" unfolding tp q_def by simp
  then have "N - size (tree_pages c' + V) = N - size (tree_pages c + V) + q"
    using available_count(2) [OF own settled] by linarith
  then have av: "kv_available_size k a' = kv_available_size k a + length (concat fr)"
    unfolding available_count(1) [OF own settled] available_count(1) [OF a'(2) settled'] by (simp add: distrib_right q)
  have "evictable_size c' = evictable_size c - int (length (concat fr))" using e by blast
  then show ?thesis using ev(1,3) e a' wh(1) settled' av by (intro exI [of _ "int (length (concat fr))"] exI [of _ fr] exI [of _ c'] exI [of _ a']) auto
qed

definition shrinks :: "nat multiset \<Rightarrow> radix_cache \<Rightarrow> radix_cache \<Rightarrow> bool" where
  "shrinks L c c' \<longleftrightarrow> same_config c c' \<and> kept_paths L c c' \<and> set (contents c') \<subseteq> set (contents c)"

lemma shrinks_refl: "shrinks L c c"
  by (simp add: shrinks_def same_config_def kept_paths_def)

text \<open>\<open>kv_state k N L V m c\<close>: the pool, the cache with its locks \<open>L\<close>, and the pages \<open>V\<close> held by requests.\<close>

definition kv_state :: "allocator_class \<Rightarrow> nat \<Rightarrow> nat multiset \<Rightarrow> int multiset \<Rightarrow> kv_memory \<Rightarrow> radix_cache \<Rightarrow> bool" where
  "kv_state k N L V m c \<longleftrightarrow> cache_inv c L \<and> \<not> disable c \<and> whole_pages c \<and>
     kv_own k (rc_page_size c) N (kv_pool m) (tree_pages c + V) \<and> settled (kv_pool m)"

definition room :: "allocator_class \<Rightarrow> kv_memory \<Rightarrow> radix_cache \<Rightarrow> int" where
  "room k m c = int (kv_available_size k (kv_pool m)) + evictable_size c"

lemma evict_from_ok:
  assumes st: "kv_state k N L V m c"
  shows "\<exists>a c'. evict_from_tree_cache k m (RadixCache c) num = Inr (m\<lparr>kv_pool := a\<rparr>, RadixCache c') \<and>
    kv_state k N L V (m\<lparr>kv_pool := a\<rparr>) c' \<and> shrinks L c c' \<and> room k (m\<lparr>kv_pool := a\<rparr>) c' = room k m c \<and>
    (num \<le> kv_available_size k a \<or> evictable_size c' = 0)"
proof (cases "kv_available_size k (kv_pool m) < num")
  case False
  then show ?thesis using st shrinks_refl
    by (intro exI [of _ "kv_pool m"] exI [of _ c]) (simp add: evict_from_tree_cache_def)
next
  case True
  note s = st [unfolded kv_state_def]
  obtain n fr c' a' where ev: "evict c (int num) = Inr (n, fr, c')" "foldM (kv_free k) (kv_pool m) fr = Inr a'"
    and c': "cache_inv c' L" "whole_pages c'" "same_config c c'" "kept_paths L c c'" "mset (contents c') \<subseteq># mset (contents c)"
    and own: "kv_own k (rc_page_size c) N a' (tree_pages c' + V)" "settled a'"
    and room: "num \<le> kv_available_size k a' \<or> evictable_size c' = 0"
      "int (kv_available_size k a') + evictable_size c' = int (kv_available_size k (kv_pool m)) + evictable_size c"
    using evict_tokens_ok [of c L k N "kv_pool m" V num] s by blast
  have "set (contents c') \<subseteq> set (contents c)" using set_mset_mono [OF c'(5)] by (simp only: set_mset_mset)
  then have "shrinks L c c'" using c'(3,4) unfolding shrinks_def by blast
  moreover have "kv_state k N L V (m\<lparr>kv_pool := a'\<rparr>) c'"
    using c'(1,2,3) own s by (simp add: kv_state_def same_config_def)
  moreover have "evict_from_tree_cache k m (RadixCache c) num = Inr (m\<lparr>kv_pool := a'\<rparr>, RadixCache c')"
    using True ev by (simp add: evict_from_tree_cache_def)
  ultimately show ?thesis using room unfolding room_def by auto
qed

lemma evict_enough:
  assumes st: "kv_state k N L V m c" and num: "int num \<le> room k m c"
  obtains a c' where "evict_from_tree_cache k m (RadixCache c) num = Inr (m\<lparr>kv_pool := a\<rparr>, RadixCache c')"
    "kv_state k N L V (m\<lparr>kv_pool := a\<rparr>) c'" "shrinks L c c'" "num \<le> kv_available_size k a" "rc_page_size c' = rc_page_size c"
proof -
  obtain a c' where ev: "evict_from_tree_cache k m (RadixCache c) num = Inr (m\<lparr>kv_pool := a\<rparr>, RadixCache c')"
    and c': "kv_state k N L V (m\<lparr>kv_pool := a\<rparr>) c'" "shrinks L c c'" "room k (m\<lparr>kv_pool := a\<rparr>) c' = room k m c"
      "num \<le> kv_available_size k a \<or> evictable_size c' = 0"
    using evict_from_ok [OF st, of num] by blast
  have "num \<le> kv_available_size k a" using c'(3,4) num unfolding room_def by simp linarith
  then show thesis using that [OF ev c'(1,2)] c'(2) by (simp add: shrinks_def same_config_def)
qed

lemma alloc_token_slots_some:
  assumes st: "kv_state k N L V m c" and n: "rc_page_size c dvd n" "int n \<le> room k m c"
  shows "\<exists>locs state a c' pgs. alloc_token_slots k m (RadixCache c) n backup = Inr (locs, state, m\<lparr>kv_pool := a\<rparr>, RadixCache c') \<and>
    length locs = n \<and> layout (rc_page_size c) locs pgs \<and> kv_state k N L (mset pgs + V) (m\<lparr>kv_pool := a\<rparr>) c' \<and> shrinks L c c'"
proof -
  obtain a c' where ev: "evict_from_tree_cache k m (RadixCache c) n = Inr (m\<lparr>kv_pool := a\<rparr>, RadixCache c')"
    and c': "kv_state k N L V (m\<lparr>kv_pool := a\<rparr>) c'" "shrinks L c c'" "n \<le> kv_available_size k a" and sc: "rc_page_size c' = rc_page_size c"
    by (rule evict_enough [OF st n(2)])
  obtain locs a' pgs where al: "kv_alloc k a n = Inr (Some locs, a')" "length locs = n" "layout (rc_page_size c) locs pgs"
      "kv_own k (rc_page_size c) N a' (mset pgs + (tree_pages c' + V))" "settled a'"
    using kv_alloc_some [of k "rc_page_size c" N a "tree_pages c' + V" n] c'(1,3) n(1) by (auto simp: kv_state_def sc)
  then have "kv_state k N L (mset pgs + V) (m\<lparr>kv_pool := a'\<rparr>) c'"
    using c'(1) by (simp add: kv_state_def sc ac_simps)
  then show ?thesis using ev al c'(2) by (simp add: alloc_token_slots_def Let_def) blast
qed

lemma alloc_token_slots_fails:
  assumes st: "kv_state k N L V m c" and n: "rc_page_size c dvd n" "\<not> int n \<le> room k m c"
  shows "alloc_token_slots k m (RadixCache c) n backup = Inl RuntimeError"
proof -
  obtain a c' where ev: "evict_from_tree_cache k m (RadixCache c) n = Inr (m\<lparr>kv_pool := a\<rparr>, RadixCache c')"
    and c': "kv_state k N L V (m\<lparr>kv_pool := a\<rparr>) c'" "shrinks L c c'" "room k (m\<lparr>kv_pool := a\<rparr>) c' = room k m c"
    using evict_from_ok [OF st, of n] by blast
  have sc: "rc_page_size c' = rc_page_size c" using c'(2) by (simp add: shrinks_def same_config_def)
  have "0 \<le> evictable_size c'" using c'(1) evictable_nonneg by (auto simp: kv_state_def)
  then have "\<not> n \<le> kv_available_size k a" using c'(3) n(2) by (auto simp: room_def)
  then obtain a' where "kv_alloc k a n = Inr (None, a')"
    using kv_alloc_none [of k "rc_page_size c" N a "tree_pages c' + V" n] c'(1) n(1) by (auto simp: kv_state_def sc)
  then show ?thesis using ev by (simp add: alloc_token_slots_def Let_def)
qed

text \<open>\<open>anchored\<close>: the part of \<open>attached\<close> that is about the tree. A request keeps its place when others are evicted.\<close>

definition anchored :: "radix_cache \<Rightarrow> request \<Rightarrow> int list \<Rightarrow> int list \<Rightarrow> bool" where
  "anchored c r toks pgs \<longleftrightarrow>
     rc_page_size c dvd cache_protected_len r \<and> cache_protected_len r \<le> key_len (req_key c r toks) \<and>
     (\<exists>nd. last_node r = Some nd \<and>
        (nd, take (cache_protected_len r) (path (req_key c r toks))) \<in> set (node_paths (root_node c))) \<and>
     (\<forall>j. Suc j * rc_page_size c \<le> cache_protected_len r \<longrightarrow>
        (take (Suc j * rc_page_size c) (path (req_key c r toks)), block (rc_page_size c) (pgs ! j)) \<in> set (contents c))"

definition in_row :: "nat \<Rightarrow> kv_memory \<Rightarrow> request \<Rightarrow> nat \<Rightarrow> int list \<Rightarrow> bool" where
  "in_row ps m r n pgs \<longleftrightarrow>
     (\<exists>i. req_pool_idx r = Some i \<and> i < length (req_to_token (row_pool m)) \<and>
        n \<le> length (req_to_token (row_pool m) ! i) \<and> layout ps (take n (req_to_token (row_pool m) ! i)) pgs)"

lemma attached_parts: "attached c m r toks pgs \<longleftrightarrow> in_row (rc_page_size c) m r (length toks) pgs \<and> anchored c r toks pgs"
  unfolding attached_def anchored_def in_row_def by blast

lemma anchored_shrinks:
  assumes inv: "cache_inv c L" "cache_inv c' L" and sh: "shrinks L c c'" and anc: "anchored c r toks pgs"
    and nd: "last_node r = Some nd" "nd \<in># L"
  shows "anchored c' r toks pgs"
proof -
  let ?ps = "rc_page_size c" and ?p = "cache_protected_len r"
  define P where "P = path (req_key c r toks)"
  note s = sh [unfolded shrinks_def]
  note conf = s [THEN conjunct1] and kept = s [THEN conjunct2, THEN conjunct1] and sub = s [THEN conjunct2, THEN conjunct2]
  have sc: "rc_page_size c' = ?ps" "req_key c' r toks = req_key c r toks"
    using conf req_key_config [OF conf] by (simp_all add: same_config_def)
  have ps: "0 < ?ps" "wf_tree ?ps (is_eagle c) (root_node c)" "wf_tree ?ps (is_eagle c') (root_node c')"
    using inv conf by (simp_all add: cache_inv_def same_config_def)
  note a = anc [unfolded anchored_def, folded P_def]
  have p: "?p \<le> length P" using a by (simp add: P_def)
  have "(nd, take ?p P) \<in> set (node_paths (root_node c))" using a [THEN conjunct2, THEN conjunct2, THEN conjunct1] nd(1) by force
  then have node: "(nd, take ?p P) \<in> set (node_paths (root_node c'))" using kept nd(2) unfolding kept_paths_def by blast
  have page: "(take (Suc j * ?ps) P, block ?ps (pgs ! j)) \<in> set (contents c')" if j: "Suc j * ?ps \<le> ?p" for j
  proof -
    have old: "(take (Suc j * ?ps) P, block ?ps (pgs ! j)) \<in> set (contents c)" using a j by blast
    have "take (Suc j * ?ps) (take ?p P) \<in> fst ` set (below ?ps (root_node c'))"
      using node_paths_stored [OF ps(1,3) node] j p by simp
    moreover have "take (Suc j * ?ps) (take ?p P) = take (Suc j * ?ps) P" using j by (simp add: min_absorb1)
    ultimately obtain w where w: "(take (Suc j * ?ps) P, w) \<in> set (contents c')" unfolding sc(1) by force
    then have "(take (Suc j * ?ps) P, w) \<in> set (contents c)" using sub by blast
    then have "w = block ?ps (pgs ! j)" using old below_distinct [OF ps(1,2)] by (metis eq_key_imp_eq_value)
    then show ?thesis using w by simp
  qed
  show ?thesis
    unfolding anchored_def sc(2) P_def [symmetric] unfolding sc(1)
    using a node page nd(1) unfolding sc(1) by blast
qed

lemma anchored_keeps:
  assumes keep: "keeps c c'" and anc: "anchored c r toks pgs"
  shows "anchored c' r toks pgs"
proof -
  note conf = keep [unfolded keeps_def, THEN conjunct1]
  have sc: "rc_page_size c' = rc_page_size c" "req_key c' r toks = req_key c r toks"
    using conf req_key_config [OF conf] by (simp_all add: same_config_def)
  have sub: "set (contents c) \<subseteq> set (contents c')" "set (node_paths (root_node c)) \<subseteq> set (node_paths (root_node c'))"
    using keep unfolding keeps_def by blast+
  show ?thesis using anc sub unfolding anchored_def sc(2) unfolding sc(1) by blast
qed

end
