(* ===== verification/Kv_Batch.thy ===== *)
theory Kv_Batch
  imports Kv_Serving
begin

text \<open>
  What \<^verbatim>\<open>alloc_for_extend\<close> and \<^verbatim>\<open>alloc_for_decode\<close> (\<open>Kv_Serving\<close>) leave behind: every request of the batch has a
  row of its own, the row holds the cached prefix and then the new slots, the slots run through the pages the request already had
  and then through fresh pages, and the pools, the prefix cache and its locks stay consistent.
\<close>

section \<open>Slots of an extended request\<close>

lemma icdiv_int: "0 < ps \<Longrightarrow> icdiv (int n) (int ps) = int (cdiv n ps)"
  by (simp add: icdiv_def cdiv_def of_nat_diff zdiv_int)

lemma cdiv_le_iff: "0 < ps \<Longrightarrow> i < cdiv n ps * ps \<longleftrightarrow> i div ps < cdiv n ps"
  by (simp add: div_less_iff_less_mult)

lemma layout_last:
  assumes "layout ps xs pgs" "xs \<noteq> []"
  shows "last xs = pgs ! ((length xs - 1) div ps) * int ps + int ((length xs - 1) mod ps)"
proof -
  have "length xs - 1 < length xs" using assms(2) by (cases xs) simp_all
  then show ?thesis using assms(1) unfolding layout_def last_conv_nth [OF assms(2)] by blast
qed

definition new_pages :: "nat \<Rightarrow> nat list \<Rightarrow> nat list \<Rightarrow> int list \<Rightarrow> nat \<Rightarrow> int list" where
  "new_pages ps pre seq free i =
     map (\<lambda>k. free ! nat k) [page_start (int ps) (map int pre) (map int seq) i..page_start (int ps) (map int pre) (map int seq) (Suc i) - 1]"

lemma extend_layout:
  assumes batch: "batch_ok (int ps) U order (map int pre) (map int seq) locs" and i: "i < length seq"
    and pf: "layout ps pf pg" "length pf = pre ! i" "pf \<noteq> [] \<Longrightarrow> locs ! i = last pf"
  shows "layout ps (pf @ request_slots (int ps) (map int pre) (map int seq) locs (\<lambda>k. free ! nat k) i) (pg @ new_pages ps pre seq free i)"
    (is "layout ps (pf @ ?rs) _")
proof -
  let ?pre = "map int pre" and ?seq = "map int seq"
  have ok: "0 < ps" "length pre = length seq" "pre ! i \<le> seq ! i"
    using batch i by (auto simp: batch_ok_def lens_ok_def)
  have nth: "?pre ! i = int (pre ! i)" "?seq ! i = int (seq ! i)" using ok i by simp_all
  have mono: "cdiv (pre ! i) ps \<le> cdiv (seq ! i) ps" by (rule cdiv_mono [OF ok(3)])
  have count: "page_start (int ps) ?pre ?seq (Suc i) = page_start (int ps) ?pre ?seq i + int (cdiv (seq ! i) ps - cdiv (pre ! i) ps)"
    using mono by (simp add: page_start_Suc nth icdiv_int [OF ok(1)] of_nat_diff)
  have pg: "length pg = cdiv (pre ! i) ps" using pf by (simp add: layout_def)
  have new: "length (new_pages ps pre seq free i) = cdiv (seq ! i) ps - cdiv (pre ! i) ps"
    unfolding new_pages_def count by simp
  have lrs: "length ?rs = seq ! i - pre ! i" using ok(3) by (simp add: request_slots_def nth)
  have "(pf @ ?rs) ! j = (pg @ new_pages ps pre seq free i) ! (j div ps) * int ps + int (j mod ps)" if j: "j < seq ! i" for j
  proof (cases "j < pre ! i")
    case True
    then have "j div ps < length pg" using cdiv_gt [OF ok(1)] pg by simp
    then show ?thesis using pf(1,2) True by (simp add: nth_append layout_def)
  next
    case False
    then have pos: "?pre ! i \<le> int j" "int j < ?seq ! i" and i': "i < length ?seq" using j i nth by simp_all
    have at: "(pf @ ?rs) ! j = slot (int ps) ?pre ?seq locs (\<lambda>k. free ! nat k) i (int j)"
      using False j pf(2) by (simp add: nth_append request_slots_def nth)
    note sp = slot_page [OF batch i' pos]
    have page: "slot (int ps) ?pre ?seq locs (\<lambda>k. free ! nat k) i (int j) div int ps = (pg @ new_pages ps pre seq free i) ! (j div ps)"
    proof (cases "int j < icdiv (?pre ! i) (int ps) * int ps")
      case True
      then have "j < cdiv (pre ! i) ps * ps" unfolding nth icdiv_int [OF ok(1)] by (simp flip: of_nat_mult)
      then have k: "j div ps < length pg" using cdiv_le_iff [OF ok(1)] pg by simp
      have q: "j div ps = pre ! i div ps" "pre ! i mod ps \<noteq> 0"
        using sp(3) [OF True] unfolding nth by (auto simp flip: zdiv_int of_nat_mod)
      then have ne: "pf \<noteq> []" using pf(2) by auto
      have "(pre ! i - 1) div ps = pre ! i div ps" using q(2) ok(1)
        by (metis Suc_diff_1 div_Suc mod_Suc mod_0 neq0_conv nat.simps(3) zero_less_diff)
      moreover have "last pf = pg ! ((pre ! i - 1) div ps) * int ps + int ((pre ! i - 1) mod ps)"
        using layout_last [OF pf(1) ne] pf(2) by simp
      moreover have "(x * int ps + int (n mod ps)) div int ps = x" for x n using ok(1) by simp
      ultimately have "locs ! i div int ps = pg ! (j div ps)" using pf(3) [OF ne] q(1) by simp
      then show ?thesis using sp(2) True k by (simp add: nth_append)
    next
      case ge: False
      then have "\<not> j < cdiv (pre ! i) ps * ps" unfolding nth icdiv_int [OF ok(1)] by (simp flip: of_nat_mult)
      then have k: "\<not> j div ps < cdiv (pre ! i) ps" using cdiv_le_iff [OF ok(1)] by simp
      have k2: "j div ps < cdiv (seq ! i) ps" using cdiv_gt [OF ok(1) j] .
      have "new_pages ps pre seq free i ! (j div ps - cdiv (pre ! i) ps) =
          free ! nat (page_start (int ps) ?pre ?seq i + int (j div ps - cdiv (pre ! i) ps))"
        unfolding new_pages_def count using diff_less_mono [OF k2] k by (simp del: of_nat_diff)
      moreover have "int j div int ps - icdiv (?pre ! i) (int ps) = int (j div ps - cdiv (pre ! i) ps)"
        using k by (simp add: nth icdiv_int [OF ok(1)] zdiv_int of_nat_diff)
      ultimately show ?thesis using sp(2) ge k pg by (simp add: nth_append)
    qed
    show ?thesis unfolding at page [symmetric] using sp(1) by (metis div_mult_mod_eq of_nat_mod)
  qed
  then show ?thesis unfolding layout_def using pg new mono lrs pf(2) ok(3) by simp
qed

lemma upto_concat:
  fixes f :: "nat \<Rightarrow> int"
  assumes "\<And>i. i < n \<Longrightarrow> f i \<le> f (Suc i)"
  shows "concat (map (\<lambda>i. [f i..f (Suc i) - 1]) [0..<n]) = [f 0..f n - 1]"
  using assms
proof (induction n)
  case (Suc n)
  have "f 0 \<le> f n" using Suc.prems by (induction n) (auto intro: order_trans)
  then show ?case using Suc upto_append [of "f 0" "f n" "f (Suc n)"] by simp
qed simp

lemma new_pages_all:
  assumes ok: "lens_ok (int ps) (map int pre) (map int seq)"
    and enough: "new_page_count (int ps) (map int pre) (map int seq) \<le> int (length free)"
  shows "concat (map (new_pages ps pre seq free) [0..<length seq]) = take (nat (new_page_count (int ps) (map int pre) (map int seq))) free"
proof -
  let ?f = "page_start (int ps) (map int pre) (map int seq)"
  have mono: "?f i \<le> ?f (Suc i)" if "i < length seq" for i
    using page_start_mono [OF ok, of i "Suc i"] that by simp
  have "concat (map (new_pages ps pre seq free) [0..<length seq]) =
      map (\<lambda>k. free ! nat k) (concat (map (\<lambda>i. [?f i..?f (Suc i) - 1]) [0..<length seq]))"
    by (simp add: new_pages_def [abs_def] map_concat comp_def)
  also have "\<dots> = map (\<lambda>k. free ! nat k) [0..?f (length seq) - 1]"
    using upto_concat [of "length seq" ?f] mono by (simp add: page_start_def)
  also have "\<dots> = take (nat (new_page_count (int ps) (map int pre) (map int seq))) free"
    using enough by (intro nth_equalityI) (simp_all add: new_page_count_def)
  finally show ?thesis .
qed


section \<open>Allocation for a batch\<close>

text \<open>
  \<open>batch_prefixes ps V pfs pgs\<close>: the cached prefixes \<open>pfs\<close> lie in the pages \<open>pgs\<close>, and a last page that is only partly
  filled belongs to its request (\<open>V\<close>), to no other.
\<close>

definition partial_pages :: "nat \<Rightarrow> int list list \<Rightarrow> int list list \<Rightarrow> int list" where
  "partial_pages ps pfs pgs = map (\<lambda>(pf, pg). last pg) (filter (\<lambda>(pf, pg). length pf mod ps \<noteq> 0) (zip pfs pgs))"

definition batch_prefixes :: "nat \<Rightarrow> int multiset \<Rightarrow> int list list \<Rightarrow> int list list \<Rightarrow> bool" where
  "batch_prefixes ps V pfs pgs \<longleftrightarrow> list_all2 (layout ps) pfs pgs \<and> mset (partial_pages ps pfs pgs) \<subseteq># V"

lemma cdiv_partial:
  assumes "0 < ps" "n mod ps \<noteq> 0"
  shows "(n - 1) div ps = cdiv n ps - 1"
proof -
  have "0 < n" using assms(2) by (cases n) simp_all
  then have "n + ps - 1 = (n - 1) + ps" using assms(1) by simp
  then have "cdiv n ps = (n - 1) div ps + 1" using assms(1) by (simp only: cdiv_def div_add_self2)
  then show ?thesis by simp
qed

lemma last_loc_page:
  assumes "0 < ps" "layout ps pf pg"
  shows "((if pf = [] then - 1 else last pf) + 1) mod int ps = int (length pf) mod int ps"
    "length pf mod ps \<noteq> 0 \<Longrightarrow> (if pf = [] then - 1 else last pf) div int ps = last pg"
proof -
  show "((if pf = [] then - 1 else last pf) + 1) mod int ps = int (length pf) mod int ps"
  proof (cases "pf = []")
    case False
    then have "last pf + 1 = pg ! ((length pf - 1) div ps) * int ps + (int ((length pf - 1) mod ps) + 1)"
      using layout_last [OF assms(2)] by simp
    also have "\<dots> mod int ps = (int (length pf - 1) + 1) mod int ps" by (simp add: zmod_int mod_simps)
    also have "\<dots> = int (length pf) mod int ps" using False by (simp add: of_nat_diff Suc_leI)
    finally show ?thesis using False by simp
  qed simp
  assume part: "length pf mod ps \<noteq> 0"
  then have ne: "pf \<noteq> []" by auto
  have "length pg = cdiv (length pf) ps" using assms(2) by (simp add: layout_def)
  moreover have "0 < cdiv (length pf) ps" using cdiv_gt [OF assms(1), of 0 "length pf"] ne by simp
  ultimately have "last pg = pg ! ((length pf - 1) div ps)"
    unfolding cdiv_partial [OF assms(1) part] by (metis last_conv_nth length_greater_0_conv)
  then show "(if pf = [] then - 1 else last pf) div int ps = last pg"
    using layout_last [OF assms(2) ne] ne assms(1) by simp
qed

lemma partial_distinct:
  assumes "distinct (map f (filter P xs))" "i < j" "j < length xs" "P (xs ! i)" "P (xs ! j)"
  shows "f (xs ! i) \<noteq> f (xs ! j)"
proof -
  have "xs = take j xs @ xs ! j # drop (Suc j) xs" using assms(3) by (rule id_take_nth_drop)
  then have "f (xs ! j) \<notin> f ` set (filter P (take j xs))" using assms(1,5)
    by (metis (no_types, lifting) distinct.simps(2) filter.simps(2) filter_append list.set_map list.simps(9) map_append
        not_distinct_conv_prefix distinct_append disjoint_iff list.set_intros(1))
  moreover have "xs ! i \<in> set (filter P (take j xs))" using assms(2-4) by (auto simp: in_set_conv_nth intro!: exI [of _ i])
  ultimately show ?thesis by (metis image_eqI)
qed

lemma batch_prefixes_ok:
  assumes ps: "0 < ps" and pf: "batch_prefixes ps V pfs pgs" and once: "\<And>p. count (W + V) p \<le> 1"
    and lens: "pre = map length pfs" "length seq = length pfs" "\<forall>i<length seq. pre ! i \<le> seq ! i"
    and order: "set order = {..<length seq}"
  shows "batch_ok (int ps) (W + V) order (map int pre) (map int seq) (last_locs pfs)"
proof -
  let ?P = "\<lambda>(pf, pg). length pf mod ps \<noteq> 0" and ?f = "\<lambda>(pf, pg). last pg"
  have all: "list_all2 (layout ps) pfs pgs" and sub: "mset (partial_pages ps pfs pgs) \<subseteq># V"
    using pf by (simp_all add: batch_prefixes_def)
  have len: "length pgs = length pfs" using all by (simp add: list_all2_lengthD)
  have lay: "layout ps (pfs ! i) (pgs ! i)" if "i < length seq" for i using all that lens(2) by (simp add: list_all2_nthD)
  have loc: "last_locs pfs ! i = (if pfs ! i = [] then - 1 else last (pfs ! i))" if "i < length seq" for i
    using that lens(2) by (simp add: last_locs_def)
  have z: "zip pfs pgs ! i = (pfs ! i, pgs ! i)" if "i < length seq" for i using that lens(2) len by simp
  have part: "int (length (pfs ! i)) mod int ps \<noteq> 0 \<longleftrightarrow> length (pfs ! i) mod ps \<noteq> 0" for i
    by (metis of_nat_eq_0_iff of_nat_mod)
  have pre: "map int pre ! i = int (length (pfs ! i))" if "i < length seq" for i using that lens by simp
  have d: "distinct (map ?f (filter ?P (zip pfs pgs)))"
  proof (rule distinct_countI)
    fix p
    have "count (mset (partial_pages ps pfs pgs)) p \<le> count V p" using sub by (simp add: subseteq_mset_def)
    also have "\<dots> \<le> 1" using once [of p] by simp
    finally show "count (mset (map ?f (filter ?P (zip pfs pgs)))) p \<le> 1" by (simp add: partial_pages_def)
  qed
  have held: "last (pgs ! i) \<in># V" if i: "i < length seq" "length (pfs ! i) mod ps \<noteq> 0" for i
  proof -
    have "(pfs ! i, pgs ! i) \<in> set (zip pfs pgs)" using z [OF i(1)] i(1) lens(2) len by (metis length_zip min.idem nth_mem)
    then have "last (pgs ! i) \<in> set (partial_pages ps pfs pgs)" using i(2) by (force simp: partial_pages_def)
    then show ?thesis using set_mset_mono [OF sub] by auto
  qed
  have "lens_ok (int ps) (map int pre) (map int seq)" using ps lens by (simp add: lens_ok_def)
  moreover have "(last_locs pfs ! i + 1) mod int ps = map int pre ! i mod int ps" if "i < length seq" for i
    unfolding loc [OF that] pre [OF that] by (rule last_loc_page [OF ps lay [OF that]])
  moreover have "last_locs pfs ! i div int ps \<in># W + V" if "i < length seq" "map int pre ! i mod int ps \<noteq> 0" for i
    using that held [OF that(1)] last_loc_page(2) [OF ps lay [OF that(1)]] unfolding loc [OF that(1)] pre [OF that(1)] part by simp
  moreover have "last_locs pfs ! i div int ps \<noteq> last_locs pfs ! j div int ps"
    if "i < length seq" "j < length seq" "i \<noteq> j" "map int pre ! i mod int ps \<noteq> 0" "map int pre ! j mod int ps \<noteq> 0" for i j
    using partial_distinct [OF d, of i j] partial_distinct [OF d, of j i, THEN not_sym] neq_iff [of i j] that(3-5) len lens(2) z [OF that(1)] z [OF that(2)] that(1,2)
      last_loc_page(2) [OF ps lay [OF that(1)]] last_loc_page(2) [OF ps lay [OF that(2)]]
    unfolding loc [OF that(1)] loc [OF that(2)] pre [OF that(1)] pre [OF that(2)] part by (cases "i < j") simp_all
  moreover have "length (last_locs pfs) = length seq" using lens(2) by (simp add: last_locs_def)
  ultimately show ?thesis unfolding batch_ok_def length_map using order by blast
qed

definition part_of :: "nat list \<Rightarrow> 'a list \<Rightarrow> nat \<Rightarrow> 'a list" where
  "part_of ext out i = slice (\<Sum>j<i. ext ! j) ((\<Sum>j<i. ext ! j) + ext ! i) out"

lemma part_of_concat:
  assumes "i < n" "\<And>j. j < n \<Longrightarrow> length (f j) = ext ! j"
  shows "part_of ext (concat (map f [0..<n])) i = f i"
proof -
  have "[0..<n] = [0..<i] @ i # [Suc i..<n]" using assms(1) upt_add_eq_append [of 0 i "n - i"] by (simp add: upt_conv_Cons)
  then have split: "concat (map f [0..<n]) = concat (map f [0..<i]) @ f i @ concat (map f [Suc i..<n])" by simp
  have "length (concat (map f [0..<k])) = (\<Sum>j<k. ext ! j)" if "k \<le> n" for k
    using that assms(2) by (induction k) simp_all
  then have "length (concat (map f [0..<i])) = (\<Sum>j<i. ext ! j)" using assms(1) by simp
  then show ?thesis unfolding part_of_def split slice_def using assms(2) [OF assms(1)] by simp
qed

lemma concat_part_of:
  assumes "(\<Sum>j<n. ext ! j) = length out"
  shows "concat (map (part_of ext out) [0..<n]) = out"
proof -
  have "concat (map (part_of ext out) [0..<k]) = take (\<Sum>j<k. ext ! j) out" for k
    by (induction k) (simp_all add: part_of_def slice_def take_add)
  then show ?thesis using assms by simp
qed

text \<open>The batch, its lengths and the slots handed out.\<close>

definition extended ::
  "nat \<Rightarrow> nat list \<Rightarrow> int list list \<Rightarrow> int list list \<Rightarrow> int list \<Rightarrow> int list list \<Rightarrow> bool" where
  "extended ps ext pfs pgs out new \<longleftrightarrow> length new = length pfs \<and> length out = (\<Sum>j<length pfs. ext ! j) \<and>
     (\<forall>i<length pfs. layout ps (pfs ! i @ part_of ext out i) (pgs ! i @ new ! i))"

lemma page_count_bound:
  assumes "0 < ps" "length pre = length seq" "\<And>i. i < length seq \<Longrightarrow> seq ! i = pre ! i + ext ! i"
  shows "new_page_count (int ps) (map int pre) (map int seq) * int ps \<le> int (\<Sum>j<length seq. ext ! j) + int (length seq) * int ps"
proof -
  have "icdiv (int (seq ! j)) (int ps) * int ps - icdiv (int (pre ! j)) (int ps) * int ps \<le> int (ext ! j) + int ps"
    if "j < length seq" for j
    using icdiv_bounds [of "int ps" "int (seq ! j)"] icdiv_bounds [of "int ps" "int (pre ! j)"] assms(1,3) that by simp
  then have "(\<Sum>j<length seq. (icdiv (map int seq ! j) (int ps) - icdiv (map int pre ! j) (int ps)) * int ps) \<le> (\<Sum>j<length seq. int (ext ! j) + int ps)"
    using assms(2) by (intro sum_mono) (simp add: left_diff_distrib)
  then show ?thesis by (simp add: new_page_count_def page_start_def sum_distrib_right sum.distrib)
qed

lemma free_enough:
  assumes own: "kv_own k ps N a U" and settled: "settled a" and n: "need * ps \<le> kv_available_size k a" and low: "need < low"
  shows "need \<le> length (free_pages (merged (length (free_pages a) < low) a))"
proof -
  have ps: "0 < ps" by (rule kv.page_size_pos [OF own])
  have "need \<le> length (free_pages a) + length (release_pages a)"
    using n ps pages_on_hand [OF own settled] available_count [OF own settled] by simp
  then show ?thesis using settled low by (auto simp: merged_def merge_and_sort_free_def settled_def)
qed

lemma handed_out_settled: "handed_out a pre seq locs = Inr (out, a') \<Longrightarrow> settled a \<Longrightarrow> settled a'"
  by (auto simp: handed_out_def Let_def split: if_splits)

lemma settled_merged [simp]: "settled a \<Longrightarrow> settled (merged low a)"
  by (simp add: merged_def)

text \<open>The slots of a batch come off the free list as the kernels lay them out.\<close>

lemma handed_out_batch:
  assumes own: "paged_own ps N a (W + V)" and pf: "batch_prefixes ps V pfs pgs"
    and lens: "pre = map length pfs" "length seq = length pfs" "\<And>i. i < length pfs \<Longrightarrow> seq ! i = pre ! i + ext ! i"
    and batch: "batch_ok (int ps) (W + V) order (map int pre) (map int seq) (last_locs pfs)"
    and enough: "new_page_count (int ps) (map int pre) (map int seq) \<le> int (length (free_pages a))"
  shows "\<exists>out a' new. handed_out a (map int pre) (map int seq) (last_locs pfs) = Inr (Some (map Some out), a') \<and>
    extended ps ext pfs pgs out new \<and> paged_own ps N a' (W + (mset (concat new) + V))"
proof -
  let ?pre = "map int pre" and ?seq = "map int seq" and ?locs = "last_locs pfs"
  define rs where "rs = request_slots (int ps) ?pre ?seq ?locs (\<lambda>k. free_pages a ! nat k)"
  define out where "out = concat (map rs [0..<length pfs])"
  define new where "new = map (new_pages ps pre seq (free_pages a)) [0..<length pfs]"
  define n where "n = nat (new_page_count (int ps) ?pre ?seq)"
  have ps: "page_size a = ps" "0 < ps" and owns: "owns (pages_of ps) N a (W + V)" using own by (simp_all add: paged_own_def)
  have ok: "lens_ok (int ps) ?pre ?seq" using batch by (simp add: batch_ok_def)
  have h: "handed_out a ?pre ?seq ?locs = Inr (Some (map Some out), a\<lparr>free_pages := drop n (free_pages a)\<rparr>)"
    using enough lens(2) by (simp add: handed_out_def Let_def ps batch_slots_def out_def rs_def n_def)
  have len: "length (rs j) = ext ! j" if "j < length pfs" for j
    using that lens by (simp add: rs_def request_slots_def)
  have "layout ps (pfs ! i @ part_of ext out i) (pgs ! i @ new ! i)" if i: "i < length pfs" for i
  proof -
    have "layout ps (pfs ! i @ rs i) (pgs ! i @ new_pages ps pre seq (free_pages a) i)"
      unfolding rs_def by (rule extend_layout [OF batch])
        (use i lens pf in \<open>auto simp: batch_prefixes_def list_all2_nthD last_locs_def\<close>)
    then show ?thesis using i part_of_concat [OF i len] by (simp add: out_def new_def)
  qed
  moreover have "length out = (\<Sum>j<length pfs. ext ! j)"
  proof -
    have "length (concat (map rs [0..<k])) = (\<Sum>j<k. ext ! j)" if "k \<le> length pfs" for k
      using that len by (induction k) simp_all
    then show ?thesis by (simp add: out_def)
  qed
  ultimately have "extended ps ext pfs pgs out new" by (simp add: extended_def new_def)
  moreover have "concat new = take n (free_pages a)"
    using new_pages_all [OF ok enough] lens(2) by (simp add: new_def n_def)
  then have "paged_own ps N (a\<lparr>free_pages := drop n (free_pages a)\<rparr>) (W + (mset (concat new) + V))"
    using owns_take [OF owns, of n] ps by (simp add: paged_own_def ac_simps)
  ultimately show ?thesis using h by blast
qed

definition pages_needed :: "nat \<Rightarrow> nat list \<Rightarrow> nat list \<Rightarrow> nat" where
  "pages_needed ps pre seq = (\<Sum>i<length seq. cdiv (seq ! i) ps - cdiv (pre ! i) ps)"

lemma pages_needed_count:
  assumes "0 < ps" "length pre = length seq" "\<And>i. i < length seq \<Longrightarrow> pre ! i \<le> seq ! i"
  shows "new_page_count (int ps) (map int pre) (map int seq) = int (pages_needed ps pre seq)"
proof -
  have "icdiv (map int seq ! j) (int ps) - icdiv (map int pre ! j) (int ps) = int (cdiv (seq ! j) ps - cdiv (pre ! j) ps)"
    if "j < length seq" for j
    using that assms(2) cdiv_mono [OF assms(3) [OF that], of ps] by (simp add: icdiv_int [OF assms(1)] of_nat_diff)
  then show ?thesis by (simp add: new_page_count_def page_start_def pages_needed_def)
qed

lemma pages_needed_bound:
  assumes "0 < ps" "length pre = length seq" "\<And>i. i < length seq \<Longrightarrow> seq ! i = pre ! i + ext ! i"
  shows "pages_needed ps pre seq * ps \<le> (\<Sum>j<length seq. ext ! j) + length seq * ps"
proof -
  have "int (pages_needed ps pre seq * ps) \<le> int ((\<Sum>j<length seq. ext ! j) + length seq * ps)"
    using page_count_bound [OF assms] pages_needed_count [OF assms(1,2)] assms(3) by simp
  then show ?thesis by (simp only: of_nat_le_iff)
qed

text \<open>Eviction for an estimate \<open>num\<close> leaves room for a smaller demand \<open>need\<close>, if there is any.\<close>

lemma evict_estimate:
  assumes st: "kv_state k N L V m c" and need: "need \<le> num" "int need \<le> room k m c"
  obtains a c' where "evict_from_tree_cache k m (RadixCache c) num = Inr (m\<lparr>kv_pool := a\<rparr>, RadixCache c')"
    "kv_state k N L V (m\<lparr>kv_pool := a\<rparr>) c'" "shrinks L c c'" "need \<le> kv_available_size k a" "rc_page_size c' = rc_page_size c"
proof -
  obtain a c' where ev: "evict_from_tree_cache k m (RadixCache c) num = Inr (m\<lparr>kv_pool := a\<rparr>, RadixCache c')"
    and c': "kv_state k N L V (m\<lparr>kv_pool := a\<rparr>) c'" "shrinks L c c'" "room k (m\<lparr>kv_pool := a\<rparr>) c' = room k m c"
      "num \<le> kv_available_size k a \<or> evictable_size c' = 0"
    using evict_from_ok [OF st, of num] by blast
  have "need \<le> kv_available_size k a" using c'(3,4) need unfolding room_def by simp linarith
  then show thesis using that [OF ev c'(1,2)] c'(2) by (simp add: shrinks_def same_config_def)
qed

lemma paged_extend_ok:
  assumes st: "kv_state PagedTokenToKVPool N L V m c" and pf: "batch_prefixes (rc_page_size c) V pfs pgs"
    and lens: "pre = map length pfs" "length seq = length pfs" "\<And>i. i < length pfs \<Longrightarrow> seq ! i = pre ! i + ext ! i"
    and order: "\<forall>n. set (program_order dev n) = {..<n}" and n: "n = (\<Sum>j<length pfs. ext ! j)"
    and room: "int (pages_needed (rc_page_size c) pre seq * rc_page_size c) \<le> room PagedTokenToKVPool m c"
  shows "\<exists>out state a c' new. alloc_paged_token_slots_extend dev PagedTokenToKVPool m (RadixCache c) pre seq (last_locs pfs) n backup =
      Inr (out, state, m\<lparr>kv_pool := a\<rparr>, RadixCache c') \<and> extended (rc_page_size c) ext pfs pgs out new \<and>
    kv_state PagedTokenToKVPool N L (mset (concat new) + V) (m\<lparr>kv_pool := a\<rparr>) c' \<and> shrinks L c c'"
proof -
  let ?k = PagedTokenToKVPool and ?ps = "rc_page_size c" and ?pre = "map int pre" and ?seq = "map int seq"
  define need where "need = pages_needed ?ps pre seq"
  have ps: "0 < ?ps" using st by (auto simp: kv_state_def cache_inv_def)
  have bound: "need * ?ps \<le> n + length pfs * ?ps"
    using pages_needed_bound [OF ps, of pre seq ext] lens n by (simp add: need_def)
  obtain a c' where ev: "evict_from_tree_cache ?k m (RadixCache c) (n + length pfs * ?ps) = Inr (m\<lparr>kv_pool := a\<rparr>, RadixCache c')"
    and c': "kv_state ?k N L V (m\<lparr>kv_pool := a\<rparr>) c'" "shrinks L c c'" and avail: "need * ?ps \<le> kv_available_size ?k a"
    and sc: "rc_page_size c' = ?ps"
    by (rule evict_estimate [OF st bound room [folded need_def]])
  note s = c'(1) [unfolded kv_state_def sc, simplified]
  have kvown: "kv_own ?k ?ps N a (tree_pages c' + V)" and set': "settled a" using s by simp_all
  then have own: "paged_own ?ps N a (tree_pages c' + V)" by (simp add: kv_own_def)
  have batch: "batch_ok (int ?ps) (tree_pages c' + V) (program_order dev (length seq)) ?pre ?seq (last_locs pfs)"
    by (rule batch_prefixes_ok [OF ps pf _ lens(1,2)]) (use kv.held_once [OF kvown] lens order in simp_all)
  have count: "new_page_count (int ?ps) ?pre ?seq = int need"
    unfolding need_def by (rule pages_needed_count [OF ps]) (use lens in simp_all)
  have "need \<le> (n + length pfs * ?ps) div ?ps" unfolding less_eq_div_iff_mult_less_eq [OF ps] by (rule bound)
  then have low: "need < n div ?ps + length pfs + 1" using ps by simp
  define a1 where "a1 = merged (length (free_pages a) < n div ?ps + length ?pre + 1) a"
  have enough: "need \<le> length (free_pages a1)"
    unfolding a1_def using free_enough [OF kvown set' avail low] lens(1) by simp
  have start: "int n = out_start ?pre ?seq (length ?seq)" using lens n by (simp add: out_start_def)
  have "new_page_count (int ?ps) ?pre ?seq \<le> int (length (free_pages a1))" using enough count by simp
  moreover have "paged_own ?ps N a1 (tree_pages c' + V)" unfolding a1_def by (rule merged_own [OF own])
  ultimately obtain out a' new where h: "handed_out a1 ?pre ?seq (last_locs pfs) = Inr (Some (map Some out), a')"
      "extended ?ps ext pfs pgs out new" "paged_own ?ps N a' (tree_pages c' + (mset (concat new) + V))"
    using handed_out_batch [OF _ pf lens batch] by blast
  have "alloc_extend (lane_other dev) (page_junk dev) (program_order dev (length seq)) a ?pre ?pre ?seq ?seq (last_locs pfs) n None = Inr (Some (map Some out), a')"
    using alloc_extend_eq [OF own batch start _ a1_def] enough count h(1) by simp
  then have "kv_alloc_extend dev ?k a pre seq (last_locs pfs) n = Inr (Some out, a')"
    by (simp add: kv_alloc_extend_def read_output_def comp_def)
  moreover have "page_size (kv_pool m) = ?ps" using kv_own_owns st by (auto simp: kv_state_def)
  ultimately have "\<exists>state. alloc_paged_token_slots_extend dev ?k m (RadixCache c) pre seq (last_locs pfs) n backup =
      Inr (out, state, m\<lparr>kv_pool := a'\<rparr>, RadixCache c')"
    unfolding alloc_paged_token_slots_extend_def Let_def using ev lens(2) by simp
  moreover have "settled a'" using handed_out_settled [OF h(1)] set' by (simp add: a1_def)
  then have "kv_state ?k N L (mset (concat new) + V) (m\<lparr>kv_pool := a'\<rparr>) c'"
    using s h(3) by (simp add: kv_state_def sc kv_own_def)
  ultimately show ?thesis using h(2) c'(2) by blast
qed

lemma token_extend_ok:
  assumes st: "kv_state k N L V m c" and one: "rc_page_size c = 1" and pf: "batch_prefixes 1 V pfs pgs"
    and n: "n = (\<Sum>j<length pfs. ext ! j)" and room: "int n \<le> room k m c"
  shows "\<exists>out state a c' new. alloc_token_slots k m (RadixCache c) n backup = Inr (out, state, m\<lparr>kv_pool := a\<rparr>, RadixCache c') \<and>
    extended 1 ext pfs pgs out new \<and> kv_state k N L (mset (concat new) + V) (m\<lparr>kv_pool := a\<rparr>) c' \<and> shrinks L c c'"
proof -
  obtain out state a c' pg where al: "alloc_token_slots k m (RadixCache c) n backup = Inr (out, state, m\<lparr>kv_pool := a\<rparr>, RadixCache c')"
    "length out = n" "layout 1 out pg" "kv_state k N L (mset pg + V) (m\<lparr>kv_pool := a\<rparr>) c'" "shrinks L c c'"
    using alloc_token_slots_some [OF st, of n backup] one room by auto
  have pg: "pg = out" using al(3) by (rule layout_one [THEN iffD1])
  define new where "new = map (part_of ext out) [0..<length pfs]"
  have "concat new = out" unfolding new_def by (rule concat_part_of) (simp add: al(2) n)
  moreover have "layout 1 (pfs ! i @ part_of ext out i) (pgs ! i @ new ! i)" if "i < length pfs" for i
  proof -
    have "layout 1 (pfs ! i) (pgs ! i)" using pf that by (simp add: batch_prefixes_def list_all2_nthD)
    then show ?thesis using that unfolding layout_one by (simp add: new_def)
  qed
  then have "extended 1 ext pfs pgs out new" using al(2) n by (simp add: extended_def new_def)
  ultimately show ?thesis using al pg by auto
qed

section \<open>Filling the rows\<close>

definition table_ok :: "req_to_token_pool \<Rightarrow> bool" where
  "table_ok pool \<longleftrightarrow> length (req_to_token pool) = rtp_size pool + 1 \<and> (\<forall>row \<in> set (req_to_token pool). length row = max_context_len pool)"

lemma held_rows_some: "map req_pool_idx rs = map Some is \<Longrightarrow> held_rows rs = mset is"
  by (simp add: held_rows_def filter_map comp_def map_replicate_trivial)

lemma rows_distinct:
  assumes "rows_own pool R" "mset is \<subseteq># R" "table_ok pool"
  shows "distinct is" "\<forall>i \<in> set is. i < length (req_to_token pool)"
proof -
  have sub: "mset is \<subseteq># mset [1..<rtp_size pool + 1]"
    using assms(1,2) unfolding rows_own_def by (metis mset_subset_eq_add_right subset_mset.order_trans)
  have "count (mset is) x \<le> 1" for x
  proof -
    have "count (mset is) x \<le> count (mset [1..<rtp_size pool + 1]) x" using sub by (simp add: subseteq_mset_def)
    also have "\<dots> \<le> 1" by (simp only: mset_upt count_mset_set') simp
    finally show ?thesis .
  qed
  then show "distinct is" by (rule distinct_countI)
  show "\<forall>i \<in> set is. i < length (req_to_token pool)"
    using set_mset_mono [OF sub] assms(3) by (auto simp: table_ok_def)
qed

lemma write_one_keeps:
  "write_one rows pre seq ext pfs out (pt, pool) i = Inr (pt', pool') \<Longrightarrow> free_slots pool' = free_slots pool \<and> rtp_size pool' = rtp_size pool"
  by (auto simp: write_one_def Let_def pool_write_slice_def rbind_eq_Inr_iff split: if_splits)

lemma write_keeps:
  assumes "write_cache_indices rows pre seq ext pfs out pool = Inr pool'"
  shows "free_slots pool' = free_slots pool \<and> rtp_size pool' = rtp_size pool"
proof -
  have "foldM (write_one rows pre seq ext pfs out) (pt, p) xs = Inr (pt', p') \<Longrightarrow> free_slots p' = free_slots p \<and> rtp_size p' = rtp_size p" for pt p xs pt' p'
    by (induction xs arbitrary: pt p) (auto simp: rbind_eq_Inr_iff dest: write_one_keeps)
  then show ?thesis using assms by (auto simp: write_cache_indices_def rbind_eq_Inr_iff)
qed

text \<open>What the caller of \<^verbatim>\<open>alloc_for_extend\<close> guarantees of the batch.\<close>

definition extend_batch :: "nat \<Rightarrow> int multiset \<Rightarrow> nat multiset \<Rightarrow> req_to_token_pool \<Rightarrow> schedule_batch \<Rightarrow> int list list \<Rightarrow> bool" where
  "extend_batch ps V R pool b pgs \<longleftrightarrow>
     held_rows (reqs b) \<subseteq># R \<and>
     (\<forall>r \<in> set (reqs b). req_pool_idx r \<noteq> None \<longrightarrow> inflight_middle_chunks r > 0 \<or> kv_committed_len r > 0) \<and>
     length (filter (\<lambda>r. req_pool_idx r = None) (reqs b)) \<le> pool_available_size pool \<and>
     batch_prefixes ps V (map prefix_indices (reqs b)) pgs \<and>
     prefix_lens b = map (\<lambda>r. length (prefix_indices r)) (reqs b) \<and> length (seq_lens b) = length (reqs b) \<and>
     (\<forall>i<length (reqs b). seq_lens b ! i = prefix_lens b ! i + extend_lens b ! i \<and> seq_lens b ! i \<le> max_context_len pool) \<and>
     extend_num_tokens b = (\<Sum>j<length (reqs b). extend_lens b ! j)"

definition extend_need :: "nat \<Rightarrow> schedule_batch \<Rightarrow> nat" where
  "extend_need ps b = pages_needed ps (prefix_lens b) (seq_lens b) * ps"

lemma gets_row_prefix: "list_all2 gets_row rs rs' \<Longrightarrow> map prefix_indices rs' = map prefix_indices rs \<and> length rs' = length rs"
proof -
  assume all: "list_all2 gets_row rs rs'"
  have "prefix_indices r' = prefix_indices r" if "gets_row r r'" for r r' using that unfolding gets_row_def
    by (metis request.select_convs(7) request.surjective request.update_convs(1))
  then show ?thesis using all by (auto simp: list_all2_conv_all_nth intro!: nth_equalityI)
qed

lemma gets_row_some: "list_all2 gets_row rs rs' \<Longrightarrow> map req_pool_idx rs' = map Some (map the (map req_pool_idx rs'))"
  by (auto simp: list_all2_conv_all_nth gets_row_def set_conv_nth)

lemma kv_state_pools:
  "kv_state k N L V m c = kv_state k N L V m' c" if "kv_pool m = kv_pool m'"
  using that by (simp add: kv_state_def)

lemma alloc_slots_ok:
  assumes st: "kv_state k N L V m c" and pf: "batch_prefixes (rc_page_size c) V pfs pgs"
    and lens: "pre = map length pfs" "length seq = length pfs" "\<And>i. i < length pfs \<Longrightarrow> seq ! i = pre ! i + ext ! i"
    and order: "\<forall>n. set (program_order dev n) = {..<n}" and n: "n = (\<Sum>j<length pfs. ext ! j)"
    and room: "int (pages_needed (rc_page_size c) pre seq * rc_page_size c) \<le> room k m c"
  shows "\<exists>out state a c' new. (if rc_page_size c = 1 then alloc_token_slots k m (RadixCache c) n False
        else alloc_paged_token_slots_extend dev k m (RadixCache c) pre seq (last_locs pfs) n False) =
      Inr (out, state, m\<lparr>kv_pool := a\<rparr>, RadixCache c') \<and> extended (rc_page_size c) ext pfs pgs out new \<and>
    kv_state k N L (mset (concat new) + V) (m\<lparr>kv_pool := a\<rparr>) c' \<and> shrinks L c c'"
proof (cases "rc_page_size c = 1")
  case True
  have one: "cdiv x 1 = x" for x by (simp add: cdiv_def)
  have "(\<Sum>i<length seq. cdiv (seq ! i) 1 - cdiv (pre ! i) 1) = (\<Sum>j<length pfs. ext ! j)"
    unfolding one lens(2) by (rule sum.cong) (use lens(3) in auto)
  then have "pages_needed 1 pre seq = n" unfolding pages_needed_def n .
  then show ?thesis using True token_extend_ok [OF st True, of pfs pgs n ext False] pf n room by simp
next
  case False
  then have k: "k = PagedTokenToKVPool" using st by (cases k) (simp_all add: kv_state_def kv_own_def)
  show ?thesis using paged_extend_ok [OF st [unfolded k] pf lens order n, of False] room False unfolding k by simp
qed

lemma new_pages_range:
  assumes st: "kv_state k N L (mset (concat new) + V) m c" and i: "i < length new"
  shows "\<forall>p \<in> set (new ! i). 1 \<le> p \<and> p \<le> int N"
proof
  fix p assume "p \<in> set (new ! i)"
  then have "p \<in># tree_pages c + (mset (concat new) + V)" using i by auto
  then show "1 \<le> p \<and> p \<le> int N" using st kv.held_once unfolding kv_state_def by blast
qed

lemma held_range:
  assumes st: "kv_state k N L V m c" and held: "\<forall>pg \<in> set pgs. set pg \<subseteq> set_mset (tree_pages c + V)" and i: "i < length pgs"
  shows "\<forall>p \<in> set (pgs ! i). 1 \<le> p \<and> p \<le> int N"
proof
  fix p assume "p \<in> set (pgs ! i)"
  then have "p \<in># tree_pages c + V" using held nth_mem [OF i] by blast
  then show "1 \<le> p \<and> p \<le> int N" using st kv.held_once unfolding kv_state_def by blast
qed

lemma alloc_for_extend_ok:
  assumes st: "kv_state k N L V m c" and rows: "rows_own (row_pool m) R" "table_ok (row_pool m)"
    and b: "extend_batch (rc_page_size c) V R (row_pool m) b pgs"
    and held: "\<forall>pg \<in> set pgs. set pg \<subseteq> set_mset (tree_pages c + V)" and N: "(N + 1) * rc_page_size c \<le> 2 ^ 31"
    and order: "\<forall>n. set (program_order dev n) = {..<n}" and room: "int (extend_need (rc_page_size c) b) \<le> room k m c"
  shows "\<exists>out ix rs m' c' new. alloc_for_extend dev k b m (RadixCache c) = Inr (out, ix, b\<lparr>reqs := rs\<rparr>, m', RadixCache c') \<and>
    list_all2 gets_row (reqs b) rs \<and> map req_pool_idx rs = map Some ix \<and> distinct ix \<and>
    extended (rc_page_size c) (extend_lens b) (map prefix_indices (reqs b)) pgs out new \<and>
    kv_state k N L (mset (concat new) + V) m' c' \<and> shrinks L c c' \<and>
    rows_own (row_pool m') (R - held_rows (reqs b) + mset ix) \<and> table_ok (row_pool m') \<and>
    max_context_len (row_pool m') = max_context_len (row_pool m) \<and>
    (\<forall>i<length (reqs b). take (seq_lens b ! i) (req_to_token (row_pool m') ! (ix ! i)) =
       prefix_indices (reqs b ! i) @ part_of (extend_lens b) out i) \<and>
    (\<forall>r. r \<notin> set ix \<longrightarrow> req_to_token (row_pool m') ! r = req_to_token (row_pool m) ! r)"
proof -
  let ?ps = "rc_page_size c" and ?pfs = "map prefix_indices (reqs b)" and ?pool = "row_pool m"
  note e = b [unfolded extend_batch_def]
  obtain rs pool where al: "pool_alloc ?pool (reqs b) = Inr (Some (map req_pool_idx rs), rs, pool)"
    and rs: "list_all2 gets_row (reqs b) rs" and own: "rows_own pool (R - held_rows (reqs b) + held_rows rs)"
    and tab: "req_to_token pool = req_to_token ?pool"
    using pool_alloc_ok [OF rows(1), of "reqs b"] e by metis
  have conf: "rtp_size pool = rtp_size ?pool" "max_context_len pool = max_context_len ?pool"
    using al by (auto simp: pool_alloc_def Let_def rbind_eq_Inr_iff split: if_splits)
  define ix where "ix = map the (map req_pool_idx rs)"
  have idx: "map req_pool_idx rs = map Some ix" unfolding ix_def by (rule gets_row_some [OF rs])
  have slots: "alloc_req_slots ?pool (reqs b) = Inr (ix, rs, pool)" by (simp add: alloc_req_slots_def al ix_def comp_def)
  have table: "table_ok pool" using rows(2) tab conf by (simp add: table_ok_def)
  have own': "rows_own pool (R - held_rows (reqs b) + mset ix)" using own held_rows_some [OF idx] by simp
  have d: "distinct ix" "\<forall>i \<in> set ix. i < length (req_to_token pool)"
    by (rule rows_distinct [OF own' _ table], simp)+
  have len: "length ix = length (reqs b)" using rs idx by (metis list_all2_lengthD length_map)
  let ?m = "m\<lparr>row_pool := pool\<rparr>"
  have st': "kv_state k N L V ?m c" using st kv_state_pools [of ?m m] by simp
  have need: "int (pages_needed ?ps (prefix_lens b) (seq_lens b) * ?ps) \<le> room k ?m c"
    using room by (simp add: extend_need_def room_def)
  have ls: "prefix_lens b = map length ?pfs" "length (seq_lens b) = length ?pfs"
    "extend_num_tokens b = (\<Sum>j<length ?pfs. extend_lens b ! j)" using e order by (simp_all add: comp_def)
  have ls': "seq_lens b ! i = prefix_lens b ! i + extend_lens b ! i" if "i < length ?pfs" for i using e that by simp
  obtain out state a c' new where kv: "(if ?ps = 1 then alloc_token_slots k ?m (RadixCache c) (extend_num_tokens b) False
        else alloc_paged_token_slots_extend dev k ?m (RadixCache c) (prefix_lens b) (seq_lens b) (last_locs ?pfs) (extend_num_tokens b) False) =
      Inr (out, state, ?m\<lparr>kv_pool := a\<rparr>, RadixCache c')"
    and ex: "extended ?ps (extend_lens b) ?pfs pgs out new"
    and c': "kv_state k N L (mset (concat new) + V) (?m\<lparr>kv_pool := a\<rparr>) c'" "shrinks L c c'"
    using alloc_slots_ok [OF st' _ ls(1,2) ls' order ls(3) need, of pgs] e by blast
  have fits: "batch_fits pool ix (prefix_lens b) (seq_lens b) (extend_lens b) ?pfs out"
    using table d(2) e ex len conf by (auto simp: batch_fits_def table_ok_def extended_def)
  from write_loop_ok [OF fits order.refl d(1)] obtain pool' where
    wr: "write_cache_indices ix (prefix_lens b) (seq_lens b) (extend_lens b) ?pfs out pool = Inr pool'"
    and w: "\<forall>i<length ix. take (seq_lens b ! i) (req_to_token pool' ! (ix ! i)) = batch_row (extend_lens b) ?pfs out i"
      "\<forall>r. r \<notin> set ix \<longrightarrow> req_to_token pool' ! r = req_to_token pool ! r"
      "batch_fits pool' ix (prefix_lens b) (seq_lens b) (extend_lens b) ?pfs out" "max_context_len pool' = max_context_len pool"
      "length (req_to_token pool') = length (req_to_token pool)"
    by (auto simp: write_cache_indices_def)
  have same: "free_slots pool' = free_slots pool" "rtp_size pool' = rtp_size pool" using write_keeps [OF wr] by simp_all
  have row: "batch_row (extend_lens b) ?pfs out i = prefix_indices (reqs b ! i) @ part_of (extend_lens b) out i" if i: "i < length (reqs b)" for i
  proof -
    have lay: "layout ?ps (?pfs ! i @ part_of (extend_lens b) out i) (pgs ! i @ new ! i)" using ex i by (simp add: extended_def)
    have "i < length pgs" using e i by (auto simp: batch_prefixes_def dest: list_all2_lengthD)
    then have "\<forall>p \<in> set (pgs ! i). 1 \<le> p \<and> p \<le> int N"
      using held_range [OF st held] by blast
    moreover have "\<forall>p \<in> set (new ! i). 1 \<le> p \<and> p \<le> int N"
      by (rule new_pages_range [OF c'(1)]) (use ex i in \<open>simp add: extended_def\<close>)
    ultimately have "map wrap32 (?pfs ! i @ part_of (extend_lens b) out i) = ?pfs ! i @ part_of (extend_lens b) out i"
      by (intro slots_fit [OF _ lay _ N]) (use st in \<open>auto simp: kv_state_def cache_inv_def\<close>)
    then show ?thesis using i by (simp add: batch_row_def part_of_def)
  qed
  have "alloc_for_extend dev k b m (RadixCache c) = Inr (out, ix, b\<lparr>reqs := rs\<rparr>, ?m\<lparr>kv_pool := a, row_pool := pool'\<rparr>, RadixCache c')"
    using slots kv wr by (cases "?ps = 1") (simp_all add: alloc_for_extend_def cache_page_size_def Let_def)
  moreover have "kv_state k N L (mset (concat new) + V) (?m\<lparr>kv_pool := a, row_pool := pool'\<rparr>) c'"
    using c'(1) kv_state_pools [of "?m\<lparr>kv_pool := a, row_pool := pool'\<rparr>" "?m\<lparr>kv_pool := a\<rparr>"] by simp
  moreover have "rows_own pool' (R - held_rows (reqs b) + mset ix)" using own' same by (simp add: rows_own_def)
  moreover have "table_ok pool'" using w(3-5) table same by (auto simp: table_ok_def batch_fits_def)
  ultimately show ?thesis using rs idx d(1) ex c'(2) w(1,2,4) conf row tab len
    by (intro exI [of _ out] exI [of _ ix] exI [of _ rs] exI [of _ "?m\<lparr>kv_pool := a, row_pool := pool'\<rparr>"] exI [of _ c'] exI [of _ new] conjI) auto
qed

section \<open>One more token per request\<close>

definition decode_need :: "nat \<Rightarrow> nat list \<Rightarrow> nat" where
  "decode_need ps seq = length (filter (\<lambda>n. n mod ps = 0) seq) * ps"

lemma decode_count:
  assumes "1 < ps"
  shows "new_page_count (int ps) (map int seq) (map (\<lambda>n. int (n + 1)) seq) = int (length (filter (\<lambda>n. n mod ps = 0) seq))"
proof -
  have "(n + 1) mod ps = 1 \<longleftrightarrow> n mod ps = 0" for n using assms by (auto simp: mod_Suc)
  then have "int (n + 1) mod int ps = 1 \<longleftrightarrow> n mod ps = 0" for n by (metis of_nat_1_eq_iff of_nat_mod of_nat_1)
  then have "filter (\<lambda>s. s mod int ps = 1) (map (\<lambda>n. int (n + 1)) seq) = map (\<lambda>n. int (n + 1)) (filter (\<lambda>n. n mod ps = 0) seq)"
    by (simp add: filter_map comp_def)
  then show ?thesis using decode_page_count [of "int ps" "map (\<lambda>n. int (n + 1)) seq"] assms by (simp add: comp_def)
qed

lemma part_of_ones: "i < length out \<Longrightarrow> part_of (replicate (length out) 1) out i = [out ! i]"
proof -
  assume i: "i < length out"
  have "(\<Sum>j<i. replicate (length out) 1 ! j) = (\<Sum>j<i. 1::nat)" using i by (intro sum.cong) simp_all
  then show ?thesis using i by (simp add: part_of_def slice_def take_Suc_conv_app_nth hd_drop_conv_nth Cons_nth_drop_Suc [symmetric])
qed

lemma paged_decode_ok:
  assumes st: "kv_state PagedTokenToKVPool N L V m c" and pf: "batch_prefixes (rc_page_size c) V pfs pgs"
    and ps1: "1 < rc_page_size c" and seq: "seq = map length pfs"
    and order: "\<forall>n. set (program_order dev n) = {..<n}"
    and room: "int (decode_need (rc_page_size c) seq) \<le> room PagedTokenToKVPool m c"
  shows "\<exists>out a c' new. alloc_paged_token_slots_decode dev PagedTokenToKVPool m (RadixCache c) (map (\<lambda>n. n + 1) seq) (last_locs pfs) =
      Inr (out, m\<lparr>kv_pool := a\<rparr>, RadixCache c') \<and> extended (rc_page_size c) (replicate (length pfs) 1) pfs pgs out new \<and>
    kv_state PagedTokenToKVPool N L (mset (concat new) + V) (m\<lparr>kv_pool := a\<rparr>) c' \<and> shrinks L c c'"
proof -
  let ?k = PagedTokenToKVPool and ?ps = "rc_page_size c" and ?seq = "map (\<lambda>n. n + 1) seq"
  define need where "need = length (filter (\<lambda>n. n mod ?ps = 0) seq)"
  have few: "need \<le> length pfs" using length_filter_le [of _ seq] by (simp add: need_def seq)
  then have bound: "need * ?ps \<le> length pfs * ?ps" by simp
  obtain a c' where ev: "evict_from_tree_cache ?k m (RadixCache c) (length pfs * ?ps) = Inr (m\<lparr>kv_pool := a\<rparr>, RadixCache c')"
    and c': "kv_state ?k N L V (m\<lparr>kv_pool := a\<rparr>) c'" "shrinks L c c'" and avail: "need * ?ps \<le> kv_available_size ?k a"
    and sc: "rc_page_size c' = ?ps"
    by (rule evict_estimate [OF st bound room [unfolded decode_need_def, folded need_def]])
  note s = c'(1) [unfolded kv_state_def sc, simplified]
  have kvown: "kv_own ?k ?ps N a (tree_pages c' + V)" and set': "settled a" using s by simp_all
  then have own: "paged_own ?ps N a (tree_pages c' + V)" by (simp add: kv_own_def)
  have ps: "0 < ?ps" using ps1 by simp
  have pre: "map (\<lambda>s. s - 1) (map int ?seq) = map int seq" "map int ?seq = map (\<lambda>n. int (n + 1)) seq" by (simp_all add: comp_def)
  have lens: "length ?seq = length pfs" "\<And>i. i < length pfs \<Longrightarrow> ?seq ! i = seq ! i + replicate (length pfs) 1 ! i" by (simp_all add: seq)
  have batch: "batch_ok (int ?ps) (tree_pages c' + V) (program_order dev (length seq)) (map int seq) (map int ?seq) (last_locs pfs)"
    by (rule batch_prefixes_ok [OF ps pf _ seq lens(1)]) (use kv.held_once [OF kvown] seq order in simp_all)
  have count: "new_page_count (int ?ps) (map int seq) (map int ?seq) = int need"
    using decode_count [OF ps1, of seq] by (simp only: pre(2) need_def)
  define a1 where "a1 = merged (length (free_pages a) < length (map int ?seq)) a"
  have enough: "need \<le> length (free_pages a1)"
  proof (cases "need < length pfs")
    case True
    then show ?thesis unfolding a1_def using free_enough [OF kvown set' avail True] by (simp add: seq)
  next
    case False
    then have eq: "need = length pfs" using few by simp
    have "need \<le> length (free_pages a) + (if need_sort a then length (release_pages a) else 0)"
      using avail ps pages_on_hand [OF kvown set'] available_count [OF kvown set'] set' by (auto simp: settled_def)
    then have "need \<le> length (free_pages (merged (length (free_pages a) < need) a))" unfolding merged_enough .
    then show ?thesis by (simp add: a1_def eq seq)
  qed
  have own1: "paged_own ?ps N a1 (tree_pages c' + V)" unfolding a1_def by (rule merged_own [OF own])
  have "new_page_count (int ?ps) (map int seq) (map int ?seq) \<le> int (length (free_pages a1))" using enough count by simp
  from handed_out_batch [OF own1 pf seq lens batch this] obtain out a' new where
    h: "handed_out a1 (map int seq) (map int ?seq) (last_locs pfs) = Inr (Some (map Some out), a')"
      "extended ?ps (replicate (length pfs) 1) pfs pgs out new" "paged_own ?ps N a' (tree_pages c' + (mset (concat new) + V))"
    by blast
  have "alloc_decode (lane_other dev) (page_junk dev) (program_order dev (length seq)) a (map int ?seq) (map int ?seq) (last_locs pfs) = Inr (Some (map Some out), a')"
    using alloc_decode_eq [OF own ps1, of "program_order dev (length seq)" "map int ?seq", unfolded pre(1), OF batch a1_def] enough count h(1) by simp
  then have "kv_alloc_decode dev ?k a ?seq (last_locs pfs) = Inr (Some out, a')"
    by (simp add: kv_alloc_decode_def read_output_def comp_def)
  moreover have "page_size (kv_pool m) = ?ps" using kv_own_owns st by (auto simp: kv_state_def)
  ultimately have "alloc_paged_token_slots_decode dev ?k m (RadixCache c) ?seq (last_locs pfs) = Inr (out, m\<lparr>kv_pool := a'\<rparr>, RadixCache c')"
    unfolding alloc_paged_token_slots_decode_def Let_def using ev seq by simp
  moreover have "settled a'" using handed_out_settled [OF h(1)] set' by (simp add: a1_def)
  then have "kv_state ?k N L (mset (concat new) + V) (m\<lparr>kv_pool := a'\<rparr>) c'"
    using s h(3) by (simp add: kv_state_def sc kv_own_def)
  ultimately show ?thesis using h(2) c'(2) by blast
qed

lemma write_cells_ok:
  assumes "distinct rows" "length cols = length rows" "length vals = length rows"
    "\<forall>i<length rows. rows ! i < length (req_to_token pool) \<and> cols ! i < length (req_to_token pool ! (rows ! i))"
  shows "\<exists>pool'. foldM pool_write_cell pool (zip rows (zip cols vals)) = Inr pool' \<and>
    (\<forall>i<length rows. req_to_token pool' ! (rows ! i) = (req_to_token pool ! (rows ! i))[cols ! i := wrap32 (vals ! i)]) \<and>
    (\<forall>r. r \<notin> set rows \<longrightarrow> req_to_token pool' ! r = req_to_token pool ! r) \<and>
    length (req_to_token pool') = length (req_to_token pool) \<and> free_slots pool' = free_slots pool \<and> rtp_size pool' = rtp_size pool \<and>
    max_context_len pool' = max_context_len pool"
  using assms
proof (induction rows arbitrary: cols vals pool)
  case (Cons r rows)
  obtain j cols' v vals' where eq: "cols = j # cols'" "vals = v # vals'" using Cons.prems(2,3) by (metis Suc_length_conv)
  define p where "p = pool\<lparr>req_to_token := (req_to_token pool)[r := (req_to_token pool ! r)[j := wrap32 v]]\<rparr>"
  have r: "r < length (req_to_token pool)" "j < length (req_to_token pool ! r)" using Cons.prems(4) eq by auto
  have ne: "r \<noteq> rows ! i" if "i < length rows" for i using Cons.prems(1) that by auto
  have fit: "rows ! i < length (req_to_token pool)" "cols' ! i < length (req_to_token pool ! (rows ! i))" if "i < length rows" for i
    using Cons.prems(4) that eq by auto
  obtain pool' where IH: "foldM pool_write_cell p (zip rows (zip cols' vals')) = Inr pool'"
    "\<forall>i<length rows. req_to_token pool' ! (rows ! i) = (req_to_token p ! (rows ! i))[cols' ! i := wrap32 (vals' ! i)]"
    "\<forall>r. r \<notin> set rows \<longrightarrow> req_to_token pool' ! r = req_to_token p ! r"
    "length (req_to_token pool') = length (req_to_token p)" "free_slots pool' = free_slots p" "rtp_size pool' = rtp_size p"
    "max_context_len pool' = max_context_len p"
  proof -
    have "\<forall>i<length rows. rows ! i < length (req_to_token p) \<and> cols' ! i < length (req_to_token p ! (rows ! i))"
      using fit ne by (simp add: p_def)
    then show thesis using that Cons.IH [of cols' vals' p] Cons.prems(1-3) eq by auto
  qed
  have "foldM pool_write_cell pool (zip (r # rows) (zip cols vals)) = Inr pool'"
    using r IH(1) by (simp add: eq pool_write_cell_def p_def)
  moreover have "req_to_token pool' ! ((r # rows) ! i) = (req_to_token pool ! ((r # rows) ! i))[cols ! i := wrap32 (vals ! i)]"
    if "i < length (r # rows)" for i
    using IH(2,3) r ne that Cons.prems(1) by (cases i) (auto simp: p_def eq)
  moreover have "req_to_token pool' ! x = req_to_token pool ! x" if "x \<notin> set (r # rows)" for x using IH(3) that by (simp add: p_def)
  ultimately show ?case using IH(4-7) unfolding p_def by auto
qed simp

text \<open>The slots that the running requests hold, row by row.\<close>

definition row_slots :: "req_to_token_pool \<Rightarrow> schedule_batch \<Rightarrow> int list list" where
  "row_slots pool b = map2 (\<lambda>i n. take n (req_to_token pool ! i)) (req_pool_indices b) (seq_lens b)"

definition decode_batch :: "nat \<Rightarrow> int multiset \<Rightarrow> req_to_token_pool \<Rightarrow> schedule_batch \<Rightarrow> int list list \<Rightarrow> bool" where
  "decode_batch ps V pool b pgs \<longleftrightarrow>
     distinct (req_pool_indices b) \<and> length (seq_lens b) = length (req_pool_indices b) \<and> encoder_lens b = None \<and>
     (\<forall>i<length (seq_lens b). req_pool_indices b ! i < length (req_to_token pool) \<and>
        0 < seq_lens b ! i \<and> seq_lens b ! i < length (req_to_token pool ! (req_pool_indices b ! i))) \<and>
     batch_prefixes ps V (row_slots pool b) pgs"

lemma row_slots_facts:
  assumes b: "decode_batch ps V pool b pgs"
  shows "length (row_slots pool b) = length (seq_lens b)" "map length (row_slots pool b) = seq_lens b"
    "mmap (\<lambda>(i, n). if i < length (req_to_token pool) then py_get (req_to_token pool ! i) (int n - 1) else Inl IndexError)
       (zip (req_pool_indices b) (seq_lens b)) = Inr (last_locs (row_slots pool b))"
proof -
  have len: "length (seq_lens b) = length (req_pool_indices b)" using b by (simp add: decode_batch_def)
  show *: "length (row_slots pool b) = length (seq_lens b)" using len by (simp add: row_slots_def)
  show "map length (row_slots pool b) = seq_lens b"
    using b len by (intro nth_equalityI) (auto simp: row_slots_def decode_batch_def)
  have get: "(if i < length (req_to_token pool) then py_get (req_to_token pool ! i) (int n - 1) else Inl IndexError) =
      Inr (last (take n (req_to_token pool ! i)))" "take n (req_to_token pool ! i) \<noteq> []"
    if z: "(i, n) \<in> set (zip (req_pool_indices b) (seq_lens b))" for i n
  proof -
    obtain k where "k < length (seq_lens b)" "i = req_pool_indices b ! k" "n = seq_lens b ! k"
      using z by (auto simp: in_set_zip)
    then have f: "i < length (req_to_token pool)" "0 < n" "n < length (req_to_token pool ! i)" using b by (auto simp: decode_batch_def)
    then show "take n (req_to_token pool ! i) \<noteq> []" by auto
    then have "last (take n (req_to_token pool ! i)) = req_to_token pool ! i ! (n - 1)"
      using f by (simp add: last_conv_nth)
    then show "(if i < length (req_to_token pool) then py_get (req_to_token pool ! i) (int n - 1) else Inl IndexError) =
      Inr (last (take n (req_to_token pool ! i)))"
      using f by (simp add: py_get_def nat_diff_distrib)
  qed
  have "mmap (\<lambda>(i, n). if i < length (req_to_token pool) then py_get (req_to_token pool ! i) (int n - 1) else Inl IndexError)
       (zip (req_pool_indices b) (seq_lens b)) = Inr (map (\<lambda>(i, n). last (take n (req_to_token pool ! i))) (zip (req_pool_indices b) (seq_lens b)))"
    by (rule mmap_total) (use get(1) in auto)
  also have "map (\<lambda>(i, n). last (take n (req_to_token pool ! i))) (zip (req_pool_indices b) (seq_lens b)) = last_locs (row_slots pool b)"
    using get(2) by (auto simp: last_locs_def row_slots_def dest: get(2))
  finally show "mmap (\<lambda>(i, n). if i < length (req_to_token pool) then py_get (req_to_token pool ! i) (int n - 1) else Inl IndexError)
       (zip (req_pool_indices b) (seq_lens b)) = Inr (last_locs (row_slots pool b))" .
qed

lemma decode_slots_ok:
  assumes st: "kv_state k N L V m c" and b: "decode_batch (rc_page_size c) V (row_pool m) b pgs"
    and order: "\<forall>n. set (program_order dev n) = {..<n}"
    and room: "int (decode_need (rc_page_size c) (seq_lens b)) \<le> room k m c"
  shows "\<exists>out a c' new.
      (if rc_page_size c = 1
       then rbind (alloc_token_slots k m (RadixCache c) (length (seq_lens b) * 1) False) (\<lambda>(locs, state, m, tree). Inr (locs, m, tree))
       else rbind (mmap (\<lambda>(i, n). if i < length (req_to_token (row_pool m)) then py_get (req_to_token (row_pool m) ! i) (int n - 1)
                                  else Inl IndexError) (zip (req_pool_indices b) (seq_lens b))) (\<lambda>last_loc.
            alloc_paged_token_slots_decode dev k m (RadixCache c) (map (\<lambda>n. n + 1) (seq_lens b)) last_loc)) =
      Inr (out, m\<lparr>kv_pool := a\<rparr>, RadixCache c') \<and>
    extended (rc_page_size c) (replicate (length (seq_lens b)) 1) (row_slots (row_pool m) b) pgs out new \<and>
    kv_state k N L (mset (concat new) + V) (m\<lparr>kv_pool := a\<rparr>) c' \<and> shrinks L c c'"
proof -
  let ?pfs = "row_slots (row_pool m) b"
  note f = row_slots_facts [OF b]
  have pf: "batch_prefixes (rc_page_size c) V ?pfs pgs" using b by (simp add: decode_batch_def)
  show ?thesis
  proof (cases "rc_page_size c = 1")
    case True
    have "int (length (seq_lens b)) \<le> room k m c" using room True by (simp add: decode_need_def)
    moreover have "length (seq_lens b) = (\<Sum>j<length ?pfs. replicate (length (seq_lens b)) 1 ! j)" by (simp add: f(1))
    ultimately obtain out state a c' new where
      "alloc_token_slots k m (RadixCache c) (length (seq_lens b)) False = Inr (out, state, m\<lparr>kv_pool := a\<rparr>, RadixCache c')"
      "extended 1 (replicate (length (seq_lens b)) 1) ?pfs pgs out new" "kv_state k N L (mset (concat new) + V) (m\<lparr>kv_pool := a\<rparr>) c'" "shrinks L c c'"
      using token_extend_ok [OF st True, of ?pfs pgs "length (seq_lens b)" "replicate (length (seq_lens b)) 1" False] pf True by auto
    then show ?thesis unfolding True mult_1_right by (intro exI conjI) simp_all
  next
    case False
    then have k: "k = PagedTokenToKVPool" using st by (cases k) (simp_all add: kv_state_def kv_own_def)
    have "1 < rc_page_size c" using False st by (auto simp: kv_state_def cache_inv_def)
    from paged_decode_ok [OF st [unfolded k] pf this f(2) [symmetric], of dev] order room show ?thesis
      using False f unfolding k by simp
  qed
qed

lemma alloc_for_decode_ok:
  assumes st: "kv_state k N L V m c" and b: "decode_batch (rc_page_size c) V (row_pool m) b pgs" and N: "(N + 1) * rc_page_size c \<le> 2 ^ 31"
    and held: "\<forall>pg \<in> set pgs. set pg \<subseteq> set_mset (tree_pages c + V)"
    and order: "\<forall>n. set (program_order dev n) = {..<n}"
    and room: "int (decode_need (rc_page_size c) (seq_lens b)) \<le> room k m c"
  shows "\<exists>out m' c' new. alloc_for_decode dev k b 1 m (RadixCache c) = Inr (out, m', RadixCache c') \<and>
    length out = length (seq_lens b) \<and> length new = length out \<and>
    (\<forall>i<length out. layout (rc_page_size c) (row_slots (row_pool m) b ! i @ [out ! i]) (pgs ! i @ new ! i)) \<and>
    kv_state k N L (mset (concat new) + V) m' c' \<and> shrinks L c c' \<and>
    (\<forall>i<length out. take (seq_lens b ! i + 1) (req_to_token (row_pool m') ! (req_pool_indices b ! i)) = row_slots (row_pool m) b ! i @ [out ! i]) \<and>
    (\<forall>r. r \<notin> set (req_pool_indices b) \<longrightarrow> req_to_token (row_pool m') ! r = req_to_token (row_pool m) ! r) \<and>
    map length (req_to_token (row_pool m')) = map length (req_to_token (row_pool m)) \<and>
    free_slots (row_pool m') = free_slots (row_pool m) \<and> rtp_size (row_pool m') = rtp_size (row_pool m) \<and>
    max_context_len (row_pool m') = max_context_len (row_pool m)"
proof -
  let ?ps = "rc_page_size c" and ?pool = "row_pool m" and ?rows = "req_pool_indices b"
  let ?n = "length (seq_lens b)"
  obtain out a c' new where al: "(if ?ps = 1
       then rbind (alloc_token_slots k m (RadixCache c) (?n * 1) False) (\<lambda>(locs, state, m, tree). Inr (locs, m, tree))
       else rbind (mmap (\<lambda>(i, n). if i < length (req_to_token ?pool) then py_get (req_to_token ?pool ! i) (int n - 1)
                                  else Inl IndexError) (zip ?rows (seq_lens b))) (\<lambda>last_loc.
            alloc_paged_token_slots_decode dev k m (RadixCache c) (map (\<lambda>n. n + 1) (seq_lens b)) last_loc)) =
      Inr (out, m\<lparr>kv_pool := a\<rparr>, RadixCache c')"
    and ex: "extended ?ps (replicate ?n 1) (row_slots ?pool b) pgs out new"
    and c': "kv_state k N L (mset (concat new) + V) (m\<lparr>kv_pool := a\<rparr>) c'" "shrinks L c c'"
    using decode_slots_ok [OF st b order room] by blast
  note f = row_slots_facts [OF b]
  note d = b [unfolded decode_batch_def]
  have len: "length out = ?n" "length new = ?n" using ex by (simp_all add: extended_def f(1))
  have part: "part_of (replicate ?n 1) out i = [out ! i]" if "i < ?n" for i using part_of_ones [of i out] that len by simp
  have lay: "layout ?ps (row_slots ?pool b ! i @ [out ! i]) (pgs ! i @ new ! i)" if "i < ?n" for i
    using ex that unfolding extended_def f(1) by (metis part [OF that])
  have w: "wrap32 (out ! i) = out ! i" if i: "i < ?n" for i
  proof -
    have "length pgs = ?n" using d f(1) by (auto simp: batch_prefixes_def dest: list_all2_lengthD)
    then have "\<forall>p \<in> set (pgs ! i). 1 \<le> p \<and> p \<le> int N"
      using i held_range [OF st held] by simp
    moreover have "\<forall>p \<in> set (new ! i). 1 \<le> p \<and> p \<le> int N" by (rule new_pages_range [OF c'(1)]) (simp add: len i)
    ultimately have "map wrap32 (row_slots ?pool b ! i @ [out ! i]) = row_slots ?pool b ! i @ [out ! i]"
      by (intro slots_fit [OF _ lay [OF i] _ N]) (use st in \<open>auto simp: kv_state_def cache_inv_def\<close>)
    then show ?thesis by simp
  qed
  obtain pool' where wr: "foldM pool_write_cell ?pool (zip ?rows (zip (seq_lens b) out)) = Inr pool'"
    and p': "\<forall>i<length ?rows. req_to_token pool' ! (?rows ! i) = (req_to_token ?pool ! (?rows ! i))[seq_lens b ! i := wrap32 (out ! i)]"
      "\<forall>r. r \<notin> set ?rows \<longrightarrow> req_to_token pool' ! r = req_to_token ?pool ! r"
      "length (req_to_token pool') = length (req_to_token ?pool)" "free_slots pool' = free_slots ?pool" "rtp_size pool' = rtp_size ?pool"
      "max_context_len pool' = max_context_len ?pool"
    using write_cells_ok [of ?rows "seq_lens b" out ?pool] d len by auto
  have "(if length out = 1 then replicate (length ?rows) (hd out) else out) = out"
    using len d by (cases out) auto
  then have cells: "pool_write_cells ?pool ?rows (seq_lens b) out = Inr pool'"
    using wr len d by (simp add: pool_write_cells_def)
  have "alloc_for_decode dev k b 1 m (RadixCache c) = Inr (out, m\<lparr>kv_pool := a, row_pool := pool'\<rparr>, RadixCache c')"
    unfolding alloc_for_decode_def Let_def cache_page_size_def prefix_cache.case al using cells d by simp
  moreover have "take (seq_lens b ! i + 1) (req_to_token pool' ! (?rows ! i)) = row_slots ?pool b ! i @ [out ! i]" if i: "i < ?n" for i
  proof -
    have "seq_lens b ! i < length (req_to_token ?pool ! (?rows ! i))" using d i by auto
    then have "take (seq_lens b ! i + 1) ((req_to_token ?pool ! (?rows ! i))[seq_lens b ! i := out ! i]) =
        take (seq_lens b ! i) (req_to_token ?pool ! (?rows ! i)) @ [out ! i]"
      by (simp add: take_Suc_conv_app_nth)
    then show ?thesis using p'(1) i d w [OF i] by (simp add: row_slots_def)
  qed
  moreover have "map length (req_to_token pool') = map length (req_to_token ?pool)"
  proof (intro nth_equalityI)
    fix r assume "r < length (map length (req_to_token pool'))"
    then show "map length (req_to_token pool') ! r = map length (req_to_token ?pool) ! r"
      using p'(1-3) by (cases "r \<in> set ?rows") (auto simp: in_set_conv_nth)
  qed (simp add: p'(3))
  moreover have "kv_state k N L (mset (concat new) + V) (m\<lparr>kv_pool := a, row_pool := pool'\<rparr>) c'"
    using c'(1) kv_state_pools [of "m\<lparr>kv_pool := a, row_pool := pool'\<rparr>" "m\<lparr>kv_pool := a\<rparr>"] by simp
  ultimately show ?thesis using len lay c'(2) p'(2,4-6)
    by (intro exI [of _ out] exI [of _ "m\<lparr>kv_pool := a, row_pool := pool'\<rparr>"] exI [of _ c'] exI [of _ new]) simp
qed

end
