(* ===== verification/Prefill_Adder.thy ===== *)
theory Prefill_Adder
  imports Kv_Batch
begin

text \<open>
  Admission of requests to a prefill batch: \<^verbatim>\<open>Req.init_next_round_input\<close> (\<^verbatim>\<open>managers/schedule_batch.py\<close>), the
  class \<^verbatim>\<open>PrefillAdder\<close> (\<^verbatim>\<open>managers/schedule_policy.py\<close>) with its token budget, and the loop of
  \<^verbatim>\<open>Scheduler._get_new_batch_prefill_raw\<close> over the waiting queue.

  The budget is counted as the code counts it; \<^verbatim>\<open>new_token_ratio\<close> is a rational number.
  What \<^verbatim>\<open>prefill_delayer\<close> answers is an argument. Sliding-window and state-space caches, diffusion models, the host
  tier (\<^verbatim>\<open>host_hit_length\<close> is 0), priority preemption and LoRA are not modelled.
\<close>

section \<open>Definitions\<close>

subsection \<open>Preparing a request\<close>

definition set_extend_input_len :: "nat \<Rightarrow> request \<Rightarrow> request" where
  "set_extend_input_len n r =
     (let start = (if logprob_start_len r = - 1 then int (length (fill_ids r))
                   else max (logprob_start_len r) (int (length (prefix_indices r))))
      in r\<lparr>extend_input_len := n, extend_logprob_start_len := min (start - int (length (prefix_indices r))) (int n)\<rparr>)"

definition compute_max_prefix_len :: "request \<Rightarrow> nat \<Rightarrow> nat" where
  "compute_max_prefix_len r input_len =
     (let m = int input_len - 1;
          m = (if return_logprob r \<and> logprob_start_len r \<ge> 0 then min m (logprob_start_len r) else m)
      in nat (max m 0))"

text \<open>\<^verbatim>\<open>match_prefix\<close> of either cache: the slots, the last node, and the cache after the call.\<close>

definition cache_match_prefix ::
  "int \<Rightarrow> int \<Rightarrow> prefix_cache \<Rightarrow> radix_key \<Rightarrow> (int list \<times> nat option \<times> prefix_cache) result" where
  "cache_match_prefix access created tree key =
     (case tree of
        ChunkCache ps \<Rightarrow> Inr ([], None, tree)
      | RadixCache c \<Rightarrow> rbind (match_prefix access created c key) (\<lambda>(v, i, c). Inr (v, Some i, RadixCache c)))"

definition init_next_round_input ::
  "int \<Rightarrow> int \<Rightarrow> prefix_cache option \<Rightarrow> request \<Rightarrow> (request \<times> prefix_cache option) result" where
  "init_next_round_input access created tree r =
     (let r = r\<lparr>fill_ids := origin_input_ids r @ output_ids r\<rparr>;
          token_ids_to_match = take (compute_max_prefix_len r (length (fill_ids r))) (fill_ids r);
          token_ids_to_match = (if embed_overrides r then [] else token_ids_to_match);
          extend = (\<lambda>r. set_extend_input_len (length (fill_ids r) - length (prefix_indices r)) r)
      in case tree of
           None \<Rightarrow> Inr (extend r, None)
         | Some t \<Rightarrow>
             rbind (cache_match_prefix access created t
                      \<lparr>token_ids = token_ids_to_match, extra_key = req_extra_key r, is_bigram = False\<rparr>) (\<lambda>(v, node, t).
             Inr (extend (r\<lparr>prefix_indices := v, last_node := node, cache_protected_len := length v\<rparr>), Some t)))"

subsection \<open>The budget\<close>

datatype add_req_result = CONTINUE | NO_TOKEN | OTHER

record prefill_adder =
  pa_page_size :: nat
  clip_max_new_tokens :: nat
  new_token_ratio :: rat
  rem_input_tokens :: int
  rem_chunk_tokens :: "int option"
  rem_total_token_offset :: rat
  cur_rem_token_offset :: int
  req_states :: "(rat \<times> nat) list option"
  can_run_list :: "request list"
  new_chunked_req :: "request option"
  log_hit_tokens :: int
  log_input_tokens :: int
  one_prefill_only :: bool
  prefill_max_requests :: "nat option"

definition running_request_token_offset :: "nat \<Rightarrow> rat \<Rightarrow> request \<Rightarrow> rat" where
  "running_request_token_offset clip_new ratio r =
     of_int (min (int (max_new_tokens r) - int (length (output_ids r))) (int clip_new)) * ratio"

definition adder_init ::
  "nat \<Rightarrow> nat \<Rightarrow> request list \<Rightarrow> rat \<Rightarrow> int \<Rightarrow> int option \<Rightarrow> nat \<Rightarrow> bool \<Rightarrow> nat option \<Rightarrow> prefill_adder" where
  "adder_init ps clip_new running ratio rem_input rem_chunk num_mixed one_only max_requests =
     \<lparr>pa_page_size = ps, clip_max_new_tokens = clip_new, new_token_ratio = ratio,
      rem_input_tokens = rem_input - int num_mixed,
      rem_chunk_tokens = map_option (\<lambda>n. n - int num_mixed) rem_chunk,
      rem_total_token_offset = of_nat num_mixed + sum_list (map (running_request_token_offset clip_new ratio) running),
      cur_rem_token_offset = int num_mixed, req_states = None, can_run_list = [], new_chunked_req = None,
      log_hit_tokens = 0, log_input_tokens = 0, one_prefill_only = one_only, prefill_max_requests = max_requests\<rparr>"

definition available_and_evictable :: "allocator_class \<Rightarrow> kv_memory \<Rightarrow> prefix_cache \<Rightarrow> int" where
  "available_and_evictable k m tree =
     int (kv_available_size k (kv_pool m)) + (case tree of RadixCache c \<Rightarrow> evictable_size c | ChunkCache ps \<Rightarrow> 0)"

definition rem_total_tokens :: "allocator_class \<Rightarrow> kv_memory \<Rightarrow> prefix_cache \<Rightarrow> prefill_adder \<Rightarrow> rat" where
  "rem_total_tokens k m tree pa = of_int (available_and_evictable k m tree) - rem_total_token_offset pa"

definition cur_rem_tokens :: "allocator_class \<Rightarrow> kv_memory \<Rightarrow> prefix_cache \<Rightarrow> prefill_adder \<Rightarrow> int" where
  "cur_rem_tokens k m tree pa = available_and_evictable k m tree - cur_rem_token_offset pa"

text \<open>\<^verbatim>\<open>-(-tokens // page_size) * page_size\<close>, with Python's floor division.\<close>

definition ceil_paged_tokens :: "nat \<Rightarrow> int \<Rightarrow> int" where
  "ceil_paged_tokens ps tokens = - (- tokens div int ps) * int ps"

definition budget_state :: "allocator_class \<Rightarrow> kv_memory \<Rightarrow> prefix_cache \<Rightarrow> prefill_adder \<Rightarrow> add_req_result" where
  "budget_state k m tree pa =
     (if rem_total_tokens k m tree pa \<le> 0 \<or> cur_rem_tokens k m tree pa \<le> 0 then NO_TOKEN
      else if rem_input_tokens pa \<le> 0 then OTHER
      else case rem_chunk_tokens pa of
             Some n \<Rightarrow> if n \<le> 0 then OTHER else CONTINUE
           | None \<Rightarrow> CONTINUE)"

definition update_prefill_budget :: "nat \<Rightarrow> int \<Rightarrow> nat \<Rightarrow> prefill_adder \<Rightarrow> prefill_adder" where
  "update_prefill_budget prefix_len extend_len max_new pa =
     (let extend_len = ceil_paged_tokens (pa_page_size pa) extend_len; overhead = int (pa_page_size pa)
      in pa\<lparr>rem_total_token_offset := rem_total_token_offset pa + of_int (extend_len + int max_new + overhead),
            cur_rem_token_offset := cur_rem_token_offset pa + (extend_len + overhead),
            rem_input_tokens := rem_input_tokens pa - extend_len,
            rem_chunk_tokens := map_option (\<lambda>n. n - extend_len) (rem_chunk_tokens pa),
            log_hit_tokens := log_hit_tokens pa + int prefix_len,
            log_input_tokens := log_input_tokens pa + extend_len\<rparr>)"

subsection \<open>Locks\<close>

text \<open>A chunk cache has no nodes and no locks.\<close>

definition cache_inc_lock :: "prefix_cache \<Rightarrow> nat option \<Rightarrow> prefix_cache result" where
  "cache_inc_lock tree node =
     (case tree of
        ChunkCache ps \<Rightarrow> Inr tree
      | RadixCache c \<Rightarrow> (case node of
                          None \<Rightarrow> if disable c then Inr tree else Inl AttributeError
                        | Some i \<Rightarrow> rbind (inc_lock_ref c i) (\<lambda>(d, c). Inr (RadixCache c))))"

definition cache_dec_lock :: "prefix_cache \<Rightarrow> nat option \<Rightarrow> prefix_cache result" where
  "cache_dec_lock tree node =
     (case tree of
        ChunkCache ps \<Rightarrow> Inr tree
      | RadixCache c \<Rightarrow> (case node of
                          None \<Rightarrow> if disable c then Inr tree else Inl AttributeError
                        | Some i \<Rightarrow> rbind (dec_lock_ref c i) (\<lambda>(d, c). Inr (RadixCache c))))"

text \<open>\<^verbatim>\<open>with self._lock_node(last_node)\<close>: the node is unlocked again when the block ends, also where it returns early.\<close>

definition with_lock ::
  "nat option \<Rightarrow> (prefix_cache \<Rightarrow> ('a \<times> prefix_cache) result) \<Rightarrow> prefix_cache \<Rightarrow> ('a \<times> prefix_cache) result" where
  "with_lock node body tree =
     rbind (cache_inc_lock tree node) (\<lambda>tree.
     rbind (body tree) (\<lambda>(x, tree).
     rbind (cache_dec_lock tree node) (\<lambda>tree. Inr (x, tree))))"

subsection \<open>Adding a request\<close>

definition IGNORE_EOS_RESERVE_TOKENS :: nat where
  "IGNORE_EOS_RESERVE_TOKENS = 1"

text \<open>\<^verbatim>\<open>add_req_state\<close>, appending and with \<^verbatim>\<open>insert_sort\<close>: the index stays at the last entry where the loop does not break.\<close>

definition state_of :: "rat \<Rightarrow> request \<Rightarrow> rat \<times> nat" where
  "state_of ratio r =
     (of_nat (max_new_tokens r) * (if ignore_eos r then 1 else ratio) - of_nat (length (output_ids r)),
      length (origin_input_ids r) + length (output_ids r))"

definition append_state :: "rat \<Rightarrow> (rat \<times> nat) list \<Rightarrow> request \<Rightarrow> (rat \<times> nat) list" where
  "append_state ratio states r = (if fst (state_of ratio r) \<le> 0 then states else states @ [state_of ratio r])"

fun insert_index :: "rat \<Rightarrow> (rat \<times> nat) list \<Rightarrow> nat" where
  "insert_index x [] = 0"
| "insert_index x [y] = 0"
| "insert_index x (y # ys) = (if x \<le> fst y then 0 else Suc (insert_index x ys))"

definition insert_state :: "rat \<Rightarrow> (rat \<times> nat) list \<Rightarrow> request \<Rightarrow> (rat \<times> nat) list" where
  "insert_state ratio states r =
     (let st = state_of ratio r; i = insert_index (fst st) states
      in if fst st \<le> 0 then states else take i states @ st # drop i states)"

definition ignore_eos_states :: "prefill_adder \<Rightarrow> request list \<Rightarrow> request \<Rightarrow> (rat \<times> nat) list" where
  "ignore_eos_states pa running r =
     (case req_states pa of
        None \<Rightarrow> sort_key fst (foldl (append_state (new_token_ratio pa)) [] (r # running @ can_run_list pa))
      | Some states \<Rightarrow> insert_state (new_token_ratio pa) states r)"

fun enough_for_states :: "rat \<Rightarrow> rat \<Rightarrow> (rat \<times> nat) list \<Rightarrow> bool" where
  "enough_for_states cur freed [] \<longleftrightarrow> True"
| "enough_for_states cur freed ((left, occupied) # states) \<longleftrightarrow>
     (let bs = of_nat (Suc (length states))
      in \<not> cur + freed - left * bs \<le> of_nat IGNORE_EOS_RESERVE_TOKENS * bs \<and> enough_for_states cur (freed + of_nat occupied) states)"

definition add_one_req_ignore_eos ::
  "allocator_class \<Rightarrow> kv_memory \<Rightarrow> bool \<Rightarrow> request list \<Rightarrow> prefill_adder \<Rightarrow> request \<Rightarrow> prefix_cache
     \<Rightarrow> add_req_result \<times> prefill_adder \<times> request" where
  "add_one_req_ignore_eos k m allow running pa r tree =
     (let ps = pa_page_size pa; paged_input = ceil_paged_tokens ps (int (extend_input_len r))
      in if of_int paged_input > min (of_int (cur_rem_tokens k m tree pa)) (rem_total_tokens k m tree pa) then (NO_TOKEN, pa, r)
         else
           let states = ignore_eos_states pa running r; pa = pa\<lparr>req_states := Some states\<rparr>
           in if \<not> enough_for_states (of_int (cur_rem_tokens k m tree pa - paged_input)) 0 states then (NO_TOKEN, pa, r)
              else if \<not> allow then (OTHER, pa, r)
              else if rem_chunk_tokens pa = None \<or> int (extend_input_len r) \<le> the (rem_chunk_tokens pa)
              then
                let pa = update_prefill_budget 0 (int (extend_input_len r)) (min (max_new_tokens r) (clip_max_new_tokens pa))
                           (pa\<lparr>can_run_list := can_run_list pa @ [r]\<rparr>)
                in (budget_state k m tree pa, pa, r)
              else if the (rem_chunk_tokens pa) \<le> 0 then (OTHER, pa, r)
              else
                let trunc_len = nat (the (rem_chunk_tokens pa));
                    r = set_extend_input_len trunc_len r;
                    r = r\<lparr>fill_ids := take trunc_len (fill_ids r)\<rparr>;
                    pa = update_prefill_budget 0 (int trunc_len) 0 (pa\<lparr>can_run_list := can_run_list pa @ [r], new_chunked_req := Some r\<rparr>)
                in (budget_state k m tree pa, pa, r))"

text \<open>The chunk that fits: whole pages, a multiple of \<^verbatim>\<open>truncation_align_size\<close>, ending at a page boundary.\<close>

definition truncated_len :: "nat \<Rightarrow> nat option \<Rightarrow> int \<Rightarrow> nat \<Rightarrow> int option" where
  "truncated_len ps align rem_chunk prefix_len =
     (let trunc_len = rem_chunk div int ps * int ps
      in if trunc_len \<le> 0 then None
         else
           case (case align of
                   None \<Rightarrow> Some trunc_len
                 | Some a \<Rightarrow> if trunc_len < int a then None else Some (int a * (trunc_len div int a))) of
             None \<Rightarrow> None
           | Some trunc_len \<Rightarrow>
               let now_input_len = (trunc_len + int prefix_len) div int ps * int ps;
                   trunc_len = now_input_len - int prefix_len
               in if trunc_len \<le> 0 then None else Some trunc_len)"

text \<open>The body of the \<^verbatim>\<open>with\<close> block of \<^verbatim>\<open>add_one_req\<close>; the first component is the result where it returns early.\<close>

definition add_locked ::
  "allocator_class \<Rightarrow> kv_memory \<Rightarrow> nat option \<Rightarrow> int \<Rightarrow> prefill_adder \<Rightarrow> request \<Rightarrow> prefix_cache
     \<Rightarrow> ((add_req_result option \<times> prefill_adder \<times> request) \<times> prefix_cache) result" where
  "add_locked k m align total_tokens pa r tree =
     (let ps = pa_page_size pa; prefix_len = length (prefix_indices r);
          input_tokens = ceil_paged_tokens ps (int (extend_input_len r))
      in if of_int total_tokens \<ge> rem_total_tokens k m tree pa then Inr ((Some NO_TOKEN, pa, r), tree)
         else if rem_chunk_tokens pa = None \<and> can_run_list pa \<noteq> [] \<and> input_tokens \<ge> rem_input_tokens pa
         then Inr ((Some OTHER, pa, r), tree)
         else if rem_chunk_tokens pa = None \<or> input_tokens \<le> the (rem_chunk_tokens pa)
         then
           rbind (cache_inc_lock tree (last_node r)) (\<lambda>tree.
           Inr ((None, update_prefill_budget prefix_len input_tokens (min (max_new_tokens r) (clip_max_new_tokens pa))
                         (pa\<lparr>can_run_list := can_run_list pa @ [r]\<rparr>), r), tree))
         else
           case truncated_len ps align (the (rem_chunk_tokens pa)) prefix_len of
             None \<Rightarrow> Inr ((Some OTHER, pa, r), tree)
           | Some trunc_len \<Rightarrow>
               let r = set_extend_input_len (nat trunc_len) r;
                   r = r\<lparr>fill_ids := take (prefix_len + nat trunc_len) (fill_ids r)\<rparr>
               in rbind (cache_inc_lock tree (last_node r)) (\<lambda>tree.
                  Inr ((None, update_prefill_budget prefix_len trunc_len 0
                                (pa\<lparr>can_run_list := can_run_list pa @ [r], new_chunked_req := Some r\<rparr>), r), tree)))"

definition cache_disabled :: "prefix_cache \<Rightarrow> bool" where
  "cache_disabled tree = (case tree of RadixCache c \<Rightarrow> disable c | ChunkCache ps \<Rightarrow> True)"

definition add_one_req ::
  "allocator_class \<Rightarrow> kv_memory \<Rightarrow> bool \<times> bool \<Rightarrow> nat option \<Rightarrow> request list \<Rightarrow> prefill_adder \<Rightarrow> request \<Rightarrow> prefix_cache
     \<Rightarrow> ((add_req_result \<times> prefill_adder \<times> request) \<times> prefix_cache) result" where
  "add_one_req k m allow align running pa r tree =
     (if \<not> fst allow then Inr ((OTHER, pa, r), tree)
      else if one_prefill_only pa \<and> length (can_run_list pa) \<ge> 1 then Inr ((OTHER, pa, r), tree)
      else if (case prefill_max_requests pa of None \<Rightarrow> False | Some x \<Rightarrow> length (can_run_list pa) \<ge> x) then Inr ((OTHER, pa, r), tree)
      else if ignore_eos r \<and> cache_disabled tree then Inr (add_one_req_ignore_eos k m (snd allow) running pa r tree, tree)
      else
        let max_new = min (max_new_tokens r - length (output_ids r)) (clip_max_new_tokens pa);
            total_tokens = int (extend_input_len r) + int max_new + int (pa_page_size pa);
            real_input_tokens = ceil_paged_tokens (pa_page_size pa) (int (extend_input_len r))
        in if of_int total_tokens \<ge> rem_total_tokens k m tree pa then Inr ((NO_TOKEN, pa, r), tree)
           else if rem_chunk_tokens pa = None \<and> can_run_list pa \<noteq> [] \<and> real_input_tokens \<ge> rem_input_tokens pa
           then Inr ((OTHER, pa, r), tree)
           else
             rbind (with_lock (last_node r) (add_locked k m align total_tokens pa r) tree) (\<lambda>((early, pa, r), tree).
             case early of
               Some res \<Rightarrow> Inr ((res, pa, r), tree)
             | None \<Rightarrow> Inr ((budget_state k m tree pa, pa, r), tree)))"

text \<open>\<^verbatim>\<open>add_chunked_req\<close>; \<^verbatim>\<open>int\<close> truncates towards zero.\<close>

definition py_trunc :: "rat \<Rightarrow> int" where
  "py_trunc x = (if x \<ge> 0 then \<lfloor>x\<rfloor> else \<lceil>x\<rceil>)"

definition add_chunked_req ::
  "allocator_class \<Rightarrow> kv_memory \<Rightarrow> prefix_cache \<Rightarrow> prefill_adder \<Rightarrow> request \<Rightarrow> (bool \<times> prefill_adder \<times> request) result" where
  "add_chunked_req k m tree pa r =
     (case rem_chunk_tokens pa of
        None \<Rightarrow> Inl TypeError
      | Some chunk \<Rightarrow>
          let rem_tokens = min chunk (py_trunc (rem_total_tokens k m tree pa));
              rem_tokens = (if rem_tokens \<le> 0 then chunk else rem_tokens);
              truncated = int (extend_input_len r) > rem_tokens;
              r = set_extend_input_len (nat (min (int (extend_input_len r)) rem_tokens)) r;
              r = r\<lparr>fill_ids := take (length (prefix_indices r) + extend_input_len r) (fill_ids r)\<rparr>;
              pa = update_prefill_budget 0 (int (extend_input_len r))
                     (if truncated then 0 else min (max_new_tokens r) (clip_max_new_tokens pa))
                     (pa\<lparr>can_run_list := can_run_list pa @ [r]\<rparr>)
          in Inr (truncated, pa, r))"

subsection \<open>The prefill batch\<close>

text \<open>
  The loop over the waiting queue. \<open>limit\<close> is \<^verbatim>\<open>get_num_allocatable_reqs\<close>; \<open>clock\<close> and \<open>allow\<close> give the time and the
  answers of the delayer by the number of requests tried. The result is the adder, the requests that stay in the queue, the cache,
  and whether the loop sets \<^verbatim>\<open>batch_is_full\<close>.
\<close>

fun admit_loop ::
  "allocator_class \<Rightarrow> kv_memory \<Rightarrow> (nat \<Rightarrow> int \<times> int) \<Rightarrow> (nat \<Rightarrow> bool \<times> bool) \<Rightarrow> nat \<Rightarrow> nat option \<Rightarrow> request list \<Rightarrow> nat
     \<Rightarrow> prefill_adder \<Rightarrow> prefix_cache \<Rightarrow> request list \<Rightarrow> (prefill_adder \<times> request list \<times> prefix_cache \<times> bool) result" where
  "admit_loop k m clock allow limit align running n pa tree [] = Inr (pa, [], tree, False)"
| "admit_loop k m clock allow limit align running n pa tree (r # waiting) =
     (if length (can_run_list pa) \<ge> limit then Inr (pa, r # waiting, tree, True)
      else
        rbind (init_next_round_input (fst (clock n)) (snd (clock n)) (Some tree) r) (\<lambda>(r, tree').
        rbind (add_one_req k m (allow n) align running pa r (the tree')) (\<lambda>((res, pa', r), tree).
        let left = (if length (can_run_list pa') > length (can_run_list pa) then [] else [r])
        in if res \<noteq> CONTINUE then Inr (pa', left @ waiting, tree, res = NO_TOKEN)
           else rbind (admit_loop k m clock allow limit align running (Suc n) pa' tree waiting) (\<lambda>(pa'', left', tree, full).
                Inr (pa'', left @ left', tree, full)))))"

text \<open>\<^verbatim>\<open>prepare_for_extend\<close>: the fields that \<^verbatim>\<open>alloc_for_extend\<close> reads, the allocation, and the lengths of every request.\<close>

definition extend_batch_of :: "request list \<Rightarrow> schedule_batch" where
  "extend_batch_of rs =
     \<lparr>reqs = rs, prefix_lens = map (\<lambda>r. length (prefix_indices r)) rs, extend_lens = map extend_input_len rs,
      seq_lens = map (\<lambda>r. length (fill_ids r)) rs,
      extend_num_tokens = sum_list (map (\<lambda>r. length (drop (length (prefix_indices r)) (fill_ids r))) rs),
      req_pool_indices = [], encoder_lens = None\<rparr>"

definition commit_lengths :: "request \<Rightarrow> request" where
  "commit_lengths r =
     (let seq_len = length (fill_ids r); pre_len = length (prefix_indices r);
          r = r\<lparr>kv_committed_len := seq_len, kv_allocated_len := seq_len\<rparr>;
          r = (if retracted_stain r then r
               else r\<lparr>cached_tokens := cached_tokens r + (int pre_len - int (already_computed r)), already_computed := seq_len\<rparr>)
      in r\<lparr>is_retracted := False\<rparr>)"

definition commit_extend :: "request \<Rightarrow> request result" where
  "commit_extend r =
     rbind (rassert (int (length (fill_ids r)) - int (length (prefix_indices r)) = int (extend_input_len r)) AssertionError) (\<lambda>_.
     Inr (commit_lengths r))"

definition prepare_for_extend ::
  "device \<Rightarrow> allocator_class \<Rightarrow> request list \<Rightarrow> kv_memory \<Rightarrow> prefix_cache
     \<Rightarrow> (int list \<times> schedule_batch \<times> kv_memory \<times> prefix_cache) result" where
  "prepare_for_extend dev k rs m tree =
     rbind (alloc_for_extend dev k (extend_batch_of rs) m tree) (\<lambda>(out_cache_loc, req_pool_indices, batch, m, tree).
     rbind (mmap commit_extend (reqs batch)) (\<lambda>rs.
     Inr (out_cache_loc, batch\<lparr>reqs := rs, req_pool_indices := req_pool_indices\<rparr>, m, tree)))"

section \<open>Room and locks\<close>

text \<open>
  What can be evicted depends on the shape of the tree and on which nodes are locked, not on how the locks came about.
\<close>

definition shape :: "tree_node \<Rightarrow> (nat multiset \<times> nat) list" where
  "shape t = map (\<lambda>x. (ids x, key_len (nkey (ndata x)))) (nodes t)"

definition free_size :: "nat set \<Rightarrow> (nat multiset \<times> nat) list \<Rightarrow> int" where
  "free_size S sh = sum_list (map (\<lambda>(I, n). if set_mset I \<inter> S = {} then int n else 0) sh)"

lemma free_size_mono: "S \<subseteq> S' \<Longrightarrow> free_size S' sh \<le> free_size S sh"
  unfolding free_size_def by (rule sum_list_mono) (auto split: prod.splits)

lemma evictable_shape:
  assumes inv: "cache_inv c L"
  shows "evictable_size c = free_size (set_mset L) (shape (root_node c))"
proof -
  let ?t = "root_node c"
  have i: "evictable_size c = unlocked_size ?t" "locks_ok L ?t" "key_len (nkey (ndata ?t)) = 0" using inv by (simp_all add: cache_inv_def)
  have "(if lock_ref (ndata x) = 0 then int (key_len (nkey (ndata x))) else 0) =
      (if set_mset (ids x) \<inter> set_mset L = {} then int (key_len (nkey (ndata x))) else 0)" if x: "x \<in> set (nodes ?t)" for x
  proof (cases "x = ?t")
    case False
    have "lock_ref (ndata x) = int (size (filter_mset (\<lambda>i. i \<in># ids x) L))" by (rule lock_ref_counts [OF i(2) x False])
    then have "lock_ref (ndata x) = 0 \<longleftrightarrow> set_mset (ids x) \<inter> set_mset L = {}" by auto
    then show ?thesis by simp
  qed (simp add: i(3))
  then have "map (\<lambda>x. if lock_ref (ndata x) = 0 then int (key_len (nkey (ndata x))) else 0) (nodes ?t) =
      map (\<lambda>x. if set_mset (ids x) \<inter> set_mset L = {} then int (key_len (nkey (ndata x))) else 0) (nodes ?t)"
    by simp
  from arg_cong [OF this, of sum_list] show ?thesis
    by (simp add: i(1) unlocked_size_def tsum_nodes free_size_def shape_def comp_def cong: if_cong del: map_eq_conv)
qed

lemma add_lock_ids: "ids (add_lock a js t) = ids t"
proof (induction t rule: tree_induct)
  case (TreeNode d cs)
  have "map (\<lambda>x. ids (add_lock a js (snd x))) cs = map (\<lambda>x. ids (snd x)) cs" by (rule map_cong) (auto intro: TreeNode)
  from arg_cong [OF this, of sum_list] show ?case by (simp add: ids_simps comp_def split_def del: map_eq_conv)
qed

lemma add_lock_shape: "shape (add_lock a js t) = shape t"
proof (induction t rule: tree_induct)
  case (TreeNode d cs)
  have eq: "map (\<lambda>x. shape (add_lock a js (snd x))) cs = map (\<lambda>x. shape (snd x)) cs" by (rule map_cong) (auto intro: TreeNode)
  have "map (\<lambda>x. ids (add_lock a js (snd x))) cs = map (\<lambda>x. ids (snd x)) cs" by (simp add: add_lock_ids)
  then show ?case using arg_cong [OF eq, of concat]
    by (simp add: shape_def map_concat comp_def split_def ids_simps add_lock_ids del: map_eq_conv)
qed

lemma lock_shape:
  "inc_lock_ref c i = Inr (d, c') \<Longrightarrow> shape (root_node c') = shape (root_node c)"
  "dec_lock_ref c i = Inr (d, c') \<Longrightarrow> shape (root_node c') = shape (root_node c)"
  by (auto simp: inc_lock_ref_def dec_lock_ref_def lock_walk_def Let_def add_lock_shape split: if_splits option.splits prod.splits)

lemma kv_state_same_tree:
  assumes st: "kv_state k N L V m c" and inv: "cache_inv c' L'" and same: "same_tree c c'"
  shows "kv_state k N L' V m c'"
  using st inv same_tree_facts(2,3) [OF same] same unfolding kv_state_def same_tree_def same_config_def by simp

lemma inc_lock_state:
  assumes st: "kv_state k N L V m c" and i: "i \<in># ids (root_node c)"
  obtains c' where "cache_inc_lock (RadixCache c) (Some i) = Inr (RadixCache c')" "kv_state k N (add_mset i L) V m c'" "same_tree c c'"
    "shape (root_node c') = shape (root_node c)"
proof -
  have "cache_inv c L" "\<not> disable c" using st by (simp_all add: kv_state_def)
  from inc_lock_ref_ok [OF this(1) i this(2)] obtain c' where c': "inc_lock_ref c i = Inr (evictable_size c' - evictable_size c, c')"
      "cache_inv c' (add_mset i L)" and same: "same_tree c c'" unfolding same_tree_def by blast
  have "cache_inc_lock (RadixCache c) (Some i) = Inr (RadixCache c')" using c'(1) by (simp add: cache_inc_lock_def)
  then show thesis using that kv_state_same_tree [OF st c'(2) same] same lock_shape(1) [OF c'(1)] by blast
qed

lemma dec_lock_state:
  assumes st: "kv_state k N L V m c" and i: "i \<in># L"
  obtains c' where "cache_dec_lock (RadixCache c) (Some i) = Inr (RadixCache c')" "kv_state k N (L - {#i#}) V m c'" "same_tree c c'"
    "shape (root_node c') = shape (root_node c)"
proof -
  have "cache_inv c L" "\<not> disable c" using st by (simp_all add: kv_state_def)
  from dec_lock_ref_ok [OF this(1) i this(2)] obtain c' where c': "dec_lock_ref c i = Inr (evictable_size c' - evictable_size c, c')"
      "cache_inv c' (L - {#i#})" and same: "same_tree c c'" unfolding same_tree_def by blast
  have "cache_dec_lock (RadixCache c) (Some i) = Inr (RadixCache c')" using c'(1) by (simp add: cache_dec_lock_def)
  then show thesis using that kv_state_same_tree [OF st c'(2) same] same lock_shape(2) [OF c'(1)] by blast
qed

lemma room_shape:
  assumes "kv_state k N L V m c" "kv_state k N L' V m c'" "shape (root_node c') = shape (root_node c)"
  shows "set_mset L \<subseteq> set_mset L' \<Longrightarrow> room k m c' \<le> room k m c" "set_mset L = set_mset L' \<Longrightarrow> room k m c' = room k m c"
  using assms free_size_mono by (auto simp: room_def kv_state_def evictable_shape)

lemma same_tree_trans: "same_tree c c' \<Longrightarrow> same_tree c' c'' \<Longrightarrow> same_tree c c''"
  unfolding same_tree_def same_config_def by metis

section \<open>Keys of growing requests\<close>

lemma key_units_take:
  "key_units \<lparr>token_ids = take n toks, extra_key = x, is_bigram = b\<rparr> =
     take (if b then n - 1 else n) (key_units \<lparr>token_ids = toks, extra_key = x, is_bigram = b\<rparr>)"
proof (cases b)
  case True
  have "take (n - 1) [0..<length toks - 1] = [0..<min (length toks) n - 1]" by (rule nth_equalityI) auto
  then show ?thesis using True by (simp add: key_units_def Let_def take_map)
qed (simp add: key_units_def Let_def take_map)

lemma raw_path_take:
  "path \<lparr>token_ids = take n toks, extra_key = x, is_bigram = b\<rparr> =
     take (key_len \<lparr>token_ids = take n toks, extra_key = x, is_bigram = b\<rparr>) (path \<lparr>token_ids = toks, extra_key = x, is_bigram = b\<rparr>)"
proof -
  let ?k = "\<lparr>token_ids = take n toks, extra_key = x, is_bigram = b\<rparr>" and ?K = "\<lparr>token_ids = toks, extra_key = x, is_bigram = b\<rparr>"
  obtain j where j: "key_units ?k = take j (key_units ?K)" using key_units_take by blast
  then have "path ?k = take j (path ?K)" by (simp add: path_def take_map)
  moreover from this have "key_len ?k = min j (key_len ?K)" by (metis length_path length_take min.commute)
  ultimately show ?thesis by (metis length_path min_def take_all_iff nat_le_linear order_refl)
qed

lemma req_path_take:
  assumes "0 < rc_page_size c"
  shows "path (req_key c r (take n toks)) = take (key_len (req_key c r (take n toks))) (path (req_key c r toks))"
    "key_len (req_key c r (take n toks)) \<le> key_len (req_key c r toks)"
proof -
  let ?ps = "rc_page_size c"
  define k where "k = (\<lambda>toks. \<lparr>token_ids = toks, extra_key = req_extra_key r, is_bigram = is_eagle c\<rparr>)"
  have raw: "path (k (take n toks)) = take (key_len (k (take n toks))) (path (k toks))" unfolding k_def by (rule raw_path_take)
  then have le: "key_len (k (take n toks)) \<le> key_len (k toks)" by (metis length_path length_take min.cobounded1)
  have len: "key_len (req_key c r toks) = key_len (k toks) div ?ps * ?ps" for toks
    unfolding req_key_def k_def by (rule page_aligned_len [OF assms])
  have path: "path (req_key c r toks) = take (key_len (k toks) div ?ps * ?ps) (path (k toks))" for toks
    unfolding req_key_def k_def by (rule page_aligned_path [OF assms])
  have mono: "key_len (k (take n toks)) div ?ps * ?ps \<le> key_len (k toks) div ?ps * ?ps" using le by (simp add: div_le_mono)
  show "key_len (req_key c r (take n toks)) \<le> key_len (req_key c r toks)" unfolding len by (rule mono)
  have "key_len (k (take n toks)) div ?ps * ?ps \<le> key_len (k (take n toks))" by (rule div_times_less_eq_dividend)
  then show "path (req_key c r (take n toks)) = take (key_len (req_key c r (take n toks))) (path (req_key c r toks))"
    unfolding path len raw using mono by (simp add: min_absorb1)
qed

section \<open>Matching a request\<close>

text \<open>\<open>ready c r pgs\<close>: \<open>r\<close> has been matched, and its prefix lies in the pages \<open>pgs\<close> of the tree.\<close>

definition ready :: "radix_cache \<Rightarrow> request \<Rightarrow> int list \<Rightarrow> bool" where
  "ready c r pgs \<longleftrightarrow> anchored c r (fill_ids r) pgs \<and> layout (rc_page_size c) (prefix_indices r) pgs \<and>
     cache_protected_len r = length (prefix_indices r) \<and> length (prefix_indices r) + extend_input_len r = length (fill_ids r)"

lemma anchored_cong:
  assumes "cache_protected_len r' = cache_protected_len r" "last_node r' = last_node r" "req_extra_key r' = req_extra_key r"
  shows "anchored c r' toks pgs = anchored c r toks pgs"
  using assms by (simp add: anchored_def req_key_def)

lemma anchored_prefix:
  assumes ps: "0 < rc_page_size c" and anc: "anchored c r toks pgs" and n: "cache_protected_len r \<le> key_len (req_key c r (take n toks))"
  shows "anchored c r (take n toks) pgs"
proof -
  let ?k = "key_len (req_key c r (take n toks))"
  have "take x (path (req_key c r (take n toks))) = take x (path (req_key c r toks))" if "x \<le> cache_protected_len r" for x
    unfolding req_path_take(1) [OF ps, of r n toks] using that n by simp
  then show ?thesis using anc n unfolding anchored_def by simp
qed

lemma anchored_extend:
  assumes ps: "0 < rc_page_size c" and anc: "anchored c r (take n toks) pgs"
  shows "anchored c r toks pgs"
proof -
  have n: "cache_protected_len r \<le> key_len (req_key c r (take n toks))" using anc by (simp add: anchored_def)
  have "take x (path (req_key c r (take n toks))) = take x (path (req_key c r toks))" if "x \<le> cache_protected_len r" for x
    unfolding req_path_take(1) [OF ps, of r n toks] using that n by simp
  moreover have "cache_protected_len r \<le> key_len (req_key c r toks)" using n req_path_take(2) [OF ps, of r n toks] by simp
  ultimately show ?thesis using anc unfolding anchored_def by simp
qed

lemma anchored_pages:
  assumes ps: "0 < rc_page_size c" and anc: "anchored c r toks pgs" and len: "length pgs * rc_page_size c \<le> cache_protected_len r"
  shows "set pgs \<subseteq> set_mset (tree_pages c)"
proof
  fix p assume "p \<in> set pgs"
  then obtain j where j: "j < length pgs" "p = pgs ! j" by (auto simp: in_set_conv_nth)
  have "Suc j * rc_page_size c \<le> length pgs * rc_page_size c" using j(1) by (intro mult_le_mono1) simp
  then have "(take (Suc j * rc_page_size c) (path (req_key c r toks)), block (rc_page_size c) (pgs ! j)) \<in> set (contents c)"
    using anc len unfolding anchored_def by (meson le_trans)
  then have "block (rc_page_size c) p \<in># page_lists c" unfolding page_lists_def j(2) by (metis imageI set_map set_mset_mset snd_conv)
  then have "page_no (rc_page_size c) (block (rc_page_size c) p) \<in># tree_pages c" unfolding tree_pages_def by simp
  then show "p \<in># tree_pages c" using ps by simp
qed

lemma ready_pages:
  assumes ps: "0 < rc_page_size c" and r: "ready c r pgs"
  shows "set pgs \<subseteq> set_mset (tree_pages c)" "length (prefix_indices r) mod rc_page_size c = 0"
proof -
  have dvd: "rc_page_size c dvd length (prefix_indices r)" using r unfolding ready_def anchored_def by metis
  then have "length pgs * rc_page_size c = length (prefix_indices r)"
    using r ps cdiv_mult [OF ps, of "length (prefix_indices r) div rc_page_size c"] by (simp add: ready_def layout_def dvd_div_mult_self)
  then show "set pgs \<subseteq> set_mset (tree_pages c)" using anchored_pages [OF ps, of r "fill_ids r" pgs] r by (simp add: ready_def)
  show "length (prefix_indices r) mod rc_page_size c = 0" using dvd by simp
qed

lemma match_evictable: "match_prefix access created c key = Inr (v, i, c') \<Longrightarrow> evictable_size c' = evictable_size c"
  by (auto simp: match_prefix_def Let_def rbind_eq_Inr_iff split: if_splits)

lemma keeps_refl: "keeps c c"
  by (simp add: keeps_def same_config_def)

lemma match_state:
  assumes st: "kv_state k N L V m c" and key: "key_fits c key"
  obtains v i c' pgs where "match_prefix access created c key = Inr (v, i, c')" "kv_state k N L V m c'" "keeps c c'" "room k m c' = room k m c"
    "layout (rc_page_size c) v pgs" "rc_page_size c dvd length v" "length v \<le> key_len (view c key)"
    "(i, take (length v) (path (view c key))) \<in> set (node_paths (root_node c'))"
    "\<And>j. Suc j * rc_page_size c \<le> length v \<Longrightarrow> (take (Suc j * rc_page_size c) (path (view c key)), block (rc_page_size c) (pgs ! j)) \<in> set (contents c')"
proof -
  note s = st [unfolded kv_state_def]
  obtain v i c' where mat: "match_prefix access created c key = Inr (v, i, c')"
    and c': "cache_inv c' L" "same_config c c'" "mset (contents c') = mset (contents c)" "set (node_paths (root_node c)) \<subseteq> set (node_paths (root_node c'))"
    and v: "matched (rc_page_size c) (set (contents c)) (path (view c key)) v" "(i, take (length v) (path (view c key))) \<in> set (node_paths (root_node c'))"
    using match_prefix_ok [of c L key access created] s key by blast
  have lists: "page_lists c' = page_lists c" unfolding page_lists_def mset_map c'(3) ..
  have sub: "set (contents c') = set (contents c)" using c'(3) by (rule mset_eq_setD)
  have conf: "rc_page_size c' = rc_page_size c" "disable c' = disable c" using c'(2) by (simp_all add: same_config_def)
  have "kv_state k N L V m c'" using s c'(1) lists conf unfolding kv_state_def whole_pages_def tree_pages_def by simp
  moreover have "keeps c c'" using c'(2,4) sub unfolding keeps_def by blast
  moreover have "room k m c' = room k m c" using match_evictable [OF mat] by (simp add: room_def)
  moreover have "length v \<le> key_len (view c key)" using v(1) unfolding matched_def by (metis length_path)
  ultimately show thesis
    using that [OF mat] matched_layout [of c L "path (view c key)" v] s v sub by auto
qed

text \<open>What matching leaves of a request as it was.\<close>

definition prepared :: "request \<Rightarrow> request \<Rightarrow> bool" where
  "prepared r r' \<longleftrightarrow> req_pool_idx r' = req_pool_idx r \<and> origin_input_ids r' = origin_input_ids r \<and> output_ids r' = output_ids r \<and>
     req_extra_key r' = req_extra_key r \<and> kv_committed_freed r' = kv_committed_freed r \<and> kv_overallocated_freed r' = kv_overallocated_freed r \<and>
     kv_committed_len r' = kv_committed_len r \<and> kv_allocated_len r' = kv_allocated_len r \<and>
     max_new_tokens r' = max_new_tokens r \<and> finished_reason r' = finished_reason r \<and>
     inflight_middle_chunks r' = inflight_middle_chunks r \<and> fill_ids r' = origin_input_ids r @ output_ids r \<and>
     req_priority r' = req_priority r"

lemma set_extend_simps [simp]:
  "extend_input_len (set_extend_input_len n r) = n" "fill_ids (set_extend_input_len n r) = fill_ids r"
  "prefix_indices (set_extend_input_len n r) = prefix_indices r" "last_node (set_extend_input_len n r) = last_node r"
  "cache_protected_len (set_extend_input_len n r) = cache_protected_len r" "req_extra_key (set_extend_input_len n r) = req_extra_key r"
  "req_pool_idx (set_extend_input_len n r) = req_pool_idx r" "origin_input_ids (set_extend_input_len n r) = origin_input_ids r"
  "output_ids (set_extend_input_len n r) = output_ids r" "kv_committed_freed (set_extend_input_len n r) = kv_committed_freed r"
  "kv_overallocated_freed (set_extend_input_len n r) = kv_overallocated_freed r" "kv_committed_len (set_extend_input_len n r) = kv_committed_len r"
  "kv_allocated_len (set_extend_input_len n r) = kv_allocated_len r" "max_new_tokens (set_extend_input_len n r) = max_new_tokens r"
  "finished_reason (set_extend_input_len n r) = finished_reason r" "inflight_middle_chunks (set_extend_input_len n r) = inflight_middle_chunks r"
  "req_priority (set_extend_input_len n r) = req_priority r"
  by (simp_all add: set_extend_input_len_def Let_def)

lemma init_ok:
  assumes st: "kv_state k N L V m c"
  obtains r' c' pgs where "init_next_round_input access created (Some (RadixCache c)) r = Inr (r', Some (RadixCache c'))"
    "kv_state k N L V m c'" "keeps c c'" "room k m c' = room k m c" "ready c' r' pgs" "prepared r r'"
    "fill_ids r' = origin_input_ids r @ output_ids r" "extend_input_len r' > 0 \<or> fill_ids r' = []"
proof -
  let ?ps = "rc_page_size c"
  define fill where "fill = origin_input_ids r @ output_ids r"
  define n where "n = (if embed_overrides r then 0 else compute_max_prefix_len r (length fill))"
  define key where "key = \<lparr>token_ids = take n fill, extra_key = req_extra_key r, is_bigram = False\<rparr>"
  have ps: "0 < ?ps" using st by (auto simp: kv_state_def cache_inv_def)
  have view: "view c key = req_key c r (take n fill)" by (simp add: view_def maybe_to_bigram_view_def Let_def key_def req_key_def)
  have n: "n \<le> length fill - 1" by (auto simp: n_def compute_max_prefix_len_def Let_def)
  obtain v i c' pgs where mat: "match_prefix access created c key = Inr (v, i, c')"
    and c': "kv_state k N L V m c'" "keeps c c'" "room k m c' = room k m c"
    and v: "layout ?ps v pgs" "?ps dvd length v" "length v \<le> key_len (view c key)"
      "(i, take (length v) (path (view c key))) \<in> set (node_paths (root_node c'))"
      "\<And>j. Suc j * ?ps \<le> length v \<Longrightarrow> (take (Suc j * ?ps) (path (view c key)), block ?ps (pgs ! j)) \<in> set (contents c')"
    by (rule match_state [OF st, of key access created]) (simp_all add: key_fits_def key_def)
  have sc: "rc_page_size c' = ?ps" "req_key c' = req_key c"
    using c'(2) by (auto simp: keeps_def same_config_def req_key_def fun_eq_iff)
  define r0 where "r0 = r\<lparr>fill_ids := fill, prefix_indices := v, last_node := Some i, cache_protected_len := length v\<rparr>"
  define r' where "r' = set_extend_input_len (length fill - length v) r0"
  have len: "length v \<le> n" "length v \<le> length fill - 1"
    using v(3) view req_key_len(2) [OF ps, of r "take n fill"] n by simp_all
  have mx: "compute_max_prefix_len (r\<lparr>fill_ids := fill\<rparr>) = compute_max_prefix_len r"
    by (auto simp: compute_max_prefix_len_def Let_def fun_eq_iff)
  have "init_next_round_input access created (Some (RadixCache c)) r = Inr (r', Some (RadixCache c'))"
    using mat unfolding key_def n_def
    by (cases "embed_overrides r") (simp_all add: init_next_round_input_def Let_def fill_def [symmetric] mx cache_match_prefix_def r'_def r0_def)
  moreover have "anchored c' r' (take n fill) pgs"
    unfolding anchored_def sc(1) using v(2-4) v(5) [unfolded sc(1)] view sc(2) by (simp add: r'_def r0_def req_key_def)
  then have "anchored c' r' fill pgs" by (rule anchored_extend [rotated]) (simp add: sc ps)
  then have "ready c' r' pgs" using v(1) len by (simp add: ready_def r'_def r0_def sc)
  moreover have "prepared r r'" by (simp add: prepared_def r'_def r0_def fill_def)
  moreover have "extend_input_len r' > 0 \<or> fill_ids r' = []" using len by (cases fill) (simp_all add: r'_def r0_def)
  ultimately show thesis using that c' by (simp add: r'_def r0_def fill_def)
qed

section \<open>Admission\<close>

lemma ceil_paged_ge: "0 < ps \<Longrightarrow> x \<le> ceil_paged_tokens ps x"
  using floor_bounds [of "int ps" "- x"] by (simp add: ceil_paged_tokens_def)

lemma ceil_paged_nat: "0 < ps \<Longrightarrow> ceil_paged_tokens ps (int n) = int (cdiv n ps * ps)"
proof -
  assume ps: "0 < ps"
  have "- (- int n div int ps) = icdiv (int n) (int ps)"
  proof -
    have b: "- int n div int ps * int ps \<le> - int n" "- int n < - int n div int ps * int ps + int ps"
      using floor_bounds [of "int ps" "- int n"] ps by simp_all
    have c: "int n \<le> icdiv (int n) (int ps) * int ps" "icdiv (int n) (int ps) * int ps < int n + int ps"
      using icdiv_bounds [of "int ps" "int n"] ps by simp_all
    have "- int n div int ps * int ps + icdiv (int n) (int ps) * int ps < int ps" using b(1) c(2) by linarith
    then have "(- int n div int ps + icdiv (int n) (int ps)) * int ps < 1 * int ps" by (simp add: distrib_right)
    then have lt: "- int n div int ps + icdiv (int n) (int ps) < 1" using ps by (simp only: mult_less_cancel_right)
    have "- int ps < - int n div int ps * int ps + icdiv (int n) (int ps) * int ps" using b(2) c(1) by linarith
    then have "(- 1) * int ps < (- int n div int ps + icdiv (int n) (int ps)) * int ps" by (simp add: distrib_right)
    then have "- 1 < - int n div int ps + icdiv (int n) (int ps)" using ps by (simp only: mult_less_cancel_right)
    with lt show ?thesis by linarith
  qed
  then show ?thesis using icdiv_int [OF ps, of n] by (simp add: ceil_paged_tokens_def)
qed

lemma truncated_bounds:
  assumes ps: "0 < ps" and t: "truncated_len ps align rem_chunk pre = Some t"
  shows "0 < t" "t \<le> rem_chunk div int ps * int ps"
proof -
  define t0 where "t0 = rem_chunk div int ps * int ps"
  obtain t1 where t1: "0 < t0" "(case align of None \<Rightarrow> Some t0 | Some a \<Rightarrow> if t0 < int a then None else Some (int a * (t0 div int a))) = Some t1"
      "t = (t1 + int pre) div int ps * int ps - int pre" "0 < t"
    using t unfolding truncated_len_def Let_def t0_def by (auto split: if_splits option.splits)
  have "int a * (t0 div int a) \<le> t0" for a
    using t1(1) floor_bounds [of "int a" t0] by (cases "a = 0") (simp_all add: mult.commute)
  then have "t1 \<le> t0" using t1(2) by (auto split: option.splits if_splits)
  moreover have "(t1 + int pre) div int ps * int ps \<le> t1 + int pre" using floor_bounds [of "int ps"] ps by simp
  ultimately show "0 < t" "t \<le> rem_chunk div int ps * int ps" using t1(3,4) by (simp_all add: t0_def)
qed

lemma truncated_short:
  assumes ps: "0 < ps" and t: "truncated_len ps align rem_chunk pre = Some t" and more: "\<not> ceil_paged_tokens ps (int n) \<le> rem_chunk"
  shows "t \<le> int n"
proof -
  have "rem_chunk div int ps * int ps \<le> rem_chunk" using floor_bounds [of "int ps"] ps by simp
  then have "rem_chunk div int ps * int ps < int (cdiv n ps) * int ps" using more ceil_paged_nat [OF ps, of n] by simp
  then have "rem_chunk div int ps < int (cdiv n ps)" using ps by (simp only: mult_less_cancel_right)
  then have "rem_chunk div int ps * int ps \<le> (int (cdiv n ps) - 1) * int ps" using ps by (intro mult_right_mono) auto
  also have "\<dots> \<le> int n" using cdiv_mult_less [OF ps, of n] by (simp add: left_diff_distrib flip: of_nat_mult of_nat_add)
  finally show ?thesis using truncated_bounds(2) [OF ps t] by simp
qed

lemma key_len_raw: "key_len \<lparr>token_ids = toks, extra_key = x, is_bigram = b\<rparr> = (if b then length toks - 1 else length toks)"
  by (simp add: key_len_def Let_def)

lemma ready_truncated:
  assumes ps: "0 < rc_page_size c" and r: "ready c r pgs" and n: "0 < n" "n \<le> extend_input_len r"
  shows "ready c (set_extend_input_len n r\<lparr>fill_ids := take (length (prefix_indices r) + n) (fill_ids r)\<rparr>) pgs"
proof -
  let ?p = "length (prefix_indices r)" and ?ps = "rc_page_size c"
  let ?toks = "take (?p + n) (fill_ids r)"
  note R = r [unfolded ready_def]
  have len: "length ?toks = ?p + n" using R n(2) by simp
  have dvd: "?p div ?ps * ?ps = ?p" using ready_pages(2) [OF ps r] by (simp add: mod_0_imp_dvd)
  have "key_len (req_key c r ?toks) = (if is_eagle c then ?p + n - 1 else ?p + n) div ?ps * ?ps"
    unfolding req_key_def page_aligned_len [OF ps] key_len_raw len ..
  moreover have "?p div ?ps * ?ps \<le> (if is_eagle c then ?p + n - 1 else ?p + n) div ?ps * ?ps"
    using n(1) by (intro mult_le_mono1 div_le_mono) auto
  ultimately have "cache_protected_len r \<le> key_len (req_key c r ?toks)" using R dvd by simp
  then have "anchored c r ?toks pgs" using R by (intro anchored_prefix [OF ps]) simp_all
  moreover have "anchored c (set_extend_input_len n r\<lparr>fill_ids := ?toks\<rparr>) ?toks pgs = anchored c r ?toks pgs"
    by (rule anchored_cong) (simp_all add: set_extend_input_len_def Let_def)
  ultimately show ?thesis using R len by (simp add: ready_def)
qed

text \<open>
  \<open>admitting\<close>: every request taken so far is matched and locked, what it will allocate is booked, and all that is booked
  fits the memory that is free or can be evicted.
\<close>

definition booked :: "nat \<Rightarrow> request list \<Rightarrow> int" where
  "booked ps rs = sum_list (map (\<lambda>r. int (extend_input_len r) + int ps) rs)"

definition lock_nodes :: "request list \<Rightarrow> nat multiset" where
  "lock_nodes rs = mset (map (\<lambda>r. the (last_node r)) rs)"

definition admitting :: "allocator_class \<Rightarrow> nat \<Rightarrow> nat multiset \<Rightarrow> int multiset \<Rightarrow> kv_memory \<Rightarrow> prefill_adder \<Rightarrow> radix_cache \<Rightarrow> bool" where
  "admitting k N L V m pa c \<longleftrightarrow>
     kv_state k N (L + lock_nodes (can_run_list pa)) V m c \<and> pa_page_size pa = rc_page_size c \<and>
     (\<forall>r \<in> set (can_run_list pa). \<exists>pgs. ready c r pgs) \<and>
     of_int (booked (rc_page_size c) (can_run_list pa)) \<le> rem_total_token_offset pa \<and>
     booked (rc_page_size c) (can_run_list pa) \<le> room k m c"

lemma ready_keeps: "keeps c c' \<Longrightarrow> ready c r pgs \<Longrightarrow> ready c' r pgs"
proof -
  assume keep: "keeps c c'" and r: "ready c r pgs"
  have "rc_page_size c' = rc_page_size c" using keep by (simp add: keeps_def same_config_def)
  then show ?thesis using anchored_keeps [OF keep] r unfolding ready_def by metis
qed

lemma admitting_keeps:
  assumes adm: "admitting k N L V m pa c" and st: "kv_state k N (L + lock_nodes (can_run_list pa)) V m c'"
    and keep: "keeps c c'" and room: "room k m c \<le> room k m c'"
  shows "admitting k N L V m pa c'"
  using adm st ready_keeps [OF keep] room keep unfolding admitting_def keeps_def same_config_def by fastforce

lemma rem_total_room: "rem_total_tokens k m (RadixCache c) pa = of_int (room k m c) - rem_total_token_offset pa"
  by (simp add: rem_total_tokens_def available_and_evictable_def room_def)

lemma update_budget_simps [simp]:
  "can_run_list (update_prefill_budget p n x pa) = can_run_list pa" "pa_page_size (update_prefill_budget p n x pa) = pa_page_size pa"
  "rem_total_token_offset (update_prefill_budget p n x pa) =
     rem_total_token_offset pa + of_int (ceil_paged_tokens (pa_page_size pa) n + int x + int (pa_page_size pa))"
  by (simp_all add: update_prefill_budget_def Let_def)

text \<open>A request that is taken: its node is locked, and its tokens are booked.\<close>

lemma admit_one:
  assumes adm: "admitting k N L V m pa c" and r: "ready c r' pgs" "last_node r' = Some nd"
    and st: "kv_state k N (add_mset nd (L + lock_nodes (can_run_list pa))) V m c1" "same_tree c c1"
    and fits: "of_int (int (extend_input_len r') + int (rc_page_size c)) \<le> of_int (room k m c1) - rem_total_token_offset pa"
    and pa': "can_run_list pa' = can_run_list pa @ [r']" "pa_page_size pa' = pa_page_size pa"
      "rem_total_token_offset pa + of_int (int (extend_input_len r') + int (rc_page_size c)) \<le> rem_total_token_offset pa'"
  shows "admitting k N L V m pa' c1"
proof -
  have keep: "keeps c c1" by (rule same_tree_facts(1) [OF st(2)])
  have sc: "rc_page_size c1 = rc_page_size c" using st(2) by (simp add: same_tree_def same_config_def)
  note a = adm [unfolded admitting_def]
  have L: "L + lock_nodes (can_run_list pa') = add_mset nd (L + lock_nodes (can_run_list pa))"
    by (simp add: lock_nodes_def pa'(1) r(2))
  have b: "booked (rc_page_size c) (can_run_list pa') = booked (rc_page_size c) (can_run_list pa) + (int (extend_input_len r') + int (rc_page_size c))"
    by (simp add: booked_def pa'(1))
  have "(of_int (booked (rc_page_size c) (can_run_list pa')) :: rat) \<le> of_int (room k m c1)"
    unfolding b of_int_add [of "booked _ _"] using a fits by linarith
  then have "booked (rc_page_size c) (can_run_list pa') \<le> room k m c1" by (simp only: of_int_le_iff)
  moreover have "of_int (booked (rc_page_size c) (can_run_list pa')) \<le> rem_total_token_offset pa'"
    unfolding b of_int_add [of "booked _ _"] using a pa'(3) by linarith
  moreover have "\<forall>r \<in> set (can_run_list pa'). \<exists>pgs. ready c1 r pgs"
    using a r(1) ready_keeps [OF keep] unfolding pa'(1) by (metis Un_iff empty_iff empty_set insert_iff list.simps(15) set_append)
  ultimately show ?thesis using st(1) a unfolding admitting_def L sc pa'(2) by simp
qed

definition shortened :: "request \<Rightarrow> request \<Rightarrow> bool" where
  "shortened r r' \<longleftrightarrow> r' = r \<or>
     (\<exists>n>0. r' = set_extend_input_len n r\<lparr>fill_ids := take (length (prefix_indices r) + n) (fill_ids r)\<rparr>)"

lemma add_locked_ok:
  assumes adm: "admitting k N L V m pa c" and r: "ready c r pgs" "last_node r = Some nd"
    and st: "kv_state k N (add_mset nd (L + lock_nodes (can_run_list pa))) V m c1" "same_tree c c1" "shape (root_node c1) = shape (root_node c)"
    and total: "int (extend_input_len r) + int (pa_page_size pa) \<le> tot"
  shows "(\<exists>res. add_locked k m align tot pa r (RadixCache c1) = Inr ((Some res, pa, r), RadixCache c1)) \<or>
    (\<exists>pa' r' c2. add_locked k m align tot pa r (RadixCache c1) = Inr ((None, pa', r'), RadixCache c2) \<and>
       kv_state k N (add_mset nd (add_mset nd (L + lock_nodes (can_run_list pa)))) V m c2 \<and> same_tree c1 c2 \<and>
       shape (root_node c2) = shape (root_node c1) \<and> shortened r r' \<and> ready c r' pgs \<and> last_node r' = Some nd \<and>
       of_int (int (extend_input_len r') + int (rc_page_size c)) \<le> of_int (room k m c1) - rem_total_token_offset pa \<and>
       can_run_list pa' = can_run_list pa @ [r'] \<and> pa_page_size pa' = pa_page_size pa \<and>
       rem_total_token_offset pa + of_int (int (extend_input_len r') + int (rc_page_size c)) \<le> rem_total_token_offset pa')"
proof -
  have pg: "pa_page_size pa = rc_page_size c" using adm by (simp add: admitting_def)
  have ps: "0 < rc_page_size c" using adm by (auto simp: admitting_def kv_state_def cache_inv_def)
  have "nd \<in># ids (root_node c1)" using st(1) by (auto simp: kv_state_def cache_inv_def)
  then obtain c2 where inc: "cache_inc_lock (RadixCache c1) (Some nd) = Inr (RadixCache c2)"
    "kv_state k N (add_mset nd (add_mset nd (L + lock_nodes (can_run_list pa)))) V m c2" "same_tree c1 c2"
    "shape (root_node c2) = shape (root_node c1)"
    using inc_lock_state [OF st(1)] by blast
  show ?thesis
  proof (cases "of_int tot \<ge> rem_total_tokens k m (RadixCache c1) pa")
    case True
    then show ?thesis by (simp add: add_locked_def Let_def)
  next
    case fits: False
    then have fits': "(of_int tot :: rat) \<le> of_int (room k m c1) - rem_total_token_offset pa" by (simp add: rem_total_room)
    have fit: "(of_int (int n + int (rc_page_size c)) :: rat) \<le> of_int (room k m c1) - rem_total_token_offset pa" if "n \<le> extend_input_len r" for n
    proof -
      have "int n + int (rc_page_size c) \<le> tot" using that total pg by simp
      then have "(of_int (int n + int (rc_page_size c)) :: rat) \<le> of_int tot" by (simp only: of_int_le_iff)
      then show ?thesis using fits' by linarith
    qed
    define input where "input = ceil_paged_tokens (rc_page_size c) (int (extend_input_len r))"
    show ?thesis
    proof (cases "rem_chunk_tokens pa = None \<and> can_run_list pa \<noteq> [] \<and> input \<ge> rem_input_tokens pa")
      case True
      then show ?thesis using fits by (simp add: add_locked_def Let_def pg input_def)
    next
      case False
      show ?thesis
      proof (cases "rem_chunk_tokens pa = None \<or> input \<le> the (rem_chunk_tokens pa)")
        case True
        define pa' where "pa' = update_prefill_budget (length (prefix_indices r)) input (min (max_new_tokens r) (clip_max_new_tokens pa))
          (pa\<lparr>can_run_list := can_run_list pa @ [r]\<rparr>)"
        have "add_locked k m align tot pa r (RadixCache c1) = Inr ((None, pa', r), RadixCache c2)"
          using fits False True inc(1) r(2) by (simp add: add_locked_def Let_def pg input_def pa'_def)
        moreover have "int (extend_input_len r) \<le> ceil_paged_tokens (rc_page_size c) input"
          using ceil_paged_ge [OF ps, of "int (extend_input_len r)"] ceil_paged_ge [OF ps, of input] by (simp add: input_def)
        then have "(of_int (int (extend_input_len r) + int (rc_page_size c)) :: rat) \<le>
            of_int (ceil_paged_tokens (rc_page_size c) input + int (min (max_new_tokens r) (clip_max_new_tokens pa)) + int (rc_page_size c))"
          by (simp only: of_int_le_iff)
        then have "rem_total_token_offset pa + of_int (int (extend_input_len r) + int (rc_page_size c)) \<le> rem_total_token_offset pa'"
          by (simp add: pa'_def pg)
        ultimately show ?thesis using inc fit [of "extend_input_len r"] r by (simp add: shortened_def pa'_def)
      next
        case chunk: False
        show ?thesis
        proof (cases "truncated_len (rc_page_size c) align (the (rem_chunk_tokens pa)) (length (prefix_indices r))")
          case None
          then show ?thesis using fits False chunk by (auto simp: add_locked_def Let_def pg input_def)
        next
          case (Some t)
          have t: "0 < t" "t \<le> int (extend_input_len r)"
            using truncated_bounds(1) [OF ps Some] truncated_short [OF ps Some, of "extend_input_len r"] chunk by (simp_all add: input_def)
          define n where "n = nat t"
          have n: "0 < n" "n \<le> extend_input_len r" "t = int n" using t by (simp_all add: n_def)
          define r' where "r' = set_extend_input_len n r\<lparr>fill_ids := take (length (prefix_indices r) + n) (fill_ids r)\<rparr>"
          define pa' where "pa' = update_prefill_budget (length (prefix_indices r)) t 0 (pa\<lparr>can_run_list := can_run_list pa @ [r'], new_chunked_req := Some r'\<rparr>)"
          have "add_locked k m align tot pa r (RadixCache c1) = Inr ((None, pa', r'), RadixCache c2)"
            using fits False chunk Some inc(1) r(2) by (auto simp: add_locked_def Let_def pg input_def pa'_def r'_def n_def)
          moreover have "ready c r' pgs" unfolding r'_def by (rule ready_truncated [OF ps r(1) n(1,2)])
          moreover have "(of_int (int n + int (rc_page_size c)) :: rat) \<le> of_int (ceil_paged_tokens (rc_page_size c) t + int 0 + int (rc_page_size c))"
            using ceil_paged_ge [OF ps, of t] n(3) by (simp only: of_int_le_iff)
          then have "rem_total_token_offset pa + of_int (int n + int (rc_page_size c)) \<le> rem_total_token_offset pa'"
            by (simp add: pa'_def pg)
          moreover have "shortened r r'" using n(1) by (auto simp: shortened_def r'_def)
          ultimately show ?thesis using inc fit [OF n(2)] r by (auto simp: pa'_def r'_def)
        qed
      qed
    qed
  qed
qed

lemma add_one_req_ok:
  assumes adm: "admitting k N L V m pa c" and r: "ready c r pgs"
  shows "\<exists>res pa' r' c'. add_one_req k m allow align running pa r (RadixCache c) = Inr ((res, pa', r'), RadixCache c') \<and>
    admitting k N L V m pa' c' \<and> keeps c c' \<and> shortened r r' \<and>
    (can_run_list pa' = can_run_list pa \<or> can_run_list pa' = can_run_list pa @ [r'])"
proof -
  define tot where "tot = int (extend_input_len r) + int (min (max_new_tokens r - length (output_ids r)) (clip_max_new_tokens pa)) + int (pa_page_size pa)"
  define skip where "skip \<longleftrightarrow> \<not> fst allow \<or> one_prefill_only pa \<and> length (can_run_list pa) \<ge> 1 \<or>
    (case prefill_max_requests pa of None \<Rightarrow> False | Some x \<Rightarrow> length (can_run_list pa) \<ge> x) \<or>
    of_int tot \<ge> rem_total_tokens k m (RadixCache c) pa \<or>
    rem_chunk_tokens pa = None \<and> can_run_list pa \<noteq> [] \<and> ceil_paged_tokens (pa_page_size pa) (int (extend_input_len r)) \<ge> rem_input_tokens pa"
  let ?L = "L + lock_nodes (can_run_list pa)"
  have st: "kv_state k N ?L V m c" using adm by (simp add: admitting_def)
  have on: "\<not> cache_disabled (RadixCache c)" using st by (simp add: cache_disabled_def kv_state_def)
  show ?thesis
  proof (cases skip)
    case True
    then have "\<exists>res. add_one_req k m allow align running pa r (RadixCache c) = Inr ((res, pa, r), RadixCache c)"
      using on by (auto simp: add_one_req_def Let_def skip_def tot_def)
    then show ?thesis using adm keeps_refl [of c] by (auto simp: shortened_def)
  next
    case False
    obtain nd where nd: "last_node r = Some nd" "nd \<in># ids (root_node c)"
      using r node_paths_ids unfolding ready_def anchored_def by blast
    obtain c1 where c1: "cache_inc_lock (RadixCache c) (Some nd) = Inr (RadixCache c1)" "kv_state k N (add_mset nd ?L) V m c1"
        "same_tree c c1" "shape (root_node c1) = shape (root_node c)"
      by (rule inc_lock_state [OF st nd(2)])
    have eval: "add_one_req k m allow align running pa r (RadixCache c) =
        rbind (with_lock (Some nd) (add_locked k m align tot pa r) (RadixCache c)) (\<lambda>((early, pa, r), tree).
          case early of Some res \<Rightarrow> Inr ((res, pa, r), tree) | None \<Rightarrow> Inr ((budget_state k m tree pa, pa, r), tree))"
      using False on nd(1) by (auto simp: add_one_req_def Let_def skip_def tot_def)
    have tot: "int (extend_input_len r) + int (pa_page_size pa) \<le> tot" by (simp add: tot_def)
    from add_locked_ok [OF adm r nd(1) c1(2-4) tot, of align] show ?thesis
    proof (elim disjE exE conjE)
      fix res assume body: "add_locked k m align tot pa r (RadixCache c1) = Inr ((Some res, pa, r), RadixCache c1)"
      obtain c2 where c2: "cache_dec_lock (RadixCache c1) (Some nd) = Inr (RadixCache c2)" "kv_state k N (add_mset nd ?L - {#nd#}) V m c2"
          "same_tree c1 c2" "shape (root_node c2) = shape (root_node c1)"
        using dec_lock_state [OF c1(2), of nd] by auto
      have st2: "kv_state k N ?L V m c2" using c2(2) by simp
      have room: "room k m c2 = room k m c" using room_shape(2) [OF st st2] c1(4) c2(4) by simp
      have "keeps c c2" by (rule same_tree_facts(1) [OF same_tree_trans [OF c1(3) c2(3)]])
      then show ?thesis
        using admitting_keeps [OF adm st2] room body c1(1) c2(1) eval by (auto simp: with_lock_def shortened_def)
    next
      fix pa' r' c2
      assume body: "add_locked k m align tot pa r (RadixCache c1) = Inr ((None, pa', r'), RadixCache c2)"
        and c2: "kv_state k N (add_mset nd (add_mset nd ?L)) V m c2" "same_tree c1 c2" "shape (root_node c2) = shape (root_node c1)"
        and r': "shortened r r'" "ready c r' pgs" "last_node r' = Some nd"
        and fits: "(of_int (int (extend_input_len r') + int (rc_page_size c)) :: rat) \<le> of_int (room k m c1) - rem_total_token_offset pa"
        and pa': "can_run_list pa' = can_run_list pa @ [r']" "pa_page_size pa' = pa_page_size pa"
          "rem_total_token_offset pa + of_int (int (extend_input_len r') + int (rc_page_size c)) \<le> rem_total_token_offset pa'"
      obtain c3 where c3: "cache_dec_lock (RadixCache c2) (Some nd) = Inr (RadixCache c3)" "kv_state k N (add_mset nd (add_mset nd ?L) - {#nd#}) V m c3"
          "same_tree c2 c3" "shape (root_node c3) = shape (root_node c2)"
        using dec_lock_state [OF c2(1), of nd] by auto
      have st3: "kv_state k N (add_mset nd ?L) V m c3" using c3(2) by simp
      have room: "room k m c3 = room k m c1" using room_shape(2) [OF c1(2) st3] c2(3) c3(4) by simp
      have same: "same_tree c c3" by (rule same_tree_trans [OF same_tree_trans [OF c1(3) c2(2)] c3(3)])
      have "admitting k N L V m pa' c3"
        by (rule admit_one [OF adm r'(2,3) st3 same _ pa']) (use fits room in simp)
      then show ?thesis
        using r'(1) pa'(1) body c1(1) c3(1) eval same_tree_facts(1) [OF same] by (auto simp: with_lock_def)
    qed
  qed
qed

text \<open>What the loop asks of a waiting request, and what it knows of one it has taken.\<close>

definition waiting_ok :: "nat \<Rightarrow> request \<Rightarrow> bool" where
  "waiting_ok ctx r \<longleftrightarrow> req_pool_idx r = None \<and> origin_input_ids r \<noteq> [] \<and> length (origin_input_ids r) + max_new_tokens r \<le> ctx \<and>
     length (output_ids r) \<le> max_new_tokens r \<and> finished_reason r = None \<and> inflight_middle_chunks r \<le> 0 \<and>
     \<not> kv_committed_freed r \<and> \<not> kv_overallocated_freed r"

definition taken_ok :: "nat \<Rightarrow> request \<Rightarrow> bool" where
  "taken_ok ctx r \<longleftrightarrow> waiting_ok ctx r \<and> (\<exists>n>0. fill_ids r = take n (origin_input_ids r @ output_ids r))"

lemma prepared_ok: "waiting_ok ctx r \<Longrightarrow> prepared r r' \<Longrightarrow> taken_ok ctx r'"
  by (auto simp: waiting_ok_def prepared_def taken_ok_def intro!: exI [of _ "length (origin_input_ids r) + length (output_ids r)"])

lemma shortened_ok: "taken_ok ctx r \<Longrightarrow> shortened r r' \<Longrightarrow> taken_ok ctx r'"
proof -
  assume r: "taken_ok ctx r" and sh: "shortened r r'"
  obtain n where n: "0 < n" "fill_ids r = take n (origin_input_ids r @ output_ids r)" using r by (auto simp: taken_ok_def)
  show ?thesis
  proof (cases "r' = r")
    case False
    then obtain n' where n': "0 < n'" "r' = set_extend_input_len n' r\<lparr>fill_ids := take (length (prefix_indices r) + n') (fill_ids r)\<rparr>"
      using sh by (auto simp: shortened_def)
    then have "fill_ids r' = take (min (length (prefix_indices r) + n') n) (origin_input_ids r' @ output_ids r')" using n(2) by (simp add: min_def)
    moreover have "0 < min (length (prefix_indices r) + n') n" using n(1) n'(1) by simp
    moreover have "waiting_ok ctx r'" using r n'(2) by (simp add: taken_ok_def waiting_ok_def)
    ultimately show ?thesis unfolding taken_ok_def by blast
  qed (simp add: r)
qed

text \<open>Without chunked prefill the requests are taken whole.\<close>

definition whole_requests :: "prefill_adder \<Rightarrow> bool" where
  "whole_requests pa \<longleftrightarrow> rem_chunk_tokens pa = None \<and> (\<forall>r \<in> set (can_run_list pa). fill_ids r = origin_input_ids r @ output_ids r)"

lemma add_one_req_whole:
  assumes "add_one_req k m allow align running pa r (RadixCache c) = Inr ((res, pa', r'), tree')" "\<not> disable c" "rem_chunk_tokens pa = None"
  shows "r' = r" "rem_chunk_tokens pa' = None"
  using assms
  by (auto simp: add_one_req_def cache_disabled_def with_lock_def add_locked_def Let_def rbind_eq_Inr_iff update_prefill_budget_def
      split: if_splits option.splits)

lemma admit_loop_ok:
  assumes "admitting k N L V m pa c" "\<forall>r \<in> set waiting. waiting_ok ctx r" "\<forall>r \<in> set (can_run_list pa). taken_ok ctx r"
    "length (can_run_list pa) \<le> limit"
  shows "\<exists>pa' left c' full. admit_loop k m clock allow limit align running n pa (RadixCache c) waiting = Inr (pa', left, RadixCache c', full) \<and>
    admitting k N L V m pa' c' \<and> (\<forall>r \<in> set left. waiting_ok ctx r) \<and> (\<forall>r \<in> set (can_run_list pa'). taken_ok ctx r) \<and>
    length (can_run_list pa') \<le> limit \<and> length (can_run_list pa') + length left = length (can_run_list pa) + length waiting \<and>
    (whole_requests pa \<longrightarrow> whole_requests pa') \<and> keeps c c' \<and> req_priority ` set left \<subseteq> req_priority ` set waiting"
  using assms
proof (induction waiting arbitrary: n pa c)
  case Nil
  then show ?case using keeps_refl by auto
next
  case (Cons r waiting)
  show ?case
  proof (cases "length (can_run_list pa) \<ge> limit")
    case True
    then show ?thesis using Cons.prems keeps_refl by auto
  next
    case False
    have st: "kv_state k N (L + lock_nodes (can_run_list pa)) V m c" using Cons.prems(1) by (simp add: admitting_def)
    obtain r1 c1 pgs where i: "init_next_round_input (fst (clock n)) (snd (clock n)) (Some (RadixCache c)) r = Inr (r1, Some (RadixCache c1))"
        "kv_state k N (L + lock_nodes (can_run_list pa)) V m c1" "keeps c c1" "room k m c1 = room k m c" "ready c1 r1 pgs" "prepared r r1"
      by (rule init_ok [OF st])
    have adm1: "admitting k N L V m pa c1" using admitting_keeps [OF Cons.prems(1) i(2,3)] i(4) by simp
    have ok1: "taken_ok ctx r1" using prepared_ok [OF _ i(6)] Cons.prems(2) by simp
    obtain res pa2 r2 c2 where a: "add_one_req k m (allow n) align running pa r1 (RadixCache c1) = Inr ((res, pa2, r2), RadixCache c2)"
        "admitting k N L V m pa2 c2" "shortened r1 r2" "can_run_list pa2 = can_run_list pa \<or> can_run_list pa2 = can_run_list pa @ [r2]" "keeps c1 c2"
      using add_one_req_ok [OF adm1 i(5)] by blast
    have keep: "keeps c c2" by (rule keeps_trans [OF i(3) a(5)])
    have ok2: "taken_ok ctx r2" by (rule shortened_ok [OF ok1 a(3)])
    define rest where "rest = (if length (can_run_list pa2) > length (can_run_list pa) then [] else [r2])"
    have rest: "\<forall>r \<in> set rest. waiting_ok ctx r" "length (can_run_list pa2) + length rest = length (can_run_list pa) + 1"
      "\<forall>r \<in> set (can_run_list pa2). taken_ok ctx r" "length (can_run_list pa2) \<le> limit"
      using ok2 a(4) Cons.prems(3) False by (auto simp: rest_def taken_ok_def)
    have prio: "req_priority ` set rest \<subseteq> {req_priority r}" using i(6) a(3) by (auto simp: rest_def prepared_def shortened_def)
    have whole: "whole_requests pa2" if "whole_requests pa"
      using add_one_req_whole [OF a(1)] that a(4) i(2,6) by (auto simp: whole_requests_def kv_state_def prepared_def)
    show ?thesis
    proof (cases "res = CONTINUE")
      case False
      then have "admit_loop k m clock allow limit align running n pa (RadixCache c) (r # waiting) = Inr (pa2, rest @ waiting, RadixCache c2, res = NO_TOKEN)"
        using \<open>\<not> length (can_run_list pa) \<ge> limit\<close> i(1) a(1) by (simp add: rest_def)
      then show ?thesis using a(2) rest Cons.prems(2) whole keep prio by auto
    next
      case True
      from Cons.IH [OF a(2) _ rest(3,4), of "Suc n"] Cons.prems(2) obtain pa' left' c' full where
        IH: "admit_loop k m clock allow limit align running (Suc n) pa2 (RadixCache c2) waiting = Inr (pa', left', RadixCache c', full)"
          "admitting k N L V m pa' c'" "\<forall>r \<in> set left'. waiting_ok ctx r" "\<forall>r \<in> set (can_run_list pa'). taken_ok ctx r"
          "length (can_run_list pa') \<le> limit" "length (can_run_list pa') + length left' = length (can_run_list pa2) + length waiting" "whole_requests pa2 \<longrightarrow> whole_requests pa'"
          "keeps c2 c'" "req_priority ` set left' \<subseteq> req_priority ` set waiting"
        by auto
      have "admit_loop k m clock allow limit align running n pa (RadixCache c) (r # waiting) = Inr (pa', rest @ left', RadixCache c', full)"
        using \<open>\<not> length (can_run_list pa) \<ge> limit\<close> True i(1) a(1) IH(1) by (simp add: rest_def)
      moreover have "req_priority ` set (rest @ left') \<subseteq> req_priority ` set (r # waiting)" using IH(9) prio by auto
      ultimately show ?thesis using IH(2-7) rest(1,2) whole keeps_trans [OF keep IH(8)] by auto
    qed
  qed
qed

section \<open>The admitted batch gets its memory\<close>

text \<open>A request after \<^verbatim>\<open>prepare_for_extend\<close>: it has a row, and its tokens count as written.\<close>

definition commits :: "request \<Rightarrow> request \<Rightarrow> bool" where
  "commits r r' \<longleftrightarrow> (\<exists>i. r' = commit_lengths (r\<lparr>req_pool_idx := Some i\<rparr>))"

lemma commit_lengths_simps [simp]:
  "req_pool_idx (commit_lengths r) = req_pool_idx r" "origin_input_ids (commit_lengths r) = origin_input_ids r"
  "output_ids (commit_lengths r) = output_ids r" "fill_ids (commit_lengths r) = fill_ids r"
  "req_extra_key (commit_lengths r) = req_extra_key r" "prefix_indices (commit_lengths r) = prefix_indices r"
  "last_node (commit_lengths r) = last_node r" "cache_protected_len (commit_lengths r) = cache_protected_len r"
  "kv_committed_len (commit_lengths r) = length (fill_ids r)" "kv_allocated_len (commit_lengths r) = length (fill_ids r)"
  "kv_committed_freed (commit_lengths r) = kv_committed_freed r" "kv_overallocated_freed (commit_lengths r) = kv_overallocated_freed r"
  "max_new_tokens (commit_lengths r) = max_new_tokens r" "finished_reason (commit_lengths r) = finished_reason r"
  "inflight_middle_chunks (commit_lengths r) = inflight_middle_chunks r" "\<not> is_retracted (commit_lengths r)"
  by (simp_all add: commit_lengths_def Let_def)

definition owned :: "radix_cache \<Rightarrow> (request \<times> int list) list \<Rightarrow> int multiset" where
  "owned c live = sum_list (map (\<lambda>(r, pgs). own_pages c r pgs) live)"

lemma sum_nth: "(\<Sum>i<length xs. f (xs ! i)) = sum_list (map f xs)" for f :: "'a \<Rightarrow> 'b::comm_monoid_add"
  by (simp add: sum_list_sum_nth atLeast0LessThan)

lemma booked_covers:
  assumes ps: "0 < ps" and rs: "\<forall>r \<in> set rs. length (prefix_indices r) + extend_input_len r = length (fill_ids r)"
  shows "int (extend_need ps (extend_batch_of rs)) \<le> booked ps rs"
proof -
  let ?b = "extend_batch_of rs"
  have "pages_needed ps (prefix_lens ?b) (seq_lens ?b) * ps \<le> (\<Sum>j<length (seq_lens ?b). extend_lens ?b ! j) + length (seq_lens ?b) * ps"
    by (rule pages_needed_bound [OF ps]) (use rs in \<open>simp_all add: extend_batch_of_def\<close>)
  also have "(\<Sum>j<length (seq_lens ?b). extend_lens ?b ! j) = sum_list (map extend_input_len rs)"
    using sum_nth [of "\<lambda>x. x" "map extend_input_len rs"] by (simp add: extend_batch_of_def del: nth_map)
  finally have "int (extend_need ps ?b) \<le> int (sum_list (map extend_input_len rs) + length rs * ps)"
    unfolding extend_need_def of_nat_le_iff by (simp add: extend_batch_of_def)
  also have "\<dots> = booked ps rs" by (induction rs) (simp_all add: booked_def)
  finally show ?thesis .
qed

lemma batch_of_admitted:
  assumes ps: "0 < rc_page_size c" and rs: "\<forall>r \<in> set rs. taken_ok (max_context_len pool) r"
    and ready: "length pgs = length rs" "\<And>i. i < length rs \<Longrightarrow> ready c (rs ! i) (pgs ! i)"
    and room: "length rs \<le> pool_available_size pool"
  shows "extend_batch (rc_page_size c) V R pool (extend_batch_of rs) pgs" "held_rows rs = {#}"
proof -
  have none: "filter (\<lambda>r. req_pool_idx r = None) rs = rs" "\<forall>r \<in> set rs. req_pool_idx r = None"
    using rs by (auto simp: taken_ok_def waiting_ok_def filter_id_conv)
  then show held: "held_rows rs = {#}" by (induction rs) simp_all
  have lens: "length (prefix_indices r) + extend_input_len r = length (fill_ids r)" if "r \<in> set rs" for r
    using ready that by (auto simp: ready_def in_set_conv_nth)
  have "partial_pages (rc_page_size c) (map prefix_indices rs) pgs = []"
    using ready_pages(2) [OF ps ready(2)] ready(1) by (auto simp: partial_pages_def filter_empty_conv set_zip)
  then have "batch_prefixes (rc_page_size c) V (map prefix_indices rs) pgs"
    using ready by (simp add: batch_prefixes_def list_all2_conv_all_nth ready_def)
  moreover have "length (fill_ids r) \<le> max_context_len pool" if "r \<in> set rs" for r
    using rs that by (auto simp: taken_ok_def waiting_ok_def)
  moreover have "map (\<lambda>r. length (fill_ids r) - length (prefix_indices r)) rs = map extend_input_len rs"
    using lens by (simp add: add_implies_diff [symmetric] diff_add_inverse2) (metis add_diff_cancel_left')
  from arg_cong [OF this, of sum_list]
  have "sum_list (map (\<lambda>r. length (fill_ids r) - length (prefix_indices r)) rs) = (\<Sum>j<length rs. map extend_input_len rs ! j)"
    using sum_nth [of "\<lambda>x. x" "map extend_input_len rs"] by (simp del: nth_map map_eq_conv)
  ultimately show "extend_batch (rc_page_size c) V R pool (extend_batch_of rs) pgs"
    using none held room lens by (simp add: extend_batch_def extend_batch_of_def)
qed

lemma rows_disjoint:
  assumes "rows_own pool (R + R')" "j \<in># R"
  shows "j \<notin># R'"
proof
  assume "j \<in># R'"
  then have "2 \<le> count (R + R') j" using assms(2) by (simp add: count_greater_zero_iff [symmetric] del: count_greater_zero_iff)
  also have "\<dots> \<le> count (mset [1..<rtp_size pool + 1]) j" using assms(1) unfolding rows_own_def by (metis count_union le_add2)
  also have "\<dots> \<le> 1" by (simp only: mset_upt count_mset_set') simp
  finally show False by simp
qed

lemma prepare_ok:
  assumes st: "kv_state k N (L + lock_nodes rs) V m c" and rs: "\<forall>r \<in> set rs. taken_ok (max_context_len (row_pool m)) r"
    and ready: "\<forall>r \<in> set rs. \<exists>pgs. ready c r pgs" and booked: "booked (rc_page_size c) rs \<le> room k m c"
    and rows: "rows_own (row_pool m) R" "table_ok (row_pool m)" "length rs \<le> pool_available_size (row_pool m)"
    and N: "(N + 1) * rc_page_size c \<le> 2 ^ 31" and order: "\<forall>n. set (program_order dev n) = {..<n}"
  shows "\<exists>out b m' c' pgs. prepare_for_extend dev k rs m (RadixCache c) = Inr (out, b, m', RadixCache c') \<and>
    list_all2 commits rs (reqs b) \<and> length pgs = length rs \<and> encoder_lens b = None \<and> seq_lens b = map (\<lambda>r. length (fill_ids r)) rs \<and>
    map req_pool_idx (reqs b) = map Some (req_pool_indices b) \<and>
    (\<forall>i<length rs. attached c' m' (reqs b ! i) (fill_ids (reqs b ! i)) (pgs ! i)) \<and>
    kv_state k N (L + lock_nodes (reqs b)) (owned c' (zip (reqs b) pgs) + V) m' c' \<and> shrinks (L + lock_nodes rs) c c' \<and>
    rows_own (row_pool m') (R + held_rows (reqs b)) \<and> table_ok (row_pool m') \<and> max_context_len (row_pool m') = max_context_len (row_pool m) \<and>
    (\<forall>j \<in># R. req_to_token (row_pool m') ! j = req_to_token (row_pool m) ! j)"
proof -
  let ?ps = "rc_page_size c" and ?b = "extend_batch_of rs" and ?L = "L + lock_nodes rs"
  have ps: "0 < ?ps" using st by (auto simp: kv_state_def cache_inv_def)
  obtain pgs where pgs: "length pgs = length rs" "\<And>i. i < length rs \<Longrightarrow> ready c (rs ! i) (pgs ! i)"
    using ready Skolem_list_nth [of "length rs" "\<lambda>i pg. ready c (rs ! i) pg"] by (metis nth_mem)
  have b: "extend_batch ?ps V R (row_pool m) ?b pgs" "held_rows rs = {#}"
    by (rule batch_of_admitted(1) [OF ps rs pgs rows(3)], simp_all, rule batch_of_admitted(2) [OF ps rs pgs rows(3)])
  have fill: "\<forall>r \<in> set rs. length (prefix_indices r) + extend_input_len r = length (fill_ids r)" using ready by (auto simp: ready_def)
  have held: "\<forall>pg \<in> set pgs. set pg \<subseteq> set_mset (tree_pages c + V)"
  proof
    fix pg assume "pg \<in> set pgs"
    then obtain i where "i < length rs" "pg = pgs ! i" using pgs(1) by (auto simp: in_set_conv_nth)
    then show "set pg \<subseteq> set_mset (tree_pages c + V)" using ready_pages(1) [OF ps pgs(2)] by auto
  qed
  have need: "int (extend_need ?ps ?b) \<le> room k m c" using booked_covers [OF ps fill] booked by simp
  have enc: "encoder_lens ?b = None" by (simp add: extend_batch_of_def)
  have bl: "reqs ?b = rs" "prefix_lens ?b = map (\<lambda>r. length (prefix_indices r)) rs" "seq_lens ?b = map (\<lambda>r. length (fill_ids r)) rs"
    by (simp_all add: extend_batch_of_def)
  from alloc_for_extend_ok [OF st rows(1,2) b(1) held N order need, unfolded bl(1) b(2) diff_zero] obtain out ix rs1 m' c' new where
    al: "alloc_for_extend dev k ?b m (RadixCache c) = Inr (out, ix, ?b\<lparr>reqs := rs1\<rparr>, m', RadixCache c')"
    and rs1: "list_all2 gets_row rs rs1" "map req_pool_idx rs1 = map Some ix" "distinct ix"
    and ex: "extended ?ps (extend_lens ?b) (map prefix_indices rs) pgs out new"
    and st': "kv_state k N ?L (mset (concat new) + V) m' c'" and sh: "shrinks ?L c c'"
    and rows': "rows_own (row_pool m') (R + mset ix)" "table_ok (row_pool m')" "max_context_len (row_pool m') = max_context_len (row_pool m)"
    and row: "\<forall>i<length rs. take (seq_lens ?b ! i) (req_to_token (row_pool m') ! (ix ! i)) = prefix_indices (rs ! i) @ part_of (extend_lens ?b) out i"
      "\<forall>r. r \<notin> set ix \<longrightarrow> req_to_token (row_pool m') ! r = req_to_token (row_pool m) ! r"
    by blast
  have len: "length rs1 = length rs" "length ix = length rs"
    using list_all2_lengthD [OF rs1(1)] arg_cong [OF rs1(2), of length] by simp_all
  have one: "rs1 ! i = (rs ! i)\<lparr>req_pool_idx := Some (ix ! i)\<rparr>" if "i < length rs" for i
  proof -
    have "gets_row (rs ! i) (rs1 ! i)" using rs1(1) that by (simp add: list_all2_conv_all_nth)
    moreover have "req_pool_idx (rs1 ! i) = Some (ix ! i)" using rs1(2) that len by (metis nth_map)
    ultimately show ?thesis by (metis gets_row_def)
  qed
  have "mmap commit_extend rs1 = Inr (map commit_lengths rs1)"
  proof (rule mmap_total)
    fix r assume "r \<in> set rs1"
    then obtain i where "i < length rs" "r = (rs ! i)\<lparr>req_pool_idx := Some (ix ! i)\<rparr>" using one len(1) by (auto simp: in_set_conv_nth)
    then show "commit_extend r = Inr (commit_lengths r)" using fill by (auto simp: commit_extend_def dest!: nth_mem [of i rs])
  qed
  then have prep: "prepare_for_extend dev k rs m (RadixCache c) =
      Inr (out, ?b\<lparr>reqs := map commit_lengths rs1, req_pool_indices := ix\<rparr>, m', RadixCache c')"
    using al by (simp add: prepare_for_extend_def)
  let ?rs = "map commit_lengths rs1" and ?pgs = "map2 (@) pgs new"
  have new: "length new = length rs" "\<And>i. i < length rs \<Longrightarrow> layout ?ps (prefix_indices (rs ! i) @ part_of (extend_lens ?b) out i) (pgs ! i @ new ! i)"
    using ex by (auto simp: extended_def)
  have sc: "rc_page_size c' = ?ps" using sh by (simp add: shrinks_def same_config_def)
  have commit: "list_all2 commits rs ?rs" using one len by (auto simp: list_all2_conv_all_nth commits_def)
  have locks: "lock_nodes ?rs = lock_nodes rs"
    unfolding lock_nodes_def by (rule arg_cong [of _ _ mset], rule nth_equalityI) (use one len in \<open>simp_all\<close>)
  have inv: "cache_inv c ?L" "cache_inv c' ?L" using st st' by (simp_all add: kv_state_def)
  have att: "attached c' m' (?rs ! i) (fill_ids (?rs ! i)) (?pgs ! i)" "own_pages c' (?rs ! i) (?pgs ! i) = mset (new ! i)" if i: "i < length rs" for i
  proof -
    note rd = pgs(2) [OF i, unfolded ready_def]
    have r: "?rs ! i = commit_lengths ((rs ! i)\<lparr>req_pool_idx := Some (ix ! i)\<rparr>)" using one i len by simp
    have idx: "ix ! i \<in># R + mset ix" using i len by simp
    have ixb: "ix ! i < length (req_to_token (row_pool m'))" "length (fill_ids (rs ! i)) \<le> length (req_to_token (row_pool m') ! (ix ! i))"
    proof -
      have "ix ! i \<in># mset [1..<rtp_size (row_pool m') + 1]" using rows'(1) idx unfolding rows_own_def by (metis union_iff)
      then show *: "ix ! i < length (req_to_token (row_pool m'))" using rows'(2) by (auto simp: table_ok_def)
      have "length (fill_ids (rs ! i)) \<le> max_context_len (row_pool m')" using rs i rows'(3) by (auto simp: taken_ok_def waiting_ok_def dest!: nth_mem [of i rs])
      then show "length (fill_ids (rs ! i)) \<le> length (req_to_token (row_pool m') ! (ix ! i))" using rows'(2) * by (simp add: table_ok_def)
    qed
    have plen: "length (pgs ! i) = cache_protected_len (rs ! i) div ?ps"
      using rd cdiv_mult [OF ps, of "length (prefix_indices (rs ! i)) div ?ps"] unfolding layout_def anchored_def by auto
    have anc: "anchored c' (rs ! i) (fill_ids (rs ! i)) (pgs ! i)"
    proof -
      obtain nd where nd: "last_node (rs ! i) = Some nd" using rd by (auto simp: anchored_def)
      then have "nd \<in># ?L" using i by (auto simp: lock_nodes_def image_iff intro!: bexI [of _ "rs ! i"])
      then show ?thesis using anchored_shrinks [OF inv sh _ nd] rd by blast
    qed
    show "own_pages c' (?rs ! i) (?pgs ! i) = mset (new ! i)" using i pgs(1) new(1) plen unfolding r by (simp add: own_pages_def sc)
    have "in_row ?ps m' (?rs ! i) (length (fill_ids (rs ! i))) (?pgs ! i)"
      using ixb row(1) new(2) [OF i] i pgs(1) new(1) bl(3) unfolding r by (simp add: in_row_def)
    moreover have "anchored c' (?rs ! i) (fill_ids (rs ! i)) (?pgs ! i)"
    proof -
      have "Suc j * ?ps \<le> cache_protected_len (rs ! i) \<Longrightarrow> (?pgs ! i) ! j = (pgs ! i) ! j" for j
        using i pgs(1) new(1) plen ps by (simp add: nth_append less_eq_div_iff_mult_less_eq Suc_le_eq [symmetric])
      then show ?thesis using anc unfolding anchored_def sc r by (simp add: req_key_def) 
    qed
    ultimately show "attached c' m' (?rs ! i) (fill_ids (?rs ! i)) (?pgs ! i)" unfolding r by (simp add: attached_parts sc)
  qed
  have "map (\<lambda>(r, pgs). own_pages c' r pgs) (zip ?rs ?pgs) = map mset new"
    by (rule nth_equalityI) (use att(2) pgs(1) new(1) len(1) in simp_all)
  from arg_cong [OF this, of sum_list] have "owned c' (zip ?rs ?pgs) = mset (concat new)"
    by (simp only: owned_def mset_concat)
  moreover have idx: "map req_pool_idx ?rs = map Some ix" using rs1(2) by (simp add: comp_def)
  moreover have "held_rows ?rs = mset ix" by (rule held_rows_some [OF idx])
  moreover have "j \<notin> set ix" if "j \<in># R" for j using rows_disjoint [OF rows'(1) that] by simp
  ultimately show ?thesis
    using prep commit att(1) st' sh rows' row(2) locks pgs(1) new(1) bl(3) enc
    by (intro exI [of _ out] exI [of _ "?b\<lparr>reqs := map commit_lengths rs1, req_pool_indices := ix\<rparr>"] exI [of _ m'] exI [of _ c'] exI [of _ ?pgs]) simp
qed

end
