(* ===== verification/Running_Batch.thy ===== *)
theory Running_Batch
  imports Prefill_Adder
begin

text \<open>
  The decode side of the scheduler: when a request is finished (\<^verbatim>\<open>Req.update_finish_state\<close>), the running batch
  (\<^verbatim>\<open>ScheduleBatch\<close> in \<^verbatim>\<open>managers/schedule_batch.py\<close>: \<^verbatim>\<open>filter_batch\<close>, \<^verbatim>\<open>merge_batch\<close>, \<^verbatim>\<open>check_decode_mem\<close>,
  \<^verbatim>\<open>retract_decode\<close>, \<^verbatim>\<open>prepare_for_decode\<close>), \<^verbatim>\<open>Scheduler.update_running_batch\<close>, the results of a batch
  (\<^verbatim>\<open>scheduler_components/batch_result_processor.py\<close>) and \<^verbatim>\<open>NewTokenRatioTracker\<close>.

  The grammar, the tokenizer and the regular expressions are arguments (\<open>stop_env\<close>).
  Without speculative decoding a request gets one token per step; the estimates for speculative decoding are modelled,
  its verification is not.
\<close>

section \<open>Definitions\<close>

subsection \<open>Finishing a request\<close>

text \<open>What the code asks of the grammar, of the tokenizer (the text of the last tokens) and of \<^verbatim>\<open>re.search\<close>.\<close>

record stop_env =
  grammar_terminated :: "request \<Rightarrow> bool"
  tail_str :: "request \<Rightarrow> string"
  re_search :: "string \<Rightarrow> string \<Rightarrow> bool"

definition finished :: "request \<Rightarrow> bool" where
  "finished r \<longleftrightarrow> finished_reason r \<noteq> None"

fun substring :: "string \<Rightarrow> string \<Rightarrow> bool" where
  "substring p [] \<longleftrightarrow> p = []"
| "substring p (x # s) \<longleftrightarrow> take (length p) (x # s) = p \<or> substring p s"

definition is_stop_token :: "request \<Rightarrow> int \<Rightarrow> bool" where
  "is_stop_token r token \<longleftrightarrow> token \<in> set (stop_token_ids r) \<or> token \<in> set (eos_token_ids r) \<or>
     (case tokenizer_stop r of None \<Rightarrow> False | Some (eos, extra) \<Rightarrow> token = eos \<or> token \<in> set extra)"

text \<open>The checks return the request with its finish reason, or \<^verbatim>\<open>None\<close> where they do not apply; \<open>i\<close> is the index of the loop.\<close>

fun token_based_finish :: "nat \<Rightarrow> int list \<Rightarrow> nat \<Rightarrow> request \<Rightarrow> request option" where
  "token_based_finish n [] i r = None"
| "token_based_finish n (t # ts) i r =
     (if is_stop_token r t
      then Some (r\<lparr>finished_reason := Some (FINISH_MATCHED_TOKEN t), finished_len := Some (length (output_ids r) - n + i + 1)\<rparr>)
      else token_based_finish n ts (Suc i) r)"

definition check_token_based_finish :: "int list \<Rightarrow> request \<Rightarrow> request option" where
  "check_token_based_finish new_tokens r = (if ignore_eos r then None else token_based_finish (length new_tokens) new_tokens 0 r)"

fun vocab_boundary_finish :: "nat \<Rightarrow> int list \<Rightarrow> nat \<Rightarrow> request \<Rightarrow> request option" where
  "vocab_boundary_finish n [] i r = None"
| "vocab_boundary_finish n (t # ts) i r =
     (if t > vocab_size r \<or> t < 0
      then
        let offset = length (output_ids r) - n + i;
            r = (if stop_token_ids r \<noteq> [] then r\<lparr>output_ids := (output_ids r)[offset := hd (stop_token_ids r)]\<rparr> else r);
            r = (if eos_token_ids r \<noteq> [] then r\<lparr>output_ids := (output_ids r)[offset := hd (eos_token_ids r)]\<rparr> else r)
        in Some (r\<lparr>finished_reason := Some (FINISH_MATCHED_STR ''NaN happened''), finished_len := Some (offset + 1)\<rparr>)
      else vocab_boundary_finish n ts (Suc i) r)"

definition check_vocab_boundary_finish :: "int list \<Rightarrow> request \<Rightarrow> request option" where
  "check_vocab_boundary_finish new_tokens r = vocab_boundary_finish (length new_tokens) new_tokens 0 r"

definition check_str_based_finish :: "stop_env \<Rightarrow> request \<Rightarrow> request option" where
  "check_str_based_finish env r =
     (case find (\<lambda>s. substring s (tail_str env r) \<or> substring s (decoded_text r)) (stop_strs r) of
        Some s \<Rightarrow> Some (r\<lparr>finished_reason := Some (FINISH_MATCHED_STR s)\<rparr>)
      | None \<Rightarrow>
          (case find (\<lambda>p. re_search env p (tail_str env r)) (stop_regex_strs r) of
             Some p \<Rightarrow> Some (r\<lparr>finished_reason := Some (FINISHED_MATCHED_REGEX p)\<rparr>)
           | None \<Rightarrow> None))"

text \<open>\<^verbatim>\<open>output_ids[-n:]\<close> is the whole list for \<open>n = 0\<close>.\<close>

definition last_tokens :: "nat \<Rightarrow> int list \<Rightarrow> int list" where
  "last_tokens n xs = (if n = 0 then xs else drop (length xs - n) xs)"

definition update_finish_state :: "stop_env \<Rightarrow> nat \<Rightarrow> request \<Rightarrow> request" where
  "update_finish_state env new_accepted_len r =
     (if finished r then r
      else case to_finish r of
        Some reason \<Rightarrow> r\<lparr>finished_reason := Some reason, to_finish := None\<rparr>
      | None \<Rightarrow>
          if length (output_ids r) \<ge> max_new_tokens r
          then r\<lparr>finished_reason := Some (FINISH_LENGTH (max_new_tokens r)), finished_len := Some (max_new_tokens r)\<rparr>
          else if grammar_terminated env r
          then r\<lparr>finished_reason := Some (FINISH_MATCHED_TOKEN (last (output_ids r)))\<rparr>
          else
            let new_tokens = last_tokens new_accepted_len (output_ids r)
            in case check_token_based_finish new_tokens r of
                 Some r \<Rightarrow> r
               | None \<Rightarrow>
                   (case check_vocab_boundary_finish new_tokens r of
                      Some r \<Rightarrow> r
                    | None \<Rightarrow> (case check_str_based_finish env r of Some r \<Rightarrow> r | None \<Rightarrow> r)))"

definition output_ids_through_stop :: "request \<Rightarrow> int list" where
  "output_ids_through_stop r = (case finished_len r of Some n \<Rightarrow> take n (output_ids r) | None \<Rightarrow> output_ids r)"

fun index_of :: "'a \<Rightarrow> 'a list \<Rightarrow> nat option" where
  "index_of x [] = None"
| "index_of x (y # ys) = (if x = y then Some 0 else map_option Suc (index_of x ys))"

definition update_reasoning_tokens :: "int list \<Rightarrow> int \<Rightarrow> request \<Rightarrow> request" where
  "update_reasoning_tokens new_tokens think_end_id r =
     (if is_reasoning_over r then r
      else case index_of think_end_id new_tokens of
        Some end_pos \<Rightarrow> r\<lparr>reasoning_tokens := reasoning_tokens r + end_pos + 1, is_reasoning_over := True\<rparr>
      | None \<Rightarrow> r\<lparr>reasoning_tokens := reasoning_tokens r + length new_tokens\<rparr>)"

definition maybe_update_reasoning_tokens :: "int option \<Rightarrow> int list \<Rightarrow> request \<Rightarrow> request" where
  "maybe_update_reasoning_tokens think_end_id new_tokens r =
     (case think_end_id of
        Some e \<Rightarrow> if require_reasoning r then update_reasoning_tokens new_tokens e r else r
      | None \<Rightarrow> r)"

definition reset_for_retract :: "request \<Rightarrow> request" where
  "reset_for_retract r =
     (let r = r\<lparr>prefix_indices := [], last_node := None, cache_protected_len := 0, extend_input_len := 0, is_retracted := True,
                retracted_stain := True, extend_logprob_start_len := 0, inflight_middle_chunks := 0, already_computed := 0,
                kv_allocated_len := 0, kv_committed_len := 0, kv_committed_freed := False, kv_overallocated_freed := False\<rparr>
      in if input_embeds r then r\<lparr>output_ids := []\<rparr> else r)"

subsection \<open>The running batch\<close>

definition filter_batch :: "nat list \<Rightarrow> schedule_batch \<Rightarrow> schedule_batch result" where
  "filter_batch keep_indices b =
     (if keep_indices = [] then Inr (b\<lparr>reqs := []\<rparr>)
      else if length keep_indices = length (reqs b) then Inr b
      else
        let pick = (\<lambda>xs. mmap (\<lambda>i. if i < length xs then Inr (xs ! i) else Inl IndexError) keep_indices)
        in rbind (case encoder_lens b of None \<Rightarrow> Inr None | Some e \<Rightarrow> rbind (pick e) (\<lambda>e. Inr (Some e))) (\<lambda>enc.
           rbind (mmap (\<lambda>i. if i < length (reqs b) then Inr (reqs b ! i) else Inl IndexError) keep_indices) (\<lambda>rs.
           rbind (pick (req_pool_indices b)) (\<lambda>rows.
           rbind (pick (seq_lens b)) (\<lambda>lens.
           Inr (b\<lparr>reqs := rs, encoder_lens := enc, req_pool_indices := rows, seq_lens := lens\<rparr>))))))"

text \<open>\<^verbatim>\<open>filter_batch()\<close> without indices keeps the requests that are not finished.\<close>

definition unfinished_indices :: "request list \<Rightarrow> nat list" where
  "unfinished_indices rs = filter (\<lambda>i. \<not> finished (rs ! i)) [0..<length rs]"

definition merge_batch :: "schedule_batch \<Rightarrow> schedule_batch \<Rightarrow> schedule_batch" where
  "merge_batch b other =
     b\<lparr>encoder_lens := (case encoder_lens b of None \<Rightarrow> None | Some e \<Rightarrow> Some (e @ (case encoder_lens other of None \<Rightarrow> [] | Some f \<Rightarrow> f))),
       req_pool_indices := req_pool_indices b @ req_pool_indices other,
       seq_lens := seq_lens b @ seq_lens other,
       reqs := reqs b @ reqs other\<rparr>"

subsection \<open>Memory for the next step\<close>

text \<open>
  Speculative decoding reserves more than one token: \<open>SpecV2\<close> carries \<^verbatim>\<open>get_alloc_len_per_decode()\<close>, \<open>SpecV1\<close> the number
  of steps, the top-k and the number of draft tokens.
\<close>

datatype spec_mode = SpecNone | SpecV1 nat nat nat | SpecV2 nat

definition new_tokens_spec_v2 :: "nat \<Rightarrow> nat \<Rightarrow> request list \<Rightarrow> nat result" where
  "new_tokens_spec_v2 alloc_len ps rs =
     foldM (\<lambda>total r.
       let x = nat (max 0 (int (kv_committed_len r) + 2 * int alloc_len - int (kv_allocated_len r)));
           cur = kv_allocated_len r; nxt = cur + x
       in rbind (ceil_align nxt ps) (\<lambda>hi. rbind (ceil_align cur ps) (\<lambda>lo. Inr (total + (hi - lo))))) 0 rs"

definition new_tokens_spec_v1 :: "nat \<Rightarrow> nat \<Rightarrow> nat \<Rightarrow> nat \<Rightarrow> request list \<Rightarrow> nat result" where
  "new_tokens_spec_v1 steps topk drafts ps rs =
     (let len_per_topk = (if steps = 0 then 1 else steps); spec_topk = (if topk = 0 then 1 else topk)
      in rbind (if ps > 1 \<and> spec_topk > 1
                then rbind (ceil_align (len_per_topk + ps) ps) (\<lambda>l. rbind (ceil_align drafts ps) (\<lambda>d. Inr (l, d)))
                else if ps > 1
                then rbind (ceil_align len_per_topk ps) (\<lambda>l. rbind (ceil_align drafts ps) (\<lambda>d. Inr (l, d)))
                else Inr (len_per_topk, drafts)) (\<lambda>(len_per_topk, spec_tokens).
         Inr (max (len_per_topk * spec_topk) spec_tokens * length rs)))"

definition new_tokens_required_next_decode :: "spec_mode \<Rightarrow> nat \<Rightarrow> request list \<Rightarrow> nat list option \<Rightarrow> nat result" where
  "new_tokens_required_next_decode spec ps rs selected =
     rbind (case selected of
              None \<Rightarrow> Inr rs
            | Some is \<Rightarrow> mmap (\<lambda>i. if i < length rs then Inr (rs ! i) else Inl IndexError) is) (\<lambda>requests.
     case spec of
       SpecNone \<Rightarrow>
         if ps = 0 \<and> requests \<noteq> [] then Inl ZeroDivisionError
         else Inr (length (filter (\<lambda>r. kv_committed_len r mod ps = 0) requests) * ps)
     | SpecV2 alloc_len \<Rightarrow> new_tokens_spec_v2 alloc_len ps requests
     | SpecV1 steps topk drafts \<Rightarrow> new_tokens_spec_v1 steps topk drafts ps requests)"

definition check_decode_mem ::
  "allocator_class \<Rightarrow> spec_mode \<Rightarrow> request list \<Rightarrow> nat list option \<Rightarrow> kv_memory \<Rightarrow> prefix_cache \<Rightarrow> (bool \<times> kv_memory \<times> prefix_cache) result" where
  "check_decode_mem k spec rs selected m tree =
     rbind (new_tokens_required_next_decode spec (page_size (kv_pool m)) rs selected) (\<lambda>num_tokens.
     rbind (evict_from_tree_cache k m tree num_tokens) (\<lambda>(m, tree).
     Inr (kv_available_size k (kv_pool m) \<ge> num_tokens, m, tree)))"

text \<open>\<open>steps\<close> is \<^verbatim>\<open>SGLANG_RETRACT_DECODE_STEPS\<close>.\<close>

definition release_req ::
  "allocator_class \<Rightarrow> server_args \<Rightarrow> nat \<Rightarrow> int \<times> int \<Rightarrow> request list \<Rightarrow> nat \<Rightarrow> nat \<Rightarrow> kv_memory \<Rightarrow> prefix_cache
     \<Rightarrow> (request list \<times> kv_memory \<times> prefix_cache) result" where
  "release_req k sa steps now rs idx remaining m tree =
     (if idx < length rs
      then rbind (release_kv_cache k sa (fst now) (snd now) m tree (rs ! idx) False) (\<lambda>(r, m, tree).
           rbind (evict_from_tree_cache k m tree (remaining * steps)) (\<lambda>(m, tree).
           Inr (rs[idx := reset_for_retract r], m, tree)))
      else Inl IndexError)"

text \<open>
  The loop of \<^verbatim>\<open>retract_decode\<close>. \<open>is\<close> is \<^verbatim>\<open>sorted_indices\<close> from its end, where the code pops; the result is what is left of
  it, the requests retracted so far, and the requests, memory and cache.
\<close>

fun retract_loop ::
  "allocator_class \<Rightarrow> server_args \<Rightarrow> spec_mode \<Rightarrow> nat \<Rightarrow> int \<times> int \<Rightarrow> bool \<Rightarrow> nat list \<Rightarrow> nat list \<Rightarrow> request list \<Rightarrow> kv_memory \<Rightarrow> prefix_cache
     \<Rightarrow> (nat list \<times> nat list \<times> request list \<times> kv_memory \<times> prefix_cache) result" where
  "retract_loop k sa spec steps now first [] retracted rs m tree =
     (if first then Inl IndexError
      else rbind (check_decode_mem k spec rs (Some []) m tree) (\<lambda>(enough, m, tree).
           if enough then Inr ([], retracted, rs, m, tree) else Inl IndexError))"
| "retract_loop k sa spec steps now first (i # is) retracted rs m tree =
     rbind (if first then Inr (False, m, tree) else check_decode_mem k spec rs (Some (rev (i # is))) m tree) (\<lambda>(enough, m, tree).
     if enough \<or> is = [] then Inr (i # is, retracted, rs, m, tree)
     else rbind (release_req k sa steps now rs i (length is) m tree) (\<lambda>(rs, m, tree).
          retract_loop k sa spec steps now False is (retracted @ [i]) rs m tree))"

text \<open>\<^verbatim>\<open>estimate_new_token_ratio_after_retract\<close>.\<close>

definition estimate_new_token_ratio :: "nat \<Rightarrow> request list \<Rightarrow> rat" where
  "estimate_new_token_ratio steps rs =
     min 1 (of_nat (sum_list (map (\<lambda>r. length (output_ids r)) rs) + steps * length rs) /
            of_nat (sum_list (map max_new_tokens rs) + 1))"

text \<open>
  The requests with the most output, among them those with the shortest input, are kept longest; Python's sort is stable
  also where it is reversed. The result is the batch, the retracted requests, the new ratio and the aborted requests.
\<close>

definition retract_order :: "server_args \<Rightarrow> request list \<Rightarrow> nat list" where
  "retract_order sa rs =
     (if speculative_algorithm sa = None
      then sort_key (\<lambda>i. - int (length (output_ids (rs ! i)))) (sort_key (\<lambda>i. length (origin_input_ids (rs ! i))) [0..<length rs])
      else [0..<length rs])"

definition retract_decode ::
  "allocator_class \<Rightarrow> server_args \<Rightarrow> spec_mode \<Rightarrow> nat \<Rightarrow> int \<times> int \<Rightarrow> schedule_batch \<Rightarrow> kv_memory \<Rightarrow> prefix_cache
     \<Rightarrow> ((schedule_batch \<times> request list \<times> rat \<times> request list) \<times> kv_memory \<times> prefix_cache) result" where
  "retract_decode k sa spec steps now b m tree =
     rbind (retract_loop k sa spec steps now True (rev (retract_order sa (reqs b))) [] (reqs b) m tree) (\<lambda>(left_rev, retracted, rs, m, tree).
     rbind (if length left_rev \<le> 1
            then rbind (check_decode_mem k spec rs (Some (rev left_rev)) m tree) (\<lambda>(enough, m, tree). Inr (\<not> enough, m, tree))
            else Inr (False, m, tree)) (\<lambda>(abort, m, tree).
     rbind (if abort
            then case left_rev of
                   [] \<Rightarrow> Inl IndexError
                 | i # is \<Rightarrow>
                     rbind (release_req k sa steps now (rs[i := (rs ! i)\<lparr>to_finish := Some FINISH_ABORT\<rparr>]) i 0 m tree) (\<lambda>(rs, m, tree).
                     Inr (is, [i], rs, m, tree))
            else Inr (left_rev, [], rs, m, tree)) (\<lambda>(left_rev, aborted, rs, m, tree).
     rbind (filter_batch (rev left_rev) (b\<lparr>reqs := rs\<rparr>)) (\<lambda>b.
     Inr ((b, map ((!) rs) retracted, estimate_new_token_ratio steps (reqs b), map ((!) rs) aborted), m, tree)))))"

text \<open>\<^verbatim>\<open>retract_all\<close> (used where the scheduler pauses): every request is released, none is kept.\<close>

definition retract_all ::
  "allocator_class \<Rightarrow> server_args \<Rightarrow> nat \<Rightarrow> int \<times> int \<Rightarrow> schedule_batch \<Rightarrow> kv_memory \<Rightarrow> prefix_cache
     \<Rightarrow> ((schedule_batch \<times> request list) \<times> kv_memory \<times> prefix_cache) result" where
  "retract_all k sa steps now b m tree =
     rbind (foldM (\<lambda>(rs, m, tree) idx. release_req k sa steps now rs idx (length rs - idx) m tree) (reqs b, m, tree) [0..<length (reqs b)])
       (\<lambda>(rs, m, tree). Inr ((b\<lparr>reqs := []\<rparr>, rs), m, tree))"

definition prepare_for_decode ::
  "device \<Rightarrow> allocator_class \<Rightarrow> spec_mode \<Rightarrow> schedule_batch \<Rightarrow> kv_memory \<Rightarrow> prefix_cache
     \<Rightarrow> (int list \<times> schedule_batch \<times> kv_memory \<times> prefix_cache) result" where
  "prepare_for_decode dev k spec b m tree =
     (if spec \<noteq> SpecNone then Inr ([], b, m, tree)
      else rbind (alloc_for_decode dev k b 1 m tree) (\<lambda>(out_cache_loc, m, tree).
           Inr (out_cache_loc,
                b\<lparr>reqs := map (\<lambda>r. r\<lparr>kv_committed_len := kv_committed_len r + 1, kv_allocated_len := kv_allocated_len r + 1\<rparr>) (reqs b),
                  seq_lens := map (\<lambda>n. n + 1) (seq_lens b)\<rparr>, m, tree)))"

subsection \<open>The ratio of new tokens\<close>

record ratio_tracker =
  ratio_init :: rat
  ratio_min :: rat
  ratio_decay :: rat
  ratio_current :: rat

text \<open>The arguments are the environment's initial ratio, minimum factor and number of decay steps, and \<^verbatim>\<open>schedule_conservativeness\<close>.\<close>

definition tracker_from_args :: "rat \<Rightarrow> rat \<Rightarrow> nat \<Rightarrow> rat \<Rightarrow> ratio_tracker result" where
  "tracker_from_args init_ratio min_factor decay_steps conservativeness =
     (let i = min (init_ratio * conservativeness) 1; lo = min (i * min_factor) 1
      in if decay_steps = 0 then Inl ZeroDivisionError
         else Inr \<lparr>ratio_init = i, ratio_min = lo, ratio_decay = (i - lo) / of_nat decay_steps, ratio_current = i\<rparr>)"

definition decay_step :: "ratio_tracker \<Rightarrow> ratio_tracker" where
  "decay_step t = t\<lparr>ratio_current := max (ratio_current t - ratio_decay t) (ratio_min t)\<rparr>"

definition tracker_reset :: "ratio_tracker \<Rightarrow> ratio_tracker" where
  "tracker_reset t = t\<lparr>ratio_current := ratio_init t\<rparr>"

subsection \<open>One decode step\<close>

text \<open>
  \<^verbatim>\<open>update_running_batch\<close>. The result is the batch ready to run (or empty), the requests that go back to the waiting queue, the
  aborted ones and the ratio. \<open>force\<close> is the test mode in which requests are retracted although memory suffices.
\<close>

definition update_running_batch ::
  "device \<Rightarrow> allocator_class \<Rightarrow> server_args \<Rightarrow> spec_mode \<Rightarrow> nat \<Rightarrow> int \<times> int \<Rightarrow> bool \<Rightarrow> ratio_tracker \<Rightarrow> schedule_batch \<Rightarrow> kv_memory \<Rightarrow> prefix_cache
     \<Rightarrow> ((schedule_batch \<times> request list \<times> request list \<times> ratio_tracker) \<times> kv_memory \<times> prefix_cache) result" where
  "update_running_batch dev k sa spec steps now force tracker b m tree =
     rbind (filter_batch (unfinished_indices (reqs b)) b) (\<lambda>b.
     if reqs b = [] then Inr ((b, [], [], tracker), m, tree)
     else
       rbind (check_decode_mem k spec (reqs b) None m tree) (\<lambda>(enough, m, tree).
       rbind (if \<not> enough \<or> force
              then rbind (retract_decode k sa spec steps now b m tree) (\<lambda>((b, retracted, ratio, aborted), m, tree).
                   Inr ((b, retracted, aborted, tracker\<lparr>ratio_current := ratio\<rparr>), m, tree))
              else Inr ((b, [], [], decay_step tracker), m, tree)) (\<lambda>((b, retracted, aborted, tracker), m, tree).
       if reqs b = [] then Inr ((b, retracted, aborted, tracker), m, tree)
       else rbind (prepare_for_decode dev k spec b m tree) (\<lambda>(out_cache_loc, b, m, tree).
            Inr ((b, retracted, aborted, tracker), m, tree)))))"

subsection \<open>The results of a batch\<close>

text \<open>
  A generation batch after prefill. \<open>decoding\<close> are the positions of the requests that a mixed batch takes from the running
  batch; \<open>clock i\<close> gives the times that the calls for request \<open>i\<close> read.
\<close>

definition prefill_result ::
  "allocator_class \<Rightarrow> server_args \<Rightarrow> stop_env \<Rightarrow> int option \<Rightarrow> (nat \<Rightarrow> int \<times> int \<times> int \<times> int) \<Rightarrow> nat list \<Rightarrow> nat \<Rightarrow> request \<Rightarrow> int
     \<Rightarrow> kv_memory \<Rightarrow> prefix_cache \<Rightarrow> (request \<times> kv_memory \<times> prefix_cache) result" where
  "prefill_result k sa env think_end_id clock decoding i r next_token_id m tree =
     (if finished r \<or> is_retracted r then Inr (r, m, tree)
      else if inflight_middle_chunks r \<le> 0
      then
        let r = r\<lparr>output_ids := output_ids r @ [next_token_id]\<rparr>;
            r = maybe_update_reasoning_tokens think_end_id [next_token_id] r;
            r = update_finish_state env 1 r
        in case clock i of (t, t', t'', t''') \<Rightarrow>
             if finished r then release_kv_cache k sa t t' m tree r True
             else if i \<notin> set decoding then maybe_cache_unfinished_req k t t' t'' t''' m tree r False
             else Inr (r, m, tree)
      else Inr (r\<lparr>inflight_middle_chunks := inflight_middle_chunks r - 1\<rparr>, m, tree))"

definition embedding_result ::
  "allocator_class \<Rightarrow> server_args \<Rightarrow> stop_env \<Rightarrow> (nat \<Rightarrow> int \<times> int \<times> int \<times> int) \<Rightarrow> nat \<Rightarrow> request
     \<Rightarrow> kv_memory \<Rightarrow> prefix_cache \<Rightarrow> (request \<times> kv_memory \<times> prefix_cache) result" where
  "embedding_result k sa env clock i r m tree =
     (if is_retracted r then Inr (r, m, tree)
      else if inflight_middle_chunks r \<le> 0
      then
        let r = update_finish_state env 1 (r\<lparr>output_ids := output_ids r @ [0]\<rparr>)
        in case clock i of (t, t', t'', t''') \<Rightarrow>
             if finished r then release_kv_cache k sa t t' m tree r True
             else maybe_cache_unfinished_req k t t' t'' t''' m tree r False
      else Inr (r\<lparr>inflight_middle_chunks := inflight_middle_chunks r - 1\<rparr>, m, tree))"

definition decode_result ::
  "allocator_class \<Rightarrow> server_args \<Rightarrow> stop_env \<Rightarrow> int option \<Rightarrow> (nat \<Rightarrow> int \<times> int \<times> int \<times> int) \<Rightarrow> bool \<Rightarrow> nat \<Rightarrow> request \<Rightarrow> int option
     \<Rightarrow> kv_memory \<Rightarrow> prefix_cache \<Rightarrow> (request \<times> kv_memory \<times> prefix_cache) result" where
  "decode_result k sa env think_end_id clock overlap i r next_token_id m tree =
     (if overlap \<and> (finished r \<or> is_retracted r) then Inr (r, m, tree)
      else case next_token_id of None \<Rightarrow> Inl IndexError | Some next_token_id \<Rightarrow>
        let r = r\<lparr>output_ids := output_ids r @ [next_token_id]\<rparr>;
            r = maybe_update_reasoning_tokens think_end_id [next_token_id] r;
            r = update_finish_state env 1 r
        in if finished r then release_kv_cache k sa (fst (clock i)) (fst (snd (clock i))) m tree r True
           else Inr (r, m, tree))"

text \<open>The loop over the requests of a batch.\<close>

fun process_reqs ::
  "(nat \<Rightarrow> request \<Rightarrow> 'x \<Rightarrow> kv_memory \<Rightarrow> prefix_cache \<Rightarrow> (request \<times> kv_memory \<times> prefix_cache) result) \<Rightarrow> nat \<Rightarrow> (request \<times> 'x) list
     \<Rightarrow> kv_memory \<Rightarrow> prefix_cache \<Rightarrow> (request list \<times> kv_memory \<times> prefix_cache) result" where
  "process_reqs f i [] m tree = Inr ([], m, tree)"
| "process_reqs f i ((r, x) # rs) m tree =
     rbind (f i r x m tree) (\<lambda>(r, m, tree).
     rbind (process_reqs f (Suc i) rs m tree) (\<lambda>(rs, m, tree).
     Inr (r # rs, m, tree)))"

definition process_batch_result_prefill ::
  "allocator_class \<Rightarrow> server_args \<Rightarrow> stop_env \<Rightarrow> int option \<Rightarrow> (nat \<Rightarrow> int \<times> int \<times> int \<times> int) \<Rightarrow> nat list \<Rightarrow> schedule_batch \<Rightarrow> int list
     \<Rightarrow> kv_memory \<Rightarrow> prefix_cache \<Rightarrow> (schedule_batch \<times> kv_memory \<times> prefix_cache) result" where
  "process_batch_result_prefill k sa env think_end_id clock decoding b next_token_ids m tree =
     rbind (process_reqs (prefill_result k sa env think_end_id clock decoding) 0 (zip (reqs b) next_token_ids) m tree) (\<lambda>(rs, m, tree).
     Inr (b\<lparr>reqs := rs @ drop (length rs) (reqs b)\<rparr>, m, tree))"

definition process_batch_result_embedding ::
  "allocator_class \<Rightarrow> server_args \<Rightarrow> stop_env \<Rightarrow> (nat \<Rightarrow> int \<times> int \<times> int \<times> int) \<Rightarrow> schedule_batch
     \<Rightarrow> kv_memory \<Rightarrow> prefix_cache \<Rightarrow> (schedule_batch \<times> kv_memory \<times> prefix_cache) result" where
  "process_batch_result_embedding k sa env clock b m tree =
     rbind (process_reqs (\<lambda>i r x. embedding_result k sa env clock i r) 0 (map (\<lambda>r. (r, ())) (reqs b)) m tree) (\<lambda>(rs, m, tree).
     Inr (b\<lparr>reqs := rs\<rparr>, m, tree))"

text \<open>Between \<^verbatim>\<open>free_group_begin\<close> and \<^verbatim>\<open>free_group_end\<close> the allocator collects what the finished requests free.\<close>

definition process_batch_result_decode ::
  "allocator_class \<Rightarrow> server_args \<Rightarrow> stop_env \<Rightarrow> int option \<Rightarrow> (nat \<Rightarrow> int \<times> int \<times> int \<times> int) \<Rightarrow> bool \<Rightarrow> schedule_batch \<Rightarrow> int list
     \<Rightarrow> kv_memory \<Rightarrow> prefix_cache \<Rightarrow> (schedule_batch \<times> kv_memory \<times> prefix_cache) result" where
  "process_batch_result_decode k sa env think_end_id clock overlap b next_token_ids m tree =
     (let m = m\<lparr>kv_pool := free_group_begin (kv_pool m)\<rparr>
      in rbind (process_reqs (decode_result k sa env think_end_id clock overlap) 0
                  (map (\<lambda>i. (reqs b ! i, if i < length next_token_ids then Some (next_token_ids ! i) else None)) [0..<length (reqs b)]) m tree)
           (\<lambda>(rs, m, tree).
         rbind (free_group_end (kv_free k) (kv_pool m)) (\<lambda>a.
         Inr (b\<lparr>reqs := rs\<rparr>, m\<lparr>kv_pool := a\<rparr>, tree))))"

end
