(* ===== verification/Serving.thy ===== *)
theory Serving
  imports Running_Batch
begin

text \<open>
  The scheduler's operations composed: live requests own their rows and pages and lock their nodes, and every operation of the
  prefill and decode rounds keeps that, from the admission of a request to its release.
\<close>

section \<open>Live requests\<close>

text \<open>The tokens of a request whose keys and values are in memory.\<close>

definition written :: "request \<Rightarrow> int list" where
  "written r = take (kv_committed_len r) (origin_input_ids r @ output_ids r)"

definition live :: "radix_cache \<Rightarrow> kv_memory \<Rightarrow> request \<Rightarrow> int list \<Rightarrow> bool" where
  "live c m r pgs \<longleftrightarrow> attached c m r (written r) pgs \<and> 0 < kv_committed_len r \<and> kv_allocated_len r = kv_committed_len r \<and>
     kv_committed_len r \<le> length (origin_input_ids r @ output_ids r) \<and> origin_input_ids r \<noteq> [] \<and>
     length (origin_input_ids r) + max_new_tokens r \<le> max_context_len (row_pool m) \<and> length (output_ids r) \<le> max_new_tokens r \<and>
     finished_reason r = None \<and> \<not> is_retracted r \<and> \<not> kv_committed_freed r \<and> \<not> kv_overallocated_freed r"

text \<open>
  \<open>holding\<close>: the live requests own exactly the rows in use, their pages and the cache's are exactly the pages in use, and
  they hold exactly the locks. \<open>serving\<close> adds that no group of frees is open.
\<close>

definition holding :: "allocator_class \<Rightarrow> nat \<Rightarrow> kv_memory \<Rightarrow> radix_cache \<Rightarrow> (request \<times> int list) list \<Rightarrow> bool" where
  "holding k N m c rs \<longleftrightarrow> cache_inv c (lock_nodes (map fst rs)) \<and> \<not> disable c \<and> whole_pages c \<and>
     kv_own k (rc_page_size c) N (kv_pool m) (tree_pages c + owned c rs) \<and>
     rows_own (row_pool m) (held_rows (map fst rs)) \<and> table_ok (row_pool m) \<and> (\<forall>(r, pgs) \<in> set rs. live c m r pgs)"

definition serving :: "allocator_class \<Rightarrow> nat \<Rightarrow> kv_memory \<Rightarrow> radix_cache \<Rightarrow> (request \<times> int list) list \<Rightarrow> bool" where
  "serving k N m c rs \<longleftrightarrow> holding k N m c rs \<and> settled (kv_pool m)"

lemma serving_state: "serving k N m c rs \<longleftrightarrow> kv_state k N (lock_nodes (map fst rs)) (owned c rs) m c \<and>
     rows_own (row_pool m) (held_rows (map fst rs)) \<and> table_ok (row_pool m) \<and> (\<forall>(r, pgs) \<in> set rs. live c m r pgs)"
  by (auto simp: serving_def holding_def kv_state_def)

lemma owned_simps [simp]:
  "owned c [] = {#}" "owned c ((r, pgs) # rs) = own_pages c r pgs + owned c rs" "owned c (rs @ rs') = owned c rs + owned c rs'"
  by (simp_all add: owned_def)

lemma owned_config: "rc_page_size c' = rc_page_size c \<Longrightarrow> owned c' rs = owned c rs"
  by (simp add: owned_def own_pages_def)

lemma lock_nodes_simps [simp]:
  "lock_nodes [] = {#}" "lock_nodes (r # rs) = add_mset (the (last_node r)) (lock_nodes rs)"
  "lock_nodes (rs @ rs') = lock_nodes rs + lock_nodes rs'"
  by (simp_all add: lock_nodes_def)

lemma held_rows_append [simp]: "held_rows (rs @ rs') = held_rows rs + held_rows rs'"
  by (simp add: held_rows_def)

lemma holding_perm:
  assumes "mset rs = mset rs'"
  shows "holding k N m c rs = holding k N m c rs'"
proof -
  have "lock_nodes (map fst rs) = lock_nodes (map fst rs')" using assms by (simp add: lock_nodes_def comp_def)
  moreover have "held_rows (map fst rs) = held_rows (map fst rs')"
  proof -
    have "mset (filter (\<lambda>i. i \<noteq> None) (map req_pool_idx (map fst rs))) = mset (filter (\<lambda>i. i \<noteq> None) (map req_pool_idx (map fst rs')))"
      using assms by (simp only: mset_filter mset_map)
    then show ?thesis unfolding held_rows_def by (simp only: mset_map)
  qed
  moreover have "owned c rs = owned c rs'" unfolding owned_def by (rule mset_sum_list [OF assms])
  moreover have "set rs = set rs'" by (rule mset_eq_setD [OF assms])
  ultimately show ?thesis by (simp add: holding_def)
qed

lemma serving_perm: "mset rs = mset rs' \<Longrightarrow> serving k N m c rs = serving k N m c rs'"
  by (simp only: serving_def holding_perm [of rs rs'])

lemma holding_live: "holding k N m c rs \<Longrightarrow> (r, pgs) \<in> set rs \<Longrightarrow> live c m r pgs"
  by (auto simp: holding_def)

lemma live_facts:
  assumes "live c m r pgs"
  obtains i nd where "req_pool_idx r = Some i" "i < length (req_to_token (row_pool m))" "last_node r = Some nd" "length (written r) = kv_committed_len r"
proof -
  obtain i nd where "req_pool_idx r = Some i" "i < length (req_to_token (row_pool m))" "last_node r = Some nd"
    using assms unfolding live_def attached_def by blast
  moreover have "length (written r) = kv_committed_len r" using assms unfolding live_def written_def length_take by linarith
  ultimately show thesis by (rule that)
qed

text \<open>Fields that \<^verbatim>\<open>live\<close> does not read may change.\<close>

lemma attached_cong:
  assumes "req_pool_idx r' = req_pool_idx r" "cache_protected_len r' = cache_protected_len r" "last_node r' = last_node r"
    "req_extra_key r' = req_extra_key r"
  shows "attached c m r' toks pgs = attached c m r toks pgs"
  using assms by (simp add: attached_def req_key_def)

text \<open>A step that leaves the request's row alone and keeps or shrinks the tree keeps the request live.\<close>

lemma live_keeps:
  assumes l: "live c m r pgs" and keep: "keeps c c'"
    and row: "\<And>i. req_pool_idx r = Some i \<Longrightarrow> req_to_token (row_pool m') ! i = req_to_token (row_pool m) ! i"
    and tab: "length (req_to_token (row_pool m')) = length (req_to_token (row_pool m))" "max_context_len (row_pool m') = max_context_len (row_pool m)"
  shows "live c' m' r pgs"
proof -
  have "in_row (rc_page_size c) m r (length (written r)) pgs" "anchored c r (written r) pgs" using l by (simp_all add: live_def attached_parts)
  then have "in_row (rc_page_size c) m' r (length (written r)) pgs" "anchored c' r (written r) pgs"
    using row tab(1) anchored_keeps [OF keep] by (auto simp: in_row_def)
  moreover have "rc_page_size c' = rc_page_size c" using keep by (simp add: keeps_def same_config_def)
  ultimately show ?thesis using l tab(2) by (simp add: live_def attached_parts)
qed

lemma live_shrinks:
  assumes l: "live c m r pgs" and inv: "cache_inv c L" "cache_inv c' L" and sh: "shrinks L c c'" and nd: "the (last_node r) \<in># L"
    and row: "\<And>i. req_pool_idx r = Some i \<Longrightarrow> req_to_token (row_pool m') ! i = req_to_token (row_pool m) ! i"
    and tab: "length (req_to_token (row_pool m')) = length (req_to_token (row_pool m))" "max_context_len (row_pool m') = max_context_len (row_pool m)"
  shows "live c' m' r pgs"
proof -
  have parts: "in_row (rc_page_size c) m r (length (written r)) pgs" "anchored c r (written r) pgs" using l by (simp_all add: live_def attached_parts)
  obtain n where n: "last_node r = Some n" using live_facts [OF l] by metis
  have "anchored c' r (written r) pgs" by (rule anchored_shrinks [OF inv sh parts(2) n]) (use nd n in simp)
  moreover have "in_row (rc_page_size c) m' r (length (written r)) pgs" using parts(1) row tab(1) by (auto simp: in_row_def)
  moreover have "rc_page_size c' = rc_page_size c" using sh by (simp add: shrinks_def same_config_def)
  ultimately show ?thesis using l tab(2) by (simp add: live_def attached_parts)
qed

section \<open>Open and closed groups of frees\<close>

text \<open>What a free leaves as it was: whether a group is open, and the pages to release where the allocator does not sort.\<close>

definition status :: "allocator \<Rightarrow> bool \<times> bool \<times> int list" where
  "status a = (is_not_in_free_group a, need_sort a, if need_sort a then [] else release_pages a)"

lemma status_settled: "status a' = status a \<Longrightarrow> settled a' = settled a"
  by (auto simp: status_def settled_def split: if_splits)

lemma kv_free_status: "kv_free k a idx = Inr a' \<Longrightarrow> status a' = status a"
  by (cases k) (auto simp: kv_free_def token_free_def paged_free_def status_def Let_def rbind_eq_Inr_iff split: if_splits)

lemma memory_free_status: "memory_free k m idx = Inr m' \<Longrightarrow> status (kv_pool m') = status (kv_pool m) \<and> row_pool m' = row_pool m"
  by (auto simp: memory_free_def rbind_eq_Inr_iff dest: kv_free_status)

lemma finished_status:
  "radix_cache_finished_req k sa t t' m c r ins = Inr (r', m', c') \<Longrightarrow> status (kv_pool m') = status (kv_pool m) \<and> row_pool m' = row_pool m"
  by (auto simp: radix_cache_finished_req_def Let_def rbind_eq_Inr_iff split: if_splits option.splits dest!: memory_free_status)

lemma unfinished_status:
  "radix_cache_unfinished_req k t t' u u' m c r chunked = Inr (r', m', c') \<Longrightarrow> status (kv_pool m') = status (kv_pool m)"
  by (auto simp: radix_cache_unfinished_req_def Let_def rbind_eq_Inr_iff split: if_splits option.splits dest!: memory_free_status)

lemma release_status:
  assumes "release_kv_cache k sa t t' m (RadixCache c) r ins = Inr (r', m', tree)"
  shows "status (kv_pool m') = status (kv_pool m)" "rtp_size (row_pool m') = rtp_size (row_pool m)"
    "max_context_len (row_pool m') = max_context_len (row_pool m)"
proof -
  obtain r1 m1 c1 where fin: "radix_cache_finished_req k sa t t' m c r (ins \<and> \<not> skip_radix_cache_insert r) = Inr (r1, m1, c1)"
    and rest: "release_rest k sa r1 m1 = Inr (r', m')"
    using assms by (auto simp: release_split cache_finished_req_def rbind_eq_Inr_iff split: if_splits)
  obtain r2 e s m2 rows where m2: "(if s < e then rbind (row_prefix m1 r2 e) (\<lambda>row. memory_free k m1 (drop s row)) else Inr m1) = Inr m2"
      "pool_free (row_pool m2) r2 = Inr (r', rows)" "m' = m2\<lparr>row_pool := rows\<rparr>"
    using rest unfolding release_rest_def rbind_eq_Inr_iff by (fastforce simp: rbind_eq_Inr_iff)
  have "status (kv_pool m2) = status (kv_pool m1) \<and> row_pool m2 = row_pool m1"
    using m2(1) by (auto simp: rbind_eq_Inr_iff split: if_splits dest!: memory_free_status)
  moreover have "rtp_size rows = rtp_size (row_pool m2) \<and> max_context_len rows = max_context_len (row_pool m2)"
    using m2(2) by (auto simp: pool_free_def rbind_eq_Inr_iff split: option.splits if_splits)
  ultimately have "status (kv_pool m') = status (kv_pool m1) \<and> rtp_size (row_pool m') = rtp_size (row_pool m1) \<and>
      max_context_len (row_pool m') = max_context_len (row_pool m1)"
    using m2(3) by simp
  then show "status (kv_pool m') = status (kv_pool m)" "rtp_size (row_pool m') = rtp_size (row_pool m)"
    "max_context_len (row_pool m') = max_context_len (row_pool m)"
    using finished_status [OF fin] by simp_all
qed

section \<open>Releasing a request\<close>

text \<open>\<open>kept r r'\<close>: \<open>r'\<close> is \<open>r\<close> with what it occupies unchanged; it may have got more output, or a reason to finish.\<close>

definition kept :: "request \<Rightarrow> request \<Rightarrow> bool" where
  "kept r r' \<longleftrightarrow> req_pool_idx r' = req_pool_idx r \<and> origin_input_ids r' = origin_input_ids r \<and> fill_ids r' = fill_ids r \<and>
     req_extra_key r' = req_extra_key r \<and> last_node r' = last_node r \<and> cache_protected_len r' = cache_protected_len r \<and>
     kv_committed_len r' = kv_committed_len r \<and> kv_allocated_len r' = kv_allocated_len r \<and> max_new_tokens r' = max_new_tokens r \<and>
     is_retracted r' = is_retracted r \<and> kv_committed_freed r' = kv_committed_freed r \<and> kv_overallocated_freed r' = kv_overallocated_freed r \<and>
     (\<exists>more. output_ids r' = output_ids r @ more)"

lemma kept_refl [simp]: "kept r r"
  by (simp add: kept_def)

lemma kept_live:
  assumes l: "live c m r pgs" and k: "kept r r'"
  shows "written r' = written r" "attached c m r' (written r') pgs" "own_pages c r' p = own_pages c r p"
    "length (output_ids r') \<le> max_new_tokens r' \<Longrightarrow> finished_reason r' = None \<Longrightarrow> live c m r' pgs"
proof -
  obtain more where more: "output_ids r' = output_ids r @ more" using k by (auto simp: kept_def)
  have len: "kv_committed_len r \<le> length (origin_input_ids r @ output_ids r)" using l by (simp add: live_def)
  show w: "written r' = written r" using len k unfolding written_def more by (simp add: kept_def)
  show att: "attached c m r' (written r') pgs" using l k attached_cong [of r' r c m "written r" pgs] by (simp add: w live_def kept_def)
  show "own_pages c r' p = own_pages c r p" using k by (simp add: own_pages_def kept_def)
  assume "length (output_ids r') \<le> max_new_tokens r'" "finished_reason r' = None"
  then show "live c m r' pgs" using l k att len by (simp add: live_def kept_def more)
qed

lemma kept_holding:
  assumes h: "holding k N m c ((r, pgs) # rs)" and k: "kept r r'" and "length (output_ids r') \<le> max_new_tokens r'" "finished_reason r' = None"
  shows "holding k N m c ((r', pgs) # rs)"
proof -
  have l: "live c m r pgs" using holding_live [OF h] by simp
  show ?thesis using h k kept_live(3,4) [OF l k] assms(3,4) by (simp add: holding_def kept_def)
qed

lemma holding_release:
  assumes h: "holding k N m c ((q, pgs) # rs)" and sa: "sa_page_size sa = rc_page_size c" "\<not> strip_thinking_cache sa" and q: "kept q r"
  obtains m' c' where "release_kv_cache k sa t t' m (RadixCache c) r ins = Inr (released r, m', RadixCache c')"
    "holding k N m' c' rs" "status (kv_pool m') = status (kv_pool m)" "keeps c c'" "req_to_token (row_pool m') = req_to_token (row_pool m)"
    "max_context_len (row_pool m') = max_context_len (row_pool m)"
proof -
  have lq: "live c m q pgs" using holding_live [OF h] by simp
  obtain i nd where iq: "req_pool_idx q = Some i" "i < length (req_to_token (row_pool m))" "last_node q = Some nd" "length (written q) = kv_committed_len q"
    using live_facts [OF lq] .
  have i: "req_pool_idx r = Some i" "i < length (req_to_token (row_pool m))" "last_node r = Some nd" "length (written r) = kv_committed_len r"
    using iq q kept_live(1) [OF lq q] by (simp_all add: kept_def)
  have commit: "cache_commit_len (strip_thinking_cache sa) r = kv_committed_len r" using sa(2) by (simp add: cache_commit_len_def)
  note hh = h [unfolded holding_def, simplified]
  have att: "attached c m r (written r) pgs" by (rule kept_live(2) [OF lq q])
  have lay: "length pgs = cdiv (length (written r)) (rc_page_size c)"
    using att i by (auto simp: attached_def layout_def min_absorb2)
  have len: "kv_allocated_len r = kv_committed_len r" "\<not> kv_committed_freed r" "\<not> kv_overallocated_freed r" using lq q by (simp_all add: live_def kept_def)
  have slots: "holds_slots (rc_page_size c) m r pgs" using att len i by (auto simp: attached_def holds_slots_def)
  have toks: "written r = take (cache_commit_len (strip_thinking_cache sa) r) (origin_input_ids r @ output_ids r)"
    "length (written r) = cache_commit_len (strip_thinking_cache sa) r" unfolding commit using i(4) by (simp_all add: written_def)
  have att': "attached c m r (written r) (take (cdiv (length (written r)) (rc_page_size c)) pgs)" using att by (simp add: lay)
  have state: "cache_inv c (add_mset nd (lock_nodes (map fst rs)))" "\<not> disable c" "whole_pages c"
      "kv_own k (rc_page_size c) N (kv_pool m) (tree_pages c + own_pages c r pgs + owned c rs)"
      "rows_own (row_pool m) (add_mset i (held_rows (map fst rs)))"
    using hh iq kept_live(3) [OF lq q] by (simp_all add: ac_simps)
  have free: "\<not> kv_committed_freed r" "\<not> kv_overallocated_freed r" "kv_committed_len r = kv_allocated_len r"
      "cache_commit_len (strip_thinking_cache sa) r \<le> kv_allocated_len r" using len commit by simp_all
  have lock: "nd \<in># add_mset nd (lock_nodes (map fst rs))" by simp
  from release_radix_ok [OF state(1-4) att' i(3) lock toks slots free(4) sa(1) free(1,2) free(3) state(5) i(1), of t t' ins] obtain a rows' c' where
    rel: "release_kv_cache k sa t t' m (RadixCache c) r ins = Inr (released r, \<lparr>kv_pool = a, row_pool = rows'\<rparr>, RadixCache c')"
    and c': "cache_inv c' (lock_nodes (map fst rs))" "whole_pages c'" "keeps c c'" "kv_own k (rc_page_size c) N a (tree_pages c' + owned c rs)"
    and rows: "rows_own rows' (held_rows (map fst rs))" "req_to_token rows' = req_to_token (row_pool m)"
    by auto
  have conf: "rtp_size rows' = rtp_size (row_pool m)" "max_context_len rows' = max_context_len (row_pool m)"
    using release_status [OF rel] by simp_all
  have sc: "rc_page_size c' = rc_page_size c" "\<not> disable c'" using c'(3) hh by (auto simp: keeps_def same_config_def)
  let ?m = "\<lparr>kv_pool = a, row_pool = rows'\<rparr>"
  have "live c' ?m r' p" if "(r', p) \<in> set rs" for r' p
    by (rule live_keeps [OF _ c'(3)]) (use hh that rows(2) conf(2) in auto)
  then have "holding k N ?m c' rs"
    using hh c' rows sc conf by (auto simp: holding_def owned_config [OF sc(1)] table_ok_def)
  then show thesis using that [of ?m c'] rel c'(3) rows(2) conf(2) release_status(1) [OF rel] by simp
qed

text \<open>The other requests hold other rows.\<close>

lemma other_rows:
  assumes h: "holding k N m c ((r, pgs) # rs)" and i: "req_pool_idx r = Some i" and r': "(r', p) \<in> set rs"
  shows "req_pool_idx r' \<noteq> Some i"
proof
  assume eq: "req_pool_idx r' = Some i"
  have "i \<in># held_rows (map fst rs)" using r' eq by (force simp: held_rows_def image_iff)
  moreover have "rows_own (row_pool m) ({#i#} + held_rows (map fst rs))" using h i by (simp add: holding_def)
  ultimately show False using rows_disjoint [of "row_pool m" "{#i#}" "held_rows (map fst rs)" i] by simp
qed

section \<open>Caching an unfinished request\<close>

lemma holding_unfinished:
  assumes h: "holding k N m c ((r, pgs) # rs)" and N: "(N + 1) * rc_page_size c \<le> 2 ^ 31" and fill: "fill_ids r = written r"
  obtains r' m' c' pgs' where "radix_cache_unfinished_req k t t' u u' m c r chunked = Inr (r', m', c')"
    "holding k N m' c' ((r', pgs') # rs)" "status (kv_pool m') = status (kv_pool m)" "keeps c c'"
    "\<exists>p ix nd. r' = r\<lparr>cache_protected_len := p, prefix_indices := ix, last_node := Some nd\<rparr>"
    "max_context_len (row_pool m') = max_context_len (row_pool m)"
proof -
  have l: "live c m r pgs" using holding_live [OF h] by simp
  obtain i nd where i: "req_pool_idx r = Some i" "i < length (req_to_token (row_pool m))" "last_node r = Some nd" "length (written r) = kv_committed_len r"
    using live_facts [OF l] .
  note hh = h [unfolded holding_def, simplified]
  have state: "cache_inv c (add_mset nd (lock_nodes (map fst rs)))" "\<not> disable c" "whole_pages c"
      "kv_own k (rc_page_size c) N (kv_pool m) (tree_pages c + own_pages c r pgs + owned c rs)"
      "rows_own (row_pool m) (add_mset i (held_rows (map fst rs)))"
    using hh i by (simp_all add: ac_simps)
  have att: "attached c m r (fill_ids r) pgs" using l fill by (simp add: live_def)
  have lock: "nd \<in># add_mset nd (lock_nodes (map fst rs))" by simp
  define left where "left = mset (drop (key_len (req_key c r (fill_ids r)) div rc_page_size c) pgs)"
  from unfinished_ok [OF state(1-4) N att i(3) lock i(1), of t t' u u' chunked, folded left_def] obtain a c' nd' row pgs' where
    un: "radix_cache_unfinished_req k t t' u u' m c r chunked =
      Inr (reattached c r (fill_ids r) (take (length (fill_ids r)) row) nd', set_row (m\<lparr>kv_pool := a\<rparr>) i row, c')"
    and row: "length row = length (req_to_token (row_pool m) ! i)"
    and att': "attached c' (set_row (m\<lparr>kv_pool := a\<rparr>) i row) (reattached c r (fill_ids r) (take (length (fill_ids r)) row) nd') (fill_ids r) pgs'"
    and own': "own_pages c' (reattached c r (fill_ids r) (take (length (fill_ids r)) row) nd') pgs' = left"
    and c': "cache_inv c' (add_mset nd' (lock_nodes (map fst rs)))" "whole_pages c'" "keeps c c'"
      "kv_own k (rc_page_size c) N a (tree_pages c' + left + owned c rs)"
    by auto
  define r' where "r' = reattached c r (fill_ids r) (take (length (fill_ids r)) row) nd'"
  let ?m = "set_row (m\<lparr>kv_pool := a\<rparr>) i row"
  have sc: "rc_page_size c' = rc_page_size c" "\<not> disable c'" using c'(3) state(2) by (auto simp: keeps_def same_config_def)
  have tab: "rtp_size (row_pool ?m) = rtp_size (row_pool m)" "max_context_len (row_pool ?m) = max_context_len (row_pool m)"
      "free_slots (row_pool ?m) = free_slots (row_pool m)" "table_ok (row_pool ?m)" "kv_pool ?m = a"
      "length (req_to_token (row_pool ?m)) = length (req_to_token (row_pool m))"
    using hh row i(2) by (auto simp: set_row_def table_ok_def dest: set_update_subset_insert [THEN subsetD])
  have rows: "rows_own (row_pool ?m) (held_rows (map fst ((r', pgs') # rs)))"
    using state(5) i(1) tab by (simp add: rows_own_def r'_def reattached_def)
  have "live c' ?m q p" if q: "(q, p) \<in> set rs" for q p
  proof (rule live_keeps [OF _ c'(3)])
    show "live c m q p" using hh q by auto
    show "req_to_token (row_pool ?m) ! j = req_to_token (row_pool m) ! j" if "req_pool_idx q = Some j" for j
      using other_rows [OF h i(1) q] that by (cases "j = i") (simp_all add: set_row_def)
  qed (use tab in simp_all)
  moreover have "written r' = fill_ids r" by (simp add: fill written_def r'_def reattached_def)
  then have "live c' ?m r' pgs'"
    using l att' tab(2) by (simp add: live_def r'_def reattached_def)
  ultimately have "holding k N ?m c' ((r', pgs') # rs)"
    using c'(1,2,4) sc tab rows own' owned_config [OF sc(1), of rs] unfolding holding_def
    by (auto simp: r'_def [symmetric] ac_simps) (simp_all add: r'_def reattached_def ac_simps)
  moreover have "\<exists>p ix nd. r' = r\<lparr>cache_protected_len := p, prefix_indices := ix, last_node := Some nd\<rparr>"
    unfolding r'_def reattached_def by blast
  ultimately show thesis by (rule that [OF un [folded r'_def] _ unfinished_status [OF un] c'(3) _ tab(2)])
qed

section \<open>The results of a batch\<close>

text \<open>One more token: the request finishes at the latest when it has all its tokens.\<close>

definition after_token :: "stop_env \<Rightarrow> int option \<Rightarrow> int \<Rightarrow> request \<Rightarrow> request" where
  "after_token env think t r = update_finish_state env 1 (maybe_update_reasoning_tokens think [t] (r\<lparr>output_ids := output_ids r @ [t]\<rparr>))"

definition same_request :: "request \<Rightarrow> request \<Rightarrow> bool" where
  "same_request r r' \<longleftrightarrow> kept r r' \<and> inflight_middle_chunks r' = inflight_middle_chunks r \<and> skip_radix_cache_insert r' = skip_radix_cache_insert r"

definition stopped :: "int list \<Rightarrow> request \<Rightarrow> request \<Rightarrow> bool" where
  "stopped xs r r' \<longleftrightarrow> (\<exists>reason len todo t. r' = r\<lparr>finished_reason := Some reason, finished_len := len, to_finish := todo, output_ids := xs @ [t]\<rparr>)"

lemma stoppedI:
  assumes "output_ids r = xs @ [t]"
  shows "stopped xs r (r\<lparr>finished_reason := Some reason\<rparr>)" "stopped xs r (r\<lparr>finished_reason := Some reason, finished_len := len\<rparr>)"
    "stopped xs r (r\<lparr>finished_reason := Some reason, to_finish := todo\<rparr>)"
proof -
  have "r\<lparr>finished_reason := Some reason\<rparr> = r\<lparr>finished_reason := Some reason, finished_len := finished_len r, to_finish := to_finish r, output_ids := xs @ [t]\<rparr>"
    "r\<lparr>finished_reason := Some reason, finished_len := len\<rparr> = r\<lparr>finished_reason := Some reason, finished_len := len, to_finish := to_finish r, output_ids := xs @ [t]\<rparr>"
    "r\<lparr>finished_reason := Some reason, to_finish := todo\<rparr> = r\<lparr>finished_reason := Some reason, finished_len := finished_len r, to_finish := todo, output_ids := xs @ [t]\<rparr>"
    using assms by simp_all
  then show "stopped xs r (r\<lparr>finished_reason := Some reason\<rparr>)" "stopped xs r (r\<lparr>finished_reason := Some reason, finished_len := len\<rparr>)"
    "stopped xs r (r\<lparr>finished_reason := Some reason, to_finish := todo\<rparr>)" unfolding stopped_def by blast+
qed

lemma vocab_stopped:
  assumes out: "output_ids r = xs @ [t]" and "check_vocab_boundary_finish [t] r = Some r'"
  shows "stopped xs r r'"
proof -
  have "r' = r\<lparr>finished_reason := Some (FINISH_MATCHED_STR ''NaN happened''), finished_len := Some (length xs + 1), to_finish := to_finish r,
      output_ids := xs @ [if eos_token_ids r \<noteq> [] then hd (eos_token_ids r) else if stop_token_ids r \<noteq> [] then hd (stop_token_ids r) else t]\<rparr>"
    using assms by (auto simp: check_vocab_boundary_finish_def Let_def split: if_splits)
  then show ?thesis unfolding stopped_def by blast
qed

lemma finish_state_one:
  assumes out: "output_ids r = xs @ [t]" and r: "finished_reason r = None"
  shows "stopped xs r (update_finish_state env 1 r) \<or> update_finish_state env 1 r = r \<and> length (output_ids r) < max_new_tokens r"
proof -
  have last: "last_tokens 1 (output_ids r) = [t]" by (simp add: last_tokens_def out)
  have tok: "check_token_based_finish [t] r = Some r' \<Longrightarrow> stopped xs r r'" for r'
    using stoppedI [OF out] by (auto simp: check_token_based_finish_def split: if_splits)
  have str: "check_str_based_finish env r = Some r' \<Longrightarrow> stopped xs r r'" for r'
    using stoppedI [OF out] by (auto simp: check_str_based_finish_def split: option.splits)
  show ?thesis
    using r tok str vocab_stopped [OF out] stoppedI [OF out]
    by (auto simp: update_finish_state_def finished_def last [simplified] Let_def not_le split: option.splits)
qed

lemma after_token_ok:
  assumes r: "finished_reason r = None"
  obtains t' where "output_ids (after_token env think t r) = output_ids r @ [t']" "same_request r (after_token env think t r)"
    "\<not> finished (after_token env think t r) \<Longrightarrow> length (output_ids (after_token env think t r)) < max_new_tokens (after_token env think t r)"
proof -
  define r1 where "r1 = maybe_update_reasoning_tokens think [t] (r\<lparr>output_ids := output_ids r @ [t]\<rparr>)"
  have r1: "output_ids r1 = output_ids r @ [t]" "finished_reason r1 = None" "same_request r r1"
    using r by (auto simp: r1_def maybe_update_reasoning_tokens_def update_reasoning_tokens_def same_request_def kept_def split: option.splits)
  from finish_state_one [OF r1(1,2), of env] show thesis
  proof
    assume "stopped (output_ids r) r1 (update_finish_state env 1 r1)"
    then show thesis using that r1(3) by (auto simp: after_token_def r1_def [symmetric] stopped_def same_request_def kept_def finished_def)
  next
    assume "update_finish_state env 1 r1 = r1 \<and> length (output_ids r1) < max_new_tokens r1"
    then show thesis using that r1 by (auto simp: after_token_def r1_def [symmetric])
  qed
qed

text \<open>
  What processing its result does to a request, while the others (\<open>rs\<close>) stay: a finished request has given everything
  back, and one that goes on is live.
\<close>

definition processed ::
  "allocator_class \<Rightarrow> nat \<Rightarrow> kv_memory \<Rightarrow> radix_cache \<Rightarrow> kv_memory \<Rightarrow> radix_cache \<Rightarrow> request \<Rightarrow> request \<Rightarrow> (request \<times> int list) list \<Rightarrow> bool" where
  "processed k N m c m' c' r r' rs \<longleftrightarrow> keeps c c' \<and> status (kv_pool m') = status (kv_pool m) \<and>
     max_context_len (row_pool m') = max_context_len (row_pool m) \<and>
     (if finished r' then req_pool_idx r' = None \<and> holding k N m' c' rs
      else kv_committed_len r' = kv_committed_len r \<and> req_pool_idx r' = req_pool_idx r \<and> (\<exists>pgs'. holding k N m' c' ((r', pgs') # rs)))"

definition grew :: "request \<Rightarrow> request \<Rightarrow> bool" where
  "grew r r' \<longleftrightarrow> length (output_ids r') = length (output_ids r) + 1 \<and> max_new_tokens r' = max_new_tokens r \<and>
     origin_input_ids r' = origin_input_ids r \<and> (\<not> finished r' \<longrightarrow> length (output_ids r') < max_new_tokens r') \<and>
     kv_committed_freed r' = kv_overallocated_freed r'"

lemma decode_result_ok:
  assumes h: "holding k N m c ((r, pgs) # rs)" and sa: "sa_page_size sa = rc_page_size c" "\<not> strip_thinking_cache sa"
  obtains r' m' c' where "decode_result k sa env think clock overlap i r (Some t) m (RadixCache c) = Inr (r', m', RadixCache c')"
    "processed k N m c m' c' r r' rs" "grew r r'"
proof -
  have l: "live c m r pgs" using holding_live [OF h] by simp
  then have r: "finished_reason r = None" "\<not> is_retracted r" "\<not> kv_committed_freed r" "\<not> kv_overallocated_freed r" by (simp_all add: live_def)
  define r1 where "r1 = after_token env think t r"
  obtain t' where r1: "output_ids r1 = output_ids r @ [t']" "same_request r r1" "\<not> finished r1 \<Longrightarrow> length (output_ids r1) < max_new_tokens r1"
    using after_token_ok [OF r(1), of env think t] unfolding r1_def by blast
  have keep: "kept r r1" using r1(2) by (simp add: same_request_def)
  have grew: "grew r r1" using r1 keep r(3,4) by (auto simp: grew_def kept_def)
  have eval: "decode_result k sa env think clock overlap i r (Some t) m (RadixCache c) =
      (if finished r1 then release_kv_cache k sa (fst (clock i)) (fst (snd (clock i))) m (RadixCache c) r1 True else Inr (r1, m, RadixCache c))"
    using r by (simp add: decode_result_def finished_def r1_def after_token_def Let_def)
  show thesis
  proof (cases "finished r1")
    case True
    obtain m' c' where rel: "release_kv_cache k sa (fst (clock i)) (fst (snd (clock i))) m (RadixCache c) r1 True = Inr (released r1, m', RadixCache c')"
      "holding k N m' c' rs" "status (kv_pool m') = status (kv_pool m)" "keeps c c'" "max_context_len (row_pool m') = max_context_len (row_pool m)"
      by (rule holding_release [OF h sa keep])
    then have "processed k N m c m' c' r (released r1) rs" "finished (released r1)"
      using True by (simp_all add: processed_def released_def finished_def)
    then show thesis using that [of "released r1" m' c'] eval rel(1) True grew by (simp add: grew_def released_def)
  next
    case False
    have "holding k N m c ((r1, pgs) # rs)"
      by (rule kept_holding [OF h keep]) (use r1(3) False in \<open>simp_all add: finished_def\<close>)
    then have "processed k N m c m c r r1 rs" using False keep keeps_refl by (auto simp: processed_def kept_def)
    then show thesis using that [of r1 m c] eval False grew by simp
  qed
qed

lemma prefill_result_ok:
  assumes h: "holding k N m c ((r, pgs) # rs)" and sa: "sa_page_size sa = rc_page_size c" "\<not> strip_thinking_cache sa"
    and N: "(N + 1) * rc_page_size c \<le> 2 ^ 31" and fill: "fill_ids r = written r" and chunk: "inflight_middle_chunks r \<le> 0" and dec: "i \<notin> set decoding"
  obtains r' m' c' where "prefill_result k sa env think clock decoding i r t m (RadixCache c) = Inr (r', m', RadixCache c')"
    "processed k N m c m' c' r r' rs" "grew r r'"
proof -
  have l: "live c m r pgs" using holding_live [OF h] by simp
  then have r: "finished_reason r = None" "\<not> is_retracted r" "\<not> kv_committed_freed r" "\<not> kv_overallocated_freed r" by (simp_all add: live_def)
  define r1 where "r1 = after_token env think t r"
  obtain t' where r1: "output_ids r1 = output_ids r @ [t']" "same_request r r1" "\<not> finished r1 \<Longrightarrow> length (output_ids r1) < max_new_tokens r1"
    using after_token_ok [OF r(1), of env think t] unfolding r1_def by blast
  have keep: "kept r r1" using r1(2) by (simp add: same_request_def)
  have grew: "grew r r1" using r1 keep r(3,4) by (auto simp: grew_def kept_def)
  obtain a b u v where ck: "clock i = (a, b, u, v)" by (cases "clock i")
  have eval: "prefill_result k sa env think clock decoding i r t m (RadixCache c) =
      (if finished r1 then release_kv_cache k sa a b m (RadixCache c) r1 True
       else maybe_cache_unfinished_req k a b u v m (RadixCache c) r1 False)"
    using r chunk dec by (simp add: prefill_result_def finished_def r1_def after_token_def Let_def ck)
  show thesis
  proof (cases "finished r1")
    case True
    obtain m' c' where rel: "release_kv_cache k sa a b m (RadixCache c) r1 True = Inr (released r1, m', RadixCache c')"
      "holding k N m' c' rs" "status (kv_pool m') = status (kv_pool m)" "keeps c c'" "max_context_len (row_pool m') = max_context_len (row_pool m)"
      by (rule holding_release [OF h sa keep])
    then have "processed k N m c m' c' r (released r1) rs" "finished (released r1)"
      using True by (simp_all add: processed_def released_def finished_def)
    then show thesis using that [of "released r1" m' c'] eval rel(1) True grew by (simp add: grew_def released_def)
  next
    case False
    have h1: "holding k N m c ((r1, pgs) # rs)"
      by (rule kept_holding [OF h keep]) (use r1(3) False in \<open>simp_all add: finished_def\<close>)
    show thesis
    proof (cases "skip_radix_cache_insert r1")
      case True
      have "processed k N m c m c r r1 rs" using False keep keeps_refl h1 by (auto simp: processed_def kept_def)
      then show thesis using that [of r1 m c] eval False True grew by (simp add: maybe_cache_unfinished_req_def)
    next
      case insert: False
      have fill1: "fill_ids r1 = written r1" using fill keep kept_live(1) [OF l keep] by (simp add: kept_def)
      obtain r2 m' c' pgs' where un: "radix_cache_unfinished_req k a b u v m c r1 False = Inr (r2, m', c')"
        "holding k N m' c' ((r2, pgs') # rs)" "status (kv_pool m') = status (kv_pool m)" "keeps c c'"
        "\<exists>p ix nd. r2 = r1\<lparr>cache_protected_len := p, prefix_indices := ix, last_node := Some nd\<rparr>"
        "max_context_len (row_pool m') = max_context_len (row_pool m)"
        by (rule holding_unfinished [OF h1 N fill1])
      have r2: "finished r2 = finished r1" "output_ids r2 = output_ids r1" "origin_input_ids r2 = origin_input_ids r1"
        "kv_committed_len r2 = kv_committed_len r1" "req_pool_idx r2 = req_pool_idx r1" "max_new_tokens r2 = max_new_tokens r1"
        "kv_committed_freed r2 = kv_committed_freed r1" "kv_overallocated_freed r2 = kv_overallocated_freed r1" using un(5) by (auto simp: finished_def)
      have "processed k N m c m' c' r r2 rs" using False keep un(2,3,4,6) r2 by (auto simp: processed_def kept_def)
      then show thesis using that [of r2 m' c'] eval False insert un(1) grew r2 by (simp add: maybe_cache_unfinished_req_def grew_def)
    qed
  qed
qed

text \<open>The loop: what is live at the end are the requests that have not finished.\<close>

lemma process_reqs_ok:
  assumes step: "\<And>i r x pgs others m c. holding k N m c ((r, pgs) # others) \<Longrightarrow> rc_page_size c = ps \<Longrightarrow> Q i r x \<Longrightarrow>
      \<exists>r' m' c'. f i r x m (RadixCache c) = Inr (r', m', RadixCache c') \<and> processed k N m c m' c' r r' others \<and> R r r'"
    and "holding k N m c (live_list @ others)" "rc_page_size c = ps" "map fst items = map fst live_list"
    "\<And>j. j < length items \<Longrightarrow> Q (i + j) (fst (items ! j)) (snd (items ! j))"
  shows "\<exists>rs m' c' pgs. process_reqs f i items m (RadixCache c) = Inr (rs, m', RadixCache c') \<and> length rs = length items \<and>
    length pgs = length (filter (\<lambda>r. \<not> finished r) rs) \<and> holding k N m' c' (zip (filter (\<lambda>r. \<not> finished r) rs) pgs @ others) \<and>
    keeps c c' \<and> status (kv_pool m') = status (kv_pool m) \<and> max_context_len (row_pool m') = max_context_len (row_pool m) \<and>
    (\<forall>j<length rs. R (fst (items ! j)) (rs ! j) \<and> (\<not> finished (rs ! j) \<longrightarrow> kv_committed_len (rs ! j) = kv_committed_len (fst (items ! j)) \<and>
       req_pool_idx (rs ! j) = req_pool_idx (fst (items ! j))))"
  using assms(2-)
proof (induction items arbitrary: i live_list others m c)
  case Nil
  then show ?case using keeps_refl by auto
next
  case (Cons it items)
  obtain r x where it: "it = (r, x)" by (cases it)
  obtain pg lives where lv: "live_list = (r, pg) # lives" "map fst items = map fst lives" using Cons.prems(3) it by (cases live_list) auto
  have h: "holding k N m c ((r, pg) # lives @ others)" using Cons.prems(1) lv(1) by simp
  have Q: "Q i r x" using Cons.prems(4) [of 0] it by simp
  obtain r' m1 c1 where f: "f i r x m (RadixCache c) = Inr (r', m1, RadixCache c1)" "processed k N m c m1 c1 r r' (lives @ others)" "R r r'"
    using step [OF h Cons.prems(2) Q] by blast
  have ps1: "rc_page_size c1 = ps" using f(2) Cons.prems(2) by (simp add: processed_def keeps_def same_config_def)
  obtain extra where ex: "holding k N m1 c1 (lives @ extra @ others)" "if finished r' then extra = [] else map fst extra = [r']"
  proof (cases "finished r'")
    case True
    then show thesis using f(2) that [of "[]"] by (simp add: processed_def)
  next
    case False
    then obtain p where "holding k N m1 c1 ((r', p) # lives @ others)" using f(2) by (auto simp: processed_def)
    moreover have "mset ((r', p) # lives @ others) = mset (lives @ [(r', p)] @ others)" by simp
    ultimately have "holding k N m1 c1 (lives @ [(r', p)] @ others)" using holding_perm by blast
    then show thesis using False that [of "[(r', p)]"] by simp
  qed
  have Q': "Q (Suc i + j) (fst (items ! j)) (snd (items ! j))" if "j < length items" for j
    using Cons.prems(4) [of "Suc j"] that by simp
  from Cons.IH [OF ex(1) ps1 lv(2) Q'] obtain rs m' c' pgs where IH:
    "process_reqs f (Suc i) items m1 (RadixCache c1) = Inr (rs, m', RadixCache c')" "length rs = length items"
    "length pgs = length (filter (\<lambda>r. \<not> finished r) rs)" "holding k N m' c' (zip (filter (\<lambda>r. \<not> finished r) rs) pgs @ extra @ others)"
    "keeps c1 c'" "status (kv_pool m') = status (kv_pool m1)" "max_context_len (row_pool m') = max_context_len (row_pool m1)"
    "\<forall>j<length rs. R (fst (items ! j)) (rs ! j) \<and> (\<not> finished (rs ! j) \<longrightarrow> kv_committed_len (rs ! j) = kv_committed_len (fst (items ! j)) \<and>
       req_pool_idx (rs ! j) = req_pool_idx (fst (items ! j)))"
    by blast
  have ev: "process_reqs f i (it # items) m (RadixCache c) = Inr (r' # rs, m', RadixCache c')" using f(1) IH(1) by (simp add: it)
  obtain pgs' where pgs': "length pgs' = length (filter (\<lambda>r. \<not> finished r) (r' # rs))"
    "holding k N m' c' (zip (filter (\<lambda>r. \<not> finished r) (r' # rs)) pgs' @ others)"
  proof (cases "finished r'")
    case True
    then show thesis using that [of pgs] IH(3,4) ex(2) by simp
  next
    case False
    then obtain p where p: "extra = [(r', p)]" using ex(2) by (cases extra) auto
    have "mset (zip (filter (\<lambda>r. \<not> finished r) rs) pgs @ extra @ others) = mset (zip (filter (\<lambda>r. \<not> finished r) (r' # rs)) (p # pgs) @ others)"
      using False by (simp add: p)
    then show thesis using False that [of "p # pgs"] IH(3,4) holding_perm by fastforce
  qed
  have "keeps c c'" using f(2) IH(5) keeps_trans by (auto simp: processed_def)
  moreover have "\<forall>j<length (r' # rs). R (fst ((it # items) ! j)) ((r' # rs) ! j) \<and> (\<not> finished ((r' # rs) ! j) \<longrightarrow>
       kv_committed_len ((r' # rs) ! j) = kv_committed_len (fst ((it # items) ! j)) \<and> req_pool_idx ((r' # rs) ! j) = req_pool_idx (fst ((it # items) ! j)))"
    using IH(8) f(2,3) by (auto simp: nth_Cons processed_def it split: nat.splits)
  ultimately show ?case using ev pgs' IH(2,6,7) f(2) by (intro exI [of _ "r' # rs"] exI [of _ m'] exI [of _ c'] exI [of _ pgs']) (simp add: processed_def)
qed

lemma group_begin_ok:
  assumes s: "serving k N m c rs"
  shows "holding k N (m\<lparr>kv_pool := free_group_begin (kv_pool m)\<rparr>) c rs"
proof -
  have "kv_own k (rc_page_size c) N (kv_pool m) (tree_pages c + owned c rs)" "is_not_in_free_group (kv_pool m)"
    using s by (simp_all add: serving_def holding_def settled_def)
  from kv.begin_own [OF this] show ?thesis
    using s by (auto simp: serving_def holding_def live_def attached_def)
qed

lemma group_end_ok:
  assumes h: "holding k N m c rs" and st: "status (kv_pool m) = status (free_group_begin a0)" and a0: "settled a0"
  obtains a where "free_group_end (kv_free k) (kv_pool m) = Inr a" "serving k N (m\<lparr>kv_pool := a\<rparr>) c rs"
proof -
  have own: "kv_own k (rc_page_size c) N (kv_pool m) (tree_pages c + owned c rs)" "\<not> is_not_in_free_group (kv_pool m)"
    using h st by (simp_all add: holding_def status_def free_group_begin_def)
  from kv.end_own [OF this] obtain a where a: "free_group_end (kv_free k) (kv_pool m) = Inr a"
      "kv_own k (rc_page_size c) N a (tree_pages c + owned c rs)" by blast
  have "settled ((kv_pool m)\<lparr>is_not_in_free_group := True\<rparr>)"
    using st a0 by (auto simp: status_def settled_def free_group_begin_def split: if_splits)
  then have "settled a" using a(1) settled_free by (auto simp: free_group_end_def Let_def split: if_splits)
  then have "serving k N (m\<lparr>kv_pool := a\<rparr>) c rs"
    using h a(2) by (auto simp: serving_def holding_def live_def attached_def)
  then show thesis using that a(1) by blast
qed

section \<open>The running batch\<close>

text \<open>
  A batch whose requests wait for their next token: the fields of the batch agree with those of the requests that have not
  finished, and the last token of each is not yet in memory.
\<close>

definition agrees :: "schedule_batch \<Rightarrow> nat \<Rightarrow> bool" where
  "agrees b i \<longleftrightarrow> seq_lens b ! i = kv_committed_len (reqs b ! i) \<and> req_pool_idx (reqs b ! i) = Some (req_pool_indices b ! i) \<and>
     kv_committed_len (reqs b ! i) + 1 = length (origin_input_ids (reqs b ! i)) + length (output_ids (reqs b ! i))"

definition batch_shape :: "schedule_batch \<Rightarrow> bool" where
  "batch_shape b \<longleftrightarrow> length (seq_lens b) = length (reqs b) \<and> length (req_pool_indices b) = length (reqs b) \<and> encoder_lens b = None"

definition batch_ready :: "schedule_batch \<Rightarrow> bool" where
  "batch_ready b \<longleftrightarrow> batch_shape b \<and> (\<forall>i<length (reqs b). \<not> finished (reqs b ! i) \<longrightarrow> agrees b i)"

lemma mmap_pick: "\<forall>i \<in> set is. i < length xs \<Longrightarrow> mmap (\<lambda>i. if i < length xs then Inr (xs ! i) else Inl IndexError) is = Inr (map ((!) xs) is)"
  by (rule mmap_total) simp

lemma filter_batch_ok:
  assumes b: "batch_shape b" and keep: "distinct keep" "\<forall>i \<in> set keep. i < length (reqs b) \<and> agrees b i"
  obtains b' idx where "filter_batch keep b = Inr b'" "reqs b' = map ((!) (reqs b)) idx" "mset idx = mset keep" "reqs b' \<noteq> [] \<Longrightarrow> batch_ready b'"
    "idx = (if length keep = length (reqs b) then [0..<length (reqs b)] else keep)"
proof (cases "keep = []")
  case True
  then show thesis using that [of "b\<lparr>reqs := []\<rparr>" "[]"] by (simp add: filter_batch_def)
next
  case False
  show thesis
  proof (cases "length keep = length (reqs b)")
    case True
    have "set keep = {..<length (reqs b)}"
      using keep True by (intro card_subset_eq) (auto simp: distinct_card)
    then have "mset keep = mset [0..<length (reqs b)]" "batch_ready b"
      using mset_set_set [OF keep(1)] b keep(2) by (auto simp: atLeast0LessThan batch_ready_def)
    then show thesis using that [of b "[0..<length (reqs b)]"] False True by (simp add: filter_batch_def map_nth)
  next
    case less: False
    let ?b = "b\<lparr>reqs := map ((!) (reqs b)) keep, encoder_lens := None, req_pool_indices := map ((!) (req_pool_indices b)) keep,
      seq_lens := map ((!) (seq_lens b)) keep\<rparr>"
    have "filter_batch keep b = Inr ?b"
      using False less b keep(2) mmap_pick [of keep "reqs b"] mmap_pick [of keep "req_pool_indices b"] mmap_pick [of keep "seq_lens b"]
      by (simp add: filter_batch_def Let_def batch_shape_def)
    moreover have "batch_ready ?b" using b keep(2) by (auto simp: batch_ready_def batch_shape_def agrees_def)
    ultimately show thesis using that [of ?b keep] less by simp
  qed
qed

lemma filter_unfinished_ok:
  assumes b: "batch_ready b"
  obtains b' where "filter_batch (unfinished_indices (reqs b)) b = Inr b'" "reqs b' = filter (\<lambda>r. \<not> finished r) (reqs b)" "reqs b' \<noteq> [] \<Longrightarrow> batch_ready b'"
proof -
  let ?keep = "unfinished_indices (reqs b)"
  have picked: "map ((!) (reqs b)) ?keep = filter (\<lambda>r. \<not> finished r) (reqs b)"
    using filter_map [of "\<lambda>r. \<not> finished r" "(!) (reqs b)" "[0..<length (reqs b)]"] by (simp add: unfinished_indices_def map_nth comp_def)
  have keep: "distinct ?keep" "\<forall>i \<in> set ?keep. i < length (reqs b) \<and> agrees b i" "batch_shape b"
    using b by (simp_all add: unfinished_indices_def batch_ready_def)
  obtain b' idx where b': "filter_batch ?keep b = Inr b'" "reqs b' = map ((!) (reqs b)) idx" "reqs b' \<noteq> [] \<Longrightarrow> batch_ready b'"
      "idx = (if length ?keep = length (reqs b) then [0..<length (reqs b)] else ?keep)"
    using filter_batch_ok [OF keep(3,1,2)] by metis
  have "?keep = [0..<length (reqs b)]" if "length ?keep = length (reqs b)"
    using that unfolding unfinished_indices_def by (metis diff_zero filter_id_conv length_filter_less length_upt less_irrefl)
  then have "idx = ?keep" using b'(4) by auto
  then show thesis using that b' picked by simp
qed

section \<open>Memory for one more token\<close>

lemma serving_shrinks:
  assumes s: "serving k N m c rs" and st: "kv_state k N (lock_nodes (map fst rs)) (owned c rs) m' c'"
    and sh: "shrinks (lock_nodes (map fst rs)) c c'" and rows: "row_pool m' = row_pool m"
  shows "serving k N m' c' rs"
proof -
  note ss = s [unfolded serving_state]
  have sc: "rc_page_size c' = rc_page_size c" using sh by (simp add: shrinks_def same_config_def)
  have inv: "cache_inv c (lock_nodes (map fst rs))" "cache_inv c' (lock_nodes (map fst rs))" using ss st by (simp_all add: kv_state_def)
  have "live c' m' r p" if r: "(r, p) \<in> set rs" for r p
  proof (rule live_shrinks [OF _ inv sh])
    show "live c m r p" using ss r by auto
    show "the (last_node r) \<in># lock_nodes (map fst rs)" using r by (force simp: lock_nodes_def)
  qed (simp_all add: rows)
  then show ?thesis using ss st rows by (auto simp: serving_state owned_config [OF sc])
qed

lemma check_decode_mem_ok:
  assumes s: "serving k N m c live_list" and sel: "sel = None \<and> qs = rs \<or> (\<exists>is. sel = Some is \<and> (\<forall>i \<in> set is. i < length rs) \<and> qs = map ((!) rs) is)"
  obtains enough m' c' where "check_decode_mem k SpecNone rs sel m (RadixCache c) = Inr (enough, m', RadixCache c')"
    "serving k N m' c' live_list" "rc_page_size c' = rc_page_size c" "row_pool m' = row_pool m"
    "enough \<longrightarrow> int (decode_need (rc_page_size c) (map kv_committed_len qs)) \<le> room k m' c'" "qs = [] \<longrightarrow> enough"
proof -
  have st: "kv_state k N (lock_nodes (map fst live_list)) (owned c live_list) m c" using s by (simp add: serving_state)
  have ps: "0 < rc_page_size c" "page_size (kv_pool m) = rc_page_size c" using st kv_own_owns by (auto simp: kv_state_def cache_inv_def)
  define need where "need = decode_need (rc_page_size c) (map kv_committed_len qs)"
  have "new_tokens_required_next_decode SpecNone (page_size (kv_pool m)) rs sel = Inr need"
    using sel ps by (auto simp: new_tokens_required_next_decode_def need_def decode_need_def filter_map comp_def mmap_pick)
  moreover obtain a c' where ev: "evict_from_tree_cache k m (RadixCache c) need = Inr (m\<lparr>kv_pool := a\<rparr>, RadixCache c')"
      "kv_state k N (lock_nodes (map fst live_list)) (owned c live_list) (m\<lparr>kv_pool := a\<rparr>) c'" "shrinks (lock_nodes (map fst live_list)) c c'"
    using evict_from_ok [OF st, of need] by blast
  ultimately have ev': "check_decode_mem k SpecNone rs sel m (RadixCache c) = Inr (kv_available_size k a \<ge> need, m\<lparr>kv_pool := a\<rparr>, RadixCache c')"
    by (simp add: check_decode_mem_def)
  have sv: "serving k N (m\<lparr>kv_pool := a\<rparr>) c' live_list" by (rule serving_shrinks [OF s ev(2,3)]) simp
  have pos: "0 \<le> evictable_size c'" using ev(2) evictable_nonneg by (auto simp: kv_state_def)
  show thesis
  proof (rule that [OF ev' sv])
    show "rc_page_size c' = rc_page_size c" using ev(3) by (simp add: shrinks_def same_config_def)
    show "kv_available_size k a \<ge> need \<longrightarrow> int (decode_need (rc_page_size c) (map kv_committed_len qs)) \<le> room k (m\<lparr>kv_pool := a\<rparr>) c'"
      using pos by (simp add: room_def need_def)
    show "qs = [] \<longrightarrow> kv_available_size k a \<ge> need" by (simp add: need_def decode_need_def)
  qed simp
qed

text \<open>The pages of a live request: those of its locked prefix are the cache's, the others its own.\<close>

lemma live_pages:
  assumes ps: "0 < rc_page_size c" and l: "live c m r pgs"
  shows "set pgs \<subseteq> set_mset (tree_pages c + own_pages c r pgs)" "cache_protected_len r div rc_page_size c \<le> length pgs"
    "kv_committed_len r mod rc_page_size c \<noteq> 0 \<Longrightarrow> pgs \<noteq> [] \<and> last pgs \<in># own_pages c r pgs"
proof -
  let ?ps = "rc_page_size c" and ?p = "cache_protected_len r"
  have att: "attached c m r (written r) pgs" using l by (simp add: live_def)
  obtain i where "length (written r) = kv_committed_len r" using live_facts [OF l] by metis
  then have len: "length pgs = cdiv (kv_committed_len r) ?ps"
    using att by (auto simp: attached_def layout_def min_absorb2)
  have p: "?ps dvd ?p" "?p \<le> kv_committed_len r"
    using att req_key_len(2) [OF ps, of r "written r"] \<open>length (written r) = _\<close> by (auto simp: attached_def)
  have cd: "cdiv ?p ?ps = ?p div ?ps" using cdiv_mult [OF ps, of "?p div ?ps"] p(1) by simp
  show q: "?p div ?ps \<le> length pgs" using cdiv_mono [OF p(2), of ?ps] by (simp add: len cd)
  have anc: "anchored c r (written r) (take (?p div ?ps) pgs)"
  proof -
    have "Suc j * ?ps \<le> ?p \<Longrightarrow> take (?p div ?ps) pgs ! j = pgs ! j" for j
      using ps by (simp add: less_eq_div_iff_mult_less_eq Suc_le_eq [symmetric])
    then show ?thesis using att unfolding attached_parts anchored_def by simp
  qed
  have "set (take (?p div ?ps) pgs) \<subseteq> set_mset (tree_pages c)"
    by (rule anchored_pages [OF ps anc]) (use p(1) q in \<open>simp add: min_def\<close>)
  moreover have "set pgs = set (take (?p div ?ps) pgs) \<union> set (drop (?p div ?ps) pgs)" by (metis append_take_drop_id set_append)
  ultimately show "set pgs \<subseteq> set_mset (tree_pages c + own_pages c r pgs)" by (auto simp: own_pages_def)
  assume part: "kv_committed_len r mod ?ps \<noteq> 0"
  then have "?p < kv_committed_len r" using p by (metis dvd_imp_mod_0 le_neq_implies_less)
  then have "?p div ?ps < length pgs" unfolding len by (rule cdiv_gt [OF ps])
  then have "drop (?p div ?ps) pgs \<noteq> []" by simp
  then show "pgs \<noteq> [] \<and> last pgs \<in># own_pages c r pgs"
    by (metis drop_Nil last_drop last_in_set length_drop length_greater_0_conv own_pages_def set_mset_mset zero_less_diff)
qed

definition one_more :: "request \<Rightarrow> request" where
  "one_more r = r\<lparr>kv_committed_len := kv_committed_len r + 1, kv_allocated_len := kv_allocated_len r + 1\<rparr>"

text \<open>Partly filled pages are their requests' own.\<close>

lemma partial_owned:
  assumes ps: "0 < rc_page_size c" and l: "\<forall>(r, pgs) \<in> set lv. live c m r pgs"
    and pfs: "map length pfs = map (\<lambda>(r, pgs). kv_committed_len r) lv"
  shows "mset (partial_pages (rc_page_size c) pfs (map snd lv)) \<subseteq># owned c lv"
  using l pfs
proof (induction lv arbitrary: pfs)
  case Nil
  then show ?case by (simp add: partial_pages_def)
next
  case (Cons x lv)
  obtain r pg where x: "x = (r, pg)" by (cases x)
  obtain pf pfs' where pf: "pfs = pf # pfs'" "length pf = kv_committed_len r" "map length pfs' = map (\<lambda>(r, pgs). kv_committed_len r) lv"
    using Cons.prems(2) x by (cases pfs) auto
  have IH: "mset (partial_pages (rc_page_size c) pfs' (map snd lv)) \<subseteq># owned c lv" using Cons.IH [OF _ pf(3)] Cons.prems(1) by simp
  have l: "live c m r pg" using Cons.prems(1) x by simp
  show ?case
  proof (cases "kv_committed_len r mod rc_page_size c = 0")
    case True
    then have "partial_pages (rc_page_size c) pfs (map snd (x # lv)) = partial_pages (rc_page_size c) pfs' (map snd lv)"
      by (simp add: partial_pages_def pf x)
    then show ?thesis using subset_mset.add_increasing [OF _ IH] by (simp add: x)
  next
    case False
    then have "partial_pages (rc_page_size c) pfs (map snd (x # lv)) = last pg # partial_pages (rc_page_size c) pfs' (map snd lv)"
      by (simp add: partial_pages_def pf x)
    moreover have "{#last pg#} \<subseteq># own_pages c r pg" using live_pages(3) [OF ps l False] by simp
    from subset_mset.add_mono [OF this IH]
    have "add_mset (last pg) (mset (partial_pages (rc_page_size c) pfs' (map snd lv))) \<subseteq># own_pages c r pg + owned c lv" by simp
    ultimately show ?thesis by (simp add: x)
  qed
qed

lemma decode_batch_of:
  assumes s: "serving k N m c (zip (reqs b) pgs @ others)" and len: "length pgs = length (reqs b)"
    and b: "batch_ready b" "\<forall>r \<in> set (reqs b). \<not> finished r"
  shows "decode_batch (rc_page_size c) (owned c (zip (reqs b) pgs @ others)) (row_pool m) b pgs"
    "\<forall>pg \<in> set pgs. set pg \<subseteq> set_mset (tree_pages c + owned c (zip (reqs b) pgs @ others))"
    "map length (row_slots (row_pool m) b) = seq_lens b"
proof -
  let ?lv = "zip (reqs b) pgs" and ?ps = "rc_page_size c" and ?n = "length (reqs b)"
  note ss = s [unfolded serving_state]
  have ps: "0 < ?ps" using ss by (auto simp: kv_state_def cache_inv_def)
  have live: "live c m (reqs b ! i) (pgs ! i)" if "i < ?n" for i using ss that len by (auto simp: set_zip)
  have bb: "length (seq_lens b) = ?n" "length (req_pool_indices b) = ?n" "encoder_lens b = None"
    "\<And>i. i < ?n \<Longrightarrow> seq_lens b ! i = kv_committed_len (reqs b ! i) \<and> req_pool_idx (reqs b ! i) = Some (req_pool_indices b ! i) \<and>
       kv_committed_len (reqs b ! i) + 1 = length (origin_input_ids (reqs b ! i)) + length (output_ids (reqs b ! i))"
    using b by (auto simp: batch_ready_def batch_shape_def agrees_def)
  have fst_lv: "map fst ?lv = reqs b" using len by simp
  have idx: "map req_pool_idx (reqs b) = map Some (req_pool_indices b)" by (rule nth_equalityI) (use bb in simp_all)
  have rows: "rows_own (row_pool m) (mset (req_pool_indices b) + held_rows (map fst others))"
    using ss held_rows_some [OF idx] by (simp add: fst_lv)
  have dist: "distinct (req_pool_indices b)" "\<forall>i \<in> set (req_pool_indices b). i < length (req_to_token (row_pool m))"
    by (rule rows_distinct [OF rows], simp, use ss in simp)+
  have rowlen: "length (req_to_token (row_pool m) ! (req_pool_indices b ! i)) = max_context_len (row_pool m)" if "i < ?n" for i
    using ss dist(2) that bb(2) by (auto simp: table_ok_def)
  have bound: "0 < seq_lens b ! i" "seq_lens b ! i < max_context_len (row_pool m)" if i: "i < ?n" for i
    using live [OF i] bb(4) [OF i] by (simp_all add: live_def)
  have slot: "row_slots (row_pool m) b ! i = take (seq_lens b ! i) (req_to_token (row_pool m) ! (req_pool_indices b ! i))" if "i < ?n" for i
    using that bb by (simp add: row_slots_def)
  have slots_len: "length (row_slots (row_pool m) b) = ?n" using bb by (simp add: row_slots_def)
  show lens: "map length (row_slots (row_pool m) b) = seq_lens b"
    by (rule nth_equalityI) (use slot slots_len bb(1) rowlen bound in \<open>simp_all add: less_imp_le\<close>)
  have lay: "layout ?ps (row_slots (row_pool m) b ! i) (pgs ! i)" if i: "i < ?n" for i
  proof -
    obtain n where "length (written (reqs b ! i)) = kv_committed_len (reqs b ! i)" using live_facts [OF live [OF i]] by metis
    then show ?thesis using live [OF i] bb(4) [OF i] by (auto simp: slot [OF i] live_def attached_def)
  qed
  have "map length (row_slots (row_pool m) b) = map (\<lambda>(r, pgs). kv_committed_len r) ?lv"
    unfolding lens by (rule nth_equalityI) (use bb len in simp_all)
  from partial_owned [OF ps _ this, of m] have "mset (partial_pages ?ps (row_slots (row_pool m) b) pgs) \<subseteq># owned c ?lv"
    using ss len by (simp add: split_def)
  then have part: "mset (partial_pages ?ps (row_slots (row_pool m) b) pgs) \<subseteq># owned c (?lv @ others)"
    using subset_mset.order_trans by fastforce
  show "decode_batch ?ps (owned c (?lv @ others)) (row_pool m) b pgs"
    using dist bb rowlen bound lay part len slots_len
    by (simp add: decode_batch_def batch_prefixes_def list_all2_conv_all_nth)
  show "\<forall>pg \<in> set pgs. set pg \<subseteq> set_mset (tree_pages c + owned c (?lv @ others))"
  proof
    fix pg assume "pg \<in> set pgs"
    then obtain i where i: "i < ?n" "pg = pgs ! i" using len by (auto simp: in_set_conv_nth)
    have "(reqs b ! i, pgs ! i) \<in> set ?lv" using i len by (auto simp: set_zip)
    then have "set_mset (own_pages c (reqs b ! i) (pgs ! i)) \<subseteq> set_mset (owned c ?lv)"
      unfolding owned_def by (induction ?lv) (force simp: set_mset_sum_list)+
    then show "set pg \<subseteq> set_mset (tree_pages c + owned c (?lv @ others))" using live_pages(1) [OF ps live [OF i(1)]] i by auto
  qed
qed

lemma table_lengths:
  "table_ok pool \<longleftrightarrow> length (map length (req_to_token pool)) = rtp_size pool + 1 \<and> (\<forall>n \<in> set (map length (req_to_token pool)). n = max_context_len pool)"
  by (auto simp: table_ok_def)

lemma owned_zip: "length pgs = length rs \<Longrightarrow> owned c (zip rs pgs) = (\<Sum>i<length rs. own_pages c (rs ! i) (pgs ! i))"
  by (simp add: owned_def sum_list_sum_nth atLeast0LessThan)

lemma held_rowI: "(r, p) \<in> set rs \<Longrightarrow> req_pool_idx r = Some j \<Longrightarrow> j \<in># held_rows (map fst rs)"
  by (force simp: held_rows_def image_iff)

lemma one_more_attached:
  assumes ps: "0 < rc_page_size c" and anc: "anchored c r (written r) pg" and len: "kv_committed_len r < length (origin_input_ids r @ output_ids r)"
    and p: "cache_protected_len r div rc_page_size c \<le> length pg"
    and row: "req_pool_idx r = Some i" "i < length (req_to_token (row_pool m))" "kv_committed_len r < length (req_to_token (row_pool m) ! i)"
      "take (kv_committed_len r + 1) (req_to_token (row_pool m) ! i) = slots @ [s]" "layout (rc_page_size c) (slots @ [s]) (pg @ new)"
  shows "attached c m (one_more r) (written (one_more r)) (pg @ new)"
proof -
  let ?toks = "written (one_more r)"
  have w: "written r = take (kv_committed_len r) ?toks" by (simp add: written_def one_more_def min_def del: take_append)
  have lw: "length ?toks = kv_committed_len r + 1" using len by (simp add: written_def one_more_def del: take_append)
  have "anchored c r ?toks pg" using anchored_extend [OF ps] anc w by metis
  moreover have "Suc j * rc_page_size c \<le> cache_protected_len r \<Longrightarrow> (pg @ new) ! j = pg ! j" for j
    using p less_eq_div_iff_mult_less_eq [OF ps, of "Suc j" "cache_protected_len r"] by (simp add: nth_append)
  ultimately have "anchored c r ?toks (pg @ new)" unfolding anchored_def by simp
  then have "anchored c (one_more r) ?toks (pg @ new)"
    using anchored_cong [of "one_more r" r c ?toks "pg @ new"] by (simp add: one_more_def)
  moreover have "in_row (rc_page_size c) m (one_more r) (length ?toks) (pg @ new)"
    using row unfolding in_row_def lw by (simp add: one_more_def)
  ultimately show ?thesis by (simp add: attached_parts)
qed

lemma prepare_for_decode_ok:
  assumes s: "serving k N m c (zip (reqs b) pgs @ others)" and len: "length pgs = length (reqs b)"
    and b: "batch_ready b" "\<forall>r \<in> set (reqs b). \<not> finished r" and N: "(N + 1) * rc_page_size c \<le> 2 ^ 31"
    and order: "\<forall>n. set (program_order dev n) = {..<n}"
    and room: "int (decode_need (rc_page_size c) (map kv_committed_len (reqs b))) \<le> room k m c"
  obtains out m' c' pgs' where "prepare_for_decode dev k SpecNone b m (RadixCache c) =
      Inr (out, b\<lparr>reqs := map one_more (reqs b), seq_lens := map (\<lambda>n. n + 1) (seq_lens b)\<rparr>, m', RadixCache c')"
    "length pgs' = length (reqs b)" "serving k N m' c' (zip (map one_more (reqs b)) pgs' @ others)" "length out = length (reqs b)"
    "rc_page_size c' = rc_page_size c" "max_context_len (row_pool m') = max_context_len (row_pool m)"
    "\<forall>i<length (reqs b). req_to_token (row_pool m') ! the (req_pool_idx (reqs b ! i)) ! kv_committed_len (reqs b ! i) = out ! i"
proof -
  let ?lv = "zip (reqs b) pgs" and ?ps = "rc_page_size c" and ?n = "length (reqs b)"
  let ?V = "owned c (?lv @ others)" and ?L = "lock_nodes (map fst (?lv @ others))"
  note ss = s [unfolded serving_state]
  note db = decode_batch_of [OF s len b]
  have ps: "0 < ?ps" using ss by (auto simp: kv_state_def cache_inv_def)
  have live: "live c m (reqs b ! i) (pgs ! i)" if "i < ?n" for i using ss that len by (auto simp: set_zip)
  have bb: "length (seq_lens b) = ?n" "length (req_pool_indices b) = ?n" "encoder_lens b = None"
    "\<And>i. i < ?n \<Longrightarrow> seq_lens b ! i = kv_committed_len (reqs b ! i) \<and> req_pool_idx (reqs b ! i) = Some (req_pool_indices b ! i) \<and>
       kv_committed_len (reqs b ! i) + 1 = length (origin_input_ids (reqs b ! i)) + length (output_ids (reqs b ! i))"
    using b by (auto simp: batch_ready_def batch_shape_def agrees_def)
  have seq: "seq_lens b = map kv_committed_len (reqs b)" by (rule nth_equalityI) (use bb in simp_all)
  have st: "kv_state k N ?L ?V m c" using ss by simp
  have room': "int (decode_need ?ps (seq_lens b)) \<le> room k m c" using room by (simp add: seq)
  from alloc_for_decode_ok [OF st db(1) N db(2) order room'] obtain out m' c' new where
    al: "alloc_for_decode dev k b 1 m (RadixCache c) = Inr (out, m', RadixCache c')"
    and out: "length out = length (seq_lens b)" "length new = length out"
    and lay: "\<forall>i<length out. layout ?ps (row_slots (row_pool m) b ! i @ [out ! i]) (pgs ! i @ new ! i)"
    and st': "kv_state k N ?L (mset (concat new) + ?V) m' c'" and sh: "shrinks ?L c c'"
    and row: "\<forall>i<length out. take (seq_lens b ! i + 1) (req_to_token (row_pool m') ! (req_pool_indices b ! i)) = row_slots (row_pool m) b ! i @ [out ! i]"
      "\<forall>r. r \<notin> set (req_pool_indices b) \<longrightarrow> req_to_token (row_pool m') ! r = req_to_token (row_pool m) ! r"
    and tab: "map length (req_to_token (row_pool m')) = map length (req_to_token (row_pool m))"
      "free_slots (row_pool m') = free_slots (row_pool m)" "rtp_size (row_pool m') = rtp_size (row_pool m)"
      "max_context_len (row_pool m') = max_context_len (row_pool m)"
    by blast
  let ?rs = "map one_more (reqs b)" and ?pgs = "map2 (@) pgs new"
  let ?b = "b\<lparr>reqs := ?rs, seq_lens := map (\<lambda>n. n + 1) (seq_lens b)\<rparr>"
  have prep: "prepare_for_decode dev k SpecNone b m (RadixCache c) = Inr (out, ?b, m', RadixCache c')"
    using al by (simp add: prepare_for_decode_def one_more_def)
  have sc: "rc_page_size c' = ?ps" using sh by (simp add: shrinks_def same_config_def)
  have inv: "cache_inv c ?L" "cache_inv c' ?L" using st st' by (simp_all add: kv_state_def)
  have tlen: "length (req_to_token (row_pool m')) = length (req_to_token (row_pool m))"
    "length (req_to_token (row_pool m') ! j) = length (req_to_token (row_pool m) ! j)" if "j < length (req_to_token (row_pool m))" for j
    using tab(1) that by (metis length_map, metis length_map nth_map)
  have tab_ok: "table_ok (row_pool m')"
    using ss tab by (simp add: table_lengths)
  have new: "live c' m' (?rs ! i) (?pgs ! i)" "own_pages c' (?rs ! i) (?pgs ! i) = own_pages c (reqs b ! i) (pgs ! i) + mset (new ! i)" if i: "i < ?n" for i
  proof -
    let ?r = "reqs b ! i" and ?j = "req_pool_indices b ! i"
    note l = live [OF i] and bi = bb(4) [OF i]
    have j: "?j < length (req_to_token (row_pool m))" "kv_committed_len ?r < length (req_to_token (row_pool m) ! ?j)"
      using db(1) i bi by (auto simp: decode_batch_def bb)
    have nd: "the (last_node ?r) \<in># ?L" using i len by (auto simp: lock_nodes_def in_set_conv_nth image_iff intro!: bexI [of _ ?r])
    obtain n where n: "last_node ?r = Some n" using live_facts [OF l] by metis
    have "anchored c ?r (written ?r) (pgs ! i)" using l by (simp add: live_def attached_parts)
    then have anc: "anchored c' ?r (written ?r) (pgs ! i)" by (rule anchored_shrinks [OF inv sh _ n]) (use nd n in simp)
    have q: "cache_protected_len ?r div ?ps \<le> length (pgs ! i)" by (rule live_pages(2) [OF ps l])
    have att: "attached c' m' (one_more ?r) (written (one_more ?r)) (pgs ! i @ new ! i)"
    proof (rule one_more_attached [where slots = "row_slots (row_pool m) b ! i" and s = "out ! i" and i = ?j])
      show "req_pool_idx ?r = Some ?j" using bi by simp
      show "take (kv_committed_len ?r + 1) (req_to_token (row_pool m') ! ?j) = row_slots (row_pool m) b ! i @ [out ! i]"
        using row(1) i out(1) bb(1) bi by metis
      show "layout (rc_page_size c') (row_slots (row_pool m) b ! i @ [out ! i]) (pgs ! i @ new ! i)" using lay i out(1) bb(1) by (simp add: sc)
    qed (use anc ps sc q bi j tlen in simp_all)
    then show "live c' m' (?rs ! i) (?pgs ! i)"
      using i l bi len out bb tab(4) by (simp add: live_def) (simp add: one_more_def)
    show "own_pages c' (?rs ! i) (?pgs ! i) = own_pages c ?r (pgs ! i) + mset (new ! i)"
      using i len out bb q by (simp add: own_pages_def sc one_more_def)
  qed
  have "mset (concat new) = (\<Sum>i<?n. mset (new ! i))" using out bb by (simp add: mset_concat sum_list_sum_nth atLeast0LessThan)
  moreover have "owned c' (zip ?rs ?pgs) = (\<Sum>i<?n. own_pages c (reqs b ! i) (pgs ! i) + mset (new ! i))"
    using owned_zip [of ?pgs ?rs c'] new(2) len out bb by simp
  ultimately have owned: "owned c' (zip ?rs ?pgs) = mset (concat new) + owned c ?lv"
    using owned_zip [OF len, of c] by (simp add: sum.distrib add.commute)
  have fsts: "map fst (zip ?rs ?pgs) = ?rs" "map fst ?lv = reqs b" using len out bb by simp_all
  have locks: "lock_nodes ?rs = lock_nodes (reqs b)" "held_rows ?rs = held_rows (reqs b)"
    by (simp_all add: lock_nodes_def held_rows_def one_more_def comp_def)
  have idx: "map req_pool_idx (reqs b) = map Some (req_pool_indices b)" by (rule nth_equalityI) (use bb in simp_all)
  have rows: "rows_own (row_pool m) (held_rows (map fst others) + mset (req_pool_indices b))"
    using ss held_rows_some [OF idx] by (simp add: fsts add.commute)
  have "live c' m' r p" if r: "(r, p) \<in> set others" for r p
  proof (rule live_shrinks [OF _ inv sh])
    show "live c m r p" using ss r by auto
    show "the (last_node r) \<in># ?L" using r by (force simp: lock_nodes_def)
    show "req_to_token (row_pool m') ! j = req_to_token (row_pool m) ! j" if "req_pool_idx r = Some j" for j
      using rows_disjoint [OF rows held_rowI [OF r that]] row(2) by simp
    show "length (req_to_token (row_pool m')) = length (req_to_token (row_pool m))" using arg_cong [OF tab(1), of length] by simp
  qed (rule tab(4))
  moreover have "live c' m' r p" if "(r, p) \<in> set (zip ?rs ?pgs)" for r p
    using that new(1) len out bb by (auto simp: set_zip)
  moreover have "rows_own (row_pool m') (held_rows (map fst (zip ?rs ?pgs @ others)))"
    using ss tab locks by (simp add: rows_own_def fsts)
  ultimately have "serving k N m' c' (zip ?rs ?pgs @ others)"
    using st' tab_ok owned locks by (auto simp: serving_state fsts owned_config [OF sc] ac_simps)
  moreover have "req_to_token (row_pool m') ! the (req_pool_idx (reqs b ! i)) ! kv_committed_len (reqs b ! i) = out ! i" if i: "i < ?n" for i
  proof -
    have "length (row_slots (row_pool m) b ! i) = kv_committed_len (reqs b ! i)"
      using arg_cong [OF db(3), of "\<lambda>xs. xs ! i"] i bb by (simp add: row_slots_def)
    moreover have "take (kv_committed_len (reqs b ! i) + 1) (req_to_token (row_pool m') ! (req_pool_indices b ! i)) = row_slots (row_pool m) b ! i @ [out ! i]"
      using row(1) i out(1) bb(1) bb(4) [OF i] by metis
    ultimately have "(req_to_token (row_pool m') ! (req_pool_indices b ! i)) ! kv_committed_len (reqs b ! i) = out ! i"
      by (metis less_add_one nth_append_length nth_take)
    then show ?thesis using bb(4) [OF i] by simp
  qed
  ultimately show thesis by (intro that [OF prep _ _ _ sc tab(4), of ?pgs]) (use len out bb in simp_all)
qed

section \<open>Retracting requests\<close>

lemma serving_evict:
  assumes s: "serving k N m c rs"
  obtains m' c' where "evict_from_tree_cache k m (RadixCache c) num = Inr (m', RadixCache c')" "serving k N m' c' rs"
    "rc_page_size c' = rc_page_size c" "row_pool m' = row_pool m"
proof -
  have st: "kv_state k N (lock_nodes (map fst rs)) (owned c rs) m c" using s by (simp add: serving_state)
  obtain a c' where ev: "evict_from_tree_cache k m (RadixCache c) num = Inr (m\<lparr>kv_pool := a\<rparr>, RadixCache c')"
      "kv_state k N (lock_nodes (map fst rs)) (owned c rs) (m\<lparr>kv_pool := a\<rparr>) c'" "shrinks (lock_nodes (map fst rs)) c c'"
    using evict_from_ok [OF st, of num] by blast
  have "serving k N (m\<lparr>kv_pool := a\<rparr>) c' rs" by (rule serving_shrinks [OF s ev(2,3)]) simp
  then show thesis using that ev(1,3) by (simp add: shrinks_def same_config_def)
qed

lemma retracted_waiting:
  assumes l: "live c m q pgs" and k: "kept q r" and fin: "finished_reason r = None" "length (output_ids r) \<le> max_new_tokens r"
  shows "waiting_ok (max_context_len (row_pool m)) (reset_for_retract (released r))"
  using assms by (auto simp: waiting_ok_def reset_for_retract_def released_def Let_def live_def kept_def)

lemma release_req_ok:
  assumes s: "serving k N m c ((q, pg) # others)" and q: "kept q (rs ! i)" "finished_reason (rs ! i) = None" "output_ids (rs ! i) = output_ids q"
    and i: "i < length rs" and sa: "sa_page_size sa = rc_page_size c" "\<not> strip_thinking_cache sa"
  obtains r' m' c' where "release_req k sa steps now rs i left m (RadixCache c) = Inr (rs[i := r'], m', RadixCache c')"
    "serving k N m' c' others" "waiting_ok (max_context_len (row_pool m)) r'" "rc_page_size c' = rc_page_size c"
    "max_context_len (row_pool m') = max_context_len (row_pool m)"
proof -
  have h: "holding k N m c ((q, pg) # others)" using s by (simp add: serving_def)
  have l: "live c m q pg" using holding_live [OF h] by simp
  obtain m1 c1 where rel: "release_kv_cache k sa (fst now) (snd now) m (RadixCache c) (rs ! i) False = Inr (released (rs ! i), m1, RadixCache c1)"
      "holding k N m1 c1 others" "status (kv_pool m1) = status (kv_pool m)" "keeps c c1" "max_context_len (row_pool m1) = max_context_len (row_pool m)"
    by (rule holding_release [OF h sa q(1)])
  have "serving k N m1 c1 others" using rel(2) s status_settled [OF rel(3)] by (simp add: serving_def)
  then obtain m2 c2 where ev: "evict_from_tree_cache k m1 (RadixCache c1) (left * steps) = Inr (m2, RadixCache c2)" "serving k N m2 c2 others"
      "rc_page_size c2 = rc_page_size c1" "row_pool m2 = row_pool m1" by (rule serving_evict)
  have "release_req k sa steps now rs i left m (RadixCache c) = Inr (rs[i := reset_for_retract (released (rs ! i))], m2, RadixCache c2)"
    using i rel(1) ev(1) by (simp add: release_req_def)
  moreover have "waiting_ok (max_context_len (row_pool m)) (reset_for_retract (released (rs ! i)))"
    by (rule retracted_waiting [OF l q(1,2)]) (use l q in \<open>simp add: live_def kept_def\<close>)
  moreover have "rc_page_size c1 = rc_page_size c" using rel(4) by (simp add: keeps_def same_config_def)
  ultimately show thesis using that ev rel(5) by simp
qed

abbreviation positions :: "request list \<Rightarrow> (nat \<Rightarrow> int list) \<Rightarrow> nat list \<Rightarrow> (request \<times> int list) list" where
  "positions rs pg is \<equiv> map (\<lambda>j. (rs ! j, pg j)) is"

lemma retract_loop_ok:
  assumes "serving k N m c (positions rs pg js @ others)" "distinct js" "\<forall>j \<in> set js. j < length rs" "js \<noteq> []"
    "sa_page_size sa = rc_page_size c" "\<not> strip_thinking_cache sa"
  shows "\<exists>out left rs' m' c'. retract_loop k sa SpecNone steps now first js got rs m (RadixCache c) = Inr (left, got @ out, rs', m', RadixCache c') \<and>
    js = out @ left \<and> left \<noteq> [] \<and> length rs' = length rs \<and> (\<forall>j. j \<notin> set out \<longrightarrow> rs' ! j = rs ! j) \<and>
    (\<forall>j \<in> set out. waiting_ok (max_context_len (row_pool m)) (rs' ! j)) \<and> serving k N m' c' (positions rs' pg left @ others) \<and>
    (1 < length left \<longrightarrow> int (decode_need (rc_page_size c) (map (\<lambda>j. kv_committed_len (rs' ! j)) left)) \<le> room k m' c') \<and>
    rc_page_size c' = rc_page_size c \<and> max_context_len (row_pool m') = max_context_len (row_pool m)"
  using assms
proof (induction js arbitrary: first got rs m c)
  case (Cons i js)
  have sel: "Some (rev (i # js)) = None \<and> map ((!) rs) (rev (i # js)) = rs \<or>
      (\<exists>ks. Some (rev (i # js)) = Some ks \<and> (\<forall>j \<in> set ks. j < length rs) \<and> map ((!) rs) (rev (i # js)) = map ((!) rs) ks)"
    using Cons.prems(3) by auto
  obtain enough m1 c1 where ck: "(if first then Inr (False, m, RadixCache c) else check_decode_mem k SpecNone rs (Some (rev (i # js))) m (RadixCache c)) =
        Inr (enough, m1, RadixCache c1)" "serving k N m1 c1 (positions rs pg (i # js) @ others)" "rc_page_size c1 = rc_page_size c"
      "row_pool m1 = row_pool m" "enough \<Longrightarrow> int (decode_need (rc_page_size c) (map kv_committed_len (map ((!) rs) (rev (i # js))))) \<le> room k m1 c1"
  proof (cases first)
    case True
    then show thesis using that [of False m c] Cons.prems(1) by simp
  next
    case False
    show thesis by (rule check_decode_mem_ok [OF Cons.prems(1) sel]) (use False that in auto)
  qed
  show ?case
  proof (cases "enough \<or> js = []")
    case True
    then have ev: "retract_loop k sa SpecNone steps now first (i # js) got rs m (RadixCache c) = Inr (i # js, got @ [], rs, m1, RadixCache c1)"
      using ck(1) by simp
    have "decode_need (rc_page_size c) (map kv_committed_len (map ((!) rs) (rev (i # js)))) =
        decode_need (rc_page_size c) (map (\<lambda>j. kv_committed_len (rs ! j)) (i # js))"
      by (simp add: decode_need_def filter_map rev_filter [symmetric] comp_def)
    then have "1 < length (i # js) \<longrightarrow> int (decode_need (rc_page_size c) (map (\<lambda>j. kv_committed_len (rs ! j)) (i # js))) \<le> room k m1 c1"
      using True ck(5) by auto
    then show ?thesis using ev ck(2-4)
      by (intro exI [of _ "[]"] exI [of _ "i # js"] exI [of _ rs] exI [of _ m1] exI [of _ c1]) simp
  next
    case False
    have i: "i < length rs" "i \<notin> set js" using Cons.prems by auto
    have sv: "serving k N m1 c1 ((rs ! i, pg i) # positions rs pg js @ others)" using ck(2) by simp
    have fin: "finished_reason (rs ! i) = None" using sv by (auto simp: serving_state live_def)
    have sa1: "sa_page_size sa = rc_page_size c1" using Cons.prems(5) ck(3) by simp
    obtain r' m2 c2 where rel: "release_req k sa steps now rs i (length js) m1 (RadixCache c1) = Inr (rs[i := r'], m2, RadixCache c2)"
        "serving k N m2 c2 (positions rs pg js @ others)" "waiting_ok (max_context_len (row_pool m1)) r'" "rc_page_size c2 = rc_page_size c1"
        "max_context_len (row_pool m2) = max_context_len (row_pool m1)"
      by (rule release_req_ok [OF sv kept_refl fin refl i(1) sa1 Cons.prems(6)])
    have "rs[i := r'] ! j = rs ! j" if "j \<in> set js" for j using i(2) that by (cases "i = j") simp_all
    then have pos: "positions (rs[i := r']) pg js = positions rs pg js" by simp
    have nxt: "serving k N m2 c2 (positions (rs[i := r']) pg js @ others)" "distinct js" "\<forall>j \<in> set js. j < length (rs[i := r'])" "js \<noteq> []"
        "sa_page_size sa = rc_page_size c2"
      using rel(2,4) Cons.prems(2,3,5) False ck(3) by (simp_all add: pos)
    from Cons.IH [OF nxt Cons.prems(6), of False "got @ [i]"]
    obtain out left rs' m' c' where IH: "retract_loop k sa SpecNone steps now False js (got @ [i]) (rs[i := r']) m2 (RadixCache c2) =
          Inr (left, (got @ [i]) @ out, rs', m', RadixCache c')" "js = out @ left" "left \<noteq> []" "length rs' = length rs"
        "\<forall>j. j \<notin> set out \<longrightarrow> rs' ! j = rs[i := r'] ! j"
        "\<forall>j \<in> set out. waiting_ok (max_context_len (row_pool m)) (rs' ! j)" "serving k N m' c' (positions rs' pg left @ others)"
        "1 < length left \<longrightarrow> int (decode_need (rc_page_size c) (map (\<lambda>j. kv_committed_len (rs' ! j)) left)) \<le> room k m' c'"
        "rc_page_size c' = rc_page_size c" "max_context_len (row_pool m') = max_context_len (row_pool m)"
      using rel(4,5) ck(3,4) by auto
    have ev: "retract_loop k sa SpecNone steps now first (i # js) got rs m (RadixCache c) = Inr (left, got @ i # out, rs', m', RadixCache c')"
      using ck(1) False rel(1) IH(1) by simp
    have "i \<notin> set out" using i(2) IH(2) by simp
    then have ri: "rs' ! i = r'" "\<forall>j. j \<notin> set (i # out) \<longrightarrow> rs' ! j = rs ! j" using IH(5) i(1) by auto
    then show ?thesis using ev IH rel(3) ck(4)
      by (intro exI [of _ "i # out"] exI [of _ left] exI [of _ rs'] exI [of _ m'] exI [of _ c']) auto
  qed
qed simp

lemma retract_order_perm: "mset (retract_order sa rs) = mset [0..<length rs]"
  by (simp add: retract_order_def)

lemma filter_serving:
  assumes b: "batch_shape b" and keep: "distinct keep" "\<forall>i \<in> set keep. i < length (reqs b) \<and> agrees b i"
    and s: "serving k N m c (positions (reqs b) pg js @ others)" "mset js = mset keep"
  obtains b' pgs where "filter_batch keep b = Inr b'" "length pgs = length (reqs b')" "serving k N m c (zip (reqs b') pgs @ others)"
    "reqs b' \<noteq> [] \<Longrightarrow> batch_ready b'" "mset (reqs b') = mset (map ((!) (reqs b)) js)"
proof -
  obtain b' idx where b': "filter_batch keep b = Inr b'" "reqs b' = map ((!) (reqs b)) idx" "mset idx = mset keep" "reqs b' \<noteq> [] \<Longrightarrow> batch_ready b'"
    using filter_batch_ok [OF b keep] by metis
  have z: "zip (reqs b') (map pg idx) = positions (reqs b) pg idx" by (simp add: b'(2) zip_map_map zip_same_conv_map)
  have "mset (positions (reqs b) pg idx @ others) = mset (positions (reqs b) pg js @ others)"
    using b'(3) s(2) by (simp only: mset_append mset_map)
  from serving_perm [OF this, of k N m c] have "serving k N m c (zip (reqs b') (map pg idx) @ others)" using s(1) by (simp only: z)
  moreover have "mset (reqs b') = mset (map ((!) (reqs b)) js)" using b'(3) s(2) by (simp only: b'(2) mset_map)
  ultimately show thesis using that [of b' "map pg idx"] b' by simp
qed

lemma decode_need_mset: "mset ns = mset ns' \<Longrightarrow> decode_need ps ns = decode_need ps ns'"
  unfolding decode_need_def by (metis mset_filter size_mset)

lemma retract_decode_ok:
  assumes s: "serving k N m c (positions (reqs b) pg [0..<length (reqs b)] @ others)" and b: "batch_ready b" "\<forall>r \<in> set (reqs b). \<not> finished r" "reqs b \<noteq> []"
    and sa: "sa_page_size sa = rc_page_size c" "\<not> strip_thinking_cache sa"
  shows "\<exists>b' out ratio gone m' c' pgs. retract_decode k sa SpecNone steps now b m (RadixCache c) = Inr ((b', out, ratio, gone), m', RadixCache c') \<and>
    length pgs = length (reqs b') \<and> serving k N m' c' (zip (reqs b') pgs @ others) \<and> (reqs b' \<noteq> [] \<longrightarrow> batch_ready b') \<and> set (reqs b') \<subseteq> set (reqs b) \<and>
    int (decode_need (rc_page_size c) (map kv_committed_len (reqs b'))) \<le> room k m' c' \<and> (\<forall>r \<in> set out. waiting_ok (max_context_len (row_pool m)) r) \<and>
    length (reqs b') + length out + length gone = length (reqs b) \<and> length gone \<le> 1 \<and> (reqs b' = [] \<longleftrightarrow> gone \<noteq> []) \<and>
    rc_page_size c' = rc_page_size c \<and> max_context_len (row_pool m') = max_context_len (row_pool m)"
proof -
  let ?n = "length (reqs b)" and ?order = "rev (retract_order sa (reqs b))" and ?ps = "rc_page_size c"
  have perm: "mset ?order = mset [0..<?n]" using retract_order_perm by simp
  have ord: "distinct ?order" "\<forall>j \<in> set ?order. j < ?n" "?order \<noteq> []" "length ?order = ?n"
    using mset_eq_imp_distinct_iff [OF perm] mset_eq_setD [OF perm] mset_eq_length [OF perm] b(3) by auto
  have "mset (positions (reqs b) pg ?order @ others) = mset (positions (reqs b) pg [0..<?n] @ others)" using perm by (simp only: mset_append mset_map)
  then have sv: "serving k N m c (positions (reqs b) pg ?order @ others)" using s serving_perm by blast
  from retract_loop_ok [OF sv ord(1-3) sa, of steps now True "[]"] obtain out left rs m1 c1 where
    loop: "retract_loop k sa SpecNone steps now True ?order [] (reqs b) m (RadixCache c) = Inr (left, out, rs, m1, RadixCache c1)"
    and lp: "?order = out @ left" "left \<noteq> []" "length rs = ?n" "\<forall>j. j \<notin> set out \<longrightarrow> rs ! j = reqs b ! j"
      "\<forall>j \<in> set out. waiting_ok (max_context_len (row_pool m)) (rs ! j)" "serving k N m1 c1 (positions rs pg left @ others)"
      "1 < length left \<longrightarrow> int (decode_need ?ps (map (\<lambda>j. kv_committed_len (rs ! j)) left)) \<le> room k m1 c1"
      "rc_page_size c1 = ?ps" "max_context_len (row_pool m1) = max_context_len (row_pool m)"
    by auto
  have dis: "distinct left" "\<forall>j \<in> set left. j \<notin> set out \<and> j < ?n" "\<forall>j \<in> set out. j < ?n" "length out + length left = ?n"
    using ord unfolding lp(1) by auto
  have agree: "agrees (b\<lparr>reqs := rs\<rparr>) j" if "j \<in> set left" for j
    using b(1,2) lp(4) dis(2) that by (auto simp: batch_ready_def agrees_def)
  have shape: "batch_shape (b\<lparr>reqs := rs'\<rparr>)" if "length rs' = ?n" for rs' using b(1) that by (simp add: batch_ready_def batch_shape_def)
  define check where "check = (if length left \<le> 1
      then rbind (check_decode_mem k SpecNone rs (Some (rev left)) m1 (RadixCache c1)) (\<lambda>(enough, m, tree). Inr (\<not> enough, m, tree))
      else Inr (False, m1, RadixCache c1))"
  have sel: "Some (rev left) = None \<and> map ((!) rs) (rev left) = rs \<or>
      (\<exists>ks. Some (rev left) = Some ks \<and> (\<forall>j \<in> set ks. j < length rs) \<and> map ((!) rs) (rev left) = map ((!) rs) ks)"
    using dis(2) lp(3) by auto
  have need: "decode_need ?ps (map kv_committed_len (map ((!) rs) (rev left))) = decode_need ?ps (map (\<lambda>j. kv_committed_len (rs ! j)) left)"
    by (rule decode_need_mset) (simp add: comp_def)
  obtain abort m2 c2 where ck: "check = Inr (abort, m2, RadixCache c2)" "serving k N m2 c2 (positions rs pg left @ others)"
      "\<not> abort \<Longrightarrow> int (decode_need ?ps (map (\<lambda>j. kv_committed_len (rs ! j)) left)) \<le> room k m2 c2" "abort \<Longrightarrow> length left = 1"
      "rc_page_size c2 = ?ps" "row_pool m2 = row_pool m1"
  proof (cases "length left \<le> 1")
    case True
    obtain enough m2 c2 where e: "check_decode_mem k SpecNone rs (Some (rev left)) m1 (RadixCache c1) = Inr (enough, m2, RadixCache c2)"
      "serving k N m2 c2 (positions rs pg left @ others)" "rc_page_size c2 = rc_page_size c1" "row_pool m2 = row_pool m1"
      "enough \<longrightarrow> int (decode_need (rc_page_size c1) (map kv_committed_len (map ((!) rs) (rev left)))) \<le> room k m2 c2"
      by (rule check_decode_mem_ok [OF lp(6) sel])
    have "length left = 1" using True lp(2) by (cases left) auto
    then show thesis using that [of "\<not> enough" m2 c2] e(1-5) need lp(8) True by (simp add: check_def del: rev_map)
  next
    case False
    then show thesis using that [of False m1 c1] lp(6-8) by (simp add: check_def)
  qed
  show ?thesis
  proof (cases abort)
    case False
    have kp: "distinct (rev left)" "\<forall>i \<in> set (rev left). i < length (reqs (b\<lparr>reqs := rs\<rparr>)) \<and> agrees (b\<lparr>reqs := rs\<rparr>) i" using dis agree lp(3) by auto
    have sv2: "serving k N m2 c2 (positions (reqs (b\<lparr>reqs := rs\<rparr>)) pg left @ others)" using ck(2) by simp
    obtain b' pgs where b': "filter_batch (rev left) (b\<lparr>reqs := rs\<rparr>) = Inr b'" "length pgs = length (reqs b')" "serving k N m2 c2 (zip (reqs b') pgs @ others)"
        "reqs b' \<noteq> [] \<Longrightarrow> batch_ready b'" "mset (reqs b') = mset (map ((!) rs) left)"
      using filter_serving [OF shape [OF lp(3)] kp sv2] by auto
    have ev: "retract_decode k sa SpecNone steps now b m (RadixCache c) = Inr ((b', map ((!) rs) out, estimate_new_token_ratio steps (reqs b'), []), m2, RadixCache c2)"
      using ck(1) False b'(1) by (simp add: retract_decode_def loop check_def)
    have "mset (map kv_committed_len (reqs b')) = mset (map (\<lambda>j. kv_committed_len (rs ! j)) left)"
      using arg_cong [OF b'(5), of "image_mset kv_committed_len"] by (simp add: comp_def multiset.map_comp)
    from decode_need_mset [OF this, of ?ps] have room: "int (decode_need ?ps (map kv_committed_len (reqs b'))) \<le> room k m2 c2"
      using ck(3) [OF False] by simp
    have "set (reqs b') \<subseteq> set (reqs b)" using mset_eq_setD [OF b'(5)] dis(2) lp(4) by auto
    moreover have "length (reqs b') = length left" using mset_eq_length [OF b'(5)] by simp
    moreover have "\<forall>r \<in> set (map ((!) rs) out). waiting_ok (max_context_len (row_pool m)) r" using lp(5) by auto
    ultimately show ?thesis using ev b'(2-4) room dis(4) lp(2,9) ck(5,6)
      by (intro exI [of _ b'] exI [of _ "map ((!) rs) out"] exI [of _ "estimate_new_token_ratio steps (reqs b')"] exI [of _ "[]"]
          exI [of _ m2] exI [of _ c2] exI [of _ pgs]) auto
  next
    case True
    then obtain i where left: "left = [i]" using ck(4) by (cases left) auto
    have i: "i < length rs" using dis(2) lp(3) left by simp
    let ?rs = "rs[i := (rs ! i)\<lparr>to_finish := Some FINISH_ABORT\<rparr>]"
    have sv2: "serving k N m2 c2 ((rs ! i, pg i) # others)" using ck(2) left by simp
    have fin: "finished_reason (?rs ! i) = None" "kept (rs ! i) (?rs ! i)" "output_ids (?rs ! i) = output_ids (rs ! i)"
      using sv2 i by (auto simp: serving_state live_def kept_def)
    have sa2: "sa_page_size sa = rc_page_size c2" using sa(1) ck(5) by simp
    obtain r' m3 c3 where rel: "release_req k sa steps now ?rs i 0 m2 (RadixCache c2) = Inr (?rs[i := r'], m3, RadixCache c3)"
        "serving k N m3 c3 others" "rc_page_size c3 = rc_page_size c2" "max_context_len (row_pool m3) = max_context_len (row_pool m2)"
      by (rule release_req_ok [OF sv2 fin(2,1,3) _ sa2 sa(2)]) (use i in simp_all)
    let ?b = "b\<lparr>reqs := []\<rparr>"
    have ev: "retract_decode k sa SpecNone steps now b m (RadixCache c) =
        Inr ((?b, map ((!) (?rs[i := r'])) out, estimate_new_token_ratio steps [], [r']), m3, RadixCache c3)"
      using ck(1) True rel(1) left i by (simp add: retract_decode_def loop check_def filter_batch_def)
    have "(?rs[i := r']) ! j = rs ! j" if "j \<in> set out" for j using dis(2) left that by (cases "i = j") auto
    then have "\<forall>r \<in> set (map ((!) (?rs[i := r'])) out). waiting_ok (max_context_len (row_pool m)) r" using lp(5) by auto
    moreover have "0 \<le> room k m3 c3" using rel(2) evictable_nonneg by (auto simp: serving_state kv_state_def room_def)
    ultimately show ?thesis using ev rel(2-4) dis(4) left lp(8,9) ck(5,6)
      by (intro exI [of _ ?b] exI [of _ "map ((!) (?rs[i := r'])) out"] exI [of _ "estimate_new_token_ratio steps []"] exI [of _ "[r']"]
          exI [of _ m3] exI [of _ c3] exI [of _ "[]"]) (auto simp: decode_need_def)
  qed
qed

section \<open>One decode step\<close>

lemma positions_zip: "length pgs = length rs \<Longrightarrow> positions rs (\<lambda>i. pgs ! i) [0..<length rs] = zip rs pgs"
  by (rule nth_equalityI) simp_all

lemma update_running_batch_ok:
  assumes s: "serving k N m c (zip (filter (\<lambda>r. \<not> finished r) (reqs b)) pgs @ others)" and len: "length pgs = length (filter (\<lambda>r. \<not> finished r) (reqs b))"
    and b: "batch_ready b" and sa: "sa_page_size sa = rc_page_size c" "\<not> strip_thinking_cache sa"
    and N: "(N + 1) * rc_page_size c \<le> 2 ^ 31" and order: "\<forall>n. set (program_order dev n) = {..<n}"
  shows "\<exists>b' out gone tracker' m' c' pgs'.
    update_running_batch dev k sa SpecNone steps now force tracker b m (RadixCache c) = Inr ((b', out, gone, tracker'), m', RadixCache c') \<and>
    length pgs' = length (reqs b') \<and> serving k N m' c' (zip (reqs b') pgs' @ others) \<and>
    (\<exists>rs. reqs b' = map one_more rs \<and> set rs \<subseteq> set (filter (\<lambda>r. \<not> finished r) (reqs b))) \<and>
    (reqs b' \<noteq> [] \<longrightarrow> batch_shape b' \<and> (\<forall>i<length (reqs b'). seq_lens b' ! i = kv_committed_len (reqs b' ! i) \<and> req_pool_idx (reqs b' ! i) = Some (req_pool_indices b' ! i))) \<and>
    (\<forall>r \<in> set (reqs b'). kv_committed_len r = length (origin_input_ids r) + length (output_ids r)) \<and>
    (\<forall>r \<in> set out. waiting_ok (max_context_len (row_pool m)) r) \<and>
    length (reqs b') + length out + length gone = length (filter (\<lambda>r. \<not> finished r) (reqs b)) \<and> length gone \<le> 1 \<and>
    rc_page_size c' = rc_page_size c \<and> max_context_len (row_pool m') = max_context_len (row_pool m)"
proof -
  let ?live = "filter (\<lambda>r. \<not> finished r) (reqs b)" and ?ps = "rc_page_size c"
  obtain b1 where b1: "filter_batch (unfinished_indices (reqs b)) b = Inr b1" "reqs b1 = ?live" "reqs b1 \<noteq> [] \<Longrightarrow> batch_ready b1"
    using filter_unfinished_ok [OF b] by metis
  show ?thesis
  proof (cases "?live = []")
    case True
    then have "update_running_batch dev k sa SpecNone steps now force tracker b m (RadixCache c) = Inr ((b1, [], [], tracker), m, RadixCache c)"
      using b1 by (simp add: update_running_batch_def)
    then show ?thesis using s True b1(2)
      by (intro exI [of _ b1] exI [of _ "[]"] exI [of _ "[]"] exI [of _ tracker] exI [of _ m] exI [of _ c] exI [of _ "[]"]) simp
  next
    case False
    then have rb1: "batch_ready b1" using b1 by simp
    have sv: "serving k N m c (zip (reqs b1) pgs @ others)" "length pgs = length (reqs b1)" using s len b1(2) by simp_all
    have sel: "None = None \<and> reqs b1 = reqs b1 \<or> (\<exists>js. None = Some js \<and> (\<forall>i \<in> set js. i < length (reqs b1)) \<and> reqs b1 = map ((!) (reqs b1)) js)" by simp
    obtain enough m1 c1 where ck: "check_decode_mem k SpecNone (reqs b1) None m (RadixCache c) = Inr (enough, m1, RadixCache c1)"
        "serving k N m1 c1 (zip (reqs b1) pgs @ others)" "rc_page_size c1 = ?ps" "row_pool m1 = row_pool m"
        "enough \<longrightarrow> int (decode_need ?ps (map kv_committed_len (reqs b1))) \<le> room k m1 c1"
      by (rule check_decode_mem_ok [OF sv(1) sel])
    define stage where "stage = (if \<not> enough \<or> force
        then rbind (retract_decode k sa SpecNone steps now b1 m1 (RadixCache c1)) (\<lambda>((b, retracted, ratio, aborted), m, tree).
             Inr ((b, retracted, aborted, tracker\<lparr>ratio_current := ratio\<rparr>), m, tree))
        else Inr ((b1, [], [], decay_step tracker), m1, RadixCache c1))"
    have unf: "\<forall>r \<in> set (reqs b1). \<not> finished r" by (simp add: b1(2))
    obtain b2 out gone tracker2 m2 c2 pgs2 where st: "stage = Inr ((b2, out, gone, tracker2), m2, RadixCache c2)" "length pgs2 = length (reqs b2)"
        "serving k N m2 c2 (zip (reqs b2) pgs2 @ others)" "reqs b2 \<noteq> [] \<longrightarrow> batch_ready b2" "set (reqs b2) \<subseteq> set (reqs b1)"
        "int (decode_need ?ps (map kv_committed_len (reqs b2))) \<le> room k m2 c2" "\<forall>r \<in> set out. waiting_ok (max_context_len (row_pool m)) r"
        "length (reqs b2) + length out + length gone = length (reqs b1)" "length gone \<le> 1" "rc_page_size c2 = ?ps"
        "max_context_len (row_pool m2) = max_context_len (row_pool m)"
    proof (cases "\<not> enough \<or> force")
      case True
      have sv1: "serving k N m1 c1 (positions (reqs b1) (\<lambda>i. pgs ! i) [0..<length (reqs b1)] @ others)" using ck(2) positions_zip [OF sv(2)] by simp
      have "sa_page_size sa = rc_page_size c1" "reqs b1 \<noteq> []" using sa(1) ck(3) False b1(2) by simp_all
      from retract_decode_ok [OF sv1 rb1 unf this(2,1) sa(2), of steps now] obtain b' out ratio gone m' c' pgs' where
        r: "retract_decode k sa SpecNone steps now b1 m1 (RadixCache c1) = Inr ((b', out, ratio, gone), m', RadixCache c')"
          "length pgs' = length (reqs b')" "serving k N m' c' (zip (reqs b') pgs' @ others)" "reqs b' \<noteq> [] \<longrightarrow> batch_ready b'" "set (reqs b') \<subseteq> set (reqs b1)"
          "int (decode_need (rc_page_size c1) (map kv_committed_len (reqs b'))) \<le> room k m' c'" "\<forall>r \<in> set out. waiting_ok (max_context_len (row_pool m1)) r"
          "length (reqs b') + length out + length gone = length (reqs b1)" "length gone \<le> 1" "rc_page_size c' = rc_page_size c1"
          "max_context_len (row_pool m') = max_context_len (row_pool m1)"
        by blast
      show thesis by (rule that [of b' out gone "tracker\<lparr>ratio_current := ratio\<rparr>" m' c' pgs']) (use r ck(3,4) True in \<open>simp_all add: stage_def\<close>)
    next
      case no: False
      show thesis by (rule that [of b1 "[]" "[]" "decay_step tracker" m1 c1 pgs]) (use no ck rb1 sv(2) in \<open>simp_all add: stage_def\<close>)
    qed
    have ev: "update_running_batch dev k sa SpecNone steps now force tracker b m (RadixCache c) =
        (if reqs b2 = [] then Inr ((b2, out, gone, tracker2), m2, RadixCache c2)
         else rbind (prepare_for_decode dev k SpecNone b2 m2 (RadixCache c2)) (\<lambda>(out_cache_loc, b, m, tree). Inr ((b, out, gone, tracker2), m, tree)))"
      using b1(1,2) False ck(1) st(1) by (simp add: update_running_batch_def stage_def)
    show ?thesis
    proof (cases "reqs b2 = []")
      case True
      then show ?thesis using ev st b1(2)
        by (intro exI [of _ b2] exI [of _ out] exI [of _ gone] exI [of _ tracker2] exI [of _ m2] exI [of _ c2] exI [of _ pgs2]) simp
    next
      case nonempty: False
      have rb2: "batch_ready b2" "\<forall>r \<in> set (reqs b2). \<not> finished r" using st(4,5) nonempty unf by auto
      have N2: "(N + 1) * rc_page_size c2 \<le> 2 ^ 31" using N st(10) by simp
      have room2: "int (decode_need (rc_page_size c2) (map kv_committed_len (reqs b2))) \<le> room k m2 c2" using st(6,10) by simp
      let ?b = "b2\<lparr>reqs := map one_more (reqs b2), seq_lens := map (\<lambda>n. n + 1) (seq_lens b2)\<rparr>"
      obtain locs m3 c3 pgs3 where pr: "prepare_for_decode dev k SpecNone b2 m2 (RadixCache c2) = Inr (locs, ?b, m3, RadixCache c3)"
          "length pgs3 = length (reqs b2)" "serving k N m3 c3 (zip (map one_more (reqs b2)) pgs3 @ others)"
          "rc_page_size c3 = rc_page_size c2" "max_context_len (row_pool m3) = max_context_len (row_pool m2)"
        by (rule prepare_for_decode_ok [OF st(3,2) rb2 N2 order room2])
      have ag: "agrees b2 i" if "i < length (reqs b2)" for i using rb2 that by (simp add: batch_ready_def)
      have "\<forall>r \<in> set (reqs ?b). kv_committed_len r = length (origin_input_ids r) + length (output_ids r)"
        using ag by (auto simp: one_more_def agrees_def in_set_conv_nth)
      moreover have "batch_shape ?b" using rb2(1) by (simp add: batch_ready_def batch_shape_def)
      moreover have "\<forall>i<length (reqs ?b). seq_lens ?b ! i = kv_committed_len (reqs ?b ! i) \<and> req_pool_idx (reqs ?b ! i) = Some (req_pool_indices ?b ! i)"
        using ag rb2(1) by (simp add: one_more_def agrees_def batch_ready_def batch_shape_def)
      moreover have "\<exists>rs. reqs ?b = map one_more rs \<and> set rs \<subseteq> set ?live" using st(5) b1(2) by auto
      ultimately show ?thesis using ev pr st(7-11) nonempty b1(2)
        by (intro exI [of _ ?b] exI [of _ out] exI [of _ gone] exI [of _ tracker2] exI [of _ m3] exI [of _ c3] exI [of _ pgs3]) simp
    qed
  qed
qed

end
