(* ===== verification/Request_Intake.thy ===== *)
theory Request_Intake
  imports Prefill_Adder "HOL-Library.Product_Lexorder"
begin

text \<open>
  From a received request to the waiting queue: the constructor of \<^verbatim>\<open>Req\<close> (\<^verbatim>\<open>managers/schedule_batch.py\<close>),
  \<^verbatim>\<open>validate_input_length\<close> (\<^verbatim>\<open>managers/utils.py\<close>) and, of \<^verbatim>\<open>managers/scheduler.py\<close>, \<^verbatim>\<open>handle_generate_request\<close> with
  \<^verbatim>\<open>init_req_max_new_tokens\<close> and \<^verbatim>\<open>_add_request_to_queue\<close>.

  Sessions, multimodal inputs, grammars and disaggregated serving are not modelled: the request has no session, no
  multimodal input and no grammar, and the scheduler is not disaggregated.
\<close>

section \<open>Definitions\<close>

subsection \<open>The request\<close>

text \<open>The fields of \<^verbatim>\<open>TokenizedGenerateReqInput\<close> and of its \<^verbatim>\<open>SamplingParams\<close> that the scheduler reads.\<close>

record tokenized_req =
  tr_rid :: string
  input_ids :: "int list"
  tr_input_embeds :: "nat option"
  positional_embed_overrides :: bool
  tr_max_new_tokens :: "nat option"
  tr_ignore_eos :: bool
  tr_stop_token_ids :: "int list"
  tr_stop_strs :: "string list"
  tr_stop_regex_strs :: "string list"
  tr_return_logprob :: bool
  tr_logprob_start_len :: int
  token_ids_logprob :: bool
  tr_priority :: "int option"
  tr_extra_key :: "string option"
  lora_id :: "string option"
  tr_routing_key :: "string option"
  tr_require_reasoning :: bool
  fake_bootstrap_host :: bool
  return_routed_experts :: bool
  routed_experts_start_len :: int

record intake_config =
  model_eos_token_ids :: "int list"
  model_vocab_size :: int
  model_tokenizer_stop :: "(int \<times> int list) option"
  max_req_len :: nat
  max_req_input_len :: nat
  max_total_num_tokens :: nat
  ic_page_size :: nat
  allow_auto_truncate :: bool
  max_queued_requests :: "nat option"
  enable_priority_scheduling :: bool
  low_priority_values_first :: bool
  abort_on_priority_when_disabled :: bool

text \<open>
  \<^verbatim>\<open>Req.__init__\<close>. \<^verbatim>\<open>sampling_params.max_new_tokens\<close> may be \<^verbatim>\<open>None\<close>; it is first read by \<^verbatim>\<open>init_req_max_new_tokens\<close>, which takes it
  for \<^verbatim>\<open>1 << 30\<close>, the value it has here.
\<close>

definition req_init :: "intake_config \<Rightarrow> tokenized_req \<Rightarrow> request" where
  "req_init cfg recv =
     \<lparr>req_pool_idx = None, origin_input_ids = input_ids recv, output_ids = [], fill_ids = [],
      req_extra_key = (case lora_id recv of
                         None \<Rightarrow> tr_extra_key recv
                       | Some l \<Rightarrow> Some ((case tr_extra_key recv of None \<Rightarrow> [] | Some x \<Rightarrow> x) @ l)),
      req_priority = tr_priority recv, prefix_indices = [], last_node = None, cache_protected_len = 0,
      kv_committed_len = 0, kv_allocated_len = 0, kv_committed_freed = False, kv_overallocated_freed = False,
      inflight_middle_chunks = 0, reasoning_tokens = 0, skip_radix_cache_insert = fake_bootstrap_host recv,
      extend_input_len = 0, max_new_tokens = (case tr_max_new_tokens recv of None \<Rightarrow> 2 ^ 30 | Some n \<Rightarrow> n),
      ignore_eos = tr_ignore_eos recv, return_logprob = tr_return_logprob recv, logprob_start_len = 0,
      extend_logprob_start_len = 0, embed_overrides = positional_embed_overrides recv, input_embeds = (tr_input_embeds recv \<noteq> None),
      finished_reason = None, finished_len = None, to_finish = None, is_retracted = False, retracted_stain = False,
      already_computed = 0, cached_tokens = 0, stop_token_ids = tr_stop_token_ids recv, eos_token_ids = model_eos_token_ids cfg,
      tokenizer_stop = model_tokenizer_stop cfg, vocab_size = model_vocab_size cfg, stop_strs = tr_stop_strs recv,
      stop_regex_strs = tr_stop_regex_strs recv, decoded_text = [], require_reasoning = tr_require_reasoning recv,
      is_reasoning_over = False, rid = tr_rid recv, routing_key = tr_routing_key recv, wait_queue_entry_time = 0\<rparr>"

text \<open>\<^verbatim>\<open>Req.is_prefill_only\<close>.\<close>

definition req_is_prefill_only :: "server_args \<Rightarrow> request \<Rightarrow> bool" where
  "req_is_prefill_only sa r \<longleftrightarrow> max_new_tokens r = 0 \<and> speculative_algorithm sa = None"

definition set_finish_with_abort :: "request \<Rightarrow> request" where
  "set_finish_with_abort r =
     r\<lparr>origin_input_ids := [0], return_logprob := False, logprob_start_len := - 1, to_finish := Some FINISH_ABORT\<rparr>"

definition init_req_max_new_tokens :: "intake_config \<Rightarrow> request \<Rightarrow> request" where
  "init_req_max_new_tokens cfg r =
     (let input_len = length (origin_input_ids r);
          paged_input_len = ceil_paged_tokens (ic_page_size cfg) (int input_len)
      in r\<lparr>max_new_tokens := nat (max 0 (min (int (max_new_tokens r)) (min (int (max_req_len cfg) - int input_len - 1)
              (int (max_total_num_tokens cfg) - paged_input_len - int (ic_page_size cfg) - 1))))\<rparr>)"

text \<open>The request, truncated where that is allowed, and whether there is an error message.\<close>

definition validate_input_length :: "request \<Rightarrow> nat \<Rightarrow> bool \<Rightarrow> request \<times> bool" where
  "validate_input_length r max_len auto_truncate =
     (if length (origin_input_ids r) \<ge> max_len
      then if auto_truncate then (r\<lparr>origin_input_ids := take max_len (origin_input_ids r)\<rparr>, False) else (r, True)
      else (r, False))"

subsection \<open>The waiting queue\<close>

definition sys_maxsize :: int where
  "sys_maxsize = 2 ^ 63 - 1"

definition set_or_validate_priority :: "intake_config \<Rightarrow> request \<Rightarrow> bool \<times> request" where
  "set_or_validate_priority cfg r =
     (if enable_priority_scheduling cfg \<and> req_priority r = None
      then (True, r\<lparr>req_priority := Some (if low_priority_values_first cfg then sys_maxsize else - sys_maxsize - 1)\<rparr>)
      else if \<not> enable_priority_scheduling cfg \<and> req_priority r \<noteq> None \<and> abort_on_priority_when_disabled cfg then (False, r)
      else (True, r))"

text \<open>\<^verbatim>\<open>max(enumerate(queue), key=...)\<close> is the first of the greatest.\<close>

fun max_index :: "('a \<Rightarrow> 'k::linorder) \<Rightarrow> 'a \<times> nat \<Rightarrow> nat \<Rightarrow> 'a list \<Rightarrow> nat" where
  "max_index key best i [] = snd best"
| "max_index key best i (x # xs) = max_index key (if key (fst best) < key x then (x, i) else best) (Suc i) xs"

text \<open>\<^verbatim>\<open>_abort_on_queued_limit\<close>: whether the incoming request is aborted, and the queue, from which another may have been dropped.\<close>

definition abort_on_queued_limit :: "intake_config \<Rightarrow> request \<Rightarrow> request list \<Rightarrow> (bool \<times> request list) result" where
  "abort_on_queued_limit cfg recv_req waiting_queue =
     (if (case max_queued_requests cfg of None \<Rightarrow> True | Some n \<Rightarrow> length waiting_queue + 1 \<le> n) then Inr (False, waiting_queue)
      else if \<not> enable_priority_scheduling cfg then Inr (True, waiting_queue)
      else
        case waiting_queue of
          [] \<Rightarrow> Inl ValueError
        | q # qs \<Rightarrow>
            rbind (rassert (\<forall>r \<in> set (recv_req # waiting_queue). req_priority r \<noteq> None) TypeError) (\<lambda>_.
            let direction = (if low_priority_values_first cfg then 1 else - 1);
                idx = max_index (\<lambda>r. (direction * the (req_priority r), wait_queue_entry_time r)) (q, 0) 1 qs;
                candidate = waiting_queue ! idx
            in if direction * the (req_priority recv_req) < direction * the (req_priority candidate)
               then Inr (rid candidate = rid recv_req, take idx waiting_queue @ drop (Suc idx) waiting_queue)
               else Inr (True, waiting_queue)))"

definition add_request_to_queue :: "intake_config \<Rightarrow> int \<Rightarrow> request \<Rightarrow> request list \<Rightarrow> request list result" where
  "add_request_to_queue cfg now r waiting_queue =
     (case set_or_validate_priority cfg r of (ok, r) \<Rightarrow>
        if \<not> ok then Inr waiting_queue
        else rbind (abort_on_queued_limit cfg r waiting_queue) (\<lambda>(aborted, waiting_queue).
             Inr (if aborted then waiting_queue else waiting_queue @ [r\<lparr>wait_queue_entry_time := now\<rparr>])))"

text \<open>The lines of \<^verbatim>\<open>handle_generate_request\<close> on \<^verbatim>\<open>logprob_start_len\<close>.\<close>

definition set_logprob_start_len :: "server_args \<Rightarrow> tokenized_req \<Rightarrow> request \<Rightarrow> request" where
  "set_logprob_start_len sa recv r =
     (let recv_start = (if \<not> tr_return_logprob recv \<and> tr_logprob_start_len recv \<noteq> - 1 then - 1 else tr_logprob_start_len recv)
      in r\<lparr>logprob_start_len :=
             (if recv_start = - 1
              then if tr_return_logprob recv \<and> \<not> token_ids_logprob recv then int (length (origin_input_ids r))
                   else if req_is_prefill_only sa r then int (length (origin_input_ids r))
                   else - 1
              else recv_start)\<rparr>)"

definition handle_generate_request ::
  "intake_config \<Rightarrow> server_args \<Rightarrow> int \<Rightarrow> tokenized_req \<Rightarrow> request list \<Rightarrow> request list result" where
  "handle_generate_request cfg sa now recv waiting_queue =
     (let recv = (case tr_input_embeds recv of None \<Rightarrow> recv | Some n \<Rightarrow> recv\<lparr>input_ids := replicate n 1\<rparr>);
          r = init_req_max_new_tokens cfg (req_init cfg recv);
          (r, err) = validate_input_length r (max_req_input_len cfg) (allow_auto_truncate cfg)
      in if err then add_request_to_queue cfg now (set_finish_with_abort r) waiting_queue
         else
           let r = set_logprob_start_len sa recv r
           in if logprob_start_len r > int (length (origin_input_ids r))
              then add_request_to_queue cfg now (set_finish_with_abort r) waiting_queue
              else if return_routed_experts recv \<and>
                (routed_experts_start_len recv < 0 \<or> routed_experts_start_len recv > int (length (origin_input_ids r)))
              then add_request_to_queue cfg now (set_finish_with_abort r) waiting_queue
              else add_request_to_queue cfg now r waiting_queue)"

section \<open>The queue holds requests that can be scheduled\<close>

text \<open>
  What \<^verbatim>\<open>tp_worker.py\<close> makes of the limits (\<^verbatim>\<open>max_req_len\<close> is less than the length of a row of the request pool and
  \<^verbatim>\<open>max_req_input_len\<close> less than that and positive), and what holds of every request of the queue.
\<close>

definition limits_ok :: "intake_config \<Rightarrow> nat \<Rightarrow> bool" where
  "limits_ok cfg ctx \<longleftrightarrow> 0 < max_req_input_len cfg \<and> max_req_input_len cfg \<le> max_req_len cfg \<and> max_req_len cfg \<le> ctx \<and>
     0 < ic_page_size cfg \<and> max_queued_requests cfg \<noteq> Some 0"

definition queued_ok :: "intake_config \<Rightarrow> nat \<Rightarrow> request \<Rightarrow> bool" where
  "queued_ok cfg ctx r \<longleftrightarrow> waiting_ok ctx r \<and> (enable_priority_scheduling cfg \<longrightarrow> req_priority r \<noteq> None)"

definition queue_ok :: "intake_config \<Rightarrow> nat \<Rightarrow> request list \<Rightarrow> bool" where
  "queue_ok cfg ctx q \<longleftrightarrow> (\<forall>r \<in> set q. queued_ok cfg ctx r)"

lemma max_index_bound: "snd best < n \<Longrightarrow> i + length xs \<le> n \<Longrightarrow> max_index key best i xs < n"
  by (induction key best i xs rule: max_index.induct) auto

lemma abort_on_limit_ok:
  assumes q: "queue_ok cfg ctx q" and r: "enable_priority_scheduling cfg \<longrightarrow> req_priority r \<noteq> None" and lim: "max_queued_requests cfg \<noteq> Some 0"
  obtains aborted q' where "abort_on_queued_limit cfg r q = Inr (aborted, q')" "set q' \<subseteq> set q" "length q' \<le> length q"
    "\<forall>n. max_queued_requests cfg = Some n \<longrightarrow> length q \<le> n \<longrightarrow> \<not> aborted \<longrightarrow> length q' < n"
proof (cases "case max_queued_requests cfg of None \<Rightarrow> True | Some n \<Rightarrow> length q + 1 \<le> n")
  case True
  show thesis by (rule that [of False q]) (use True in \<open>auto simp: abort_on_queued_limit_def split: option.splits\<close>)
next
  case full: False
  then obtain n where n: "max_queued_requests cfg = Some n" "0 < n" "n \<le> length q" using lim by (auto split: option.splits)
  show thesis
  proof (cases "enable_priority_scheduling cfg")
    case False
    show thesis by (rule that [of True q]) (use full False in \<open>simp_all add: abort_on_queued_limit_def\<close>)
  next
    case True
    obtain x qs where qs: "q = x # qs" using n by (cases q) auto
    define direction :: int where "direction = (if low_priority_values_first cfg then 1 else - 1)"
    define idx where "idx = max_index (\<lambda>r. (direction * the (req_priority r), wait_queue_entry_time r)) (x, 0) 1 qs"
    define q' where "q' = take idx q @ drop (Suc idx) q"
    have idx: "idx < length q" unfolding idx_def qs by (rule max_index_bound) simp_all
    then have q': "length q' < length q" "set q' \<subseteq> set q" unfolding q'_def by (auto dest: in_set_takeD in_set_dropD)
    have prios: "\<forall>r' \<in> set (r # q). req_priority r' \<noteq> None" using q r True by (auto simp: queue_ok_def queued_ok_def)
    have ev: "abort_on_queued_limit cfg r q =
        (if direction * the (req_priority r) < direction * the (req_priority (q ! idx)) then Inr (rid (q ! idx) = rid r, q') else Inr (True, q))"
      using n(1,3) True prios by (simp add: abort_on_queued_limit_def qs Let_def rassert_def direction_def idx_def q'_def)
    show thesis
      by (cases "direction * the (req_priority r) < direction * the (req_priority (q ! idx))")
        (use ev q' n(1) in \<open>auto intro: that [of "rid (q ! idx) = rid r" q'] that [of True q]\<close>)
  qed
qed

lemma add_to_queue_ok:
  assumes q: "queue_ok cfg ctx q" and r: "waiting_ok ctx r" and lim: "max_queued_requests cfg \<noteq> Some 0"
  obtains q' where "add_request_to_queue cfg now r q = Inr q'" "queue_ok cfg ctx q'"
    "\<forall>n. max_queued_requests cfg = Some n \<longrightarrow> length q \<le> n \<longrightarrow> length q' \<le> n"
    "set q' \<subseteq> set q \<union> {snd (set_or_validate_priority cfg r)\<lparr>wait_queue_entry_time := now\<rparr>}"
proof -
  obtain ok r1 where r1: "set_or_validate_priority cfg r = (ok, r1)" by fastforce
  then have w: "waiting_ok ctx r1" "ok \<Longrightarrow> enable_priority_scheduling cfg \<longrightarrow> req_priority r1 \<noteq> None"
    using r by (auto simp: set_or_validate_priority_def waiting_ok_def split: if_splits)
  show thesis
  proof (cases ok)
    case False
    then show thesis using that [of q] q r1 by (simp add: add_request_to_queue_def) blast
  next
    case True
    obtain aborted q1 where a: "abort_on_queued_limit cfg r1 q = Inr (aborted, q1)" "set q1 \<subseteq> set q" "length q1 \<le> length q"
      "\<forall>n. max_queued_requests cfg = Some n \<longrightarrow> length q \<le> n \<longrightarrow> \<not> aborted \<longrightarrow> length q1 < n"
      by (rule abort_on_limit_ok [OF q w(2) [OF True] lim])
    let ?q = "if aborted then q1 else q1 @ [r1\<lparr>wait_queue_entry_time := now\<rparr>]"
    show thesis
    proof (rule that [of ?q])
      show "add_request_to_queue cfg now r q = Inr ?q" using True a(1) r1 by (simp add: add_request_to_queue_def)
      show "queue_ok cfg ctx ?q" using q w True a(2) by (auto simp: queue_ok_def queued_ok_def waiting_ok_def)
      show "\<forall>n. max_queued_requests cfg = Some n \<longrightarrow> length q \<le> n \<longrightarrow> length ?q \<le> n" using a(3,4) by fastforce
      show "set ?q \<subseteq> set q \<union> {snd (set_or_validate_priority cfg r)\<lparr>wait_queue_entry_time := now\<rparr>}" using a(2) r1 by auto
    qed
  qed
qed

lemma init_max_new:
  "length (origin_input_ids r) \<le> max_req_len cfg \<Longrightarrow>
     length (origin_input_ids r) + max_new_tokens (init_req_max_new_tokens cfg r) \<le> max_req_len cfg"
  "origin_input_ids r \<noteq> [] \<Longrightarrow> 0 < max_req_len cfg \<Longrightarrow> 1 + max_new_tokens (init_req_max_new_tokens cfg r) \<le> max_req_len cfg"
  "max_req_len cfg \<le> length (origin_input_ids r) \<Longrightarrow> max_new_tokens (init_req_max_new_tokens cfg r) = 0"
proof -
  show "max_req_len cfg \<le> length (origin_input_ids r) \<Longrightarrow> max_new_tokens (init_req_max_new_tokens cfg r) = 0"
    by (simp add: init_req_max_new_tokens_def Let_def)
  show "length (origin_input_ids r) + max_new_tokens (init_req_max_new_tokens cfg r) \<le> max_req_len cfg"
    if "length (origin_input_ids r) \<le> max_req_len cfg" using that by (simp add: init_req_max_new_tokens_def Let_def)
  have "0 < length (origin_input_ids r)" if "origin_input_ids r \<noteq> []" using that by simp
  then show "1 + max_new_tokens (init_req_max_new_tokens cfg r) \<le> max_req_len cfg" if "origin_input_ids r \<noteq> []" "0 < max_req_len cfg"
    using that by (simp add: init_req_max_new_tokens_def Let_def)
qed

text \<open>The request that \<^verbatim>\<open>handle_generate_request\<close> hands to the queue.\<close>

definition accepted :: "intake_config \<Rightarrow> server_args \<Rightarrow> tokenized_req \<Rightarrow> request \<Rightarrow> bool" where
  "accepted cfg sa recv r \<longleftrightarrow> (\<forall>now q. handle_generate_request cfg sa now recv q = add_request_to_queue cfg now r q)"

lemma accepted_exists:
  assumes lim: "limits_ok cfg ctx" and recv: "input_ids recv \<noteq> []" "tr_input_embeds recv \<noteq> Some 0"
  obtains r where "accepted cfg sa recv r" "waiting_ok ctx r"
proof -
  define recv' where "recv' = (case tr_input_embeds recv of None \<Rightarrow> recv | Some n \<Rightarrow> recv\<lparr>input_ids := replicate n 1\<rparr>)"
  define r0 where "r0 = req_init cfg recv'"
  define r1 where "r1 = init_req_max_new_tokens cfg r0"
  obtain r2 err where r2: "validate_input_length r1 (max_req_input_len cfg) (allow_auto_truncate cfg) = (r2, err)" by fastforce
  define r3 where "r3 = set_logprob_start_len sa recv' r2"
  define bad where "bad \<longleftrightarrow> err \<or> logprob_start_len r3 > int (length (origin_input_ids r3)) \<or> return_routed_experts recv' \<and>
    (routed_experts_start_len recv' < 0 \<or> routed_experts_start_len recv' > int (length (origin_input_ids r3)))"
  define r where "r = (if err then set_finish_with_abort r2 else if bad then set_finish_with_abort r3 else r3)"
  have "handle_generate_request cfg sa now recv q = add_request_to_queue cfg now r q" for now q
    using r2 by (simp add: handle_generate_request_def Let_def recv'_def [symmetric] r0_def [symmetric] r1_def [symmetric] r3_def [symmetric] r_def bad_def) auto
  then have acc: "accepted cfg sa recv r" by (simp add: accepted_def)
  have l: "0 < max_req_input_len cfg" "max_req_input_len cfg \<le> max_req_len cfg" "max_req_len cfg \<le> ctx" using lim by (simp_all add: limits_ok_def)
  have o0: "origin_input_ids r0 \<noteq> []" using recv by (auto simp: r0_def req_init_def recv'_def split: option.splits)
  have o1: "origin_input_ids r1 = origin_input_ids r0" by (simp add: r1_def init_req_max_new_tokens_def Let_def)
  have fresh: "req_pool_idx r1 = None \<and> output_ids r1 = [] \<and> finished_reason r1 = None \<and> inflight_middle_chunks r1 \<le> 0 \<and>
      \<not> kv_committed_freed r1 \<and> \<not> kv_overallocated_freed r1"
    by (simp add: r1_def init_req_max_new_tokens_def Let_def r0_def req_init_def)
  have r2': "\<exists>xs. r2 = r1\<lparr>origin_input_ids := xs\<rparr> \<and> (err \<or> xs \<noteq> [] \<and> length xs + max_new_tokens r1 \<le> max_req_len cfg)"
  proof (cases "length (origin_input_ids r1) < max_req_input_len cfg")
    case True
    then have "r2 = r1" "\<not> err" using r2 by (simp_all add: validate_input_length_def)
    moreover have "length (origin_input_ids r1) + max_new_tokens r1 \<le> max_req_len cfg"
      unfolding o1 unfolding r1_def by (rule init_max_new(1)) (use True l o1 in simp)
    ultimately show ?thesis using o0 o1 by (intro exI [of _ "origin_input_ids r1"]) simp
  next
    case False
    then have long: "max_req_input_len cfg \<le> length (origin_input_ids r0)" using o1 by simp
    show ?thesis
    proof (cases "allow_auto_truncate cfg")
      case True
      then have "r2 = r1\<lparr>origin_input_ids := take (max_req_input_len cfg) (origin_input_ids r1)\<rparr>" "\<not> err"
        using r2 False by (auto simp: validate_input_length_def)
      moreover have "max_req_input_len cfg + max_new_tokens r1 \<le> max_req_len cfg"
      proof (cases "length (origin_input_ids r0) \<le> max_req_len cfg")
        case True
        then show ?thesis using init_max_new(1) [of r0 cfg] long by (simp add: r1_def)
      next
        case False
        then show ?thesis using init_max_new(3) [of cfg r0] l by (simp add: r1_def)
      qed
      ultimately show ?thesis using o0 o1 l long by (intro exI [of _ "take (max_req_input_len cfg) (origin_input_ids r1)"]) auto
    next
      case False
      then have "r2 = r1" "err" using r2 long o1 by (auto simp: validate_input_length_def)
      then show ?thesis by (intro exI [of _ "origin_input_ids r1"]) simp
    qed
  qed
  have one: "1 + max_new_tokens r1 \<le> max_req_len cfg" unfolding r1_def by (rule init_max_new(2) [OF o0]) (use l in simp)
  obtain n where r3: "r3 = r2\<lparr>logprob_start_len := n\<rparr>" by (auto simp: r3_def set_logprob_start_len_def Let_def)
  obtain xs where xs: "r2 = r1\<lparr>origin_input_ids := xs\<rparr>" "err \<or> xs \<noteq> [] \<and> length xs + max_new_tokens r1 \<le> max_req_len cfg" using r2' by blast
  have abort: "waiting_ok ctx (set_finish_with_abort r2)" "waiting_ok ctx (set_finish_with_abort r3)"
    using one l(3) fresh by (simp_all add: waiting_ok_def set_finish_with_abort_def r3 xs(1))
  have "waiting_ok ctx r3" if "\<not> err" using that xs(2) l(3) fresh by (simp add: waiting_ok_def r3 xs(1))
  then have "waiting_ok ctx r" using abort by (simp add: r_def bad_def)
  then show thesis using acc that by blast
qed

lemma request_handled:
  assumes lim: "limits_ok cfg ctx" and recv: "input_ids recv \<noteq> []" "tr_input_embeds recv \<noteq> Some 0" and q: "queue_ok cfg ctx q"
  obtains q' where "handle_generate_request cfg sa now recv q = Inr q'" "queue_ok cfg ctx q'"
    "\<forall>n. max_queued_requests cfg = Some n \<longrightarrow> length q \<le> n \<longrightarrow> length q' \<le> n"
proof -
  obtain r where r: "accepted cfg sa recv r" "waiting_ok ctx r" by (rule accepted_exists [OF lim recv])
  have "max_queued_requests cfg \<noteq> Some 0" using lim by (simp add: limits_ok_def)
  from add_to_queue_ok [OF q r(2) this, of now] show thesis using r(1) that unfolding accepted_def by metis
qed


definition sample_limits :: intake_config where
  "sample_limits = \<lparr>model_eos_token_ids = [2], model_vocab_size = 100, model_tokenizer_stop = None, max_req_len = 15, max_req_input_len = 10,
     max_total_num_tokens = 16, ic_page_size = 8, allow_auto_truncate = False, max_queued_requests = Some 1,
     enable_priority_scheduling = True, low_priority_values_first = False, abort_on_priority_when_disabled = False\<rparr>"

definition sample_received :: "nat \<Rightarrow> tokenized_req" where
  "sample_received n = \<lparr>tr_rid = ''r'', input_ids = replicate n 7, tr_input_embeds = None, positional_embed_overrides = False,
     tr_max_new_tokens = Some 8, tr_ignore_eos = False, tr_stop_token_ids = [], tr_stop_strs = [], tr_stop_regex_strs = [],
     tr_return_logprob = False, tr_logprob_start_len = - 1, token_ids_logprob = False, tr_priority = None, tr_extra_key = None,
     lora_id = None, tr_routing_key = None, tr_require_reasoning = False, fake_bootstrap_host = False,
     return_routed_experts = False, routed_experts_start_len = 0\<rparr>"

definition sample_args :: "nat \<Rightarrow> server_args" where
  "sample_args ps = \<lparr>strip_thinking_cache = False, disable_finished_insert = False, sa_page_size = ps, speculative_algorithm = None\<rparr>"


section \<open>An accepted request that is never scheduled\<close>

lemma add_one_req_refused:
  assumes "rem_total_tokens k m tree pa \<le> of_int (int (extend_input_len r) + int (pa_page_size pa))" "\<not> ignore_eos r \<or> \<not> cache_disabled tree"
  shows "\<exists>res. res \<noteq> CONTINUE \<and> add_one_req k m allow align running pa r tree = Inr ((res, pa, r), tree)"
proof -
  have "rem_total_tokens k m tree pa \<le> of_int (int (extend_input_len r) + int n + int (pa_page_size pa))" for n
    using assms(1) by (rule order_trans) simp
  then show ?thesis using assms(2) by (auto simp: add_one_req_def Let_def)
qed

lemma add_to_empty_queue:
  assumes "add_request_to_queue cfg now r0 [] = Inr [r]"
  obtains p t where "r = r0\<lparr>req_priority := p, wait_queue_entry_time := t\<rparr>"
proof -
  obtain ok r1 where r1: "set_or_validate_priority cfg r0 = (ok, r1)" by fastforce
  have "r0 = r0\<lparr>req_priority := req_priority r0\<rparr>" by simp
  then obtain p where p: "r1 = r0\<lparr>req_priority := p\<rparr>" using r1 unfolding set_or_validate_priority_def by (metis prod.inject)
  have "r = r1\<lparr>wait_queue_entry_time := now\<rparr>"
    using assms r1 by (auto simp: add_request_to_queue_def rbind_eq_Inr_iff abort_on_queued_limit_def split: if_splits)
  then show thesis using that p by simp
qed

lemma queued_request:
  assumes "length (input_ids recv) < max_req_input_len cfg" "tr_input_embeds recv = None" "tr_logprob_start_len recv = - 1" "\<not> return_routed_experts recv"
    and queued: "handle_generate_request cfg sa now recv [] = Inr [r]"
  obtains p n n' t where "r = (req_init cfg recv)\<lparr>max_new_tokens := n, logprob_start_len := n', req_priority := p, wait_queue_entry_time := t\<rparr>"
proof -
  obtain n where r1: "init_req_max_new_tokens cfg (req_init cfg recv) = (req_init cfg recv)\<lparr>max_new_tokens := n\<rparr>"
    by (simp add: init_req_max_new_tokens_def Let_def)
  let ?r1 = "(req_init cfg recv)\<lparr>max_new_tokens := n\<rparr>"
  have len: "length (origin_input_ids ?r1) = length (input_ids recv)" by (simp add: req_init_def)
  obtain n' where r2: "set_logprob_start_len sa recv ?r1 = ?r1\<lparr>logprob_start_len := n'\<rparr>" "n' \<le> int (length (input_ids recv))"
    using assms(3) len by (cases "tr_return_logprob recv \<and> \<not> token_ids_logprob recv \<or> req_is_prefill_only sa ?r1") (auto simp: set_logprob_start_len_def Let_def)
  have "handle_generate_request cfg sa now recv [] = add_request_to_queue cfg now (?r1\<lparr>logprob_start_len := n'\<rparr>) []"
    using assms(1,2,4) len r2 by (simp add: handle_generate_request_def Let_def r1 validate_input_length_def)
  then have "add_request_to_queue cfg now (?r1\<lparr>logprob_start_len := n'\<rparr>) [] = Inr [r]" using queued by simp
  then show thesis by (rule add_to_empty_queue) (rule that)
qed


definition idle_memory :: kv_memory where
  "idle_memory = \<lparr>kv_pool = (case paged_init 16 8 True False of Inr a \<Rightarrow> a | Inl e \<Rightarrow> token_init 0 False), row_pool = pool_init 2 20\<rparr>"

definition idle_cache :: prefix_cache where
  "idle_cache = (case radix_cache_init 0 False 8 False ''lru'' 0 of Inr c \<Rightarrow> RadixCache c | Inl e \<Rightarrow> ChunkCache 8)"

definition idle_adder :: prefill_adder where
  "idle_adder = adder_init 8 4096 [] 1 16384 None 0 False None"

definition long_request :: request where
  "long_request = (case handle_generate_request sample_limits (sample_args 8) 3 (sample_received 9) [] of Inr q \<Rightarrow> hd q
     | Inl e \<Rightarrow> req_init sample_limits (sample_received 0))"

definition long_turn :: "request \<times> prefix_cache option" where
  "long_turn = (case init_next_round_input 1 1 (Some idle_cache) long_request of Inr x \<Rightarrow> x | Inl e \<Rightarrow> (long_request, None))"


end
