(* ===== verification/Schedule_Policy.thy ===== *)
theory Schedule_Policy
  imports Request_Intake "HOL-Library.List_Lexorder" "HOL-Library.Char_ord"
begin

text \<open>
  The order of the waiting queue: \<^verbatim>\<open>SchedulePolicy\<close> of \<^verbatim>\<open>managers/schedule_policy.py\<close> with its six policies. The policies that
  look at the prefix cache match every waiting request first, which may split nodes of the tree.

  A queue is reordered and never changed otherwise: no policy loses, repeats or alters a request, apart from the
  match that the cache-aware policies store in it.
\<close>

section \<open>Definitions\<close>

datatype schedule_policy = LPM | DFS_WEIGHT | FCFS | LOF | RANDOM | ROUTING_KEY

definition cache_aware :: "schedule_policy \<Rightarrow> bool" where
  "cache_aware p \<longleftrightarrow> p \<in> {LPM, DFS_WEIGHT}"

text \<open>\<^verbatim>\<open>_validate_and_adjust_policy\<close>.\<close>

definition validate_and_adjust_policy :: "string \<Rightarrow> prefix_cache \<Rightarrow> schedule_policy result" where
  "validate_and_adjust_policy name tree =
     (if name = ''lpm'' then Inr (if cache_disabled tree then FCFS else LPM)
      else if name = ''dfs-weight'' then Inr (if cache_disabled tree then FCFS else DFS_WEIGHT)
      else if name = ''fcfs'' then Inr FCFS
      else if name = ''lof'' then Inr LOF
      else if name = ''random'' then Inr RANDOM
      else if name = ''routing-key'' then Inr ROUTING_KEY
      else Inl ValueError)"

record policy_config =
  sp_policy :: schedule_policy
  sp_enable_priority :: bool
  sp_low_values_first :: bool
  check_threshold :: int
  deprioritize_threshold :: int

definition priority_sign :: "policy_config \<Rightarrow> int" where
  "priority_sign cfg = (if sp_low_values_first cfg then 1 else - 1)"

definition determine_active_policy :: "policy_config \<Rightarrow> request list \<Rightarrow> schedule_policy" where
  "determine_active_policy cfg waiting_queue =
     (if sp_policy cfg = LPM \<and> length waiting_queue > 128 then FCFS else sp_policy cfg)"

text \<open>\<^verbatim>\<open>match_prefix_for_req\<close>; the prefix caches modelled leave \<^verbatim>\<open>match_result.cache_protected_len\<close> at \<^verbatim>\<open>None\<close>.\<close>

definition match_prefix_for_req :: "int \<Rightarrow> int \<Rightarrow> prefix_cache \<Rightarrow> request \<Rightarrow> (request \<times> prefix_cache) result" where
  "match_prefix_for_req access created tree r =
     rbind (cache_match_prefix access created tree
              \<lparr>token_ids = origin_input_ids r @ output_ids r, extra_key = req_extra_key r, is_bigram = False\<rparr>) (\<lambda>(v, node, tree).
     Inr (r\<lparr>prefix_indices := v, last_node := node\<rparr>, tree))"

text \<open>
  The body of the loop of \<^verbatim>\<open>_compute_prefix_matches\<close>. \<open>sim\<close> is \<^verbatim>\<open>waiting_queue_radix_tree\<close>, \<open>clock\<close> gives the six times that one
  iteration reads. The values stored in \<open>sim\<close> are never read; \<^verbatim>\<open>torch.empty\<close> is a list of zeros here.
\<close>

definition in_batch_step ::
  "policy_config \<Rightarrow> (nat \<Rightarrow> int) \<Rightarrow> request \<Rightarrow> radix_cache \<Rightarrow> (bool \<times> radix_cache) result" where
  "in_batch_step cfg clock r sim =
     (let prefix_ids = origin_input_ids r @ output_ids r;
          key = \<lparr>token_ids = prefix_ids, extra_key = req_extra_key r, is_bigram = False\<rparr>
      in if int (length (prefix_indices r)) \<le> check_threshold cfg
         then rbind (match_prefix (clock 2) (clock 3) sim key) (\<lambda>(in_batch, node, sim).
              if int (length in_batch) \<ge> deprioritize_threshold cfg then Inr (True, sim)
              else rbind (rc_insert (clock 4) (clock 5) sim key (Some (replicate (length prefix_ids) 0)) None False) (\<lambda>(n, sim).
                   Inr (False, sim)))
         else Inr (False, sim))"

fun match_waiting ::
  "policy_config \<Rightarrow> (nat \<Rightarrow> nat \<Rightarrow> int) \<Rightarrow> nat \<Rightarrow> request list \<Rightarrow> prefix_cache \<Rightarrow> radix_cache
     \<Rightarrow> (request list \<times> string list \<times> prefix_cache \<times> radix_cache) result" where
  "match_waiting cfg clock n [] tree sim = Inr ([], [], tree, sim)"
| "match_waiting cfg clock n (r # waiting_queue) tree sim =
     rbind (match_prefix_for_req (clock n 0) (clock n 1) tree r) (\<lambda>(r, tree).
     rbind (in_batch_step cfg (clock n) r sim) (\<lambda>(later, sim).
     rbind (match_waiting cfg clock (Suc n) waiting_queue tree sim) (\<lambda>(rs, deprioritized, tree, sim).
     Inr (r # rs, (if later then [rid r] else []) @ deprioritized, tree, sim))))"

definition compute_prefix_matches ::
  "policy_config \<Rightarrow> int \<Rightarrow> (nat \<Rightarrow> nat \<Rightarrow> int) \<Rightarrow> request list \<Rightarrow> prefix_cache \<Rightarrow> radix_cache
     \<Rightarrow> (request list \<times> string list \<times> prefix_cache \<times> radix_cache) result" where
  "compute_prefix_matches cfg created clock waiting_queue tree sim = match_waiting cfg clock 0 waiting_queue tree (reset created sim)"

text \<open>The sorts. Python sorts tuples lexicographically and keeps the order of equal keys; the key \<^verbatim>\<open>inf\<close> comes after every length.\<close>

definition sort_by_longest_prefix :: "string list \<Rightarrow> request list \<Rightarrow> request list" where
  "sort_by_longest_prefix deprioritized =
     sort_key (\<lambda>r. if rid r \<notin> set deprioritized then (0::nat, - int (length (prefix_indices r))) else (1, 0))"

definition priorities :: "request list \<Rightarrow> unit result" where
  "priorities waiting_queue = rassert (\<forall>r \<in> set waiting_queue. req_priority r \<noteq> None) TypeError"

definition sort_by_longest_output :: "policy_config \<Rightarrow> request list \<Rightarrow> request list result" where
  "sort_by_longest_output cfg waiting_queue =
     (if sp_enable_priority cfg
      then rbind (priorities waiting_queue) (\<lambda>_.
           Inr (sort_key (\<lambda>r. (the (req_priority r) * priority_sign cfg, - int (max_new_tokens r))) waiting_queue))
      else Inr (sort_key (\<lambda>r. - int (max_new_tokens r)) waiting_queue))"

definition sort_by_priority_and_fcfs :: "policy_config \<Rightarrow> request list \<Rightarrow> request list result" where
  "sort_by_priority_and_fcfs cfg waiting_queue =
     rbind (priorities waiting_queue) (\<lambda>_.
     Inr (sort_key (\<lambda>r. (the (req_priority r) * priority_sign cfg, wait_queue_entry_time r)) waiting_queue))"

definition routing_key_count :: "request list \<Rightarrow> string option \<Rightarrow> nat" where
  "routing_key_count running key =
     (if key = None \<or> key = Some [] then 0 else length (filter (\<lambda>r. routing_key r = key) running))"

definition sort_by_routing_key :: "request list \<Rightarrow> request list \<Rightarrow> request list" where
  "sort_by_routing_key running waiting_queue =
     (if \<forall>r \<in> set running. routing_key_count running (routing_key r) = 0 then waiting_queue
      else
        sort_key (\<lambda>r. let count = routing_key_count running (routing_key r); key = (case routing_key r of Some s \<Rightarrow> s | None \<Rightarrow> [])
                      in if count > 0 then (0::nat, - int count, key) else (1, 0, key)) waiting_queue)"

text \<open>\<^verbatim>\<open>_calc_weight\<close> and \<^verbatim>\<open>_get_dfs_priority\<close>; a \<^verbatim>\<open>defaultdict\<close> keyed by nodes is a function of their numbers.\<close>

fun calc_weight :: "tree_node \<Rightarrow> (nat \<Rightarrow> nat) \<Rightarrow> (nat \<Rightarrow> nat)" where
  "calc_weight (TreeNode d cs) w =
     foldl (\<lambda>w (ck, child). let w = calc_weight child w in w(nid d := w (nid d) + w (nid (ndata child)))) w cs"

function get_dfs_priority :: "(nat \<Rightarrow> nat) \<Rightarrow> (nat \<Rightarrow> request list) \<Rightarrow> tree_node \<Rightarrow> request list" where
  "get_dfs_priority w reqs_at (TreeNode d cs) =
     concat (map (\<lambda>(ck, child). get_dfs_priority w reqs_at child) (sort_key (\<lambda>(ck, child). - int (w (nid (ndata child)))) cs))
     @ reqs_at (nid d)"
  by pat_completeness auto
termination
proof (relation "measure (\<lambda>(w, reqs_at, t). size t)", simp)
  fix w :: "nat \<Rightarrow> nat" and reqs_at :: "nat \<Rightarrow> request list" and d and cs :: "((string option \<times> key_unit list) \<times> tree_node) list" and x ck and child :: tree_node
  assume "x \<in> set (sort_key (\<lambda>(ck, child). - int (w (nid (ndata child)))) cs)" "(ck, child) = x"
  then have "size child \<le> size_list (size_prod (\<lambda>_. 0) size) cs"
    by (intro size_list_estimation' [of x]) auto
  then show "((w, reqs_at, child), (w, reqs_at, TreeNode d cs)) \<in> measure (\<lambda>(w, reqs_at, t). size t)" by simp
qed

definition sort_by_dfs_weight :: "prefix_cache \<Rightarrow> request list \<Rightarrow> request list result" where
  "sort_by_dfs_weight tree waiting_queue =
     (case tree of
        ChunkCache ps \<Rightarrow> Inl AttributeError
      | RadixCache c \<Rightarrow>
          let reqs_at = (\<lambda>i. filter (\<lambda>r. last_node r = Some i) waiting_queue);
              weight = calc_weight (root_node c) (\<lambda>i. length (reqs_at i))
          in Inr (get_dfs_priority weight reqs_at (root_node c)))"

text \<open>\<open>shuffle\<close> is what \<^verbatim>\<open>random.shuffle\<close> does to the positions of a list of the given length.\<close>

definition calc_priority ::
  "policy_config \<Rightarrow> int \<Rightarrow> (nat \<Rightarrow> nat \<Rightarrow> int) \<Rightarrow> (nat \<Rightarrow> nat list) \<Rightarrow> request list \<Rightarrow> request list \<Rightarrow> prefix_cache \<Rightarrow> radix_cache
     \<Rightarrow> (request list \<times> prefix_cache \<times> radix_cache) result" where
  "calc_priority cfg created clock shuffle running waiting_queue tree sim =
     (if sp_policy cfg = FCFS
      then rbind (if sp_enable_priority cfg then sort_by_priority_and_fcfs cfg waiting_queue else Inr waiting_queue) (\<lambda>q.
           Inr (q, tree, sim))
      else
        let policy = determine_active_policy cfg waiting_queue
        in if cache_aware policy
           then rbind (compute_prefix_matches cfg created clock waiting_queue tree sim) (\<lambda>(q, deprioritized, tree, sim).
                if policy = LPM then Inr (sort_by_longest_prefix deprioritized q, tree, sim)
                else rbind (sort_by_dfs_weight tree q) (\<lambda>q. Inr (q, tree, sim)))
           else if policy = LOF then rbind (sort_by_longest_output cfg waiting_queue) (\<lambda>q. Inr (q, tree, sim))
           else if policy = RANDOM then Inr (map ((!) waiting_queue) (shuffle (length waiting_queue)), tree, sim)
           else if policy = ROUTING_KEY then Inr (sort_by_routing_key running waiting_queue, tree, sim)
           else Inr (waiting_queue, tree, sim))"

section \<open>No request is lost\<close>

text \<open>A request without the match that the cache-aware policies store in it.\<close>

definition unmatched :: "request \<Rightarrow> request" where
  "unmatched r = r\<lparr>prefix_indices := [], last_node := None\<rparr>"

text \<open>The depth-first order lists the requests of every node of the tree.\<close>

lemma dfs_mset: "mset (get_dfs_priority w reqs_at t) = (\<Sum>i \<in># ids t. mset (reqs_at i))"
proof (induction t rule: tree_induct)
  case (TreeNode d cs)
  let ?key = "\<lambda>(ck, child). - int (w (nid (ndata child)))" and ?f = "\<lambda>(ck, child). get_dfs_priority w reqs_at child"
  have "mset (concat (map ?f (sort_key ?key cs))) = sum_list (map (mset \<circ> ?f) (sort_key ?key cs))" by (simp add: mset_concat)
  also have "\<dots> = sum_list (map (mset \<circ> ?f) cs)" by (rule mset_sum_list) simp
  also have "map (mset \<circ> ?f) cs = map (\<lambda>(ck, child). \<Sum>i \<in># ids child. mset (reqs_at i)) cs" using TreeNode by auto
  also have "sum_list \<dots> = (\<Sum>i \<in># sum_list (map (\<lambda>(ck, child). ids child) cs). mset (reqs_at i))"
    by (induction cs) (simp_all add: split_def)
  finally show ?case by (simp add: ids_simps)
qed

lemma sum_filters:
  assumes "\<forall>i. count M i \<le> 1" "\<forall>r \<in> set q. \<exists>i \<in># M. f r = Some i"
  shows "(\<Sum>i \<in># M. mset (filter (\<lambda>r. f r = Some i) q)) = mset q"
  using assms(2)
proof (induction q)
  case (Cons r q)
  then obtain i where i: "i \<in># M" "f r = Some i" by auto
  then have M: "M = add_mset i (M - {#i#})" "i \<notin># M - {#i#}" using assms(1) [rule_format, of i] by (auto simp: in_diff_count)
  have "(\<Sum>j \<in># M. mset (filter (\<lambda>r. f r = Some j) (r # q))) = (\<Sum>j \<in># M. (if j = i then {#r#} else {#}) + mset (filter (\<lambda>r. f r = Some j) q))"
    by (rule arg_cong [where f = sum_mset], rule image_mset_cong) (auto simp: i(2))
  also have "\<dots> = (\<Sum>j \<in># M. if j = i then {#r#} else {#}) + (\<Sum>j \<in># M. mset (filter (\<lambda>r. f r = Some j) q))"
    by (simp add: sum_mset.distrib)
  also have "(\<Sum>j \<in># M. if j = i then {#r#} else {#}) = {#r#}"
  proof -
    have "(\<Sum>j \<in># M - {#i#}. if j = i then {#r#} else {#}) = (\<Sum>j \<in># M - {#i#}. {#})"
      by (rule arg_cong [where f = sum_mset], rule image_mset_cong) (use M(2) in auto)
    then show ?thesis by (subst M(1)) simp
  qed
  finally show ?case using Cons by simp
qed simp

definition at_node :: "radix_cache \<Rightarrow> request \<Rightarrow> bool" where
  "at_node c r \<longleftrightarrow> (\<exists>i p. (i, p) \<in> set (node_paths (root_node c)) \<and> last_node r = Some i)"

lemma dfs_perm:
  assumes inv: "cache_inv c L" and q: "\<forall>r \<in> set q. at_node c r"
  obtains q' where "sort_by_dfs_weight (RadixCache c) q = Inr q'" "mset q' = mset q"
proof -
  have "\<forall>i. count (ids (root_node c)) i \<le> 1" using inv by (simp add: cache_inv_def uniq_def)
  moreover have "\<forall>r \<in> set q. \<exists>i \<in># ids (root_node c). last_node r = Some i" using q node_paths_ids by (fastforce simp: at_node_def)
  ultimately have "(\<Sum>i \<in># ids (root_node c). mset (filter (\<lambda>r. last_node r = Some i) q)) = mset q" by (rule sum_filters)
  then show thesis using that by (simp add: sort_by_dfs_weight_def dfs_mset Let_def)
qed

text \<open>Matching a request may split a node of the tree; the contents stay.\<close>

definition rematched :: "nat multiset \<Rightarrow> radix_cache \<Rightarrow> radix_cache \<Rightarrow> bool" where
  "rematched L c c' \<longleftrightarrow> cache_inv c' L \<and> same_config c c' \<and> mset (contents c') = mset (contents c) \<and>
     set (node_paths (root_node c)) \<subseteq> set (node_paths (root_node c')) \<and> evictable_size c' = evictable_size c"

lemma rematched_refl: "cache_inv c L \<Longrightarrow> rematched L c c"
  by (simp add: rematched_def same_config_def)

lemma rematched_trans: "rematched L c c' \<Longrightarrow> rematched L c' c'' \<Longrightarrow> rematched L c c''"
  by (auto simp: rematched_def same_config_def)

lemma match_req_ok:
  assumes "cache_inv c L" "\<not> disable c"
  obtains r' c' where "match_prefix_for_req access created (RadixCache c) r = Inr (r', RadixCache c')" "unmatched r' = unmatched r"
    "rematched L c c'" "at_node c' r'"
proof -
  let ?key = "\<lparr>token_ids = origin_input_ids r @ output_ids r, extra_key = req_extra_key r, is_bigram = False\<rparr>"
  have "key_fits c ?key" by (simp add: key_fits_def)
  from match_prefix_ok [OF assms(1) this assms(2), of access created] obtain v i c' where
    m: "match_prefix access created c ?key = Inr (v, i, c')" "cache_inv c' L" "same_config c c'" "mset (contents c') = mset (contents c)"
      "(i, take (length v) (path (view c ?key))) \<in> set (node_paths (root_node c'))"
      "set (node_paths (root_node c)) \<subseteq> set (node_paths (root_node c'))"
    by blast
  have "rematched L c c'" using m match_evictable [OF m(1)] by (simp add: rematched_def)
  then show thesis
    by (intro that [of "r\<lparr>prefix_indices := v, last_node := Some i\<rparr>" c']) (use m(5) in \<open>auto simp: match_prefix_for_req_def cache_match_prefix_def m(1) unmatched_def at_node_def\<close>)
qed

text \<open>The tree of the waiting queue: nothing in it is locked.\<close>

definition queue_tree_ok :: "radix_cache \<Rightarrow> bool" where
  "queue_tree_ok sim \<longleftrightarrow> cache_inv sim {#} \<and> \<not> disable sim \<and> \<not> is_eagle sim"

lemma in_batch_step_ok:
  assumes "queue_tree_ok sim"
  obtains later sim' where "in_batch_step cfg clock r sim = Inr (later, sim')" "queue_tree_ok sim'"
proof (cases "int (length (prefix_indices r)) \<le> check_threshold cfg")
  case False
  then show thesis using that assms by (simp add: in_batch_step_def Let_def)
next
  case True
  define ids where "ids = origin_input_ids r @ output_ids r"
  define key where "key = \<lparr>token_ids = ids, extra_key = req_extra_key r, is_bigram = False\<rparr>"
  have fits: "key_fits s key" for s by (simp add: key_fits_def key_def)
  have "cache_inv sim {#}" "\<not> disable sim" "\<not> is_eagle sim" using assms by (simp_all add: queue_tree_ok_def)
  from match_prefix_ok [OF this(1) fits this(2), of "clock 2" "clock 3"] this(2,3) obtain v i s1 where
    s1: "match_prefix (clock 2) (clock 3) sim key = Inr (v, i, s1)" "cache_inv s1 {#}" "\<not> disable s1" "\<not> is_eagle s1"
    by (auto simp: same_config_def)
  have "0 < rc_page_size s1" using s1(2) by (simp add: cache_inv_def)
  then have "key_len (view s1 key) \<le> length ids"
    using view_le [of s1 key] s1(4) by (auto simp: maybe_to_bigram_view_def key_def key_len_raw Let_def)
  then have val: "value_fits s1 key (Some (replicate (length ids) 0))" by (simp add: value_fits_def)
  obtain n s2 where s2: "rc_insert (clock 4) (clock 5) s1 key (Some (replicate (length ids) 0)) None False = Inr (n, s2)"
      "cache_inv s2 {#}" "same_config s1 s2"
    using rc_insert_ok [OF s1(2) fits val s1(3), of "clock 4" "clock 5" None False] by blast
  have "in_batch_step cfg clock r sim = (if int (length v) \<ge> deprioritize_threshold cfg then Inr (True, s1) else Inr (False, s2))"
    using True s1(1) s2(1) by (simp add: in_batch_step_def Let_def ids_def key_def)
  moreover have "queue_tree_ok s1" "queue_tree_ok s2" using s1 s2 by (simp_all add: queue_tree_ok_def same_config_def)
  ultimately show thesis using that by (cases "int (length v) \<ge> deprioritize_threshold cfg") simp_all
qed

lemma match_waiting_ok:
  assumes "cache_inv c L" "\<not> disable c" "queue_tree_ok sim"
  shows "\<exists>q dep c' sim'. match_waiting cfg clock n waiting_queue (RadixCache c) sim = Inr (q, dep, RadixCache c', sim') \<and>
    map unmatched q = map unmatched waiting_queue \<and> rematched L c c' \<and> queue_tree_ok sim' \<and>
    (\<forall>r \<in> set q. at_node c' r)"
  using assms
proof (induction waiting_queue arbitrary: n c sim)
  case Nil
  then show ?case by (simp add: rematched_refl)
next
  case (Cons r waiting_queue)
  obtain r1 c1 where r1: "match_prefix_for_req (clock n 0) (clock n 1) (RadixCache c) r = Inr (r1, RadixCache c1)" "unmatched r1 = unmatched r"
      "rematched L c c1" "at_node c1 r1"
    by (rule match_req_ok [OF Cons.prems(1,2)])
  obtain later s1 where s1: "in_batch_step cfg (clock n) r1 sim = Inr (later, s1)" "queue_tree_ok s1"
    by (rule in_batch_step_ok [OF Cons.prems(3)])
  have c1: "cache_inv c1 L" "\<not> disable c1" using r1(3) Cons.prems(2) by (simp_all add: rematched_def same_config_def)
  from Cons.IH [OF c1 s1(2), of "Suc n"] obtain q dep c' sim' where
    IH: "match_waiting cfg clock (Suc n) waiting_queue (RadixCache c1) s1 = Inr (q, dep, RadixCache c', sim')"
      "map unmatched q = map unmatched waiting_queue" "rematched L c1 c'" "queue_tree_ok sim'"
      "\<forall>r \<in> set q. at_node c' r"
    by blast
  have "at_node c' r1" using r1(4) IH(3) by (auto simp: at_node_def rematched_def)
  then show ?case using r1 s1 IH rematched_trans [OF r1(3) IH(3)] by auto
qed

lemma unmatched_perm: "mset q = mset q' \<Longrightarrow> mset (map unmatched q) = mset (map unmatched q')"
  by (simp only: mset_map)

lemma sorts_perm:
  "mset (sort_by_longest_prefix dep q) = mset q" "mset (sort_by_routing_key running q) = mset q"
  "sort_by_longest_output cfg q = Inr q' \<Longrightarrow> mset q' = mset q" "sort_by_priority_and_fcfs cfg q = Inr q' \<Longrightarrow> mset q' = mset q"
  by (auto simp: sort_by_longest_prefix_def sort_by_routing_key_def sort_by_longest_output_def sort_by_priority_and_fcfs_def
      rbind_eq_Inr_iff split: if_splits)

lemma sorts_total:
  assumes "sp_enable_priority cfg \<longrightarrow> (\<forall>r \<in> set q. req_priority r \<noteq> None)"
  shows "\<exists>q'. sort_by_longest_output cfg q = Inr q'" "sp_enable_priority cfg \<Longrightarrow> \<exists>q'. sort_by_priority_and_fcfs cfg q = Inr q'"
  using assms by (auto simp: sort_by_longest_output_def sort_by_priority_and_fcfs_def priorities_def rassert_def)

lemma shuffle_perm: "mset (shuffle (length q)) = mset [0..<length q] \<Longrightarrow> mset (map ((!) q) (shuffle (length q))) = mset q"
  using map_nth [of q] by (metis mset_map)

lemma calc_priority_ok:
  assumes c: "cache_inv c L" "\<not> disable c" and sim: "queue_tree_ok sim"
    and prio: "sp_enable_priority cfg \<longrightarrow> (\<forall>r \<in> set q. req_priority r \<noteq> None)"
    and shuffle: "mset (shuffle (length q)) = mset [0..<length q]"
  obtains q' c' sim' where "calc_priority cfg created clock shuffle running q (RadixCache c) sim = Inr (q', RadixCache c', sim')"
    "mset (map unmatched q') = mset (map unmatched q)" "rematched L c c'" "queue_tree_ok sim'"
proof -
  let ?run = "calc_priority cfg created clock shuffle running q (RadixCache c) sim"
  let ?p = "determine_active_policy cfg q"
  show thesis
  proof (cases "sp_policy cfg \<noteq> FCFS \<and> cache_aware ?p")
    case True
    have sim0: "queue_tree_ok (reset created sim)"
      using sim reset_inv [of sim created] by (auto simp: queue_tree_ok_def cache_inv_def reset_def)
    obtain q1 dep c' sim' where m: "compute_prefix_matches cfg created clock q (RadixCache c) sim = Inr (q1, dep, RadixCache c', sim')"
        "map unmatched q1 = map unmatched q" "rematched L c c'" "queue_tree_ok sim'" "\<forall>r \<in> set q1. at_node c' r"
      using match_waiting_ok [OF c sim0] unfolding compute_prefix_matches_def by blast
    show thesis
    proof (cases "?p = LPM")
      case lpm: True
      then have "?run = Inr (sort_by_longest_prefix dep q1, RadixCache c', sim')" using True m(1) by (simp add: calc_priority_def Let_def)
      then show thesis using that m(3,4) unmatched_perm [OF sorts_perm(1)] m(2) by metis
    next
      case False
      have "cache_inv c' L" using m(3) by (simp add: rematched_def)
      then obtain q' where q': "sort_by_dfs_weight (RadixCache c') q1 = Inr q'" "mset q' = mset q1" by (rule dfs_perm [OF _ m(5)])
      then have "?run = Inr (q', RadixCache c', sim')" using True False m(1) by (simp add: calc_priority_def Let_def)
      then show thesis using that m(3,4) unmatched_perm [OF q'(2)] m(2) by metis
    qed
  next
    case False
    have *: "\<exists>q'. ?run = Inr (q', RadixCache c, sim) \<and> mset q' = mset q"
      using False sorts_total [OF prio] sorts_perm shuffle_perm [of shuffle q, OF shuffle]
      by (auto simp: calc_priority_def Let_def)
    then obtain q' where "?run = Inr (q', RadixCache c, sim)" "mset q' = mset q" by blast
    then show thesis using that unmatched_perm rematched_refl [OF c(1)] sim by metis
  qed
qed

text \<open>
  C40. \<^verbatim>\<open>calc_priority\<close> reorders the waiting queue and nothing else: under every policy, and whatever the cache holds, it
  returns, no request is lost, repeated or changed apart from its stored match, and the cache keeps its invariant, its locks and
  its contents although nodes may be split.
\<close>

theorem calc_priority_permutes:
  assumes "cache_inv c L" "\<not> disable c" "queue_tree_ok sim" "sp_enable_priority cfg \<longrightarrow> (\<forall>r \<in> set q. req_priority r \<noteq> None)"
    "mset (shuffle (length q)) = mset [0..<length q]"
  shows "\<exists>q' c' sim'. calc_priority cfg created clock shuffle running q (RadixCache c) sim = Inr (q', RadixCache c', sim') \<and>
    mset (map unmatched q') = mset (map unmatched q) \<and> cache_inv c' L \<and> mset (contents c') = mset (contents c) \<and> queue_tree_ok sim'"
proof -
  obtain q' c' sim' where "calc_priority cfg created clock shuffle running q (RadixCache c) sim = Inr (q', RadixCache c', sim')"
      "mset (map unmatched q') = mset (map unmatched q)" "rematched L c c'" "queue_tree_ok sim'"
    using calc_priority_ok [of c L sim cfg q shuffle created clock running] assms by metis
  then show ?thesis unfolding rematched_def by blast
qed

definition sample_queue_tree :: radix_cache where
  "sample_queue_tree = (case radix_cache_init 0 False 1 False ''lru'' 0 of Inr c \<Rightarrow> c | Inl e \<Rightarrow> empty_cache)"

definition sample_policy :: policy_config where
  "sample_policy = \<lparr>sp_policy = DFS_WEIGHT, sp_enable_priority = False, sp_low_values_first = False, check_threshold = 32, deprioritize_threshold = 32\<rparr>"

definition sample_waiting :: "request list" where
  "sample_waiting = map (\<lambda>n. (req_init sample_limits (sample_received n))\<lparr>origin_input_ids := map int [1..<n], req_extra_key := Some ''lora''\<rparr>) [2, 4, 6]"

theorem calc_priority_permutes_witness:
  "\<exists>q' c' sim'. calc_priority sample_policy 0 (\<lambda>n j. int n) (\<lambda>n. [0..<n]) [] sample_waiting (RadixCache demo_cache) sample_queue_tree = Inr (q', RadixCache c', sim') \<and>
    mset (map unmatched q') = mset (map unmatched sample_waiting) \<and> cache_inv c' {#} \<and> mset (contents c') = mset (contents demo_cache) \<and> queue_tree_ok sim'"
proof -
  obtain c where c: "radix_cache_init 0 False 1 False ''lru'' 0 = Inr c" by (simp add: radix_cache_init_def policy_of_name_def str_lower_def)
  then have "queue_tree_ok sample_queue_tree" using radix_init_ok [OF _ c] by (simp add: sample_queue_tree_def queue_tree_ok_def)
  moreover have "cache_inv demo_cache {#}" "\<not> disable demo_cache" using demo_cache_inv by simp_all
  ultimately show ?thesis
    using calc_priority_permutes [of demo_cache "{#}" sample_queue_tree sample_policy sample_waiting "\<lambda>n. [0..<n]" 0 "\<lambda>n j. int n" "[]"]
    by (simp add: sample_policy_def)
qed

end
