(* ===== verification/Spec2Isabelle.thy ===== *)
theory Spec2Isabelle
  imports Pd_Transfer Serving Schedule_Policy
begin

text \<open>
  Verification of RedKnot, the head-aware reuse of KV memory, and of the part of the SGLang serving engine under it that
  hands out, shares and reclaims KV memory. All paths are below \<^verbatim>\<open>src/python/sglang/srt/\<close>.

  \<^bold>\<open>The program.\<close> An attention head is local (it reads a few sink tokens and a recent window), global, retrieval or dense.
  RedKnot stores for every head only the rows it reads: in pages (\<^verbatim>\<open>segpaged.py\<close>, \<^verbatim>\<open>segpaged_v2/\<close>), in an offline cache of
  pre-filled segments, in trimmed segments on disk or host, and on the wire between a prefill and a decode server. The engine keeps the
  KV rows of all requests in one pool of slots. An allocator hands out slots, singly or in pages; a radix tree keeps the slots of
  finished prefixes for reuse; a table maps a request's positions to slots. The scheduler takes requests into a waiting queue,
  admits as many as memory allows to a prefill batch, decodes one token per step for all running requests,
  retracts requests where memory runs out, and gives everything back when a request finishes.

  \<^bold>\<open>The theories.\<close>

  \<^item> \<open>RK_Prelude\<close>: exceptions as values (\<open>'a result\<close>), Python indexing and slices, loops over matrices, and the lemmas on
    lists, matrices and multisets that the components share.
  \<^item> \<open>Head_Config\<close> (\<^verbatim>\<open>redknot/head_config.py\<close>, two functions of \<^verbatim>\<open>head_profiler.py\<close>): the class of every head as a record whose cached
    tensors are part of the state. Cached tensors always agree with \<^verbatim>\<open>get_strategy\<close>; saving and loading a profile is a round trip.
  \<^item> \<open>Visible_Plan\<close>, \<open>Paged_Storage\<close>, \<open>Seg_Paged\<close>, \<open>Seg_Attention\<close> (\<^verbatim>\<open>redknot/segpaged_v2/\<close>, \<^verbatim>\<open>redknot/segpaged.py\<close>): which positions a head
    keeps, storing and gathering them over an abstract page store (locale \<open>kv_storage\<close>, interpreted on \<^verbatim>\<open>LocalPagedPool\<close>), the first
    store as a refinement of the second, and attention over the stored rows, which equals masked dense attention.
  \<^item> \<open>Offline_Cache\<close> (\<^verbatim>\<open>redknot/offline_cache.py\<close>): the LRU store of segments; both byte limits hold and the counters are exact after any
    sequence of calls. The recursion of \<^verbatim>\<open>_enforce_limits\<close> carries the depth that the interpreter allows; one level more than
    the number of segments on the device is shown to be enough.
  \<^item> \<open>Head_Trim\<close>, \<open>Pd_Transfer\<close> (\<^verbatim>\<open>redknot/per_head_storage.py\<close>, \<^verbatim>\<open>redknot/pd_transfer.py\<close>): trimming and expanding, and the transfer payload;
    round trips, sizes, and attention over what arrives equals attention over what was sent.
  \<^item> \<open>Kv_Kernels\<close>, \<open>Kv_Allocator\<close> (\<^verbatim>\<open>mem_cache/allocator.py\<close>): the Triton kernels with their programs in any order and masked lanes
    arbitrary, equal to the sequential reference, and both allocators behind the locale \<open>kv_allocator\<close>: every page
    is at all times exactly once free, released, pending or held.
  \<^item> \<open>Radix_Key\<close>, \<open>Radix_Tree\<close>, \<open>Radix_Cache\<close>, \<open>Radix_Evict\<close> (\<^verbatim>\<open>mem_cache/radix_cache.py\<close>, \<^verbatim>\<open>evict_policy.py\<close>): keys, the tree, matching,
    insertion, locks and eviction. Matching finds the longest stored prefix, insertion adds exactly the missing pages, eviction makes
    room without touching locked nodes, and all bookkeeping is exact in every reachable state.
  \<^item> \<open>Req_Pool\<close> (\<^verbatim>\<open>mem_cache/memory_pool.py\<close>, \<^verbatim>\<open>mem_cache/common.py\<close>): the table of token locations with 32-bit cells, and the kernel
    that fills it.
  \<^item> \<open>Cache_Memory\<close> (\<^verbatim>\<open>cache_finished_req\<close>, \<^verbatim>\<open>cache_unfinished_req\<close>, \<^verbatim>\<open>release_kv_cache\<close>): what happens to a request's pages when it
    finishes or is cached; the locale \<open>paged_kv\<close> is what is used of either allocator. Pages are owned, as multisets, by the tree and
    by the live requests.
  \<^item> \<open>Kv_Serving\<close>, \<open>Kv_Batch\<close> (\<^verbatim>\<open>mem_cache/common.py\<close>): eviction on demand and allocation for a prefill or a decode batch: it succeeds
    if the needed pages are free or evictable, and every row of the table then lists the request's slots in order.
  \<^item> \<open>Request_Intake\<close>, \<open>Schedule_Policy\<close>, \<open>Prefill_Adder\<close> (\<^verbatim>\<open>managers/scheduler.py\<close>, \<^verbatim>\<open>schedule_policy.py\<close>, \<^verbatim>\<open>schedule_batch.py\<close>): from a received
    request to the waiting queue, the order of the queue, and admission under the token budget. An admitted batch gets
    its memory.
  \<^item> \<open>Running_Batch\<close>, \<open>Serving\<close> (\<^verbatim>\<open>schedule_batch.py\<close>, \<^verbatim>\<open>scheduler.py\<close>, \<^verbatim>\<open>scheduler_components/\<close>): stop conditions, retraction, the decode
    step and the results of a batch. \<open>serving\<close> says that the live requests and the tree own exactly the pages and rows in use and hold
    exactly the locks; every operation keeps it.

  \<^bold>\<open>Conventions.\<close> Python integers are \<open>int\<close>, sizes \<open>nat\<close>, cells of the table 32-bit with wrap-around written out. Floating-point
  numbers are exact rationals or reals. Objects are records and methods return the changed object; aliasing
  matters only for the tensors cached by \<^verbatim>\<open>HeadClassConfig\<close>, for which the cache is part of the state. Clocks, \<^verbatim>\<open>random.shuffle\<close>,
  \<^verbatim>\<open>torch.save\<close>, FlashAttention, the detokeniser and grammars are parameters. A loop that may not end carries a
  bound whose exhaustion is the error \<open>Nontermination\<close>, and that it is never reached is proved; every other loop is
  structural recursion.

  \<^bold>\<open>Not modelled.\<close> Model execution and GPU arithmetic; the profiling of heads by running a model; sliding-window, state-space and
  hierarchical (host or disk) KV pools; speculative decoding beyond its memory estimate; disaggregated serving, LoRA, sessions,
  multimodal inputs, diffusion models, preemption by priority and mixed prefill; log probabilities, streaming, metrics and
  tracing: they read the state modelled here or replace it by other classes. The drivers of RedKnot (\<^verbatim>\<open>driver*.py\<close>, \<^verbatim>\<open>prefill.py\<close>,
  \<^verbatim>\<open>eval_harness.py\<close>, \<^verbatim>\<open>ops_flash*.py\<close>, \<^verbatim>\<open>deepseek_v4_mla.py\<close>, \<^verbatim>\<open>dsv4_*.py\<close>) run models and call kernels, and \<^verbatim>\<open>mask_plan.py\<close>, \<^verbatim>\<open>sparse_ffn.py\<close>,
  \<^verbatim>\<open>rope_helper.py\<close> and \<^verbatim>\<open>redknot/scheduler.py\<close> are tensor arithmetic and CUDA streams.
\<close>

end
